(* ===== verification/Prelude.thy ===== *)
theory Prelude
  imports Main "HOL-Library.Word" "HOL-Library.Monad_Syntax"
begin

section \<open>Conventions and shared lemmas\<close>

text \<open>
  The conventions of the whole development.

  \<^item> A C function that may stop the kernel is a function into \<open>'a option\<close>.
    \<open>None\<close> means that the call has no defined result: an \<open>ASSERT\<close>
    (src/pintos/src/lib/debug.h) failed, \<open>PANIC\<close> or \<open>NOT_REACHED\<close> was executed, an
    array was indexed outside its bounds, or a loop never ends. \<open>Some\<close> is a
    normal return. The error values that the C code itself returns (\<open>false\<close>, a null
    pointer, \<open>BITMAP_ERROR\<close>, \<open>-1\<close>) are ordinary values inside \<open>Some\<close>.
  \<^item> \<open>size_t\<close>, \<open>unsigned\<close>, \<open>uintptr_t\<close> and \<open>uint32_t\<close> of the 32-bit target are
    \<open>u32\<close>, bytes are \<open>u8\<close>; \<open>+\<close>, \<open>-\<close> and \<open>*\<close> wrap around as they do in C.
  \<^item> Assignments to memory become explicit state passing.
  \<^item> A C loop with an unsigned counter is \<^term>\<open>for_u32\<close> below; \<^term>\<open>foreach\<close> is its
    reading as an iteration over a list.
\<close>

subsection \<open>Machine types\<close>

type_synonym u8 = "8 word"
type_synonym u32 = "32 word"

named_theorems u32_simps \<open>reading u32 arithmetic as nat arithmetic\<close>

lemma unat_inject: "unat a = unat b \<Longrightarrow> a = b" for a b :: "'a::len word"
  by (simp add: word_unat_eq_iff)

lemma unat_u32_less: "unat x < 4294967296" for x :: u32
  using unsigned_less[of x, where ?'a = nat] by simp

subsection \<open>Assertions\<close>

definition ASSERT :: "bool \<Rightarrow> unit option" where
  "ASSERT b = (if b then Some () else None)"

lemma bind_ASSERT [simp]: "Option.bind (ASSERT b) f = (if b then f () else None)"
  by (simp add: ASSERT_def)

lemma ASSERT_Some [simp]: "ASSERT b = Some u \<longleftrightarrow> b"
  by (simp add: ASSERT_def)

lemma bind_cong_Some [fundef_cong]:
  "x = y \<Longrightarrow> (\<And>a. y = Some a \<Longrightarrow> f a = g a) \<Longrightarrow> Option.bind x f = Option.bind y g"
  by (cases y) simp_all

subsection \<open>Counting loops\<close>

text \<open>\<open>for (i = lo; i < hi; i++) body\<close> with an unsigned counter.\<close>

function for_u32 :: "u32 \<Rightarrow> u32 \<Rightarrow> (u32 \<Rightarrow> 's \<Rightarrow> 's option) \<Rightarrow> 's \<Rightarrow> 's option" where
  "for_u32 i hi body s =
     (if i < hi then do { s' \<leftarrow> body i s; for_u32 (i + 1) hi body s' } else Some s)"
  by pat_completeness auto

lemma unat_Suc_less: "i < n \<Longrightarrow> unat (i + 1) = Suc (unat i)" for i n :: "'a::len word"
proof -
  assume "i < n"
  then have "unat i < unat n" by (simp add: word_less_nat_alt)
  also have "unat n < 2 ^ LENGTH('a)" by (rule unsigned_less)
  finally have "unat i < unat n \<and> unat n < 2 ^ LENGTH('a)"
    using \<open>unat i < unat n\<close> by simp
  then have "unat i + 1 < 2 ^ LENGTH('a)" by linarith
  then show ?thesis by (simp add: unat_word_ariths(1))
qed

termination for_u32
  by (relation "measure (\<lambda>(i, hi, _, _). unat hi - unat i)")
     (auto simp: unat_Suc_less word_less_nat_alt)

declare for_u32.simps [simp del]

text \<open>The same loop as an iteration over the list of indices.\<close>

primrec foreach :: "('a \<Rightarrow> 's \<Rightarrow> 's option) \<Rightarrow> 'a list \<Rightarrow> 's \<Rightarrow> 's option" where
  "foreach f [] s = Some s"
| "foreach f (x # xs) s = do { s' \<leftarrow> f x s; foreach f xs s' }"

lemma foreach_append [simp]:
  "foreach f (xs @ ys) s = do { s' \<leftarrow> foreach f xs s; foreach f ys s' }"
  by (induction xs arbitrary: s) simp_all

lemma foreach_cong:
  "(\<And>x s. x \<in> set xs \<Longrightarrow> f x s = g x s) \<Longrightarrow> foreach f xs s = foreach g xs s"
  by (induction xs arbitrary: s) (simp_all cong: bind_cong_Some)

lemma for_u32_foreach:
  "for_u32 i hi body s = foreach (\<lambda>k. body (word_of_nat k)) [unat i ..< unat hi] s"
proof (induction i hi body s rule: for_u32.induct)
  case (1 i hi body s)
  show ?case
  proof (cases "i < hi")
    case True
    then have upt: "[unat i ..< unat hi] = unat i # [unat (i + 1) ..< unat hi]"
      by (simp add: unat_Suc_less upt_rec word_less_nat_alt)
    show ?thesis
      unfolding upt using True 1 by (subst for_u32.simps) (cases "body i s"; simp)
  next
    case False
    then show ?thesis by (subst for_u32.simps) (simp add: word_less_nat_alt)
  qed
qed

text \<open>Total correctness of an iteration: an invariant indexed by the position.\<close>

lemma foreach_invariant:
  assumes "I 0 s"
    and "\<And>k s. k < length xs \<Longrightarrow> I k s \<Longrightarrow> \<exists>s'. f (xs ! k) s = Some s' \<and> I (Suc k) s'"
  shows "\<exists>s'. foreach f xs s = Some s' \<and> I (length xs) s'"
  using assms
proof (induction xs arbitrary: I s)
  case Nil
  then show ?case by simp
next
  case (Cons x xs)
  from Cons.prems(2)[of 0 s] Cons.prems(1)
  obtain s1 where s1: "f x s = Some s1" "I (Suc 0) s1" by auto
  have "\<exists>s'. foreach f xs s1 = Some s' \<and> I (Suc (length xs)) s'"
    using Cons.prems(2)[of "Suc _"] by (intro Cons.IH[of "\<lambda>k. I (Suc k)"] s1(2)) auto
  with s1 show ?case by simp
qed

lemma foreach_fails:
  assumes "k < length xs" "J s"
    and "\<And>x s s'. f x s = Some s' \<Longrightarrow> J s \<Longrightarrow> J s'"
    and "\<And>s. J s \<Longrightarrow> f (xs ! k) s = None"
  shows "foreach f xs s = None"
  using assms
proof (induction xs arbitrary: k s)
  case Nil
  then show ?case by simp
next
  case (Cons x xs)
  show ?case
  proof (cases "f x s")
    case None
    then show ?thesis by simp
  next
    case (Some s1)
    with Cons.prems obtain j where j: "k = Suc j" by (cases k) auto
    have "foreach f xs s1 = None"
      using Cons.prems Some j by (intro Cons.IH[of j]) auto
    with Some show ?thesis by simp
  qed
qed

lemma for_u32_invariant:
  assumes "I 0 s"
    and "\<And>k s. k < unat n \<Longrightarrow> I k s \<Longrightarrow> \<exists>s'. body (word_of_nat k) s = Some s' \<and> I (Suc k) s'"
  shows "\<exists>s'. for_u32 0 n body s = Some s' \<and> I (unat n) s'"
  using foreach_invariant[of I s "[0 ..< unat n]" "\<lambda>k. body (word_of_nat k)"] assms
  by (simp add: for_u32_foreach)

text \<open>
  Searching loops: \<open>for (i = lo; i < hi; i++) if (p (i)) return i;\<close> and the same with
  \<open>i <= lst\<close>, where the counter may wrap around and the loop never end.
\<close>

function find_u32 :: "u32 \<Rightarrow> u32 \<Rightarrow> (u32 \<Rightarrow> bool option) \<Rightarrow> u32 option option" where
  "find_u32 i hi p =
     (if i < hi then do { v \<leftarrow> p i; if v then Some (Some i) else find_u32 (i + 1) hi p }
      else Some None)"
  by pat_completeness auto

termination find_u32
  by (relation "measure (\<lambda>(i, hi, _). unat hi - unat i)")
     (auto simp: unat_Suc_less word_less_nat_alt)

declare find_u32.simps [simp del]

partial_function (option) find_upto_u32 ::
    "u32 \<Rightarrow> u32 \<Rightarrow> (u32 \<Rightarrow> bool option) \<Rightarrow> u32 option option" where
  "find_upto_u32 i lst p =
     (if i \<le> lst then do { v \<leftarrow> p i; if v then Some (Some i) else find_upto_u32 (i + 1) lst p }
      else Some None)"

lemma upt_unat_Cons: "i < hi \<Longrightarrow> [unat i ..< unat hi] = unat i # [unat (i + 1) ..< unat hi]"
  for i hi :: u32
  by (simp add: unat_Suc_less upt_rec word_less_nat_alt)

lemma find_u32_find:
  assumes "\<And>k. unat i \<le> k \<Longrightarrow> k < unat hi \<Longrightarrow> p (word_of_nat k) = Some (P k)"
  shows "find_u32 i hi p = Some (map_option word_of_nat (List.find P [unat i ..< unat hi]))"
  using assms
proof (induction i hi p rule: find_u32.induct)
  case (1 i hi p)
  show ?case
  proof (cases "i < hi")
    case True
    with 1 show ?thesis
      by (subst find_u32.simps)
         (auto simp: upt_unat_Cons unat_Suc_less word_less_nat_alt 1(2)[of "unat i", simplified])
  next
    case False
    then show ?thesis by (subst find_u32.simps) (simp add: word_less_nat_alt)
  qed
qed

lemma find_upto_u32_less:
  "lst < hi \<Longrightarrow> hi = lst + 1 \<Longrightarrow> find_upto_u32 i lst p = find_u32 i hi p"
proof (induction i hi p rule: find_u32.induct)
  case (1 i hi p)
  have "i \<le> lst \<longleftrightarrow> i < hi"
    using unat_Suc_less[of lst hi] 1(2,3) by (simp add: word_less_nat_alt word_le_nat_alt less_Suc_eq_le)
  with 1 show ?case
    by (subst find_upto_u32.simps, subst find_u32.simps) (cases "p i"; simp)
qed

subsection \<open>Word arithmetic without wrap-around\<close>

lemma unat_add_of_nat:
  "unat i + k < 4294967296 \<Longrightarrow> unat (i + word_of_nat k) = unat i + k" for i :: u32
  by (simp add: unat_word_ariths(1) unat_of_nat)

lemma unat_add_less: "unat i + unat j < 4294967296 \<Longrightarrow> unat (i + j) = unat i + unat j"
  for i j :: u32
  by (simp add: unat_word_ariths(1))

lemma no_wrap_le:
  fixes start cnt n :: u32
  assumes "unat start + unat cnt \<le> unat n"
  shows "start \<le> n" and "start + cnt \<le> n"
  using assms unat_u32_less[of n]
  by (simp_all add: word_le_nat_alt unat_add_less) 

lemma ex_shift: "(\<exists>k<c. P (s + k)) \<longleftrightarrow> (\<exists>k. s \<le> k \<and> k < s + c \<and> P k)" for s c :: nat
proof
  assume "\<exists>k. s \<le> k \<and> k < s + c \<and> P k"
  then obtain k where "s \<le> k" "k < s + c" "P k" by blast
  then have "k - s < c \<and> P (s + (k - s))" by auto
  then show "\<exists>k<c. P (s + k)" by blast
next
  assume "\<exists>k<c. P (s + k)"
  then obtain k where "k < c" "P (s + k)" by blast
  then show "\<exists>k. s \<le> k \<and> k < s + c \<and> P k" by (intro exI[of _ "s + k"]) simp
qed

lemma add_wrap_le:
  "start \<le> n \<Longrightarrow> start + cnt \<le> n \<longleftrightarrow>
     unat start + unat cnt \<le> unat n
     \<or> (4294967296 \<le> unat start + unat cnt \<and> unat start + unat cnt - 4294967296 \<le> unat n)"
  for start cnt n :: u32
  using unat_u32_less[of n] by (auto simp: word_le_nat_alt unat_plus_if')

subsection \<open>Lists\<close>

definition range_update :: "nat \<Rightarrow> nat \<Rightarrow> 'a \<Rightarrow> 'a list \<Rightarrow> 'a list" where
  "range_update s c v xs = take s xs @ replicate (min c (length xs - s)) v @ drop (s + c) xs"

lemma length_range_update [simp]: "length (range_update s c v xs) = length xs"
  by (simp add: range_update_def)

lemma nth_range_update:
  "k < length xs \<Longrightarrow>
   range_update s c v xs ! k = (if s \<le> k \<and> k < s + c then v else xs ! k)"
  by (auto simp: range_update_def nth_append min_def)

lemma range_update_0 [simp]: "range_update s 0 v xs = xs"
  by (simp add: range_update_def)

lemma range_update_Suc:
  "range_update s (Suc c) v xs = (range_update s c v xs)[s + c := v]"
proof (cases "s + c < length xs")
  case True
  then show ?thesis
    by (intro nth_equalityI) (auto simp: nth_range_update nth_list_update)
next
  case False
  then show ?thesis
    by (intro nth_equalityI) (auto simp: nth_range_update list_update_beyond)
qed

lemma range_update_overwrite:
  "range_update s c v (range_update s c w xs) = range_update s c v xs"
  by (rule nth_equalityI) (auto simp: nth_range_update)

lemma range_update_same:
  "(\<And>k. s \<le> k \<Longrightarrow> k < s + c \<Longrightarrow> k < length xs \<Longrightarrow> xs ! k = v) \<Longrightarrow> range_update s c v xs = xs"
  by (rule nth_equalityI) (auto simp: nth_range_update)

lemma option_eqI: "(\<And>i. x = Some i \<longleftrightarrow> y = Some i) \<Longrightarrow> x = y"
  by (metis not_Some_eq)

lemma find_append: "List.find P (xs @ ys) =
    (case List.find P xs of Some x \<Rightarrow> Some x | None \<Rightarrow> List.find P ys)"
  by (induction xs) auto

lemma find_upt_Some_iff:
  "List.find P [s ..< n] = Some i \<longleftrightarrow>
     s \<le> i \<and> i < n \<and> P i \<and> (\<forall>j. s \<le> j \<and> j < i \<longrightarrow> \<not> P j)"
proof (induction n)
  case (Suc n)
  have none: "List.find P [s ..< n] = None \<longleftrightarrow> (\<forall>j. s \<le> j \<and> j < n \<longrightarrow> \<not> P j)"
    by (auto simp: find_None_iff)
  show ?case
    by (cases "s \<le> n"; cases "List.find P [s ..< n]")
       (use Suc none in \<open>auto simp: find_append less_Suc_eq\<close>)
qed simp

subsection \<open>Buffers\<close>

text \<open>Reading and overwriting a part of a byte buffer, as \<open>memcpy\<close> does inside its bounds.\<close>

definition buf_get :: "nat \<Rightarrow> nat \<Rightarrow> 'a list \<Rightarrow> 'a list" where
  "buf_get ofs n mem = take n (drop ofs mem)"

definition buf_put :: "nat \<Rightarrow> 'a list \<Rightarrow> 'a list \<Rightarrow> 'a list" where
  "buf_put ofs data mem = take ofs mem @ data @ drop (ofs + length data) mem"

lemma length_buf_get: "ofs + n \<le> length mem \<Longrightarrow> length (buf_get ofs n mem) = n"
  by (simp add: buf_get_def)

lemma nth_buf_get:
  "ofs + n \<le> length mem \<Longrightarrow> k < n \<Longrightarrow> buf_get ofs n mem ! k = mem ! (ofs + k)"
  by (simp add: buf_get_def)

lemma length_buf_put: "ofs + length data \<le> length mem \<Longrightarrow> length (buf_put ofs data mem) = length mem"
  by (simp add: buf_put_def)

lemma nth_buf_put:
  "ofs + length data \<le> length mem \<Longrightarrow> k < length mem \<Longrightarrow>
   buf_put ofs data mem ! k =
     (if ofs \<le> k \<and> k < ofs + length data then data ! (k - ofs) else mem ! k)"
  by (auto simp: buf_put_def nth_append)

lemma buf_get_put_same:
  "ofs + length data \<le> length mem \<Longrightarrow> buf_get ofs (length data) (buf_put ofs data mem) = data"
  by (simp add: buf_get_def buf_put_def)

lemma buf_put_append: "buf_put ofs (xs @ ys) mem = buf_put (ofs + length xs) ys (buf_put ofs xs mem)"
  if "ofs + length xs + length ys \<le> length mem"
  using that by (intro nth_equalityI) (auto simp: length_buf_put nth_buf_put nth_append)

lemma buf_put_Nil [simp]: "buf_put ofs [] mem = mem"
  by (simp add: buf_put_def)

lemma buf_put_all: "length data = length mem \<Longrightarrow> buf_put 0 data mem = data"
  by (simp add: buf_put_def)

subsection \<open>Little-endian integers\<close>

unbundle bit_operations_syntax

text \<open>A \<open>uint32_t\<close> as the four bytes it occupies in memory and on disk, and back.\<close>

definition u32_bytes :: "u32 \<Rightarrow> u8 list" where
  "u32_bytes x = [ucast x, ucast (drop_bit 8 x), ucast (drop_bit 16 x), ucast (drop_bit 24 x)]"

definition u32_of_bytes :: "u8 list \<Rightarrow> u32" where
  "u32_of_bytes bs = ucast (bs ! 0) OR push_bit 8 (ucast (bs ! 1)) OR
     push_bit 16 (ucast (bs ! 2)) OR push_bit 24 (ucast (bs ! 3))"

lemma length_u32_bytes [simp]: "length (u32_bytes x) = 4"
  by (simp add: u32_bytes_def)

lemma u32_of_bytes_u32_bytes [simp]: "u32_of_bytes (u32_bytes x @ bs) = x"
proof -
  have "ucast (ucast x :: u8) OR push_bit 8 (ucast (ucast (drop_bit 8 x) :: u8)) OR
      push_bit 16 (ucast (ucast (drop_bit 16 x) :: u8)) OR push_bit 24 (ucast (ucast (drop_bit 24 x) :: u8)) = x"
    (is "?l = x")
  proof (rule bit_word_eqI)
    fix n assume n: "n < LENGTH(32)"
    consider "n < 8" | "8 \<le> n" "n < 16" | "16 \<le> n" "n < 24" | "24 \<le> n" "n < 32" using n by fastforce
    then show "bit ?l n = bit x n"
      by cases (auto simp: bit_simps)
  qed
  then show ?thesis by (simp add: u32_of_bytes_def u32_bytes_def)
qed

subsection \<open>Signed integers\<close>

text \<open>The result of an \<open>int32_t\<close> operation: overflow is undefined.\<close>

definition i32 :: "int \<Rightarrow> int option" where
  "i32 x = (if - 2147483648 \<le> x \<and> x < 2147483648 then Some x else None)"

lemma i32_Some [simp]: "- 2147483648 \<le> x \<Longrightarrow> x < 2147483648 \<Longrightarrow> i32 x = Some x"
  by (simp add: i32_def)

lemma sint_small: "unat x < 2147483648 \<Longrightarrow> sint x = int (unat x)" for x :: u32
proof -
  assume "unat x < 2147483648"
  then have "int (unat x) < 2147483648" by linarith
  then have "uint x < 2147483648" unfolding uint_nat .
  moreover have "- 2147483648 \<le> uint x" using uint_ge_0[of x] by linarith
  ultimately show ?thesis unfolding sint_uint using signed_take_bit_int_eq_self[of 31 "uint x"] by simp
qed

end
