(* ===== verification/Vaddr.thy ===== *)
theory Vaddr
  imports Prelude
begin

section \<open>Virtual addresses and page table entries\<close>

text \<open>
  Models src/pintos/src/threads/vaddr.h and src/pintos/src/threads/pte.h at the width
  of the machine: addresses and entries are 32-bit words, and a failed \<open>ASSERT\<close> is
  \<open>None\<close>. The lemmas give the reading of each macro as \<open>div\<close>/\<open>mod\<close> arithmetic, the
  decomposition of an address into directory index, table index and offset, and the
  round trips between pages and their entries.
\<close>

unbundle bit_operations_syntax

subsection \<open>vaddr.h\<close>

definition BITMASK :: "nat \<Rightarrow> nat \<Rightarrow> u32" where
  "BITMASK shift cnt = push_bit shift (push_bit cnt 1 - 1)"

definition PGBITS :: nat where "PGBITS = 12"
definition PGSIZE :: u32 where "PGSIZE = push_bit PGBITS 1"
definition PGMASK :: u32 where "PGMASK = BITMASK 0 PGBITS"
definition PHYS_BASE :: u32 where "PHYS_BASE = 0xc0000000"

definition pg_ofs :: "u32 \<Rightarrow> u32" where
  "pg_ofs va = va AND PGMASK"

definition pg_no :: "u32 \<Rightarrow> u32" where
  "pg_no va = drop_bit PGBITS va"

definition pg_round_up :: "u32 \<Rightarrow> u32" where
  "pg_round_up va = (va + PGSIZE - 1) AND NOT PGMASK"

definition pg_round_down :: "u32 \<Rightarrow> u32" where
  "pg_round_down va = va AND NOT PGMASK"

definition is_user_vaddr :: "u32 \<Rightarrow> bool" where
  "is_user_vaddr vaddr \<longleftrightarrow> vaddr < PHYS_BASE"

definition is_kernel_vaddr :: "u32 \<Rightarrow> bool" where
  "is_kernel_vaddr vaddr \<longleftrightarrow> vaddr \<ge> PHYS_BASE"

definition ptov :: "u32 \<Rightarrow> u32 option" where
  "ptov paddr = do { ASSERT (paddr < PHYS_BASE); Some (paddr + PHYS_BASE) }"

definition vtop :: "u32 \<Rightarrow> u32 option" where
  "vtop vaddr = do { ASSERT (is_kernel_vaddr vaddr); Some (vaddr - PHYS_BASE) }"

subsection \<open>pte.h\<close>

definition PTSHIFT :: nat where "PTSHIFT = PGBITS"
definition PTBITS :: nat where "PTBITS = 10"
definition PTMASK :: u32 where "PTMASK = BITMASK PTSHIFT PTBITS"
definition PDSHIFT :: nat where "PDSHIFT = PTSHIFT + PTBITS"

definition pt_no :: "u32 \<Rightarrow> u32" where
  "pt_no va = drop_bit PTSHIFT (va AND PTMASK)"

definition pd_no :: "u32 \<Rightarrow> u32" where
  "pd_no va = drop_bit PDSHIFT va"

definition PTE_ADDR :: u32 where "PTE_ADDR = 0xfffff000"
definition PTE_P :: u32 where "PTE_P = 0x1"
definition PTE_W :: u32 where "PTE_W = 0x2"
definition PTE_U :: u32 where "PTE_U = 0x4"
definition PTE_A :: u32 where "PTE_A = 0x20"
definition PTE_D :: u32 where "PTE_D = 0x40"

definition pde_create :: "u32 \<Rightarrow> u32 option" where
  "pde_create pt =
     do { ASSERT (pg_ofs pt = 0); p \<leftarrow> vtop pt; Some (p OR PTE_U OR PTE_P OR PTE_W) }"

definition pde_get_pt :: "u32 \<Rightarrow> u32 option" where
  "pde_get_pt pde = do { ASSERT (pde AND PTE_P \<noteq> 0); ptov (pde AND PTE_ADDR) }"

definition pte_create_kernel :: "u32 \<Rightarrow> bool \<Rightarrow> u32 option" where
  "pte_create_kernel page writable =
     do { ASSERT (pg_ofs page = 0); p \<leftarrow> vtop page;
          Some (p OR PTE_P OR (if writable then PTE_W else 0)) }"

definition pte_create_user :: "u32 \<Rightarrow> bool \<Rightarrow> u32 option" where
  "pte_create_user page writable =
     do { e \<leftarrow> pte_create_kernel page writable; Some (e OR PTE_U) }"

definition pte_get_page :: "u32 \<Rightarrow> u32 option" where
  "pte_get_page pte = ptov (pte AND PTE_ADDR)"

subsection \<open>The masks as numbers\<close>

lemma PGSIZE_eq: "PGSIZE = 4096"
  by (simp add: PGSIZE_def PGBITS_def push_bit_eq_mult)

lemma PGMASK_eq: "PGMASK = mask 12"
  by (simp add: PGMASK_def BITMASK_def PGBITS_def push_bit_eq_mult mask_eq_exp_minus_1)

lemma PTMASK_eq: "PTMASK = push_bit 12 (mask 10)"
  by (simp add: PTMASK_def BITMASK_def PTSHIFT_def PTBITS_def PGBITS_def push_bit_eq_mult
      mask_eq_exp_minus_1)

lemma PTE_ADDR_eq: "PTE_ADDR = NOT (mask 12)"
  by (simp add: PTE_ADDR_def mask_eq_exp_minus_1)

lemmas vaddr_consts = PGSIZE_eq PGMASK_eq PTMASK_eq PTE_ADDR_eq PTSHIFT_def PDSHIFT_def
  PTBITS_def PGBITS_def

lemma unat_PGSIZE [u32_simps]: "unat PGSIZE = 4096"
  by (simp add: PGSIZE_eq)

lemma unat_pg_ofs [u32_simps]: "unat (pg_ofs va) = unat va mod 4096"
  by (simp add: pg_ofs_def PGMASK_eq take_bit_eq_mod unat_mod flip: take_bit_eq_mask)

lemma unat_pg_no [u32_simps]: "unat (pg_no va) = unat va div 4096"
  by (simp add: pg_no_def PGBITS_def drop_bit_eq_div unat_div)

lemma pg_ofs_eq_take_bit: "pg_ofs va = take_bit 12 va"
  by (simp add: pg_ofs_def PGMASK_eq take_bit_eq_mask)

lemma pg_ofs_eq_0_iff: "pg_ofs va = 0 \<longleftrightarrow> unat va mod 4096 = 0"
  by (simp add: unat_pg_ofs flip: unat_eq_0)

lemma pg_round_down_plus_ofs: "pg_round_down va + pg_ofs va = va"
  unfolding pg_round_down_def pg_ofs_def
  by (subst disjunctive_add_eq_or) (auto intro!: bit_eqI simp: bit_simps)

lemma pg_ofs_pg_round_down [simp]: "pg_ofs (pg_round_down va) = 0"
  unfolding pg_round_down_def pg_ofs_def by (auto intro!: bit_eqI simp: bit_simps)

lemma unat_pg_round_down [u32_simps]: "unat (pg_round_down va) = unat va div 4096 * 4096"
proof -
  have "pg_round_down va = va - pg_ofs va"
    using pg_round_down_plus_ofs[of va] by (simp add: eq_diff_eq)
  moreover have "pg_ofs va \<le> va"
    by (simp add: word_le_nat_alt unat_pg_ofs)
  ultimately show ?thesis
    by (simp add: unat_sub unat_pg_ofs minus_mod_eq_div_mult)
qed

lemma pg_round_down_le: "pg_round_down va \<le> va"
  by (simp add: word_le_nat_alt unat_pg_round_down)

lemma pg_round_down_idem [simp]: "pg_ofs va = 0 \<Longrightarrow> pg_round_down va = va"
  using pg_round_down_plus_ofs[of va] by simp

lemma unat_pd_no [u32_simps]: "unat (pd_no va) = unat va div 2 ^ 22"
  by (simp add: pd_no_def vaddr_consts drop_bit_eq_div unat_div)

lemma pt_no_eq: "pt_no va = take_bit 10 (drop_bit 12 va)"
  unfolding pt_no_def vaddr_consts by (auto intro!: bit_eqI simp: bit_simps)

lemma unat_pt_no [u32_simps]: "unat (pt_no va) = unat va div 4096 mod 1024"
  by (simp add: pt_no_eq drop_bit_eq_div take_bit_eq_mod unat_div unat_mod)

lemma pt_no_less: "unat (pt_no va) < 1024"
  by (simp add: unat_pt_no)

lemma pd_no_less: "unat (pd_no va) < 1024"
  using unat_u32_less[of va] by (simp add: unat_pd_no)

lemma pd_no_user: "is_user_vaddr va \<Longrightarrow> unat (pd_no va) < 768"
  by (simp add: unat_pd_no is_user_vaddr_def PHYS_BASE_def word_less_nat_alt)

lemma pg_no_split: "unat (pg_no va) = 1024 * unat (pd_no va) + unat (pt_no va)"
proof -
  have "unat va div 4194304 = unat va div 4096 div 1024"
    by (simp add: div_mult2_eq[symmetric])
  then show ?thesis by (simp add: u32_simps)
qed

subsection \<open>Addresses\<close>

lemma vaddr_eqI:
  assumes "pd_no a = pd_no b" "pt_no a = pt_no b" "pg_ofs a = pg_ofs b"
  shows "a = b"
proof -
  have "unat (pg_no a) = unat (pg_no b)"
    using assms by (simp add: pg_no_split)
  then have "unat a div 4096 = unat b div 4096" by (simp add: unat_pg_no)
  moreover have "unat a mod 4096 = unat b mod 4096"
    using assms(3) by (metis unat_pg_ofs)
  ultimately have "unat a = unat b" by (metis mult_div_mod_eq)
  then show ?thesis by (rule unat_inject)
qed

lemma page_eqI:
  "pg_ofs a = 0 \<Longrightarrow> pg_ofs b = 0 \<Longrightarrow> pd_no a = pd_no b \<Longrightarrow> pt_no a = pt_no b \<Longrightarrow> a = b"
  by (rule vaddr_eqI) simp_all

lemma ptov_Some:
  "paddr < 0x40000000 \<Longrightarrow> ptov paddr = Some (paddr + PHYS_BASE)"
  by (simp add: ptov_def PHYS_BASE_def word_less_nat_alt)

lemma is_kernel_vaddr_ptov: "paddr < 0x40000000 \<Longrightarrow> is_kernel_vaddr (paddr + PHYS_BASE)"
  by (simp add: is_kernel_vaddr_def PHYS_BASE_def word_le_nat_alt word_less_nat_alt
      unat_plus_if')

lemma kernel_vaddr_minus: "is_kernel_vaddr va \<Longrightarrow> va - PHYS_BASE < 0x40000000"
  using unat_u32_less[of va]
  by (simp add: is_kernel_vaddr_def PHYS_BASE_def word_le_nat_alt word_less_nat_alt
      unat_sub_if')

lemma vtop_Some: "is_kernel_vaddr va \<Longrightarrow> vtop va = Some (va - PHYS_BASE)"
  by (simp add: vtop_def)

lemma ptov_vtop: "is_kernel_vaddr va \<Longrightarrow> do { p \<leftarrow> vtop va; ptov p } = Some va"
  by (simp add: vtop_Some ptov_Some kernel_vaddr_minus)

lemma vtop_ptov: "paddr < 0x40000000 \<Longrightarrow> do { v \<leftarrow> ptov paddr; vtop v } = Some paddr"
  by (simp add: ptov_Some vtop_Some is_kernel_vaddr_ptov)

subsection \<open>Entries\<close>

text \<open>An entry is a page-aligned physical address with flags in its low twelve bits.\<close>

lemma low_bits_cleared: "take_bit 12 p = 0 \<Longrightarrow> n < 12 \<Longrightarrow> \<not> bit p n" for p :: u32
  by (metis bit_take_bit_iff bit_0_eq bot_apply bot_bool_def)

lemma flags_outside: "take_bit 12 f = f \<Longrightarrow> 12 \<le> n \<Longrightarrow> \<not> bit f n" for f :: u32
  by (metis bit_take_bit_iff leD)

lemma entry_address:
  fixes p f :: u32
  assumes "take_bit 12 p = 0" "take_bit 12 f = f"
  shows "(p OR f) AND PTE_ADDR = p"
  unfolding PTE_ADDR_eq
  using low_bits_cleared[OF assms(1)] flags_outside[OF assms(2)]
  by (intro bit_eqI) (auto simp: bit_simps not_less intro: leI)

lemma entry_flags:
  fixes p f g :: u32
  assumes "take_bit 12 p = 0" "take_bit 12 g = g"
  shows "(p OR f) AND g = f AND g"
  by (rule bit_eqI)
     (metis assms bit_and_iff bit_or_iff flags_outside low_bits_cleared not_less)

lemma kernel_page_low_bits:
  assumes "is_kernel_vaddr page" "pg_ofs page = 0"
  shows "take_bit 12 (page - PHYS_BASE) = 0"
proof -
  have "4096 dvd unat page - 3221225472"
    using assms(2) by (intro dvd_diff_nat) (simp_all add: pg_ofs_eq_0_iff mod_eq_0_iff_dvd)
  moreover have "unat (page - PHYS_BASE) = unat page - 3221225472"
    using assms(1)
    by (simp add: is_kernel_vaddr_def PHYS_BASE_def word_le_nat_alt unat_sub_if')
  ultimately have "pg_ofs (page - PHYS_BASE) = 0"
    by (simp add: pg_ofs_eq_0_iff)
  then show ?thesis by (simp add: pg_ofs_eq_take_bit)
qed

lemmas pte_flag_defs = PTE_P_def PTE_W_def PTE_U_def PTE_A_def PTE_D_def

lemma pte_create_user_Some:
  assumes "is_kernel_vaddr page" "pg_ofs page = 0"
  shows "pte_create_user page w
    = Some ((page - PHYS_BASE) OR (PTE_P OR (if w then PTE_W else 0) OR PTE_U))"
  using assms
  by (simp add: pte_create_user_def pte_create_kernel_def vtop_Some or.assoc)

lemma pde_create_Some:
  assumes "is_kernel_vaddr pt" "pg_ofs pt = 0"
  shows "pde_create pt = Some ((pt - PHYS_BASE) OR (PTE_U OR PTE_P OR PTE_W))"
  using assms by (simp add: pde_create_def vtop_Some or.assoc)

lemma pde_get_pt_create:
  assumes "is_kernel_vaddr pt" "pg_ofs pt = 0"
  shows "do { e \<leftarrow> pde_create pt; pde_get_pt e } = Some pt"
  using assms kernel_page_low_bits[OF assms]
  by (simp add: pde_create_Some pde_get_pt_def entry_address entry_flags pte_flag_defs
      ptov_Some kernel_vaddr_minus)

end
