(* ===== verification/Block.thy ===== *)
theory Block
  imports Prelude
begin

section \<open>Block devices\<close>

text \<open>
  Models src/pintos/src/devices/block.c. A block device is its descriptor together with
  the medium its driver reads and writes: the sectors of the disk, 512 bytes each. The
  port I/O of the IDE driver is not modelled; a driver read returns the bytes of the
  sector and a driver write replaces them, which is what the hardware promises. The
  checks and the counters of block.c are modelled as they are.

  The locale \<open>sector_store\<close> is the interface the swap table and the file system use.
\<close>

definition BLOCK_SECTOR_SIZE :: nat where "BLOCK_SECTOR_SIZE = 512"

datatype block_type = BLOCK_KERNEL | BLOCK_FILESYS | BLOCK_SCRATCH | BLOCK_SWAP
  | BLOCK_RAW | BLOCK_FOREIGN

definition is_role :: "block_type \<Rightarrow> bool" where
  "is_role t \<longleftrightarrow> t \<noteq> BLOCK_RAW \<and> t \<noteq> BLOCK_FOREIGN"

record block =
  blk_name :: string
  blk_type :: block_type
  blk_size :: u32
  medium :: "u32 \<Rightarrow> u8 list"
  read_cnt :: "64 word"
  write_cnt :: "64 word"

definition block_type_name :: "block_type \<Rightarrow> string" where
  "block_type_name t = (case t of BLOCK_KERNEL \<Rightarrow> ''kernel'' | BLOCK_FILESYS \<Rightarrow> ''filesys''
     | BLOCK_SCRATCH \<Rightarrow> ''scratch'' | BLOCK_SWAP \<Rightarrow> ''swap'' | BLOCK_RAW \<Rightarrow> ''raw''
     | BLOCK_FOREIGN \<Rightarrow> ''foreign'')"

definition block_size :: "block \<Rightarrow> u32" where
  "block_size b = blk_size b"

definition check_sector :: "block \<Rightarrow> u32 \<Rightarrow> unit option" where
  "check_sector b sector = (if sector \<ge> blk_size b then None else Some ())"

definition block_read :: "block \<Rightarrow> u32 \<Rightarrow> (u8 list \<times> block) option" where
  "block_read b sector =
     do { check_sector b sector;
          Some (medium b sector, b\<lparr>read_cnt := read_cnt b + 1\<rparr>) }"

definition block_write :: "block \<Rightarrow> u32 \<Rightarrow> u8 list \<Rightarrow> block option" where
  "block_write b sector buffer =
     do { check_sector b sector;
          ASSERT (blk_type b \<noteq> BLOCK_FOREIGN);
          ASSERT (length buffer = BLOCK_SECTOR_SIZE);
          Some (b\<lparr>medium := (medium b)(sector := buffer), write_cnt := write_cnt b + 1\<rparr>) }"

subsection \<open>The registry\<close>

text \<open>
  \<open>all_blocks\<close> in probe order; a pointer to a block is its position in that list. The name
  field holds 16 bytes, of which \<open>strlcpy\<close> uses 15.
\<close>

record registry =
  all_blocks :: "block list"
  block_by_role :: "block_type \<Rightarrow> nat option"

definition block_get_role :: "registry \<Rightarrow> block_type \<Rightarrow> nat option option" where
  "block_get_role r role = do { ASSERT (is_role role); Some (block_by_role r role) }"

definition block_set_role :: "registry \<Rightarrow> block_type \<Rightarrow> nat option \<Rightarrow> registry option" where
  "block_set_role r role blk =
     do { ASSERT (is_role role); Some (r\<lparr>block_by_role := (block_by_role r)(role := blk)\<rparr>) }"

definition block_first :: "registry \<Rightarrow> nat option" where
  "block_first r = (if all_blocks r = [] then None else Some 0)"

definition block_next :: "registry \<Rightarrow> nat \<Rightarrow> nat option" where
  "block_next r i = (if Suc i < length (all_blocks r) then Some (Suc i) else None)"

definition block_get_by_name :: "registry \<Rightarrow> string \<Rightarrow> nat option" where
  "block_get_by_name r name =
     List.find (\<lambda>i. name = blk_name (all_blocks r ! i)) [0 ..< length (all_blocks r)]"

definition block_register ::
    "registry \<Rightarrow> bool \<Rightarrow> string \<Rightarrow> block_type \<Rightarrow> u32 \<Rightarrow> (u32 \<Rightarrow> u8 list) \<Rightarrow> (nat \<times> registry) option" where
  "block_register r allocated name type sz disk =
     do { ASSERT allocated;
          Some (length (all_blocks r),
                r\<lparr>all_blocks := all_blocks r @ [\<lparr>blk_name = take 15 name, blk_type = type,
                     blk_size = sz, medium = disk, read_cnt = 0, write_cnt = 0\<rparr>]\<rparr>) }"

subsection \<open>The interface of a device\<close>

locale sector_store =
  fixes invar :: "'d \<Rightarrow> bool"
    and sectors :: "'d \<Rightarrow> u32"
    and content :: "'d \<Rightarrow> u32 \<Rightarrow> u8 list"
    and rd :: "'d \<Rightarrow> u32 \<Rightarrow> (u8 list \<times> 'd) option"
    and wr :: "'d \<Rightarrow> u32 \<Rightarrow> u8 list \<Rightarrow> 'd option"
  assumes content_length: "invar d \<Longrightarrow> length (content d i) = 512"
    and rd_in: "invar d \<Longrightarrow> i < sectors d \<Longrightarrow>
      \<exists>d'. rd d i = Some (content d i, d') \<and> invar d' \<and> sectors d' = sectors d
        \<and> content d' = content d"
    and wr_in: "invar d \<Longrightarrow> i < sectors d \<Longrightarrow> length x = 512 \<Longrightarrow>
      \<exists>d'. wr d i x = Some d' \<and> invar d' \<and> sectors d' = sectors d
        \<and> content d' = (content d)(i := x)"
    and rd_out: "\<not> i < sectors d \<Longrightarrow> rd d i = None"
    and wr_out: "\<not> i < sectors d \<Longrightarrow> wr d i x = None"
begin

text \<open>What was written is read back, and no other sector changes.\<close>

lemma rd_wr:
  assumes "invar d" "i < sectors d" "j < sectors d" "length x = 512" "wr d i x = Some d'"
  shows "\<exists>d''. rd d' j = Some (if j = i then x else content d j, d'')"
  using wr_in[OF assms(1,2,4)] rd_in[of d' j] assms(3,5) by auto

text \<open>Writing consecutive sectors in a loop.\<close>

lemma write_run:
  assumes d: "invar d" and n: "unat base + unat n \<le> unat (sectors d)"
    and x: "\<And>k. k < unat n \<Longrightarrow> length (x k) = 512"
  shows "\<exists>d'. for_u32 0 n (\<lambda>k d. wr d (base + k) (x (unat k))) d = Some d'
    \<and> invar d' \<and> sectors d' = sectors d
    \<and> (\<forall>i. content d' i = (if unat base \<le> unat i \<and> unat i < unat base + unat n
                            then x (unat i - unat base) else content d i))"
proof -
  let ?I = "\<lambda>k d'. invar d' \<and> sectors d' = sectors d
    \<and> (\<forall>i. content d' i = (if unat base \<le> unat i \<and> unat i < unat base + k
                            then x (unat i - unat base) else content d i))"
  have "\<exists>d'. for_u32 0 n (\<lambda>k d. wr d (base + k) (x (unat k))) d = Some d' \<and> ?I (unat n) d'"
  proof (rule for_u32_invariant[where I = ?I])
    show "?I 0 d" using d by auto
  next
    fix k d1 assume k: "k < unat n" and I: "?I k d1"
    have kb: "k < 4294967296" using k unat_u32_less[of n] by simp
    have ub: "unat (base + word_of_nat k) = unat base + k" and lt: "base + word_of_nat k < sectors d1"
      using k n I unat_u32_less[of "sectors d"]
      by (simp_all add: unat_add_of_nat word_less_nat_alt)
    obtain d2 where d2: "wr d1 (base + word_of_nat k) (x k) = Some d2" "invar d2"
      "sectors d2 = sectors d" "content d2 = (content d1)(base + word_of_nat k := x k)"
      using wr_in[OF _ lt x[OF k]] I by auto
    have "content d2 i = (if unat base \<le> unat i \<and> unat i < unat base + Suc k
                            then x (unat i - unat base) else content d i)" for i
    proof (cases "i = base + word_of_nat k")
      case True
      then show ?thesis using d2(4) ub by simp
    next
      case False
      then have "unat i \<noteq> unat base + k" using ub by (metis unat_inject)
      then show ?thesis using False I d2(4) by (auto simp: less_Suc_eq)
    qed
    with d2 kb show "\<exists>d2. wr d1 (base + word_of_nat k) (x (unat (word_of_nat k :: u32))) = Some d2
        \<and> ?I (Suc k) d2"
      by (auto simp: unat_of_nat)
  qed
  then show ?thesis .
qed

text \<open>Reading consecutive sectors in a loop into a buffer.\<close>

lemma read_run:
  assumes d: "invar d" and n: "unat base + unat n \<le> unat (sectors d)"
    and buf: "length buf = 512 * unat n"
  shows "\<exists>d'. for_u32 0 n (\<lambda>k (buf, d). do { (x, d) \<leftarrow> rd d (base + k);
                                            Some (buf_put (unat k * 512) x buf, d) }) (buf, d)
      = Some (concat (map (\<lambda>k. content d (base + word_of_nat k)) [0 ..< unat n]), d')
    \<and> invar d' \<and> sectors d' = sectors d \<and> content d' = content d"
proof -
  let ?data = "\<lambda>k. concat (map (\<lambda>k. content d (base + word_of_nat k)) [0 ..< k])"
  let ?I = "\<lambda>k (b, d'). b = buf_put 0 (?data k) buf \<and> invar d' \<and> sectors d' = sectors d
    \<and> content d' = content d"
  let ?body = "\<lambda>k (buf, d). do { (x, d) \<leftarrow> rd d (base + k);
                                Some (buf_put (unat k * 512) x buf, d) }"
  have len: "length (?data k) = 512 * k" for k
    using content_length[OF d] by (induction k) simp_all
  have "\<exists>s. for_u32 0 n ?body (buf, d) = Some s \<and> ?I (unat n) s"
  proof (rule for_u32_invariant[where I = ?I])
    show "?I 0 (buf, d)" using d by simp
  next
    fix k s assume k: "k < unat n" and I: "?I k s"
    obtain b d1 where s: "s = (b, d1)" by fastforce
    have ub: "unat (word_of_nat k :: u32) = k" and lt: "base + word_of_nat k < sectors d1"
      using k n I s unat_u32_less[of n] unat_u32_less[of "sectors d"]
      by (simp_all add: unat_of_nat unat_add_of_nat word_less_nat_alt)
    obtain d2 where d2: "rd d1 (base + word_of_nat k) = Some (content d (base + word_of_nat k), d2)"
      "invar d2" "sectors d2 = sectors d" "content d2 = content d"
      using rd_in[OF _ lt] I s by auto
    have "buf_put (k * 512) (content d (base + word_of_nat k)) (buf_put 0 (?data k) buf)
      = buf_put 0 (?data (Suc k)) buf"
      using k buf content_length[OF d] len[of k]
        buf_put_append[of 0 "?data k" "content d (base + word_of_nat k)" buf]
      by (simp add: mult.commute)
    with d2 I s ub show "\<exists>s'. ?body (word_of_nat k) s = Some s' \<and> ?I (Suc k) s'"
      by auto
  qed
  then show ?thesis
    using len[of "unat n"] buf by (auto simp: buf_put_all)
qed

end

definition block_wf :: "block \<Rightarrow> bool" where
  "block_wf b \<longleftrightarrow> (\<forall>i. length (medium b i) = BLOCK_SECTOR_SIZE) \<and> blk_type b \<noteq> BLOCK_FOREIGN"

interpretation blk: sector_store block_wf blk_size medium block_read block_write
  by unfold_locales
     (auto simp: block_wf_def block_read_def block_write_def check_sector_def
        BLOCK_SECTOR_SIZE_def not_less)

end
