(* ===== verification/Bitmap.thy ===== *)
theory Bitmap
  imports Prelude
begin

section \<open>Bitmaps\<close>

text \<open>
  Models src/pintos/src/lib/kernel/bitmap.c. A bitmap is the C struct: a bit count and an
  array of 32-bit elements. Operations work on the elements with masks as the C code
  does; \<^term>\<open>bits_of\<close> below reads a bitmap as a list of booleans, and the lemmas show that each
  operation is the corresponding operation on that list, with every \<open>ASSERT\<close> and every
  access outside the element array as \<open>None\<close>.
\<close>

unbundle bit_operations_syntax

subsection \<open>The data structure\<close>

definition ELEM_BITS :: u32 where "ELEM_BITS = 32"
definition BITMAP_ERROR :: u32 where "BITMAP_ERROR = 0xffffffff"

record bitmap =
  bit_cnt :: u32
  bits :: "u32 list"

definition elem_idx :: "u32 \<Rightarrow> u32" where
  "elem_idx bit_idx = bit_idx div ELEM_BITS"

definition bit_mask :: "u32 \<Rightarrow> u32" where
  "bit_mask bit_idx = push_bit (unat (bit_idx mod ELEM_BITS)) 1"

definition elem_cnt :: "u32 \<Rightarrow> u32" where
  "elem_cnt n = (n + ELEM_BITS - 1) div ELEM_BITS"

definition byte_cnt :: "u32 \<Rightarrow> u32" where
  "byte_cnt n = 4 * elem_cnt n"

definition last_mask :: "bitmap \<Rightarrow> u32" where
  "last_mask b =
     (let last_bits = bit_cnt b mod ELEM_BITS
      in if last_bits \<noteq> 0 then push_bit (unat last_bits) 1 - 1 else - 1)"

text \<open>Element access, undefined outside the array.\<close>

definition bits_read :: "bitmap \<Rightarrow> u32 \<Rightarrow> u32 option" where
  "bits_read b idx =
     (if unat idx < length (bits b) then Some (bits b ! unat idx) else None)"

definition bits_modify :: "bitmap \<Rightarrow> u32 \<Rightarrow> (u32 \<Rightarrow> u32) \<Rightarrow> bitmap option" where
  "bits_modify b idx f =
     do { e \<leftarrow> bits_read b idx; Some (b\<lparr>bits := (bits b)[unat idx := f e]\<rparr>) }"

definition bitmap_size :: "bitmap \<Rightarrow> u32" where
  "bitmap_size b = bit_cnt b"

definition bitmap_buf_size :: "u32 \<Rightarrow> u32" where
  "bitmap_buf_size n = 8 + byte_cnt n"

subsection \<open>Single bits\<close>

definition bitmap_mark :: "bitmap \<Rightarrow> u32 \<Rightarrow> bitmap option" where
  "bitmap_mark b bit_idx = bits_modify b (elem_idx bit_idx) (\<lambda>e. e OR bit_mask bit_idx)"

definition bitmap_reset :: "bitmap \<Rightarrow> u32 \<Rightarrow> bitmap option" where
  "bitmap_reset b bit_idx = bits_modify b (elem_idx bit_idx) (\<lambda>e. e AND NOT (bit_mask bit_idx))"

definition bitmap_flip :: "bitmap \<Rightarrow> u32 \<Rightarrow> bitmap option" where
  "bitmap_flip b bit_idx = bits_modify b (elem_idx bit_idx) (\<lambda>e. e XOR bit_mask bit_idx)"

definition bitmap_set :: "bitmap \<Rightarrow> u32 \<Rightarrow> bool \<Rightarrow> bitmap option" where
  "bitmap_set b idx value =
     do { ASSERT (idx < bit_cnt b);
          if value then bitmap_mark b idx else bitmap_reset b idx }"

definition bitmap_test :: "bitmap \<Rightarrow> u32 \<Rightarrow> bool option" where
  "bitmap_test b idx =
     do { ASSERT (idx < bit_cnt b);
          e \<leftarrow> bits_read b (elem_idx idx);
          Some (e AND bit_mask idx \<noteq> 0) }"

subsection \<open>Multiple bits\<close>

definition bitmap_set_multiple :: "bitmap \<Rightarrow> u32 \<Rightarrow> u32 \<Rightarrow> bool \<Rightarrow> bitmap option" where
  "bitmap_set_multiple b start cnt value =
     do { ASSERT (start \<le> bit_cnt b);
          ASSERT (start + cnt \<le> bit_cnt b);
          for_u32 0 cnt (\<lambda>i b. bitmap_set b (start + i) value) b }"

definition bitmap_set_all :: "bitmap \<Rightarrow> bool \<Rightarrow> bitmap option" where
  "bitmap_set_all b value = bitmap_set_multiple b 0 (bitmap_size b) value"

definition bitmap_count :: "bitmap \<Rightarrow> u32 \<Rightarrow> u32 \<Rightarrow> bool \<Rightarrow> u32 option" where
  "bitmap_count b start cnt value =
     do { ASSERT (start \<le> bit_cnt b);
          ASSERT (start + cnt \<le> bit_cnt b);
          for_u32 0 cnt
            (\<lambda>i value_cnt. do { t \<leftarrow> bitmap_test b (start + i);
                                Some (if t = value then value_cnt + 1 else value_cnt) }) 0 }"

definition bitmap_contains :: "bitmap \<Rightarrow> u32 \<Rightarrow> u32 \<Rightarrow> bool \<Rightarrow> bool option" where
  "bitmap_contains b start cnt value =
     do { ASSERT (start \<le> bit_cnt b);
          ASSERT (start + cnt \<le> bit_cnt b);
          r \<leftarrow> find_u32 0 cnt (\<lambda>i. do { t \<leftarrow> bitmap_test b (start + i); Some (t = value) });
          Some (r \<noteq> None) }"

definition bitmap_any :: "bitmap \<Rightarrow> u32 \<Rightarrow> u32 \<Rightarrow> bool option" where
  "bitmap_any b start cnt = bitmap_contains b start cnt True"

definition bitmap_none :: "bitmap \<Rightarrow> u32 \<Rightarrow> u32 \<Rightarrow> bool option" where
  "bitmap_none b start cnt = map_option Not (bitmap_contains b start cnt True)"

definition bitmap_all :: "bitmap \<Rightarrow> u32 \<Rightarrow> u32 \<Rightarrow> bool option" where
  "bitmap_all b start cnt = map_option Not (bitmap_contains b start cnt False)"

definition bitmap_scan :: "bitmap \<Rightarrow> u32 \<Rightarrow> u32 \<Rightarrow> bool \<Rightarrow> u32 option" where
  "bitmap_scan b start cnt value =
     do { ASSERT (start \<le> bit_cnt b);
          if cnt \<le> bit_cnt b
          then do { r \<leftarrow> find_upto_u32 start (bit_cnt b - cnt)
                        (\<lambda>i. map_option Not (bitmap_contains b i cnt (\<not> value)));
                    Some (case r of Some i \<Rightarrow> i | None \<Rightarrow> BITMAP_ERROR) }
          else Some BITMAP_ERROR }"

definition bitmap_scan_and_flip ::
    "bitmap \<Rightarrow> u32 \<Rightarrow> u32 \<Rightarrow> bool \<Rightarrow> (u32 \<times> bitmap) option" where
  "bitmap_scan_and_flip b start cnt value =
     do { idx \<leftarrow> bitmap_scan b start cnt value;
          if idx \<noteq> BITMAP_ERROR
          then do { b' \<leftarrow> bitmap_set_multiple b idx cnt (\<not> value); Some (idx, b') }
          else Some (idx, b) }"

subsection \<open>Creation\<close>

text \<open>
  \<open>bitmap_create\<close> calls \<open>malloc\<close> twice. The outcome of the two calls is an argument: whether
  the first returned memory, and the (arbitrary) contents of the block the second
  returned, \<open>None\<close> for a null pointer. The result is \<open>None\<close> inside \<open>Some\<close> when the C code
  returns a null pointer.
\<close>

definition bitmap_create :: "bool \<Rightarrow> u32 list option \<Rightarrow> u32 \<Rightarrow> bitmap option option" where
  "bitmap_create b_allocated bits_mem n =
     (if b_allocated then
        if bits_mem \<noteq> None \<or> n = 0
        then map_option Some
               (bitmap_set_all \<lparr>bit_cnt = n, bits = (case bits_mem of None \<Rightarrow> [] | Some m \<Rightarrow> m)\<rparr>
                  False)
        else Some None
      else Some None)"

definition bitmap_create_in_buf :: "u32 list \<Rightarrow> u32 \<Rightarrow> u32 \<Rightarrow> bitmap option" where
  "bitmap_create_in_buf mem n block_size =
     do { ASSERT (block_size \<ge> bitmap_buf_size n);
          bitmap_set_all \<lparr>bit_cnt = n, bits = mem\<rparr> False }"

subsection \<open>Reading a bitmap as a list of booleans\<close>

definition bits_of :: "bitmap \<Rightarrow> bool list" where
  "bits_of b = map (\<lambda>i. bit (bits b ! (i div 32)) (i mod 32)) [0 ..< unat (bit_cnt b)]"

definition bitmap_wf :: "bitmap \<Rightarrow> bool" where
  "bitmap_wf b \<longleftrightarrow> bit_cnt b \<le> 0xffffffe0 \<and> length (bits b) = unat (elem_cnt (bit_cnt b))"

lemma length_bits_of [simp]: "length (bits_of b) = unat (bit_cnt b)"
  by (simp add: bits_of_def)

lemma nth_bits_of:
  "i < unat (bit_cnt b) \<Longrightarrow> bits_of b ! i = bit (bits b ! (i div 32)) (i mod 32)"
  by (simp add: bits_of_def)

lemma unat_elem_idx [u32_simps]: "unat (elem_idx i) = unat i div 32"
  by (simp add: elem_idx_def ELEM_BITS_def unat_div)

lemma unat_elem_cnt:
  "n \<le> 0xffffffe0 \<Longrightarrow> unat (elem_cnt n) = (unat n + 31) div 32"
  by (simp add: elem_cnt_def ELEM_BITS_def unat_div word_le_nat_alt unat_plus_if')

lemma bitmap_wf_index:
  assumes "bitmap_wf b" "i < unat (bit_cnt b)"
  shows "i div 32 < length (bits b)"
  using assms by (simp add: bitmap_wf_def unat_elem_cnt)

lemma bitmap_wf_bound: "bitmap_wf b \<Longrightarrow> unat (bit_cnt b) \<le> 4294967264"
  by (simp add: bitmap_wf_def word_le_nat_alt)

lemma bit_bit_mask: "bit (bit_mask i) k \<longleftrightarrow> k = unat i mod 32"
  by (auto simp: bit_mask_def ELEM_BITS_def bit_simps unat_mod)

lemma and_bit_mask: "e AND bit_mask i \<noteq> 0 \<longleftrightarrow> bit e (unat i mod 32)"
  by (simp add: bit_mask_def ELEM_BITS_def push_bit_eq_mult unat_mod and_exp_eq_0_iff_not_bit)

lemma div_mod_32_eq: "i div 32 = j div 32 \<Longrightarrow> i mod 32 = j mod 32 \<Longrightarrow> i = j" for i j :: nat
  by (metis div_mult_mod_eq)

text \<open>Changing one element at one bit position changes exactly that bit of the list.\<close>

lemma bits_modify_bits_of:
  assumes wf: "bitmap_wf b" and i: "i < bit_cnt b"
    and f: "\<And>e k. bit (f e) k = (if k = unat i mod 32 then g (bit e k) else bit e k)"
  shows "\<exists>b'. bits_modify b (elem_idx i) f = Some b' \<and> bitmap_wf b' \<and> bit_cnt b' = bit_cnt b
    \<and> bits_of b' = (bits_of b)[unat i := g (bits_of b ! unat i)]"
proof -
  have i': "unat i < unat (bit_cnt b)" using i by (simp add: word_less_nat_alt)
  have idx: "unat i div 32 < length (bits b)" using wf i' by (rule bitmap_wf_index)
  let ?b = "b\<lparr>bits := (bits b)[unat i div 32 := f (bits b ! (unat i div 32))]\<rparr>"
  have "bits_of ?b ! k = (bits_of b)[unat i := g (bits_of b ! unat i)] ! k"
    if "k < unat (bit_cnt b)" for k
    using that idx i' bitmap_wf_index[OF wf that]
    by (auto simp: nth_bits_of nth_list_update f dest: div_mod_32_eq)
  then have "bits_of ?b = (bits_of b)[unat i := g (bits_of b ! unat i)]"
    by (intro nth_equalityI) simp_all
  then show ?thesis
    using idx wf by (simp add: bits_modify_def bits_read_def unat_elem_idx bitmap_wf_def)
qed

text \<open>The single-bit operations on the list.\<close>

lemma bitmap_flip_bits_of:
  assumes "bitmap_wf b" "i < bit_cnt b"
  shows "\<exists>b'. bitmap_flip b i = Some b' \<and> bitmap_wf b' \<and> bit_cnt b' = bit_cnt b
    \<and> bits_of b' = (bits_of b)[unat i := \<not> bits_of b ! unat i]"
  unfolding bitmap_flip_def
  by (rule bits_modify_bits_of[OF assms]) (auto simp: bit_xor_iff bit_bit_mask)

lemma bitmap_mark_bits_of:
  assumes "bitmap_wf b" "i < bit_cnt b"
  shows "\<exists>b'. bitmap_mark b i = Some b' \<and> bitmap_wf b' \<and> bit_cnt b' = bit_cnt b
    \<and> bits_of b' = (bits_of b)[unat i := True]"
  unfolding bitmap_mark_def
  by (rule bits_modify_bits_of[OF assms, where g = "\<lambda>_. True"])
     (auto simp: bit_or_iff bit_bit_mask)

lemma bitmap_set_bits_of:
  assumes "bitmap_wf b" "i < bit_cnt b"
  shows "\<exists>b'. bitmap_set b i v = Some b' \<and> bitmap_wf b' \<and> bit_cnt b' = bit_cnt b
    \<and> bits_of b' = (bits_of b)[unat i := v]"
proof -
  have "\<exists>b'. bitmap_reset b i = Some b' \<and> bitmap_wf b' \<and> bit_cnt b' = bit_cnt b
    \<and> bits_of b' = (bits_of b)[unat i := False]"
    unfolding bitmap_reset_def
    by (rule bits_modify_bits_of[OF assms, where g = "\<lambda>_. False"])
       (auto simp: bit_and_iff bit_not_iff bit_bit_mask dest: bit_imp_le_length)
  then show ?thesis
    using assms bitmap_mark_bits_of[OF assms] by (cases v) (simp_all add: bitmap_set_def)
qed

lemma bitmap_set_out_of_range: "\<not> i < bit_cnt b \<Longrightarrow> bitmap_set b i v = None"
  by (simp add: bitmap_set_def)

lemma bitmap_test_bits_of:
  "bitmap_wf b \<Longrightarrow>
   bitmap_test b i = (if i < bit_cnt b then Some (bits_of b ! unat i) else None)"
  by (auto simp: bitmap_test_def bits_read_def unat_elem_idx and_bit_mask nth_bits_of
      word_less_nat_alt bitmap_wf_index)

subsection \<open>The operations on ranges\<close>

lemma unat_range_index:
  fixes start cnt n :: u32
  assumes "unat start + unat cnt \<le> unat n" "k < unat cnt"
  shows "unat (start + word_of_nat k) = unat start + k" and "start + word_of_nat k < n"
  using assms unat_u32_less[of n] unat_add_of_nat[of start k]
  by (simp_all add: word_less_nat_alt)

lemma bitmap_set_multiple_bits_of:
  assumes wf: "bitmap_wf b" and range: "unat start + unat cnt \<le> unat (bit_cnt b)"
  shows "\<exists>b'. bitmap_set_multiple b start cnt v = Some b' \<and> bitmap_wf b' \<and> bit_cnt b' = bit_cnt b
    \<and> bits_of b' = range_update (unat start) (unat cnt) v (bits_of b)"
proof -
  let ?I = "\<lambda>k b'. bitmap_wf b' \<and> bit_cnt b' = bit_cnt b
    \<and> bits_of b' = range_update (unat start) k v (bits_of b)"
  have "\<exists>b'. for_u32 0 cnt (\<lambda>i b. bitmap_set b (start + i) v) b = Some b' \<and> ?I (unat cnt) b'"
  proof (rule for_u32_invariant[where I = ?I])
    show "?I 0 b" using wf by simp
  next
    fix k b1
    assume k: "k < unat cnt" and I: "?I k b1"
    note ix = unat_range_index[OF range k]
    show "\<exists>b2. bitmap_set b1 (start + word_of_nat k) v = Some b2 \<and> ?I (Suc k) b2"
      using bitmap_set_bits_of[of b1 "start + word_of_nat k" v] I ix
      by (simp add: range_update_Suc)
  qed
  then show ?thesis
    using no_wrap_le[OF range] by (simp add: bitmap_set_multiple_def)
qed

lemma bitmap_count_bits_of:
  assumes wf: "bitmap_wf b" and range: "unat start + unat cnt \<le> unat (bit_cnt b)"
  shows "bitmap_count b start cnt v = Some (word_of_nat
    (card {k. unat start \<le> k \<and> k < unat start + unat cnt \<and> bits_of b ! k = v}))"
proof -
  let ?S = "\<lambda>k. {j. unat start \<le> j \<and> j < unat start + k \<and> bits_of b ! j = v}"
  have S0: "?S 0 = {}" by auto
  have "\<exists>n :: u32. for_u32 0 cnt
      (\<lambda>i value_cnt. do { t \<leftarrow> bitmap_test b (start + i);
                          Some (if t = v then value_cnt + 1 else value_cnt) }) 0 = Some n
      \<and> n = word_of_nat (card (?S (unat cnt)))"
  proof (rule for_u32_invariant[where I = "\<lambda>k (n :: u32). n = word_of_nat (card (?S k))"])
    show "(0 :: u32) = word_of_nat (card (?S 0))" by (simp only: S0) simp
  next
    fix k and n :: u32
    assume k: "k < unat cnt" and n: "n = word_of_nat (card (?S k))"
    note ix = unat_range_index[OF range k]
    have "?S (Suc k) = (if bits_of b ! (unat start + k) = v
      then insert (unat start + k) (?S k) else ?S k)"
      by (auto simp: less_Suc_eq)
    with n ix show "\<exists>n'. do { t \<leftarrow> bitmap_test b (start + word_of_nat k);
          Some (if t = v then n + 1 else n) } = Some n' \<and> n' = word_of_nat (card (?S (Suc k)))"
      by (simp add: bitmap_test_bits_of[OF wf])
  qed
  then show ?thesis
    using no_wrap_le[OF range] by (simp add: bitmap_count_def)
qed

lemma bitmap_contains_bits_of:
  assumes wf: "bitmap_wf b" and range: "unat start + unat cnt \<le> unat (bit_cnt b)"
  shows "bitmap_contains b start cnt v
    = Some (\<exists>k. unat start \<le> k \<and> k < unat start + unat cnt \<and> bits_of b ! k = v)"
proof -
  let ?P = "\<lambda>k. bits_of b ! (unat start + k) = v"
  have "do { t \<leftarrow> bitmap_test b (start + word_of_nat k); Some (t = v) } = Some (?P k)"
    if "k < unat cnt" for k
    using unat_range_index[OF range that] by (simp add: bitmap_test_bits_of[OF wf])
  then have "find_u32 0 cnt (\<lambda>i. do { t \<leftarrow> bitmap_test b (start + i); Some (t = v) })
    = Some (map_option word_of_nat (List.find ?P [unat (0 :: u32) ..< unat cnt]))"
    by (intro find_u32_find) simp
  moreover have "List.find ?P [0 ..< unat cnt] \<noteq> None \<longleftrightarrow>
      (\<exists>k. unat start \<le> k \<and> k < unat start + unat cnt \<and> bits_of b ! k = v)"
    by (auto simp: find_None_iff simp flip: ex_shift)
  ultimately show ?thesis
    using no_wrap_le[OF range] by (simp add: bitmap_contains_def)
qed

text \<open>
  A range that leaves the bitmap stops the kernel. The C code adds \<open>start + cnt\<close> modulo
  \<open>2^32\<close>, so the second \<open>ASSERT\<close> can be passed by wrapping around; the check inside
  \<open>bitmap_set\<close> then fails at the first index past the end.
\<close>

lemma bitmap_set_bit_cnt: "bitmap_set b i v = Some b' \<Longrightarrow> bit_cnt b' = bit_cnt b"
  by (auto simp: bitmap_set_def bitmap_mark_def bitmap_reset_def bits_modify_def
      split: if_splits option.splits bind_splits)

lemma bitmap_set_multiple_out_of_range:
  assumes "unat (bit_cnt b) < unat start + unat cnt"
  shows "bitmap_set_multiple b start cnt v = None"
proof (cases "start \<le> bit_cnt b")
  case True
  let ?k = "unat (bit_cnt b) - unat start"
  have k: "?k < unat cnt" and le: "unat start \<le> unat (bit_cnt b)"
    using assms True by (auto simp: word_le_nat_alt)
  then have "start + word_of_nat ?k = bit_cnt b"
    using unat_u32_less[of "bit_cnt b"] by (intro unat_inject) (simp add: unat_add_of_nat)
  then have "foreach (\<lambda>k b. bitmap_set b (start + word_of_nat k) v) [0 ..< unat cnt] b = None"
    using k by (intro foreach_fails[where k = ?k and J = "\<lambda>b'. bit_cnt b' = bit_cnt b"])
      (auto dest: bitmap_set_bit_cnt simp: bitmap_set_out_of_range)
  then show ?thesis
    by (simp add: bitmap_set_multiple_def for_u32_foreach)
next
  case False
  then show ?thesis by (simp add: bitmap_set_multiple_def)
qed

lemma bitmap_set_all_bits_of:
  assumes "bitmap_wf b"
  shows "\<exists>b'. bitmap_set_all b v = Some b' \<and> bitmap_wf b' \<and> bit_cnt b' = bit_cnt b
    \<and> bits_of b' = replicate (unat (bit_cnt b)) v"
  using bitmap_set_multiple_bits_of[of b 0 "bit_cnt b" v] assms
  by (simp add: bitmap_set_all_def bitmap_size_def range_update_def)

text \<open>\<open>run_at bs i c v\<close>: the \<open>c\<close> positions from \<open>i\<close> on exist and all hold \<open>v\<close>.\<close>

definition run_at :: "bool list \<Rightarrow> nat \<Rightarrow> nat \<Rightarrow> bool \<Rightarrow> bool" where
  "run_at bs i c v \<longleftrightarrow> i + c \<le> length bs \<and> (\<forall>k. i \<le> k \<and> k < i + c \<longrightarrow> bs ! k = v)"

definition first_run :: "bool list \<Rightarrow> nat \<Rightarrow> nat \<Rightarrow> bool \<Rightarrow> nat option" where
  "first_run bs start c v = List.find (\<lambda>i. run_at bs i c v) [start ..< Suc (length bs)]"

lemma first_run_Some_iff:
  "first_run bs start c v = Some i \<longleftrightarrow>
     start \<le> i \<and> run_at bs i c v \<and> (\<forall>j. start \<le> j \<and> j < i \<longrightarrow> \<not> run_at bs j c v)"
  unfolding first_run_def find_upt_Some_iff by (auto simp: run_at_def)

lemma first_run_None_iff:
  "first_run bs start c v = None \<longleftrightarrow> (\<forall>i\<ge>start. \<not> run_at bs i c v)"
  by (auto simp: first_run_def find_None_iff run_at_def)

lemma bitmap_scan_bits_of:
  assumes wf: "bitmap_wf b" and start: "start \<le> bit_cnt b"
  shows "bitmap_scan b start cnt v = Some (case first_run (bits_of b) (unat start) (unat cnt) v of
    Some i \<Rightarrow> word_of_nat i | None \<Rightarrow> BITMAP_ERROR)"
proof (cases "cnt \<le> bit_cnt b")
  case False
  then show ?thesis
    using start first_run_None_iff[of "bits_of b" "unat start" "unat cnt" v]
    by (simp add: bitmap_scan_def run_at_def word_le_nat_alt)
next
  case True
  let ?lst = "bit_cnt b - cnt"
  let ?p = "\<lambda>i. map_option Not (bitmap_contains b i cnt (\<not> v))"
  have lst: "unat ?lst = unat (bit_cnt b) - unat cnt"
    using True by (simp add: unat_sub)
  then have lst1: "unat (?lst + 1) = Suc (unat ?lst)" and "?lst < ?lst + 1"
    using bitmap_wf_bound[OF wf] by (simp_all add: word_less_nat_alt unat_word_ariths(1))
  then have "find_upto_u32 start ?lst ?p = find_u32 start (?lst + 1) ?p"
    by (intro find_upto_u32_less) simp_all
  also have "\<dots> = Some (map_option word_of_nat
    (List.find (\<lambda>i. run_at (bits_of b) i (unat cnt) v) [unat start ..< unat (?lst + 1)]))"
  proof (rule find_u32_find)
    fix k assume "unat start \<le> k" "k < unat (?lst + 1)"
    then have k: "k + unat cnt \<le> unat (bit_cnt b)"
      using lst lst1 True by (simp add: word_le_nat_alt)
    then have "unat (word_of_nat k :: u32) = k"
      using unat_u32_less[of "bit_cnt b"] by (simp add: unat_of_nat)
    then show "?p (word_of_nat k) = Some (run_at (bits_of b) k (unat cnt) v)"
      using k bitmap_contains_bits_of[OF wf, of "word_of_nat k" cnt "\<not> v"]
      by (auto simp: run_at_def)
  qed
  also have "List.find (\<lambda>i. run_at (bits_of b) i (unat cnt) v) [unat start ..< unat (?lst + 1)]
    = first_run (bits_of b) (unat start) (unat cnt) v"
    using lst lst1 True
    by (intro option_eqI, unfold find_upt_Some_iff first_run_Some_iff)
       (auto simp: run_at_def word_le_nat_alt)
  finally show ?thesis
    using start True by (simp add: bitmap_scan_def split: option.split)
qed

lemma first_run_index:
  assumes "bitmap_wf b" "first_run (bits_of b) s c v = Some i"
  shows "unat (word_of_nat i :: u32) = i" and "word_of_nat i \<noteq> BITMAP_ERROR"
proof -
  have i: "i \<le> 4294967264"
    using assms bitmap_wf_bound[of b] by (simp add: first_run_Some_iff run_at_def)
  then show un: "unat (word_of_nat i :: u32) = i" by (simp add: unat_of_nat)
  show "word_of_nat i \<noteq> BITMAP_ERROR"
  proof
    assume "word_of_nat i = BITMAP_ERROR"
    then have "unat (word_of_nat i :: u32) = 4294967295" by (simp add: BITMAP_ERROR_def)
    with i un show False by simp
  qed
qed

lemma bitmap_scan_and_flip_None:
  assumes "bitmap_wf b" "start \<le> bit_cnt b"
    and "first_run (bits_of b) (unat start) (unat cnt) v = None"
  shows "bitmap_scan_and_flip b start cnt v = Some (BITMAP_ERROR, b)"
  using assms by (simp add: bitmap_scan_and_flip_def bitmap_scan_bits_of)

lemma bitmap_scan_and_flip_Some:
  assumes "bitmap_wf b" "start \<le> bit_cnt b"
    and run: "first_run (bits_of b) (unat start) (unat cnt) v = Some i"
  shows "\<exists>b'. bitmap_scan_and_flip b start cnt v = Some (word_of_nat i, b')
    \<and> bitmap_wf b' \<and> bit_cnt b' = bit_cnt b
    \<and> bits_of b' = range_update i (unat cnt) (\<not> v) (bits_of b)"
proof -
  note ix = first_run_index[OF assms(1) run]
  have "i + unat cnt \<le> unat (bit_cnt b)"
    using run by (simp add: first_run_Some_iff run_at_def)
  then show ?thesis
    using assms ix bitmap_set_multiple_bits_of[of b "word_of_nat i" cnt "\<not> v"]
    by (auto simp: bitmap_scan_and_flip_def bitmap_scan_bits_of)
qed

lemma bitmap_create_bits_of:
  assumes "n \<le> 0xffffffe0" "length mem = unat (elem_cnt n)"
  shows "\<exists>b. bitmap_create True (Some mem) n = Some (Some b) \<and> bitmap_wf b \<and> bit_cnt b = n
    \<and> bits_of b = replicate (unat n) False"
  using bitmap_set_all_bits_of[of "\<lparr>bit_cnt = n, bits = mem\<rparr>" False] assms
  by (auto simp: bitmap_create_def bitmap_wf_def)

lemma bitmap_all_bits_of:
  assumes "bitmap_wf b" "unat start + unat cnt \<le> unat (bit_cnt b)"
  shows "bitmap_all b start cnt = Some (run_at (bits_of b) (unat start) (unat cnt) True)"
  using bitmap_contains_bits_of[OF assms, of False] assms(2)
  by (auto simp: bitmap_all_def run_at_def)

end
