(* ===== verification/Run_Allocator.thy ===== *)
theory Run_Allocator
  imports Bitmap
begin

section \<open>The interface of the bitmap allocators\<close>

text \<open>
  The page allocator (src/pintos/src/threads/palloc.c), the swap table
  (src/pintos/src/vm/swap.c) and the free map of the file system
  (src/pintos/src/filesys/free-map.c) all hand out runs of consecutive units from a bitmap.
  The locale states what such an allocator promises. Its lemmas are what the clients
  rely on: a run handed out is free before and taken afterwards, runs that are held at
  the same time never overlap, and releasing a run undoes the allocation.
\<close>

definition region :: "u32 \<Rightarrow> u32 \<Rightarrow> nat set" where
  "region i c = {unat i ..< unat i + unat c}"

text \<open>
  The states an allocator can reach together with the list of runs held by its users: a user may ask
  for a run, with a request \<open>q\<close> that says what kind of run it wants, or release a run it holds. A run
  that was handed out twice would be in the list twice.
\<close>

inductive session ::
    "('q \<Rightarrow> u32 \<Rightarrow> 's \<Rightarrow> (u32 \<times> 's) option) \<Rightarrow> (u32 \<Rightarrow> u32 \<Rightarrow> 's \<Rightarrow> 's option) \<Rightarrow> 's \<Rightarrow> 's \<Rightarrow> (u32 \<times> u32) list \<Rightarrow> bool"
  for alloc release s0 where
  start: "session alloc release s0 s0 []"
| obtain_run: "session alloc release s0 s H \<Longrightarrow> c \<noteq> 0 \<Longrightarrow> alloc q c s = Some (i, s') \<Longrightarrow> i \<noteq> BITMAP_ERROR \<Longrightarrow>
    session alloc release s0 s' ((i, c) # H)"
| obtain_none: "session alloc release s0 s H \<Longrightarrow> c \<noteq> 0 \<Longrightarrow> alloc q c s = Some (BITMAP_ERROR, s') \<Longrightarrow>
    session alloc release s0 s' H"
| give_back: "session alloc release s0 s H \<Longrightarrow> (i, c) \<in> set H \<Longrightarrow> release i c s = Some s' \<Longrightarrow>
    session alloc release s0 s' (remove1 (i, c) H)"

text \<open>No two places of the list have a unit in common.\<close>

definition disjoint_runs :: "(u32 \<times> u32) list \<Rightarrow> bool" where
  "disjoint_runs H \<longleftrightarrow> (\<forall>a b. a < b \<longrightarrow> b < length H \<longrightarrow>
     region (fst (H ! a)) (snd (H ! a)) \<inter> region (fst (H ! b)) (snd (H ! b)) = {})"

abbreviation apart :: "u32 \<times> u32 \<Rightarrow> u32 \<times> u32 \<Rightarrow> bool" where
  "apart x y \<equiv> region (fst x) (snd x) \<inter> region (fst y) (snd y) = {}"

lemma disjoint_runs_sorted_wrt: "disjoint_runs H \<longleftrightarrow> sorted_wrt apart H"
  by (auto simp: disjoint_runs_def sorted_wrt_iff_nth_less)

lemma disjoint_runs_Nil [simp]: "disjoint_runs []"
  by (simp add: disjoint_runs_def)

lemma disjoint_runs_Cons [simp]: "disjoint_runs (x # H) \<longleftrightarrow> (\<forall>y \<in> set H. apart x y) \<and> disjoint_runs H"
  by (simp add: disjoint_runs_sorted_wrt)

lemma disjoint_runs_remove1:
  assumes "disjoint_runs H" "x \<in> set H"
  shows "disjoint_runs (remove1 x H) \<and> (\<forall>y \<in> set (remove1 x H). apart x y)"
  using assms by (induction H) (auto dest: notin_set_remove1 set_mp[OF set_remove1_subset])

text \<open>
  The contract of an allocator that serves requests of several kinds, each from units of its own: a
  run comes from the free units of its kind and nothing else changes hands; releasing a run that is
  in use frees exactly its units.
\<close>

locale shared_allocator =
  fixes invar :: "'s \<Rightarrow> bool"
    and kind_units :: "'q \<Rightarrow> 's \<Rightarrow> nat set"
    and free_units :: "'s \<Rightarrow> nat set"
    and request :: "'q \<Rightarrow> u32 \<Rightarrow> 's \<Rightarrow> (u32 \<times> 's) option"
    and give :: "u32 \<Rightarrow> u32 \<Rightarrow> 's \<Rightarrow> 's option"
  assumes request_run: "invar s \<Longrightarrow> c \<noteq> 0 \<Longrightarrow> request q c s = Some (i, s') \<Longrightarrow> i \<noteq> BITMAP_ERROR \<Longrightarrow>
      region i c \<subseteq> free_units s \<inter> kind_units q s \<and> free_units s' = free_units s - region i c \<and> invar s' \<and>
      (\<forall>p. kind_units p s' = kind_units p s)"
    and request_none: "invar s \<Longrightarrow> c \<noteq> 0 \<Longrightarrow> request q c s = Some (BITMAP_ERROR, s') \<Longrightarrow> s' = s"
    and give_run: "invar s \<Longrightarrow> c \<noteq> 0 \<Longrightarrow> region i c \<subseteq> kind_units q s \<Longrightarrow> region i c \<inter> free_units s = {} \<Longrightarrow>
      \<exists>s'. give i c s = Some s' \<and> free_units s' = free_units s \<union> region i c \<and> invar s' \<and>
        (\<forall>p. kind_units p s' = kind_units p s)"
begin

text \<open>Runs held at the same time are disjoint from each other and from the free units.\<close>

lemma session_invariant:
  assumes "session request give s0 s H" "invar s0"
  shows "invar s \<and> (\<forall>p. kind_units p s = kind_units p s0) \<and> disjoint_runs H \<and>
    (\<forall>(i, c) \<in> set H. c \<noteq> 0 \<and> (\<exists>q. region i c \<subseteq> kind_units q s) \<and> region i c \<inter> free_units s = {})"
  (is "?J s H")
  using assms
proof (induction rule: session.induct)
  case (obtain_run s H c q i s')
  then have IH: "?J s H" by blast
  then have a: "region i c \<subseteq> free_units s \<inter> kind_units q s \<and> free_units s' = free_units s - region i c \<and> invar s' \<and>
      (\<forall>p. kind_units p s' = kind_units p s)"
    using request_run[OF _ obtain_run.hyps(2,3,4)] by blast
  then have new: "region i c \<subseteq> kind_units q s'" "region i c \<inter> free_units s' = {}" by auto
  moreover have "\<forall>y \<in> set H. apart (i, c) y" using IH a by fastforce
  moreover have "\<forall>(j, d) \<in> set H. d \<noteq> 0 \<and> (\<exists>q. region j d \<subseteq> kind_units q s') \<and> region j d \<inter> free_units s' = {}"
    using IH a by fastforce
  ultimately show ?case using IH a obtain_run.hyps(2) by auto
next
  case (obtain_none s H c q s')
  then have "s' = s" using request_none[of s c q s'] by blast
  with obtain_none show ?case by blast
next
  case (give_back s H i c s')
  then have IH: "?J s H" by blast
  then obtain q where held: "c \<noteq> 0" "region i c \<subseteq> kind_units q s" "region i c \<inter> free_units s = {}" "invar s"
    using give_back.hyps(2) by blast
  have a: "free_units s' = free_units s \<union> region i c" "invar s'" "\<forall>p. kind_units p s' = kind_units p s"
    using give_run[OF held(4,1,2,3)] give_back.hyps(3) by auto
  have rest: "disjoint_runs (remove1 (i, c) H)" "\<forall>y \<in> set (remove1 (i, c) H). apart (i, c) y"
    using disjoint_runs_remove1[OF _ give_back.hyps(2)] IH by auto
  have "d \<noteq> 0 \<and> (\<exists>q. region j d \<subseteq> kind_units q s') \<and> region j d \<inter> free_units s' = {}" if "(j, d) \<in> set (remove1 (i, c) H)" for j d
  proof -
    have "(j, d) \<in> set H" using that set_remove1_subset by fast
    then show ?thesis using IH a rest(2) that by fastforce
  qed
  then show ?case using IH a rest(1) by auto
qed simp

text \<open>A run that is held can be released.\<close>

lemma session_give:
  assumes "session request give s0 s H" "invar s0" "(i, c) \<in> set H"
  shows "\<exists>s'. give i c s = Some s' \<and> free_units s' = free_units s \<union> region i c"
proof -
  have "invar s" "c \<noteq> 0" "region i c \<inter> free_units s = {}" "\<exists>q. region i c \<subseteq> kind_units q s"
    using session_invariant[OF assms(1,2)] assms(3) by auto
  then show ?thesis using give_run[of s c i] by blast
qed

end

text \<open>The contract of an allocator with one kind of unit.\<close>

locale run_allocator =
  fixes invar :: "'s \<Rightarrow> bool"
    and units :: "'s \<Rightarrow> nat set"
    and free :: "'s \<Rightarrow> nat set"
    and alloc :: "u32 \<Rightarrow> 's \<Rightarrow> (u32 \<times> 's) option"
    and release :: "u32 \<Rightarrow> u32 \<Rightarrow> 's \<Rightarrow> 's option"
  assumes free_units: "invar s \<Longrightarrow> free s \<subseteq> units s"
    and alloc_total: "invar s \<Longrightarrow> c \<noteq> 0 \<Longrightarrow> \<exists>i s'. alloc c s = Some (i, s')"
    and alloc_run: "invar s \<Longrightarrow> c \<noteq> 0 \<Longrightarrow> alloc c s = Some (i, s') \<Longrightarrow> i \<noteq> BITMAP_ERROR \<Longrightarrow>
      region i c \<subseteq> free s \<and> free s' = free s - region i c \<and> invar s' \<and> units s' = units s"
    and alloc_none: "invar s \<Longrightarrow> c \<noteq> 0 \<Longrightarrow> alloc c s = Some (BITMAP_ERROR, s') \<Longrightarrow>
      s' = s \<and> \<not> (\<exists>k. {k ..< k + unat c} \<subseteq> free s)"
    and release_run: "invar s \<Longrightarrow> c \<noteq> 0 \<Longrightarrow> region i c \<subseteq> units s \<Longrightarrow>
      region i c \<inter> free s = {} \<Longrightarrow>
      \<exists>s'. release i c s = Some s' \<and> free s' = free s \<union> region i c \<and> invar s' \<and> units s' = units s"
begin

lemma region_nonempty: "c \<noteq> 0 \<Longrightarrow> region i c \<noteq> {}"
  by (simp add: region_def unat_gt_0)

lemma alloc_within:
  assumes "invar s" "c \<noteq> 0" "alloc c s = Some (i, s')" "i \<noteq> BITMAP_ERROR"
  shows "region i c \<subseteq> units s"
  using alloc_run[OF assms] free_units[OF assms(1)] by blast

text \<open>Allocating and releasing at once gives the free units back.\<close>

lemma alloc_release:
  assumes "invar s" "c \<noteq> 0" "alloc c s = Some (i, s')" "i \<noteq> BITMAP_ERROR"
  shows "\<exists>s''. release i c s' = Some s'' \<and> invar s'' \<and> free s'' = free s"
proof -
  note a = alloc_run[OF assms]
  then have "region i c \<inter> free s' = {}" by blast
  moreover have "region i c \<subseteq> units s'" using a alloc_within[OF assms] by simp
  ultimately show ?thesis
    using release_run[of s' c i] a assms(2) by auto
qed

end

sublocale run_allocator \<subseteq> shared: shared_allocator invar "\<lambda>_ :: unit. units" free "\<lambda>_. alloc" release
proof (unfold_locales, goal_cases)
  case (1 s c q i s')
  then show ?case using alloc_run[of s c i s'] alloc_within[of s c i s'] by auto
next
  case (2 s c q s')
  then show ?case using alloc_none[of s c s'] by blast
next
  case (3 s c i q)
  then show ?case using release_run[of s c i] by auto
qed

subsection \<open>Bitmaps are allocators\<close>

text \<open>
  A bitmap in which the value \<open>v\<close> marks a free unit, with \<open>bitmap_scan_and_flip\<close> from
  position 0 as the allocation and \<open>bitmap_set_multiple\<close> as the release.
\<close>

definition free_bits :: "bool \<Rightarrow> bitmap \<Rightarrow> nat set" where
  "free_bits v b = {k. k < unat (bit_cnt b) \<and> bits_of b ! k = v}"

lemma run_at_free_bits:
  assumes "c > 0"
  shows "run_at (bits_of b) i c v \<longleftrightarrow> {i ..< i + c} \<subseteq> free_bits v b"
proof
  assume "{i ..< i + c} \<subseteq> free_bits v b"
  moreover from this assms have "i + c - 1 \<in> free_bits v b" by auto
  ultimately show "run_at (bits_of b) i c v"
    using assms by (auto simp: run_at_def free_bits_def)
qed (auto simp: run_at_def free_bits_def)

lemma free_bits_range_update:
  assumes "bits_of b' = range_update i c w (bits_of b)" "bit_cnt b' = bit_cnt b"
    and "i + c \<le> unat (bit_cnt b)"
  shows "free_bits v b' = (if w = v then free_bits v b \<union> {i ..< i + c} else free_bits v b - {i ..< i + c})"
  using assms by (auto simp: free_bits_def nth_range_update split: if_splits)

lemma region_bound: "c \<noteq> 0 \<Longrightarrow> region i c \<subseteq> {..< n} \<longleftrightarrow> unat i + unat c \<le> n"
  using unat_gt_0[of c] by (auto simp: region_def subset_iff) presburger

interpretation bitmap_alloc: run_allocator bitmap_wf "\<lambda>b. {..< unat (bit_cnt b)}" "free_bits v"
    "\<lambda>c b. bitmap_scan_and_flip b 0 c v"
    "\<lambda>i c b. bitmap_set_multiple b i c v"
  for v
proof (unfold_locales, goal_cases)
  case (1 s)
  then show ?case by (auto simp: free_bits_def)
next
  case (2 s c)
  then show ?case
    using bitmap_scan_and_flip_None[of s 0 c v] bitmap_scan_and_flip_Some[of s 0 c v]
    by (cases "first_run (bits_of s) 0 (unat c) v") auto
next
  case (3 s c i s')
  then obtain k where k: "first_run (bits_of s) 0 (unat c) v = Some k"
    using bitmap_scan_and_flip_None[of s 0 c v]
    by (cases "first_run (bits_of s) 0 (unat c) v") auto
  then have "run_at (bits_of s) k (unat c) v" and "k + unat c \<le> unat (bit_cnt s)"
    by (auto simp: first_run_Some_iff run_at_def)
  moreover from 3 k first_run_index[OF 3(1) k] bitmap_scan_and_flip_Some[of s 0 c v k]
  have "unat i = k" "bitmap_wf s'" "bit_cnt s' = bit_cnt s"
    "bits_of s' = range_update k (unat c) (\<not> v) (bits_of s)" by auto
  ultimately show ?case
    using 3(2) free_bits_range_update[of s' k "unat c" "\<not> v" s v]
    by (simp add: region_def run_at_free_bits unat_gt_0)
next
  case (4 s c s')
  have none: "first_run (bits_of s) 0 (unat c) v = None"
  proof (rule ccontr)
    assume "first_run (bits_of s) 0 (unat c) v \<noteq> None"
    then obtain k where k: "first_run (bits_of s) 0 (unat c) v = Some k" by blast
    with 4 first_run_index[OF 4(1) k] bitmap_scan_and_flip_Some[of s 0 c v k] show False
      by auto
  qed
  with 4 show ?case
    using bitmap_scan_and_flip_None[of s 0 c v]
    by (auto simp: first_run_None_iff run_at_free_bits unat_gt_0)
next
  case (5 s c i)
  then have "unat i + unat c \<le> unat (bit_cnt s)"
    using region_bound[of c i] by (auto simp: unat_gt_0)
  with 5 show ?case
    using bitmap_set_multiple_bits_of[of s i c v] free_bits_range_update[of _ "unat i" "unat c" v s v]
    by (auto simp: region_def)
qed

end
