(* ===== verification/Swap.thy ===== *)
theory Swap
  imports Vaddr Block Run_Allocator
begin

section \<open>The swap table\<close>

text \<open>
  Models src/pintos/src/vm/swap.c: a block device divided into slots of eight sectors, and
  a bitmap in which \<open>true\<close> marks a free slot. A page in memory is a buffer of 4096 bytes.
\<close>

record swap =
  swap_device :: block
  swap_map :: bitmap

definition SWAP_ERROR :: u32 where "SWAP_ERROR = 0xffffffff"

definition SECTORS_PER_PAGE :: u32 where
  "SECTORS_PER_PAGE = PGSIZE div word_of_nat BLOCK_SECTOR_SIZE"

definition swap_size_in_page :: "block \<Rightarrow> u32" where
  "swap_size_in_page dev = block_size dev div SECTORS_PER_PAGE"

text \<open>\<open>vm_swap_init\<close>: the device with the swap role (if any) and the outcome of the two
  allocations inside \<open>bitmap_create\<close> are arguments.\<close>

definition vm_swap_init :: "block option \<Rightarrow> bool \<Rightarrow> u32 list option \<Rightarrow> swap option" where
  "vm_swap_init role allocated bits_mem =
     do { dev \<leftarrow> role;
          created \<leftarrow> bitmap_create allocated bits_mem (swap_size_in_page dev);
          m \<leftarrow> created;
          m' \<leftarrow> bitmap_set_all m True;
          Some \<lparr>swap_device = dev, swap_map = m'\<rparr> }"

definition vm_swap_out :: "u8 list \<Rightarrow> swap \<Rightarrow> (u32 \<times> swap) option" where
  "vm_swap_out uva s =
     do { (swap_idx, m) \<leftarrow> bitmap_scan_and_flip (swap_map s) 0 1 True;
          if swap_idx = BITMAP_ERROR then Some (SWAP_ERROR, s\<lparr>swap_map := m\<rparr>)
          else do { dev \<leftarrow> for_u32 0 SECTORS_PER_PAGE
                      (\<lambda>counter dev. block_write dev (swap_idx * SECTORS_PER_PAGE + counter)
                         (buf_get (unat counter * BLOCK_SECTOR_SIZE) BLOCK_SECTOR_SIZE uva))
                      (swap_device s);
                    Some (swap_idx, \<lparr>swap_device = dev, swap_map = m\<rparr>) } }"

definition vm_swap_in :: "u32 \<Rightarrow> u8 list \<Rightarrow> swap \<Rightarrow> (u8 list \<times> swap) option" where
  "vm_swap_in swap_idx uva s =
     do { (page, dev) \<leftarrow> for_u32 0 SECTORS_PER_PAGE
            (\<lambda>counter (page, dev).
               do { (x, dev) \<leftarrow> block_read dev (swap_idx * SECTORS_PER_PAGE + counter);
                    Some (buf_put (unat counter * BLOCK_SECTOR_SIZE) x page, dev) })
            (uva, swap_device s);
          m \<leftarrow> bitmap_flip (swap_map s) swap_idx;
          Some (page, \<lparr>swap_device = dev, swap_map = m\<rparr>) }"

definition vm_clear_swap_slot :: "u32 \<Rightarrow> swap \<Rightarrow> swap option" where
  "vm_clear_swap_slot swap_idx s =
     do { m \<leftarrow> bitmap_flip (swap_map s) swap_idx; Some (s\<lparr>swap_map := m\<rparr>) }"

subsection \<open>Well-formed swap tables\<close>

definition swap_wf :: "swap \<Rightarrow> bool" where
  "swap_wf s \<longleftrightarrow> block_wf (swap_device s) \<and> bitmap_wf (swap_map s)
     \<and> bit_cnt (swap_map s) = swap_size_in_page (swap_device s)"

definition slot_data :: "swap \<Rightarrow> u32 \<Rightarrow> u8 list" where
  "slot_data s i = concat (map (\<lambda>k. medium (swap_device s) (i * 8 + word_of_nat k)) [0 ..< 8])"

lemma SECTORS_PER_PAGE_eq: "SECTORS_PER_PAGE = 8"
  by (simp add: SECTORS_PER_PAGE_def PGSIZE_eq BLOCK_SECTOR_SIZE_def)

lemma swap_slot_sectors:
  assumes "swap_wf s" "i < bit_cnt (swap_map s)"
  shows "unat (i * 8) = 8 * unat i" and "8 * unat i + 8 \<le> unat (blk_size (swap_device s))"
proof -
  have *: "unat i < unat (blk_size (swap_device s)) div 8"
    using assms by (simp add: swap_wf_def swap_size_in_page_def block_size_def
        SECTORS_PER_PAGE_eq word_less_nat_alt unat_div)
  then show "8 * unat i + 8 \<le> unat (blk_size (swap_device s))" by linarith
  then show "unat (i * 8) = 8 * unat i"
    using unat_u32_less[of "blk_size (swap_device s)"] by (simp add: unat_word_ariths(2))
qed

abbreviation free_slots :: "swap \<Rightarrow> nat set" where
  "free_slots s \<equiv> free_bits True (swap_map s)"

lemma region_1 [simp]: "region i 1 = {unat i}"
  by (auto simp: region_def)

lemma slot_data_index:
  assumes "swap_wf s" "i < bit_cnt (swap_map s)" "k < 8"
  shows "unat (i * 8 + word_of_nat k) = 8 * unat i + k"
  using swap_slot_sectors[OF assms(1,2)] assms(3) unat_u32_less[of "blk_size (swap_device s)"]
  by (simp add: unat_add_of_nat)

lemma length_concat_512:
  "(\<And>k. k < n \<Longrightarrow> length (f k) = 512) \<Longrightarrow> length (concat (map f [0 ..< n])) = 512 * n"
  by (induction n) simp_all

lemma concat_buf_get:
  "length p = 512 * n \<Longrightarrow> concat (map (\<lambda>k. buf_get (k * 512) 512 p) [0 ..< n]) = p"
proof -
  assume len: "length p = 512 * n"
  have "concat (map (\<lambda>k. buf_get (k * 512) 512 p) [0 ..< m]) = take (512 * m) p"
    for m
  proof (induction m)
    case (Suc m)
    then show ?case
      by (simp add: buf_get_def mult.commute add.commute[of 512] take_add[symmetric])
  qed simp
  from this[of n] len show ?thesis by simp
qed

subsection \<open>One operation\<close>

lemma vm_swap_out_full:
  assumes "swap_wf s" "free_slots s = {}"
  shows "vm_swap_out page s = Some (SWAP_ERROR, s)"
proof -
  have wf: "bitmap_wf (swap_map s)" using assms(1) by (simp add: swap_wf_def)
  obtain i m where im: "bitmap_scan_and_flip (swap_map s) 0 1 True = Some (i, m)"
    using bitmap_alloc.alloc_total[OF wf, of 1 True] by auto
  have "i = BITMAP_ERROR"
    using bitmap_alloc.alloc_run[OF wf _ im] assms(2) by auto
  then have "m = swap_map s" using bitmap_alloc.alloc_none[OF wf, of 1] im by auto
  with im \<open>i = BITMAP_ERROR\<close> show ?thesis by (simp add: vm_swap_out_def)
qed

lemma vm_swap_out_slot:
  assumes wf: "swap_wf s" and page: "length page = 4096" and free: "free_slots s \<noteq> {}"
  shows "\<exists>i s'. vm_swap_out page s = Some (i, s') \<and> i \<noteq> SWAP_ERROR \<and> i < bit_cnt (swap_map s)
    \<and> unat i \<in> free_slots s \<and> free_slots s' = free_slots s - {unat i}
    \<and> swap_wf s' \<and> bit_cnt (swap_map s') = bit_cnt (swap_map s)
    \<and> slot_data s' i = page
    \<and> (\<forall>j. j < bit_cnt (swap_map s) \<longrightarrow> j \<noteq> i \<longrightarrow> slot_data s' j = slot_data s j)"
proof -
  have bw: "bitmap_wf (swap_map s)" and dw: "block_wf (swap_device s)"
    using wf by (simp_all add: swap_wf_def)
  obtain i m where im: "bitmap_scan_and_flip (swap_map s) 0 1 True = Some (i, m)"
    using bitmap_alloc.alloc_total[OF bw, of 1 True] by auto
  have "\<exists>k. {k ..< k + unat (1 :: u32)} \<subseteq> free_slots s" using free by auto
  then have ne: "i \<noteq> BITMAP_ERROR"
    using bitmap_alloc.alloc_none[OF bw, of 1 True m] im by auto
  have m: "unat i \<in> free_slots s" "free_slots (s\<lparr>swap_map := m\<rparr>) = free_slots s - {unat i}"
    "bitmap_wf m" "bit_cnt m = bit_cnt (swap_map s)"
    using bitmap_alloc.alloc_run[OF bw _ im ne] by (auto simp: unat_inject)
  have i: "i < bit_cnt (swap_map s)"
    using m(1) by (simp add: free_bits_def word_less_nat_alt)
  note sec = swap_slot_sectors[OF wf i]
  let ?x = "\<lambda>k. buf_get (k * 512) 512 page"
  obtain dev where dev: "for_u32 0 8 (\<lambda>k d. block_write d (i * 8 + k) (?x (unat k))) (swap_device s)
      = Some dev" "block_wf dev" "blk_size dev = blk_size (swap_device s)"
    and data: "\<And>j. medium dev j = (if 8 * unat i \<le> unat j \<and> unat j < 8 * unat i + 8
                       then ?x (unat j - 8 * unat i) else medium (swap_device s) j)"
    using blk.write_run[OF dw, of "i * 8" 8 ?x] sec page by (auto simp: length_buf_get)
  let ?s = "\<lparr>swap_device = dev, swap_map = m\<rparr>"
  have out: "vm_swap_out page s = Some (i, ?s)"
    using im ne dev(1) by (simp add: vm_swap_out_def SECTORS_PER_PAGE_eq BLOCK_SECTOR_SIZE_def)
  have wf': "swap_wf ?s"
    using wf m dev by (simp add: swap_wf_def swap_size_in_page_def block_size_def)
  have "slot_data ?s i = concat (map ?x [0 ..< 8])"
    unfolding slot_data_def using slot_data_index[OF wf i] data
    by (intro arg_cong[where f = concat] map_cong) auto
  then have same: "slot_data ?s i = page" using page by (simp add: concat_buf_get)
  have other: "slot_data ?s j = slot_data s j" if j: "j < bit_cnt (swap_map s)" "j \<noteq> i" for j
  proof -
    have "unat j \<noteq> unat i" using j(2) by (metis unat_inject)
    then show ?thesis
      unfolding slot_data_def using slot_data_index[OF wf j(1)] data
      by (intro arg_cong[where f = concat] map_cong) auto
  qed
  show ?thesis
    using out ne i m wf' same other by (auto simp: SWAP_ERROR_def BITMAP_ERROR_def)
qed

lemma flip_used_slot:
  assumes wf: "swap_wf s" and i: "i < bit_cnt (swap_map s)" and used: "unat i \<notin> free_slots s"
  shows "\<exists>m. bitmap_flip (swap_map s) i = Some m \<and> bitmap_wf m
    \<and> bit_cnt m = bit_cnt (swap_map s) \<and> free_bits True m = insert (unat i) (free_slots s)"
proof -
  have "bitmap_wf (swap_map s)" using wf by (simp add: swap_wf_def)
  then obtain m where m: "bitmap_flip (swap_map s) i = Some m" "bitmap_wf m"
    "bit_cnt m = bit_cnt (swap_map s)"
    "bits_of m = (bits_of (swap_map s))[unat i := \<not> bits_of (swap_map s) ! unat i]"
    using bitmap_flip_bits_of[OF _ i] by blast
  then have "free_bits True m = insert (unat i) (free_slots s)"
    using i used by (auto simp: free_bits_def nth_list_update word_less_nat_alt)
  with m show ?thesis by blast
qed

lemma slot_data_cong: "swap_device s' = swap_device s \<Longrightarrow> slot_data s' i = slot_data s i"
  by (simp add: slot_data_def)

lemma vm_swap_in_slot:
  assumes wf: "swap_wf s" and i: "i < bit_cnt (swap_map s)" and used: "unat i \<notin> free_slots s"
    and uva: "length uva = 4096"
  shows "\<exists>s'. vm_swap_in i uva s = Some (slot_data s i, s') \<and> swap_wf s'
    \<and> bit_cnt (swap_map s') = bit_cnt (swap_map s)
    \<and> free_slots s' = insert (unat i) (free_slots s) \<and> (\<forall>j. slot_data s' j = slot_data s j)"
proof -
  have dw: "block_wf (swap_device s)" using wf by (simp add: swap_wf_def)
  obtain dev where dev: "for_u32 0 8 (\<lambda>k (buf, d). do { (x, d) \<leftarrow> block_read d (i * 8 + k);
        Some (buf_put (unat k * 512) x buf, d) }) (uva, swap_device s) = Some (slot_data s i, dev)"
    "block_wf dev" "blk_size dev = blk_size (swap_device s)" "medium dev = medium (swap_device s)"
    using blk.read_run[OF dw, of "i * 8" 8 uva] swap_slot_sectors[OF wf i] uva
    by (auto simp: slot_data_def)
  obtain m where "bitmap_flip (swap_map s) i = Some m" "bitmap_wf m"
    "bit_cnt m = bit_cnt (swap_map s)" "free_bits True m = insert (unat i) (free_slots s)"
    using flip_used_slot[OF wf i used] by blast
  with dev wf show ?thesis
    by (simp add: vm_swap_in_def SECTORS_PER_PAGE_eq BLOCK_SECTOR_SIZE_def swap_wf_def
        swap_size_in_page_def block_size_def slot_data_def)
qed

lemma vm_clear_swap_slot_used:
  assumes "swap_wf s" "i < bit_cnt (swap_map s)" "unat i \<notin> free_slots s"
  shows "\<exists>s'. vm_clear_swap_slot i s = Some s' \<and> swap_wf s'
    \<and> bit_cnt (swap_map s') = bit_cnt (swap_map s)
    \<and> free_slots s' = insert (unat i) (free_slots s) \<and> (\<forall>j. slot_data s' j = slot_data s j)"
  using flip_used_slot[OF assms] assms(1)
  by (auto simp: vm_clear_swap_slot_def swap_wf_def slot_data_def)

lemma vm_swap_init_wf:
  assumes "block_wf dev" "length mem = unat (elem_cnt (swap_size_in_page dev))"
  shows "\<exists>s. vm_swap_init (Some dev) True (Some mem) = Some s \<and> swap_wf s
    \<and> free_slots s = {..< unat (swap_size_in_page dev)}"
proof -
  have "unat (swap_size_in_page dev) \<le> 4294967264"
    using unat_u32_less[of "block_size dev"]
    by (simp add: swap_size_in_page_def SECTORS_PER_PAGE_eq unat_div)
  then have "swap_size_in_page dev \<le> 0xffffffe0" by (simp add: word_le_nat_alt)
  then obtain b where b: "bitmap_create True (Some mem) (swap_size_in_page dev) = Some (Some b)"
    "bitmap_wf b" "bit_cnt b = swap_size_in_page dev"
    using bitmap_create_bits_of[of "swap_size_in_page dev" mem] assms(2) by blast
  then obtain m where "bitmap_set_all b True = Some m" "bitmap_wf m" "bit_cnt m = bit_cnt b"
    "bits_of m = replicate (unat (bit_cnt b)) True"
    using bitmap_set_all_bits_of[of b True] by blast
  with b assms(1) show ?thesis
    by (auto simp: vm_swap_init_def swap_wf_def free_bits_def)
qed

subsection \<open>Sequences of operations\<close>

text \<open>
  The states reached from an initialised swap table by swapping pages out, swapping held
  slots in and clearing held slots, with the map from the slots in use to the page that
  was swapped out to each.
\<close>

inductive swap_session :: "swap \<Rightarrow> swap \<Rightarrow> (u32 \<rightharpoonup> u8 list) \<Rightarrow> bool" for s0 where
  start: "swap_session s0 s0 Map.empty"
| out: "swap_session s0 s H \<Longrightarrow> length page = 4096 \<Longrightarrow> vm_swap_out page s = Some (i, s') \<Longrightarrow>
    i \<noteq> SWAP_ERROR \<Longrightarrow> swap_session s0 s' (H(i \<mapsto> page))"
| out_full: "swap_session s0 s H \<Longrightarrow> length page = 4096 \<Longrightarrow>
    vm_swap_out page s = Some (SWAP_ERROR, s') \<Longrightarrow> swap_session s0 s' H"
| back_in: "swap_session s0 s H \<Longrightarrow> i \<in> dom H \<Longrightarrow> length uva = 4096 \<Longrightarrow>
    vm_swap_in i uva s = Some (page, s') \<Longrightarrow> swap_session s0 s' (H(i := None))"
| clear: "swap_session s0 s H \<Longrightarrow> i \<in> dom H \<Longrightarrow> vm_clear_swap_slot i s = Some s' \<Longrightarrow>
    swap_session s0 s' (H(i := None))"

definition swap_holds :: "swap \<Rightarrow> swap \<Rightarrow> (u32 \<rightharpoonup> u8 list) \<Rightarrow> bool" where
  "swap_holds s0 s H \<longleftrightarrow> swap_wf s \<and> bit_cnt (swap_map s) = bit_cnt (swap_map s0)
     \<and> unat ` dom H \<inter> free_slots s = {}
     \<and> unat ` dom H \<union> free_slots s = free_slots s0
     \<and> (\<forall>i page. H i = Some page \<longrightarrow> i < bit_cnt (swap_map s0) \<and> slot_data s i = page)"

lemma swap_holds_release:
  assumes "swap_holds s0 s H" "i \<in> dom H" "swap_wf s'"
    and "bit_cnt (swap_map s') = bit_cnt (swap_map s)"
    and "free_slots s' = insert (unat i) (free_slots s)" "\<forall>j. slot_data s' j = slot_data s j"
  shows "swap_holds s0 s' (H(i := None))"
proof -
  have dm: "unat ` dom (H(i := None)) = unat ` dom H - {unat i}"
    by (auto dest: unat_inject)
  have "(unat ` dom H - {unat i}) \<inter> free_slots s' = {}"
    and "(unat ` dom H - {unat i}) \<union> free_slots s' = free_slots s0"
    using assms(1,2,5) unfolding swap_holds_def by blast+
  with assms show ?thesis
    unfolding swap_holds_def dm by simp
qed

lemma swap_holds_used:
  assumes "swap_holds s0 s H" "i \<in> dom H"
  shows "swap_wf s" "i < bit_cnt (swap_map s)" "unat i \<notin> free_slots s"
  using assms by (auto simp: swap_holds_def)

lemma swap_session_holds:
  assumes "swap_session s0 s H" "swap_wf s0"
  shows "swap_holds s0 s H"
  using assms
proof (induction rule: swap_session.induct)
  case start
  then show ?case by (auto simp: swap_holds_def)
next
  case (out s H page i s')
  then have IH: "swap_holds s0 s H" by blast
  then have wf: "swap_wf s" by (simp add: swap_holds_def)
  have "free_slots s \<noteq> {}"
    using vm_swap_out_full[OF wf, of page] out.hyps(3,4) by auto
  from vm_swap_out_slot[OF wf out.hyps(2) this] out.hyps(3)
  have s': "i < bit_cnt (swap_map s)" "unat i \<in> free_slots s" "swap_wf s'"
    "free_slots s' = free_slots s - {unat i}" "bit_cnt (swap_map s') = bit_cnt (swap_map s)"
    "slot_data s' i = page"
    "\<And>j. j < bit_cnt (swap_map s) \<Longrightarrow> j \<noteq> i \<Longrightarrow> slot_data s' j = slot_data s j"
    by auto
  have dm: "unat ` dom (H(i \<mapsto> page)) = insert (unat i) (unat ` dom H)" by simp
  have "\<forall>j p. (H(i \<mapsto> page)) j = Some p \<longrightarrow> j < bit_cnt (swap_map s0) \<and> slot_data s' j = p"
    using IH s' by (auto simp: swap_holds_def)
  moreover have "insert (unat i) (unat ` dom H) \<inter> free_slots s' = {}"
    and "insert (unat i) (unat ` dom H) \<union> free_slots s' = free_slots s0"
    using IH s'(2,4) unfolding swap_holds_def by blast+
  ultimately show ?case
    using IH s' unfolding swap_holds_def dm by simp
next
  case (out_full s H page s')
  then have IH: "swap_holds s0 s H" by blast
  then have wf: "swap_wf s" by (simp add: swap_holds_def)
  have "free_slots s = {}"
    using vm_swap_out_slot[OF wf out_full.hyps(2)] out_full.hyps(3) by auto
  with vm_swap_out_full[OF wf] out_full.hyps(3) IH show ?case by simp
next
  case (back_in s H i uva page s')
  then have IH: "swap_holds s0 s H" by blast
  from vm_swap_in_slot[OF swap_holds_used[OF IH back_in.hyps(2)] back_in.hyps(3)]
  show ?case
    using back_in.hyps(4) by (intro swap_holds_release[OF IH back_in.hyps(2)]) auto
next
  case (clear s H i s')
  then have IH: "swap_holds s0 s H" by blast
  from vm_clear_swap_slot_used[OF swap_holds_used[OF IH clear.hyps(2)]]
  show ?case
    using clear.hyps(3) by (intro swap_holds_release[OF IH clear.hyps(2)]) auto
qed


definition demo_swap :: swap where
  "demo_swap = \<lparr>swap_device = \<lparr>blk_name = ''hdb'', blk_type = BLOCK_SWAP, blk_size = 16,
       medium = (\<lambda>_. replicate 512 0), read_cnt = 0, write_cnt = 0\<rparr>,
     swap_map = \<lparr>bit_cnt = 2, bits = [3]\<rparr>\<rparr>"

lemma demo_swap_wf: "swap_wf demo_swap"
  by (simp add: demo_swap_def swap_wf_def block_wf_def bitmap_wf_def swap_size_in_page_def
      block_size_def SECTORS_PER_PAGE_eq BLOCK_SECTOR_SIZE_def elem_cnt_def ELEM_BITS_def)

lemma demo_swap_free: "0 \<in> free_slots demo_swap"
  by (simp add: demo_swap_def free_bits_def nth_bits_of)


end
