(* ===== verification/Klist.thy ===== *)
theory Klist
  imports Prelude
begin

section \<open>Doubly linked lists: links and basic operations\<close>

text \<open>
  The intrusive doubly linked lists of src/pintos/src/lib/kernel/list.c at the level of
  their pointers. Memory is one map per field of \<open>struct list_elem\<close>, from the addresses at
  which a \<open>struct list_elem\<close> lives to the pointer stored there; a \<open>struct list\<close> at address \<open>l\<close>
  consists of the two elements \<open>head\<close> at \<open>l\<close> and \<open>tail\<close> at \<open>l + 8\<close>. Dereferencing a null
  pointer, or an address at which no element lives, has no result.

  \<open>dll \<sigma> l xs\<close> says that the list at \<open>l\<close> holds exactly the elements \<open>xs\<close>, in this order.
  Every operation of this theory is shown to transform \<open>dll\<close> like the corresponding function
  on HOL lists and to leave all other memory alone. The operations with a comparison function are
  in the theory \<open>Klist_Sort\<close>.
\<close>

type_synonym ptr = u32

definition NULL :: ptr where
  "NULL = 0"

record links =
  prevs :: "ptr \<rightharpoonup> ptr"
  nexts :: "ptr \<rightharpoonup> ptr"

definition head_of :: "ptr \<Rightarrow> ptr" where
  "head_of l = l"

definition tail_of :: "ptr \<Rightarrow> ptr" where
  "tail_of l = l + 8"

subsection \<open>Loads and stores\<close>

definition get_prev :: "ptr \<Rightarrow> links \<Rightarrow> ptr option" where
  "get_prev e \<sigma> = do { ASSERT (e \<noteq> NULL); prevs \<sigma> e }"

definition get_next :: "ptr \<Rightarrow> links \<Rightarrow> ptr option" where
  "get_next e \<sigma> = do { ASSERT (e \<noteq> NULL); nexts \<sigma> e }"

definition put_prev :: "ptr \<Rightarrow> ptr \<Rightarrow> links \<Rightarrow> links option" where
  "put_prev e p \<sigma> = do { _ \<leftarrow> get_prev e \<sigma>; Some (\<sigma>\<lparr>prevs := (prevs \<sigma>)(e \<mapsto> p)\<rparr>) }"

definition put_next :: "ptr \<Rightarrow> ptr \<Rightarrow> links \<Rightarrow> links option" where
  "put_next e n \<sigma> = do { _ \<leftarrow> get_next e \<sigma>; Some (\<sigma>\<lparr>nexts := (nexts \<sigma>)(e \<mapsto> n)\<rparr>) }"

subsection \<open>The operations\<close>

definition is_head :: "ptr \<Rightarrow> links \<Rightarrow> bool option" where
  "is_head e \<sigma> = (if e = NULL then Some False
     else do { p \<leftarrow> get_prev e \<sigma>;
               if p \<noteq> NULL then Some False
               else do { n \<leftarrow> get_next e \<sigma>; Some (n \<noteq> NULL) } })"

definition is_interior :: "ptr \<Rightarrow> links \<Rightarrow> bool option" where
  "is_interior e \<sigma> = (if e = NULL then Some False
     else do { p \<leftarrow> get_prev e \<sigma>;
               if p = NULL then Some False
               else do { n \<leftarrow> get_next e \<sigma>; Some (n \<noteq> NULL) } })"

definition is_tail :: "ptr \<Rightarrow> links \<Rightarrow> bool option" where
  "is_tail e \<sigma> = (if e = NULL then Some False
     else do { p \<leftarrow> get_prev e \<sigma>;
               if p = NULL then Some False
               else do { n \<leftarrow> get_next e \<sigma>; Some (n = NULL) } })"

definition list_init :: "ptr \<Rightarrow> links \<Rightarrow> links option" where
  "list_init l \<sigma> = do {
     ASSERT (l \<noteq> NULL);
     \<sigma> \<leftarrow> put_prev (head_of l) NULL \<sigma>;
     \<sigma> \<leftarrow> put_next (head_of l) (tail_of l) \<sigma>;
     \<sigma> \<leftarrow> put_prev (tail_of l) (head_of l) \<sigma>;
     put_next (tail_of l) NULL \<sigma>
   }"

definition list_begin :: "ptr \<Rightarrow> links \<Rightarrow> ptr option" where
  "list_begin l \<sigma> = do { ASSERT (l \<noteq> NULL); get_next (head_of l) \<sigma> }"

definition list_next :: "ptr \<Rightarrow> links \<Rightarrow> ptr option" where
  "list_next e \<sigma> = do {
     h \<leftarrow> is_head e \<sigma>;
     ok \<leftarrow> (if h then Some True else is_interior e \<sigma>);
     ASSERT ok;
     get_next e \<sigma>
   }"

definition list_end :: "ptr \<Rightarrow> ptr option" where
  "list_end l = do { ASSERT (l \<noteq> NULL); Some (tail_of l) }"

definition list_rbegin :: "ptr \<Rightarrow> links \<Rightarrow> ptr option" where
  "list_rbegin l \<sigma> = do { ASSERT (l \<noteq> NULL); get_prev (tail_of l) \<sigma> }"

text \<open>The assertion shared by \<open>list_prev\<close>, \<open>list_insert\<close> and \<open>list_splice\<close>.\<close>

definition interior_or_tail :: "ptr \<Rightarrow> links \<Rightarrow> bool option" where
  "interior_or_tail e \<sigma> = do {
     i \<leftarrow> is_interior e \<sigma>;
     if i then Some True else is_tail e \<sigma>
   }"

definition list_prev :: "ptr \<Rightarrow> links \<Rightarrow> ptr option" where
  "list_prev e \<sigma> = do { ok \<leftarrow> interior_or_tail e \<sigma>; ASSERT ok; get_prev e \<sigma> }"

definition list_rend :: "ptr \<Rightarrow> ptr option" where
  "list_rend l = do { ASSERT (l \<noteq> NULL); Some (head_of l) }"

definition list_head :: "ptr \<Rightarrow> ptr option" where
  "list_head l = do { ASSERT (l \<noteq> NULL); Some (head_of l) }"

definition list_tail :: "ptr \<Rightarrow> ptr option" where
  "list_tail l = do { ASSERT (l \<noteq> NULL); Some (tail_of l) }"

definition list_insert :: "ptr \<Rightarrow> ptr \<Rightarrow> links \<Rightarrow> links option" where
  "list_insert before e \<sigma> = do {
     ok \<leftarrow> interior_or_tail before \<sigma>;
     ASSERT ok;
     ASSERT (e \<noteq> NULL);
     p \<leftarrow> get_prev before \<sigma>;
     \<sigma> \<leftarrow> put_prev e p \<sigma>;
     \<sigma> \<leftarrow> put_next e before \<sigma>;
     p \<leftarrow> get_prev before \<sigma>;
     \<sigma> \<leftarrow> put_next p e \<sigma>;
     put_prev before e \<sigma>
   }"

definition list_splice :: "ptr \<Rightarrow> ptr \<Rightarrow> ptr \<Rightarrow> links \<Rightarrow> links option" where
  "list_splice before first lst \<sigma> = do {
     ok \<leftarrow> interior_or_tail before \<sigma>;
     ASSERT ok;
     if first = lst then Some \<sigma>
     else do {
       lst \<leftarrow> list_prev lst \<sigma>;
       i \<leftarrow> is_interior first \<sigma>;
       ASSERT i;
       i \<leftarrow> is_interior lst \<sigma>;
       ASSERT i;
       p \<leftarrow> get_prev first \<sigma>;
       n \<leftarrow> get_next lst \<sigma>;
       \<sigma> \<leftarrow> put_next p n \<sigma>;
       n \<leftarrow> get_next lst \<sigma>;
       p \<leftarrow> get_prev first \<sigma>;
       \<sigma> \<leftarrow> put_prev n p \<sigma>;
       p \<leftarrow> get_prev before \<sigma>;
       \<sigma> \<leftarrow> put_prev first p \<sigma>;
       \<sigma> \<leftarrow> put_next lst before \<sigma>;
       p \<leftarrow> get_prev before \<sigma>;
       \<sigma> \<leftarrow> put_next p first \<sigma>;
       put_prev before lst \<sigma>
     }
   }"

definition list_push_front :: "ptr \<Rightarrow> ptr \<Rightarrow> links \<Rightarrow> links option" where
  "list_push_front l e \<sigma> = do { b \<leftarrow> list_begin l \<sigma>; list_insert b e \<sigma> }"

definition list_push_back :: "ptr \<Rightarrow> ptr \<Rightarrow> links \<Rightarrow> links option" where
  "list_push_back l e \<sigma> = do { b \<leftarrow> list_end l; list_insert b e \<sigma> }"

definition list_remove :: "ptr \<Rightarrow> links \<Rightarrow> (ptr \<times> links) option" where
  "list_remove e \<sigma> = do {
     i \<leftarrow> is_interior e \<sigma>;
     ASSERT i;
     p \<leftarrow> get_prev e \<sigma>;
     n \<leftarrow> get_next e \<sigma>;
     \<sigma> \<leftarrow> put_next p n \<sigma>;
     n \<leftarrow> get_next e \<sigma>;
     p \<leftarrow> get_prev e \<sigma>;
     \<sigma> \<leftarrow> put_prev n p \<sigma>;
     n \<leftarrow> get_next e \<sigma>;
     Some (n, \<sigma>)
   }"

definition list_empty :: "ptr \<Rightarrow> links \<Rightarrow> bool option" where
  "list_empty l \<sigma> = do { b \<leftarrow> list_begin l \<sigma>; e \<leftarrow> list_end l; Some (b = e) }"

definition list_front :: "ptr \<Rightarrow> links \<Rightarrow> ptr option" where
  "list_front l \<sigma> = do { m \<leftarrow> list_empty l \<sigma>; ASSERT (\<not> m); get_next (head_of l) \<sigma> }"

definition list_back :: "ptr \<Rightarrow> links \<Rightarrow> ptr option" where
  "list_back l \<sigma> = do { m \<leftarrow> list_empty l \<sigma>; ASSERT (\<not> m); get_prev (tail_of l) \<sigma> }"

definition list_pop_front :: "ptr \<Rightarrow> links \<Rightarrow> (ptr \<times> links) option" where
  "list_pop_front l \<sigma> = do {
     front \<leftarrow> list_front l \<sigma>;
     (_, \<sigma>) \<leftarrow> list_remove front \<sigma>;
     Some (front, \<sigma>)
   }"

definition list_pop_back :: "ptr \<Rightarrow> links \<Rightarrow> (ptr \<times> links) option" where
  "list_pop_back l \<sigma> = do {
     back \<leftarrow> list_back l \<sigma>;
     (_, \<sigma>) \<leftarrow> list_remove back \<sigma>;
     Some (back, \<sigma>)
   }"

text \<open>The loop of \<open>list_size\<close> from element \<open>e\<close> on.\<close>

partial_function (option) list_size_loop :: "ptr \<Rightarrow> u32 \<Rightarrow> ptr \<Rightarrow> links \<Rightarrow> u32 option" where
  "list_size_loop e cnt l \<sigma> = do {
     fin \<leftarrow> list_end l;
     if e = fin then Some cnt
     else do { e' \<leftarrow> list_next e \<sigma>; list_size_loop e' (cnt + 1) l \<sigma> }
   }"

definition list_size :: "ptr \<Rightarrow> links \<Rightarrow> u32 option" where
  "list_size l \<sigma> = do { b \<leftarrow> list_begin l \<sigma>; list_size_loop b 0 l \<sigma> }"

text \<open>The loop of \<open>list_reverse\<close>: \<open>swap (&e->prev, &e->next)\<close>, then \<open>e = e->prev\<close>.\<close>

partial_function (option) list_reverse_loop :: "ptr \<Rightarrow> ptr \<Rightarrow> links \<Rightarrow> links option" where
  "list_reverse_loop e l \<sigma> = do {
     fin \<leftarrow> list_end l;
     if e = fin then Some \<sigma>
     else do {
       p \<leftarrow> get_prev e \<sigma>;
       n \<leftarrow> get_next e \<sigma>;
       \<sigma> \<leftarrow> put_prev e n \<sigma>;
       \<sigma> \<leftarrow> put_next e p \<sigma>;
       e' \<leftarrow> get_prev e \<sigma>;
       list_reverse_loop e' l \<sigma>
     }
   }"

definition list_reverse :: "ptr \<Rightarrow> links \<Rightarrow> links option" where
  "list_reverse l \<sigma> = do {
     m \<leftarrow> list_empty l \<sigma>;
     if m then Some \<sigma>
     else do {
       b \<leftarrow> list_begin l \<sigma>;
       \<sigma> \<leftarrow> list_reverse_loop b l \<sigma>;
       n \<leftarrow> get_next (head_of l) \<sigma>;
       p \<leftarrow> get_prev (tail_of l) \<sigma>;
       \<sigma> \<leftarrow> put_next (head_of l) p \<sigma>;
       \<sigma> \<leftarrow> put_prev (tail_of l) n \<sigma>;
       a \<leftarrow> get_next (head_of l) \<sigma>;
       z \<leftarrow> get_prev (tail_of l) \<sigma>;
       p \<leftarrow> get_prev a \<sigma>;
       n \<leftarrow> get_next z \<sigma>;
       \<sigma> \<leftarrow> put_prev a n \<sigma>;
       put_next z p \<sigma>
     }
   }"

subsection \<open>Paths through memory\<close>

fun path :: "(ptr \<rightharpoonup> ptr) \<Rightarrow> ptr list \<Rightarrow> bool" where
  "path f [] = True"
| "path f [a] = True"
| "path f (a # b # ps) = (f a = Some b \<and> path f (b # ps))"

lemma path_append: "path f (xs @ a # ys) \<longleftrightarrow> path f (xs @ [a]) \<and> path f (a # ys)"
  by (induction f xs rule: path.induct) (cases ys; auto)+

lemma path_mid [simp]:
  "path f (xs @ a # b # ys) \<longleftrightarrow> path f (xs @ [a]) \<and> f a = Some b \<and> path f (b # ys)"
  by (subst path_append) simp

lemma path_mid_Cons [simp]:
  "path f (c # xs @ a # b # ys) \<longleftrightarrow> path f (c # xs @ [a]) \<and> f a = Some b \<and> path f (b # ys)"
  using path_mid[of f "c # xs"] by simp

lemma path_cong: "(\<And>p. p \<in> set (butlast ps) \<Longrightarrow> f p = g p) \<Longrightarrow> path f ps = path g ps"
  by (induction f ps rule: path.induct) auto

lemma path_upd [simp]: "a \<notin> set (butlast ps) \<Longrightarrow> path (f(a \<mapsto> v)) ps = path f ps"
  by (rule path_cong) auto

lemma path_defined: "path f ps \<Longrightarrow> p \<in> set (butlast ps) \<Longrightarrow> f p \<noteq> None"
  by (induction f ps rule: path.induct) (auto split: if_splits)

subsection \<open>Abstraction to HOL lists\<close>

text \<open>The elements \<open>ps\<close>, headers included, are linked in both directions and end in null.\<close>

definition chain :: "links \<Rightarrow> ptr list \<Rightarrow> bool" where
  "chain \<sigma> ps \<longleftrightarrow> distinct (NULL # ps) \<and> path (nexts \<sigma>) (ps @ [NULL]) \<and> path (prevs \<sigma>) (rev ps @ [NULL])"

definition cells :: "ptr \<Rightarrow> ptr list \<Rightarrow> ptr list" where
  "cells l xs = head_of l # xs @ [tail_of l]"

definition dll :: "links \<Rightarrow> ptr \<Rightarrow> ptr list \<Rightarrow> bool" where
  "dll \<sigma> l xs \<longleftrightarrow> chain \<sigma> (cells l xs)"

definition allocated :: "links \<Rightarrow> ptr \<Rightarrow> bool" where
  "allocated \<sigma> e \<longleftrightarrow> e \<noteq> NULL \<and> prevs \<sigma> e \<noteq> None \<and> nexts \<sigma> e \<noteq> None"

text \<open>\<open>\<sigma>'\<close> differs from \<open>\<sigma>\<close> at most in the elements \<open>S\<close>, and the same elements live in both.\<close>

definition frame :: "ptr set \<Rightarrow> links \<Rightarrow> links \<Rightarrow> bool" where
  "frame S \<sigma> \<sigma>' \<longleftrightarrow>
     (\<forall>p. p \<notin> S \<longrightarrow> nexts \<sigma>' p = nexts \<sigma> p \<and> prevs \<sigma>' p = prevs \<sigma> p) \<and>
     dom (nexts \<sigma>') = dom (nexts \<sigma>) \<and> dom (prevs \<sigma>') = dom (prevs \<sigma>)"

lemma frame_refl [simp]: "frame S \<sigma> \<sigma>"
  by (simp add: frame_def)

lemma frame_trans: "frame S \<sigma> \<sigma>' \<Longrightarrow> frame S \<sigma>' \<sigma>'' \<Longrightarrow> frame S \<sigma> \<sigma>''"
  by (simp add: frame_def)

lemma frame_mono: "frame S \<sigma> \<sigma>' \<Longrightarrow> S \<subseteq> T \<Longrightarrow> frame T \<sigma> \<sigma>'"
  unfolding frame_def by blast

lemma allocated_frame: "frame S \<sigma> \<sigma>' \<Longrightarrow> allocated \<sigma>' e = allocated \<sigma> e"
  unfolding frame_def allocated_def by (metis domIff)

lemma chain_frame:
  assumes "chain \<sigma> ps" "frame S \<sigma> \<sigma>'" "S \<inter> set ps = {}"
  shows "chain \<sigma>' ps"
proof -
  have "nexts \<sigma>' p = nexts \<sigma> p \<and> prevs \<sigma>' p = prevs \<sigma> p" if "p \<in> set ps" for p
    using assms(2,3) that unfolding frame_def by blast
  then show ?thesis
    using assms(1) path_cong[of "ps @ [NULL]" "nexts \<sigma>'" "nexts \<sigma>"]
      path_cong[of "rev ps @ [NULL]" "prevs \<sigma>'" "prevs \<sigma>"]
    by (simp add: chain_def)
qed

lemma dll_frame: "dll \<sigma> l xs \<Longrightarrow> frame S \<sigma> \<sigma>' \<Longrightarrow> S \<inter> set (cells l xs) = {} \<Longrightarrow> dll \<sigma>' l xs"
  unfolding dll_def by (rule chain_frame)

lemma chain_allocated: "chain \<sigma> ps \<Longrightarrow> p \<in> set ps \<Longrightarrow> allocated \<sigma> p"
  unfolding chain_def allocated_def
  using path_defined[of "nexts \<sigma>" "ps @ [NULL]" p] path_defined[of "prevs \<sigma>" "rev ps @ [NULL]" p] by auto

lemma chain_distinct: "chain \<sigma> ps \<Longrightarrow> distinct (NULL # ps)"
  by (simp add: chain_def)

lemma chain_link:
  assumes "chain \<sigma> (us @ a # b # vs)"
  shows "nexts \<sigma> a = Some b" "prevs \<sigma> b = Some a" "a \<noteq> NULL" "b \<noteq> NULL" "a \<noteq> b"
  using assms by (auto simp: chain_def)

text \<open>An element with a successor is a head or interior, one with a predecessor interior or a tail.\<close>

lemma chain_pred_ex: "chain \<sigma> ps \<Longrightarrow> p \<in> set ps \<Longrightarrow> \<exists>q. prevs \<sigma> p = Some q"
  using chain_allocated[of \<sigma> ps p] by (auto simp: allocated_def)

lemma chain_succ_ex: "chain \<sigma> ps \<Longrightarrow> p \<in> set ps \<Longrightarrow> \<exists>q. nexts \<sigma> p = Some q"
  using chain_allocated[of \<sigma> ps p] by (auto simp: allocated_def)

lemmas access_defs = get_prev_def get_next_def put_prev_def put_next_def

lemma list_next_chain:
  assumes "chain \<sigma> (us @ a # b # vs)"
  shows "list_next a \<sigma> = Some b"
  using chain_link[OF assms] chain_pred_ex[OF assms, of a]
  by (auto simp: list_next_def is_head_def is_interior_def access_defs)

lemma interior_or_tail_chain:
  assumes "chain \<sigma> (us @ a # b # vs)"
  shows "interior_or_tail b \<sigma> = Some True"
  using chain_link[OF assms] chain_succ_ex[OF assms, of b]
  by (auto simp: interior_or_tail_def is_tail_def is_interior_def access_defs)

lemma list_prev_chain:
  assumes "chain \<sigma> (us @ a # b # vs)"
  shows "list_prev b \<sigma> = Some a"
  using interior_or_tail_chain[OF assms] chain_link[OF assms]
  by (auto simp: list_prev_def access_defs)

lemma is_interior_chain:
  assumes "chain \<sigma> (us @ a # b # c # vs)"
  shows "is_interior b \<sigma> = Some True"
  using chain_link[OF assms] chain_link[of \<sigma> "us @ [a]" b c vs] assms
  by (simp add: is_interior_def access_defs)

lemma list_insert_chain:
  assumes ch: "chain \<sigma> (us @ p # b # vs)" and e: "e \<notin> set (us @ p # b # vs)" "allocated \<sigma> e"
  shows "\<exists>\<sigma>'. list_insert b e \<sigma> = Some \<sigma>' \<and> chain \<sigma>' (us @ p # e # b # vs) \<and> frame {p, e, b} \<sigma> \<sigma>'"
proof -
  let ?\<sigma> = "\<sigma>\<lparr>nexts := (nexts \<sigma>)(e \<mapsto> b, p \<mapsto> e), prevs := (prevs \<sigma>)(e \<mapsto> p, b \<mapsto> e)\<rparr>"
  note lk = chain_link[OF ch] and al = chain_allocated[OF ch]
  have neq: "e \<noteq> NULL" "e \<noteq> p" "e \<noteq> b" using e by (auto simp: allocated_def)
  have "list_insert b e \<sigma> = Some ?\<sigma>"
    using lk neq e al[of p] al[of b]
    by (auto simp: list_insert_def interior_or_tail_chain[OF ch] access_defs allocated_def)
  moreover have "chain ?\<sigma> (us @ p # e # b # vs)"
    using ch e neq by (auto simp: chain_def)
  moreover have "frame {p, e, b} \<sigma> ?\<sigma>"
    using lk e al[of p] al[of b] by (auto simp: frame_def allocated_def)
  ultimately show ?thesis by blast
qed

lemma list_remove_chain:
  assumes ch: "chain \<sigma> (us @ p # e # n # vs)"
  shows "\<exists>\<sigma>'. list_remove e \<sigma> = Some (n, \<sigma>') \<and> chain \<sigma>' (us @ p # n # vs) \<and> frame {p, n} \<sigma> \<sigma>'"
proof -
  let ?\<sigma> = "\<sigma>\<lparr>nexts := (nexts \<sigma>)(p \<mapsto> n), prevs := (prevs \<sigma>)(n \<mapsto> p)\<rparr>"
  have ch': "chain \<sigma> ((us @ [p]) @ e # n # vs)" using ch by simp
  note lk = chain_link[OF ch] chain_link[OF ch']
  have "p \<noteq> n" using ch by (auto simp: chain_def)
  then have "list_remove e \<sigma> = Some (n, ?\<sigma>)"
    using lk by (auto simp: list_remove_def is_interior_chain[OF ch] access_defs)
  moreover have "chain ?\<sigma> (us @ p # n # vs)"
    using ch by (auto simp: chain_def)
  moreover have "frame {p, n} \<sigma> ?\<sigma>"
    using lk by (auto simp: frame_def)
  ultimately show ?thesis by blast
qed

subsection \<open>Splicing\<close>

text \<open>The same facts for a chain cut into non-empty segments.\<close>

lemma path_join:
  assumes "xs \<noteq> []" "ys \<noteq> []"
  shows "path f (xs @ ys) \<longleftrightarrow> path f xs \<and> f (last xs) = Some (hd ys) \<and> path f ys"
proof -
  obtain xs' a where "xs = xs' @ [a]" using assms(1) by (metis append_butlast_last_id)
  moreover obtain b ys' where "ys = b # ys'" using assms(2) by (cases ys) auto
  ultimately show ?thesis by simp
qed

lemma last_notin_butlast: "distinct xs \<Longrightarrow> xs \<noteq> [] \<Longrightarrow> last xs \<notin> set (butlast xs)"
  by (metis append_butlast_last_id distinct_butlast not_distinct_conv_prefix)

lemma chain_join:
  assumes "chain \<sigma> (xs @ ys)" "xs \<noteq> []" "ys \<noteq> []"
  shows "nexts \<sigma> (last xs) = Some (hd ys)" "prevs \<sigma> (hd ys) = Some (last xs)"
    and "interior_or_tail (hd ys) \<sigma> = Some True" "list_prev (hd ys) \<sigma> = Some (last xs)"
    and "list_next (last xs) \<sigma> = Some (hd ys)"
proof -
  obtain xs' a where "xs = xs' @ [a]" using assms(2) by (metis append_butlast_last_id)
  moreover obtain b ys' where "ys = b # ys'" using assms(3) by (cases ys) auto
  ultimately have "chain \<sigma> (xs' @ last xs # hd ys # tl ys)" using assms(1) by simp
  from chain_link[OF this] interior_or_tail_chain[OF this] list_prev_chain[OF this] list_next_chain[OF this]
  show "nexts \<sigma> (last xs) = Some (hd ys)" "prevs \<sigma> (hd ys) = Some (last xs)"
    "interior_or_tail (hd ys) \<sigma> = Some True" "list_prev (hd ys) \<sigma> = Some (last xs)"
    "list_next (last xs) \<sigma> = Some (hd ys)" by simp_all
qed

lemma is_interior_join:
  assumes "chain \<sigma> (xs @ ys @ zs)" "xs \<noteq> []" "zs \<noteq> []" "y \<in> set ys"
  shows "is_interior y \<sigma> = Some True"
proof -
  obtain us vs where ys: "ys = us @ y # vs" using assms(4) split_list by metis
  have "chain \<sigma> ((xs @ us) @ (y # vs @ zs))" "chain \<sigma> ((xs @ us @ [y]) @ (vs @ zs))"
    using assms(1) ys by simp_all
  from chain_join(2)[OF this(1)] chain_join(1)[OF this(2)]
  have "prevs \<sigma> y = Some (last (xs @ us))" "nexts \<sigma> y = Some (hd (vs @ zs))"
    using assms(2,3) by simp_all
  moreover have "last (xs @ us) \<in> set (xs @ us)" "hd (vs @ zs) \<in> set (vs @ zs)"
    using assms(2,3) by (meson append_is_Nil_conv last_in_set hd_in_set)+
  moreover have "NULL \<notin> set (xs @ us)" "NULL \<notin> set (vs @ zs)" "y \<noteq> NULL"
    using assms(1) ys by (auto simp: chain_def)
  ultimately show ?thesis by (auto simp: is_interior_def access_defs)
qed

text \<open>Exchanging two adjacent segments \<open>xs\<close> and \<open>fs\<close> of a chain takes six assignments.\<close>

definition exchange :: "ptr list \<Rightarrow> ptr list \<Rightarrow> ptr list \<Rightarrow> ptr list \<Rightarrow> links \<Rightarrow> links" where
  "exchange as xs fs ds \<sigma> =
     \<sigma>\<lparr>nexts := (nexts \<sigma>)(last xs \<mapsto> hd ds, last fs \<mapsto> hd xs, last as \<mapsto> hd fs),
       prevs := (prevs \<sigma>)(hd ds \<mapsto> last xs, hd fs \<mapsto> last as, hd xs \<mapsto> last fs)\<rparr>"

lemma path_exchange:
  assumes p: "path f (as @ xs @ fs @ ds)" and d: "distinct (as @ xs @ fs)" "set (as @ xs @ fs) \<inter> set (butlast ds) = {}"
    and ne: "as \<noteq> []" "xs \<noteq> []" "fs \<noteq> []" "ds \<noteq> []"
  shows "path (f(last xs \<mapsto> hd ds, last fs \<mapsto> hd xs, last as \<mapsto> hd fs)) (as @ fs @ xs @ ds)" (is "path ?g _")
proof -
  have ends: "last as \<in> set as" "last xs \<in> set xs" "last fs \<in> set fs"
    using ne by simp_all
  have dis: "set as \<inter> set xs = {}" "set as \<inter> set fs = {}" "set xs \<inter> set fs = {}"
      "distinct as" "distinct xs" "distinct fs" using d(1) by auto
  have neq: "last as \<noteq> last xs" "last as \<noteq> last fs" "last xs \<noteq> last fs"
    using ends dis by (metis disjoint_iff)+
  have keep: "path ?g zs \<longleftrightarrow> path f zs" if "set (butlast zs) \<inter> {last as, last xs, last fs} = {}" for zs
    using that by (intro path_cong) auto
  have "set (butlast as) \<inter> {last as, last xs, last fs} = {}"
    using last_notin_butlast[of as] in_set_butlastD[of _ as] ends ne dis by blast
  moreover have "set (butlast xs) \<inter> {last as, last xs, last fs} = {}"
    using last_notin_butlast[of xs] in_set_butlastD[of _ xs] ends ne dis by blast
  moreover have "set (butlast fs) \<inter> {last as, last xs, last fs} = {}"
    using last_notin_butlast[of fs] in_set_butlastD[of _ fs] ends ne dis by blast
  moreover have "set (butlast ds) \<inter> {last as, last xs, last fs} = {}"
    using ends d(2) unfolding set_append by blast
  ultimately show ?thesis
    using p ne neq by (simp add: path_join keep)
qed

lemma chain_exchange:
  assumes ch: "chain \<sigma> (as @ xs @ fs @ ds)" and ne: "as \<noteq> []" "xs \<noteq> []" "fs \<noteq> []" "ds \<noteq> []"
  shows "chain (exchange as xs fs ds \<sigma>) (as @ fs @ xs @ ds)"
    and "frame {last as, hd xs, last xs, hd fs, last fs, hd ds} \<sigma> (exchange as xs fs ds \<sigma>)"
proof -
  have ends: "last as \<in> set as" "hd xs \<in> set xs" "last xs \<in> set xs" "hd fs \<in> set fs" "last fs \<in> set fs"
      "hd ds \<in> set ds" using ne by simp_all
  have d: "distinct (as @ xs @ fs @ ds)" "NULL \<notin> set (as @ xs @ fs @ ds)"
    using ch by (simp_all add: chain_def)
  have n: "path (nexts \<sigma>) (as @ xs @ fs @ (ds @ [NULL]))"
    using ch by (simp add: chain_def)
  have p: "path (prevs \<sigma>) (rev ds @ rev fs @ rev xs @ (rev as @ [NULL]))"
    using ch by (simp add: chain_def)
  have "path (nexts (exchange as xs fs ds \<sigma>)) (as @ fs @ xs @ (ds @ [NULL]))"
    using path_exchange[OF n] d ne by (auto simp: exchange_def)
  moreover have "path (prevs (exchange as xs fs ds \<sigma>)) (rev ds @ rev xs @ rev fs @ (rev as @ [NULL]))"
  proof -
    have "set ds \<inter> set xs = {}" "set ds \<inter> set fs = {}" "set xs \<inter> set fs = {}" using d(1) by auto
    then have "hd ds \<noteq> hd xs" "hd ds \<noteq> hd fs" "hd xs \<noteq> hd fs"
      using ends by (metis disjoint_iff)+
    then have upd: "prevs (exchange as xs fs ds \<sigma>) =
        (prevs \<sigma>)(last (rev fs) \<mapsto> hd (rev as @ [NULL]), last (rev xs) \<mapsto> hd (rev fs), last (rev ds) \<mapsto> hd (rev xs))"
      using ne by (auto simp: exchange_def last_rev hd_rev fun_eq_iff)
    show ?thesis
      unfolding upd by (rule path_exchange[OF p]) (use d ne in auto)
  qed
  ultimately show "chain (exchange as xs fs ds \<sigma>) (as @ fs @ xs @ ds)"
    using d by (auto simp: chain_def)
  show "frame {last as, hd xs, last xs, hd fs, last fs, hd ds} \<sigma> (exchange as xs fs ds \<sigma>)"
    using chain_allocated[OF ch] ends by (auto simp: frame_def exchange_def allocated_def)
qed

lemma list_splice_exchange:
  assumes ch: "chain \<sigma> (as @ xs @ fs @ ds)" and ne: "as \<noteq> []" "xs \<noteq> []" "fs \<noteq> []" "ds \<noteq> []"
  shows "list_splice (hd xs) (hd fs) (hd ds) \<sigma> = Some (exchange as xs fs ds \<sigma>)"
    and "list_splice (hd ds) (hd xs) (hd fs) \<sigma> = Some (exchange as xs fs ds \<sigma>)"
proof -
  have b1: "chain \<sigma> (as @ (xs @ fs @ ds))" and b2: "chain \<sigma> ((as @ xs) @ (fs @ ds))"
    and b3: "chain \<sigma> ((as @ xs @ fs) @ ds)" using ch by simp_all
  note j = chain_join[OF b1] chain_join[OF b2] chain_join[OF b3]
  have ends: "last as \<in> set as" "hd xs \<in> set xs" "last xs \<in> set xs" "hd fs \<in> set fs" "last fs \<in> set fs"
      "hd ds \<in> set ds" using ne by simp_all
  have "is_interior p \<sigma> = Some True" if "p \<in> set xs \<or> p \<in> set fs" for p
    using is_interior_join[of \<sigma> as "xs @ fs" ds p] ch ne that by auto
  with ends have int: "is_interior (hd xs) \<sigma> = Some True" "is_interior (last xs) \<sigma> = Some True"
      "is_interior (hd fs) \<sigma> = Some True" "is_interior (last fs) \<sigma> = Some True" by blast+
  have dis: "set as \<inter> set xs = {}" "set as \<inter> set fs = {}" "set as \<inter> set ds = {}" "set xs \<inter> set fs = {}"
      "set xs \<inter> set ds = {}" "set fs \<inter> set ds = {}" using ch by (auto simp: chain_def)
  have neq: "last as \<noteq> last xs" "last as \<noteq> last fs" "last xs \<noteq> last fs" "hd xs \<noteq> hd fs" "hd xs \<noteq> hd ds" "hd fs \<noteq> hd ds"
    using ends dis by (metis disjoint_iff)+
  have nn: "last as \<noteq> NULL" "hd xs \<noteq> NULL" "last xs \<noteq> NULL" "hd fs \<noteq> NULL" "last fs \<noteq> NULL" "hd ds \<noteq> NULL"
    using ends chain_allocated[OF ch] by (auto simp: allocated_def)
  show "list_splice (hd xs) (hd fs) (hd ds) \<sigma> = Some (exchange as xs fs ds \<sigma>)"
    using j ne neq nn int by (simp add: list_splice_def access_defs exchange_def fun_upd_twist)
  show "list_splice (hd ds) (hd xs) (hd fs) \<sigma> = Some (exchange as xs fs ds \<sigma>)"
    using j ne neq nn int by (simp add: list_splice_def access_defs exchange_def fun_upd_twist)
qed

subsection \<open>The operations on a whole list\<close>

lemma dll_nonnull: "dll \<sigma> l xs \<Longrightarrow> head_of l \<noteq> NULL \<and> tail_of l \<noteq> NULL \<and> l \<noteq> NULL"
  by (auto simp: dll_def chain_def cells_def head_of_def)

lemma list_init_dll:
  assumes "allocated \<sigma> (head_of l)" "allocated \<sigma> (tail_of l)"
  shows "\<exists>\<sigma>'. list_init l \<sigma> = Some \<sigma>' \<and> dll \<sigma>' l [] \<and> frame {head_of l, tail_of l} \<sigma> \<sigma>'"
proof -
  have "head_of l \<noteq> tail_of l" by (simp add: head_of_def tail_of_def)
  then show ?thesis
    using assms by (auto simp: list_init_def access_defs dll_def chain_def cells_def frame_def allocated_def head_of_def)
qed

lemma list_begin_dll: "dll \<sigma> l xs \<Longrightarrow> list_begin l \<sigma> = Some (hd (xs @ [tail_of l]))"
  using chain_join(1)[of \<sigma> "[head_of l]" "xs @ [tail_of l]"] dll_nonnull[of \<sigma> l xs]
  by (simp add: dll_def cells_def list_begin_def access_defs)

lemma list_end_dll: "dll \<sigma> l xs \<Longrightarrow> list_end l = Some (tail_of l)"
  using dll_nonnull[of \<sigma> l xs] by (simp add: list_end_def)

lemma list_rbegin_dll: "dll \<sigma> l xs \<Longrightarrow> list_rbegin l \<sigma> = Some (last (head_of l # xs))"
  using chain_join(2)[of \<sigma> "head_of l # xs" "[tail_of l]"] dll_nonnull[of \<sigma> l xs]
  by (simp add: dll_def cells_def list_rbegin_def access_defs)

lemma dll_distinct: "dll \<sigma> l xs \<Longrightarrow> distinct (NULL # head_of l # tail_of l # xs)"
  by (auto simp: dll_def chain_def cells_def)

lemma list_empty_dll: "dll \<sigma> l xs \<Longrightarrow> list_empty l \<sigma> = Some (xs = [])"
  using dll_distinct[of \<sigma> l xs] by (cases xs) (auto simp: list_empty_def list_begin_dll list_end_dll)

lemma list_next_dll: "dll \<sigma> l (xs @ x # ys) \<Longrightarrow> list_next x \<sigma> = Some (hd (ys @ [tail_of l]))"
  using chain_join(5)[of \<sigma> "head_of l # xs @ [x]" "ys @ [tail_of l]"]
  by (simp add: dll_def cells_def)

lemma list_prev_dll: "dll \<sigma> l (xs @ ys) \<Longrightarrow> list_prev (hd (ys @ [tail_of l])) \<sigma> = Some (last (head_of l # xs))"
  using chain_join(4)[of \<sigma> "head_of l # xs" "ys @ [tail_of l]"]
  by (simp add: dll_def cells_def)

lemma list_insert_dll:
  assumes d: "dll \<sigma> l (xs @ ys)" and e: "e \<notin> set (cells l (xs @ ys))" "allocated \<sigma> e"
  shows "\<exists>\<sigma>'. list_insert (hd (ys @ [tail_of l])) e \<sigma> = Some \<sigma>' \<and> dll \<sigma>' l (xs @ e # ys) \<and>
              frame (insert e (set (cells l (xs @ ys)))) \<sigma> \<sigma>'"
proof -
  have split: "cells l (xs @ ys) = butlast (head_of l # xs) @ last (head_of l # xs) # hd (ys @ [tail_of l]) # tl (ys @ [tail_of l])"
    by (cases xs rule: rev_cases; cases ys) (simp_all add: cells_def butlast_append)
  have "chain \<sigma> (cells l (xs @ ys))" using d by (simp add: dll_def)
  from list_insert_chain[OF this[unfolded split] e(1)[unfolded split] e(2)]
  obtain \<sigma>' where \<sigma>': "list_insert (hd (ys @ [tail_of l])) e \<sigma> = Some \<sigma>'"
    "chain \<sigma>' (butlast (head_of l # xs) @ last (head_of l # xs) # e # hd (ys @ [tail_of l]) # tl (ys @ [tail_of l]))"
    "frame {last (head_of l # xs), e, hd (ys @ [tail_of l])} \<sigma> \<sigma>'" by blast
  have "butlast (head_of l # xs) @ last (head_of l # xs) # e # hd (ys @ [tail_of l]) # tl (ys @ [tail_of l]) = cells l (xs @ e # ys)"
    by (cases xs rule: rev_cases; cases ys) (simp_all add: cells_def butlast_append)
  with \<sigma>'(2) have "dll \<sigma>' l (xs @ e # ys)" by (simp only: dll_def)
  moreover have "frame (insert e (set (cells l (xs @ ys)))) \<sigma> \<sigma>'"
    by (rule frame_mono[OF \<sigma>'(3)]) (cases xs rule: rev_cases; cases ys; auto simp: cells_def)
  ultimately show ?thesis using \<sigma>'(1) by blast
qed

lemma list_push_front_dll:
  assumes "dll \<sigma> l xs" "e \<notin> set (cells l xs)" "allocated \<sigma> e"
  shows "\<exists>\<sigma>'. list_push_front l e \<sigma> = Some \<sigma>' \<and> dll \<sigma>' l (e # xs) \<and>
              frame (insert e (set (cells l xs))) \<sigma> \<sigma>'"
  using list_insert_dll[of \<sigma> l "[]" xs e] assms by (simp add: list_push_front_def list_begin_dll)

lemma list_push_back_dll:
  assumes "dll \<sigma> l xs" "e \<notin> set (cells l xs)" "allocated \<sigma> e"
  shows "\<exists>\<sigma>'. list_push_back l e \<sigma> = Some \<sigma>' \<and> dll \<sigma>' l (xs @ [e]) \<and>
              frame (insert e (set (cells l xs))) \<sigma> \<sigma>'"
  using list_insert_dll[of \<sigma> l xs "[]" e] assms by (simp add: list_push_back_def list_end_dll)

lemma list_remove_dll:
  assumes d: "dll \<sigma> l (xs @ e # ys)"
  shows "\<exists>\<sigma>'. list_remove e \<sigma> = Some (hd (ys @ [tail_of l]), \<sigma>') \<and> dll \<sigma>' l (xs @ ys) \<and>
              frame (set (cells l (xs @ ys))) \<sigma> \<sigma>'"
proof -
  let ?us = "butlast (head_of l # xs)" and ?p = "last (head_of l # xs)"
    and ?n = "hd (ys @ [tail_of l])" and ?vs = "tl (ys @ [tail_of l])"
  have "cells l (xs @ e # ys) = ?us @ ?p # e # ?n # ?vs"
    by (cases xs rule: rev_cases; cases ys) (simp_all add: cells_def butlast_append)
  with d have "chain \<sigma> (?us @ ?p # e # ?n # ?vs)" by (simp only: dll_def)
  from list_remove_chain[OF this] obtain \<sigma>' where \<sigma>':
    "list_remove e \<sigma> = Some (?n, \<sigma>')" "chain \<sigma>' (?us @ ?p # ?n # ?vs)" "frame {?p, ?n} \<sigma> \<sigma>'" by blast
  have "?us @ ?p # ?n # ?vs = cells l (xs @ ys)"
    by (cases xs rule: rev_cases; cases ys) (simp_all add: cells_def butlast_append)
  with \<sigma>'(2) have "dll \<sigma>' l (xs @ ys)" by (simp only: dll_def)
  moreover have "frame (set (cells l (xs @ ys))) \<sigma> \<sigma>'"
    by (rule frame_mono[OF \<sigma>'(3)]) (cases xs rule: rev_cases; cases ys; auto simp: cells_def)
  ultimately show ?thesis using \<sigma>'(1) by blast
qed

lemma list_front_dll: "dll \<sigma> l (x # xs) \<Longrightarrow> list_front l \<sigma> = Some x"
  using list_begin_dll[of \<sigma> l "x # xs"] dll_nonnull[of \<sigma> l "x # xs"]
  by (simp add: list_front_def list_empty_dll list_begin_def)

lemma list_back_dll: "dll \<sigma> l (xs @ [x]) \<Longrightarrow> list_back l \<sigma> = Some x"
  using list_rbegin_dll[of \<sigma> l "xs @ [x]"] dll_nonnull[of \<sigma> l "xs @ [x]"]
  by (simp add: list_back_def list_empty_dll list_rbegin_def)

lemma list_pop_front_dll:
  assumes "dll \<sigma> l (x # xs)"
  shows "\<exists>\<sigma>'. list_pop_front l \<sigma> = Some (x, \<sigma>') \<and> dll \<sigma>' l xs \<and> frame (set (cells l xs)) \<sigma> \<sigma>'"
  using list_remove_dll[of \<sigma> l "[]" x xs] assms by (auto simp: list_pop_front_def list_front_dll)

lemma list_pop_back_dll:
  assumes "dll \<sigma> l (xs @ [x])"
  shows "\<exists>\<sigma>'. list_pop_back l \<sigma> = Some (x, \<sigma>') \<and> dll \<sigma>' l xs \<and> frame (set (cells l xs)) \<sigma> \<sigma>'"
  using list_remove_dll[of \<sigma> l xs x "[]"] assms by (auto simp: list_pop_back_def list_back_dll)

lemma list_pop_empty: "dll \<sigma> l [] \<Longrightarrow> list_pop_front l \<sigma> = None \<and> list_pop_back l \<sigma> = None"
  by (simp add: list_pop_front_def list_pop_back_def list_front_def list_back_def list_empty_dll)

text \<open>Distinct 32-bit addresses are fewer than \<open>2 ^ 32\<close>, so the counter of \<open>list_size\<close> never wraps.\<close>

lemma distinct_u32_length: "distinct (xs :: u32 list) \<Longrightarrow> length xs \<le> 4294967296"
proof -
  assume "distinct xs"
  then have "length xs = card (set xs)" by (simp add: distinct_card)
  also have "\<dots> \<le> card (UNIV :: u32 set)" by (rule card_mono) simp_all
  finally show ?thesis by (simp add: card_word)
qed

lemma dll_length: "dll \<sigma> l xs \<Longrightarrow> length xs < 4294967294"
  using distinct_u32_length[of "NULL # head_of l # tail_of l # xs"] dll_distinct[of \<sigma> l xs] by simp

lemma list_size_loop_dll:
  "dll \<sigma> l (xs @ ys) \<Longrightarrow> list_size_loop (hd (ys @ [tail_of l])) cnt l \<sigma> = Some (cnt + of_nat (length ys))"
proof (induction ys arbitrary: xs cnt)
  case Nil
  then show ?case by (subst list_size_loop.simps) (simp add: list_end_dll)
next
  case (Cons y ys)
  have "y \<noteq> tail_of l" using dll_distinct[OF Cons.prems] by auto
  then show ?case
    using Cons.IH[of "xs @ [y]" "cnt + 1"] Cons.prems
    by (subst list_size_loop.simps) (simp add: list_end_dll list_next_dll add.assoc add.commute)
qed

lemma list_size_dll:
  assumes "dll \<sigma> l xs"
  shows "\<exists>n. list_size l \<sigma> = Some n \<and> unat n = length xs"
  using list_size_loop_dll[of \<sigma> l "[]" xs 0] assms dll_length[OF assms]
  by (simp add: list_size_def list_begin_dll unat_of_nat)

subsection \<open>Reversal\<close>

text \<open>The links of the elements \<open>S\<close> exchanged.\<close>

definition flip_links :: "ptr set \<Rightarrow> links \<Rightarrow> links" where
  "flip_links S \<sigma> = \<sigma>\<lparr>nexts := (\<lambda>p. if p \<in> S then prevs \<sigma> p else nexts \<sigma> p),
                      prevs := (\<lambda>p. if p \<in> S then nexts \<sigma> p else prevs \<sigma> p)\<rparr>"

lemma flip_links_insert:
  "p \<notin> S \<Longrightarrow> flip_links S (flip_links {p} \<sigma>) = flip_links (insert p S) \<sigma>"
  by (auto simp: flip_links_def fun_eq_iff intro!: links.equality)

lemma list_reverse_loop_flip:
  assumes "path (nexts \<sigma>) (ys @ [tail_of l])" "distinct (ys @ [tail_of l])" "l \<noteq> NULL"
    and "\<forall>y \<in> set ys. allocated \<sigma> y"
  shows "list_reverse_loop (hd (ys @ [tail_of l])) l \<sigma> = Some (flip_links (set ys) \<sigma>)"
  using assms
proof (induction ys arbitrary: \<sigma>)
  case Nil
  then show ?case by (subst list_reverse_loop.simps) (simp add: list_end_def flip_links_def)
next
  case (Cons y ys)
  let ?n = "hd (ys @ [tail_of l])"
  have n: "nexts \<sigma> y = Some ?n" and tl: "path (nexts \<sigma>) (ys @ [tail_of l])"
    using Cons.prems(1) by (cases ys; simp)+
  obtain p where p: "prevs \<sigma> y = Some p" and y: "y \<noteq> NULL"
    using Cons.prems(4) by (auto simp: allocated_def)
  let ?\<sigma> = "\<sigma>\<lparr>prevs := (prevs \<sigma>)(y \<mapsto> ?n), nexts := (nexts \<sigma>)(y \<mapsto> p)\<rparr>"
  have eq: "?\<sigma> = flip_links {y} \<sigma>" using n p by (auto simp: flip_links_def fun_eq_iff)
  have "list_reverse_loop y l \<sigma> = list_reverse_loop ?n l ?\<sigma>"
    using Cons.prems(2,3) n p y by (subst list_reverse_loop.simps) (simp add: list_end_def access_defs)
  also have "\<dots> = Some (flip_links (set ys) ?\<sigma>)"
  proof (rule Cons.IH)
    show "path (nexts ?\<sigma>) (ys @ [tail_of l])" using tl Cons.prems(2) by simp
  qed (use Cons.prems in \<open>auto simp: allocated_def\<close>)
  also have "flip_links (set ys) ?\<sigma> = flip_links (set (y # ys)) \<sigma>"
    using Cons.prems(2) flip_links_insert[of y "set ys" \<sigma>] unfolding eq by simp
  finally show ?case by simp
qed

lemma path_flip:
  assumes "path f xs" "set xs \<subseteq> S"
  shows "path (\<lambda>p. if p \<in> S then f p else g p) xs"
  using assms by (subst path_cong[of xs _ f]) (auto dest: in_set_butlastD)

lemma path_ends:
  "xs \<noteq> [] \<Longrightarrow> path f (h # xs @ [t]) \<longleftrightarrow> f h = Some (hd xs) \<and> path f xs \<and> f (last xs) = Some t"
  using path_join[of "[h]" "xs @ [t]" f] path_join[of xs "[t]" f] by simp

lemma list_reverse_dll:
  assumes d: "dll \<sigma> l xs"
  shows "\<exists>\<sigma>'. list_reverse l \<sigma> = Some \<sigma>' \<and> dll \<sigma>' l (rev xs) \<and> frame (set (cells l xs)) \<sigma> \<sigma>'"
proof (cases "xs = []")
  case True
  then show ?thesis using d by (simp add: list_reverse_def list_empty_dll)
next
  case False
  let ?h = "head_of l" and ?t = "tail_of l" and ?a = "hd xs" and ?z = "last xs"
  let ?\<sigma> = "flip_links (set xs) \<sigma>"
  let ?\<sigma>' = "\<sigma>\<lparr>nexts := (nexts ?\<sigma>)(?h \<mapsto> ?z, ?a \<mapsto> ?t), prevs := (prevs ?\<sigma>)(?t \<mapsto> ?a, ?z \<mapsto> ?h)\<rparr>"
  have az: "?a \<in> set xs" "?z \<in> set xs" using False by simp_all
  have dis: "?h \<notin> set xs" "?t \<notin> set xs" "?h \<noteq> ?t" "distinct xs" "NULL \<notin> set xs" "?h \<noteq> NULL" "?t \<noteq> NULL"
    using dll_distinct[OF d] by auto
  have neq: "?a \<noteq> NULL" "?z \<noteq> NULL" "?a \<noteq> ?h" "?z \<noteq> ?h" "?a \<noteq> ?t" "?z \<noteq> ?t"
    using az dis by metis+
  have al: "\<forall>y \<in> set xs. allocated \<sigma> y"
    using chain_allocated d by (auto simp: dll_def cells_def)
  have pn: "path (nexts \<sigma>) ([?h] @ xs @ [?t, NULL])" and pp: "path (prevs \<sigma>) ([?t] @ rev xs @ [?h, NULL])"
    using d by (simp_all add: dll_def chain_def cells_def)
  have lk: "nexts \<sigma> ?h = Some ?a" "nexts \<sigma> ?z = Some ?t" "prevs \<sigma> ?t = Some ?z" "prevs \<sigma> ?a = Some ?h"
      "path (nexts \<sigma>) xs" "path (prevs \<sigma>) (rev xs)" "nexts \<sigma> ?t = Some NULL" "prevs \<sigma> ?h = Some NULL"
    using pn pp False by (simp_all add: path_ends hd_rev last_rev)
  have "path (nexts \<sigma>) (xs @ [?t])" using lk False by (simp add: path_join)
  then have loop: "list_reverse_loop ?a l \<sigma> = Some ?\<sigma>"
    using list_reverse_loop_flip[of \<sigma> xs l] al dis False dll_nonnull[OF d] by simp
  have run: "list_reverse l \<sigma> = Some ?\<sigma>'"
    using d False loop lk dis az neq dll_nonnull[OF d]
    by (auto simp: list_reverse_def list_empty_dll list_begin_dll access_defs flip_links_def)
  have pn': "path (nexts ?\<sigma>') ([?h] @ rev xs @ [?t, NULL])"
  proof -
    have "?a \<notin> set (butlast (rev xs))" "?h \<notin> set (butlast (rev xs))"
      using last_notin_butlast[of "rev xs"] dis False in_set_butlastD[of ?h "rev xs"]
      by (auto simp: last_rev simp del: butlast_rev)
    then have "path (nexts ?\<sigma>') (rev xs)"
      using path_flip[OF lk(6), of "set xs" "nexts \<sigma>"] by (simp add: flip_links_def)
    then show ?thesis using False dis az lk by (auto simp: path_ends hd_rev last_rev flip_links_def)
  qed
  have pp': "path (prevs ?\<sigma>') ([?t] @ xs @ [?h, NULL])"
  proof -
    have "?z \<notin> set (butlast xs)" "?t \<notin> set (butlast xs)"
      using last_notin_butlast[of xs] dis False by (auto dest: in_set_butlastD)
    then have "path (prevs ?\<sigma>') xs"
      using path_flip[OF lk(5), of "set xs" "prevs \<sigma>"] by (simp add: flip_links_def)
    then show ?thesis using False dis az lk by (auto simp: path_ends flip_links_def)
  qed
  have "dll ?\<sigma>' l (rev xs)"
    using pn' pp' dis by (simp add: dll_def chain_def cells_def)
  moreover have "frame (set (cells l xs)) \<sigma> ?\<sigma>'"
    using az lk al by (auto simp: frame_def flip_links_def cells_def allocated_def domIff split: if_splits)
  ultimately show ?thesis using run by blast
qed

subsection \<open>Splicing between two lists\<close>

lemma path_move:
  assumes "path f (as @ fs @ ds)" "path f (bs @ cs)" "distinct (as @ fs @ bs)"
    and "set (as @ fs @ bs) \<inter> set (butlast ds @ butlast cs) = {}"
    and ne: "as \<noteq> []" "fs \<noteq> []" "ds \<noteq> []" "bs \<noteq> []" "cs \<noteq> []"
  shows "path (f(last as \<mapsto> hd ds, last fs \<mapsto> hd cs, last bs \<mapsto> hd fs)) (as @ ds)" (is "path ?g _")
    and "path (f(last as \<mapsto> hd ds, last fs \<mapsto> hd cs, last bs \<mapsto> hd fs)) (bs @ fs @ cs)"
proof -
  have ends: "last as \<in> set as" "last fs \<in> set fs" "last bs \<in> set bs" using ne by simp_all
  have dis: "set as \<inter> set fs = {}" "set as \<inter> set bs = {}" "set fs \<inter> set bs = {}"
      "distinct as" "distinct fs" "distinct bs" using assms(3) by auto
  have neq: "last as \<noteq> last fs" "last as \<noteq> last bs" "last fs \<noteq> last bs"
    using ends dis by (metis disjoint_iff)+
  have keep: "path ?g zs \<longleftrightarrow> path f zs" if "set (butlast zs) \<inter> {last as, last fs, last bs} = {}" for zs
    using that by (intro path_cong) auto
  have "set (butlast as) \<inter> {last as, last fs, last bs} = {}"
    using last_notin_butlast[of as] in_set_butlastD[of _ as] ends ne dis by blast
  moreover have "set (butlast fs) \<inter> {last as, last fs, last bs} = {}"
    using last_notin_butlast[of fs] in_set_butlastD[of _ fs] ends ne dis by blast
  moreover have "set (butlast bs) \<inter> {last as, last fs, last bs} = {}"
    using last_notin_butlast[of bs] in_set_butlastD[of _ bs] ends ne dis by blast
  moreover have "set (butlast ds) \<inter> {last as, last fs, last bs} = {}" "set (butlast cs) \<inter> {last as, last fs, last bs} = {}"
    using ends assms(4) unfolding set_append by blast+
  ultimately show "path ?g (as @ ds)" "path ?g (bs @ fs @ cs)"
    using assms(1,2) ne neq by (simp_all add: path_join keep)
qed

lemma list_splice_move:
  assumes ch1: "chain \<sigma> (as @ fs @ ds)" and ch2: "chain \<sigma> (bs @ cs)"
    and dis: "set (as @ fs @ ds) \<inter> set (bs @ cs) = {}"
    and ne: "as \<noteq> []" "fs \<noteq> []" "ds \<noteq> []" "bs \<noteq> []" "cs \<noteq> []"
  shows "\<exists>\<sigma>'. list_splice (hd cs) (hd fs) (hd ds) \<sigma> = Some \<sigma>' \<and> chain \<sigma>' (as @ ds) \<and> chain \<sigma>' (bs @ fs @ cs)
           \<and> frame {last as, hd fs, last fs, hd ds, last bs, hd cs} \<sigma> \<sigma>'"
proof -
  let ?\<sigma> = "\<sigma>\<lparr>nexts := (nexts \<sigma>)(last as \<mapsto> hd ds, last fs \<mapsto> hd cs, last bs \<mapsto> hd fs),
              prevs := (prevs \<sigma>)(hd ds \<mapsto> last as, hd fs \<mapsto> last bs, hd cs \<mapsto> last fs)\<rparr>"
  have b1: "chain \<sigma> (as @ (fs @ ds))" and b2: "chain \<sigma> ((as @ fs) @ ds)" using ch1 by simp_all
  note j = chain_join[OF b1] chain_join[OF b2] chain_join[OF ch2]
  have ends: "last as \<in> set as" "hd fs \<in> set fs" "last fs \<in> set fs" "hd ds \<in> set ds" "last bs \<in> set bs"
      "hd cs \<in> set cs" using ne by simp_all
  have int: "is_interior (hd fs) \<sigma> = Some True" "is_interior (last fs) \<sigma> = Some True"
    using is_interior_join[OF ch1 ne(1,3)] ends by blast+
  have sets: "set as \<inter> set fs = {}" "set as \<inter> set bs = {}" "set fs \<inter> set bs = {}" "set fs \<inter> set cs = {}"
      "set fs \<inter> set ds = {}" "set cs \<inter> set ds = {}" using dis ch1 by (auto simp: chain_def)
  have neq: "last as \<noteq> last fs" "last as \<noteq> last bs" "last fs \<noteq> last bs" "hd fs \<noteq> hd ds" "hd fs \<noteq> hd cs" "hd cs \<noteq> hd ds"
    using ends sets by (metis disjoint_iff)+
  have nn: "last as \<noteq> NULL" "hd fs \<noteq> NULL" "last fs \<noteq> NULL" "hd ds \<noteq> NULL" "last bs \<noteq> NULL" "hd cs \<noteq> NULL"
    using ends chain_allocated[OF ch1] chain_allocated[OF ch2] by (auto simp: allocated_def)
  have "list_splice (hd cs) (hd fs) (hd ds) \<sigma> = Some ?\<sigma>"
    using j ne neq nn int by (simp add: list_splice_def access_defs fun_upd_twist)
  moreover have "frame {last as, hd fs, last fs, hd ds, last bs, hd cs} \<sigma> ?\<sigma>"
    using chain_allocated[OF ch1] chain_allocated[OF ch2] ends by (auto simp: frame_def allocated_def)
  moreover have "chain ?\<sigma> (as @ ds) \<and> chain ?\<sigma> (bs @ fs @ cs)"
  proof -
    have n: "path (nexts \<sigma>) (as @ fs @ (ds @ [NULL]))" "path (nexts \<sigma>) (bs @ (cs @ [NULL]))"
      and p: "path (prevs \<sigma>) (rev ds @ rev fs @ (rev as @ [NULL]))" "path (prevs \<sigma>) (rev cs @ (rev bs @ [NULL]))"
      using ch1 ch2 by (simp_all add: chain_def)
    have "path (nexts ?\<sigma>) (as @ (ds @ [NULL]))" "path (nexts ?\<sigma>) (bs @ fs @ (cs @ [NULL]))"
      using path_move[OF n] ch1 ch2 dis ne by (auto simp: chain_def)
    moreover have upd: "prevs ?\<sigma> = (prevs \<sigma>)(last (rev ds) \<mapsto> hd (rev as @ [NULL]),
        last (rev fs) \<mapsto> hd (rev bs @ [NULL]), last (rev cs) \<mapsto> hd (rev fs))"
      using ne by (simp add: last_rev hd_rev)
    have "path (prevs ?\<sigma>) (rev ds @ (rev as @ [NULL]))" "path (prevs ?\<sigma>) (rev cs @ rev fs @ (rev bs @ [NULL]))"
      unfolding upd by (rule path_move[OF p]; use ch1 ch2 dis ne in \<open>auto simp: chain_def\<close>)+
    ultimately show ?thesis using ch1 ch2 dis by (auto simp: chain_def)
  qed
  ultimately show ?thesis by blast
qed

subsection \<open>Properties\<close>

text \<open>A list at address 256 with the three elements 512, 528 and 544, and an empty one at 272.\<close>

definition demo_links :: links where
  "demo_links = \<lparr>prevs = [256 \<mapsto> 0, 512 \<mapsto> 256, 528 \<mapsto> 512, 544 \<mapsto> 528, 264 \<mapsto> 544, 272 \<mapsto> 0, 280 \<mapsto> 272],
                 nexts = [256 \<mapsto> 512, 512 \<mapsto> 528, 528 \<mapsto> 544, 544 \<mapsto> 264, 264 \<mapsto> 0, 272 \<mapsto> 280, 280 \<mapsto> 0]\<rparr>"

lemma demo_dll: "dll demo_links 256 [512, 528, 544]" "dll demo_links 272 []"
  by (simp_all add: dll_def chain_def cells_def head_of_def tail_of_def NULL_def demo_links_def)

text \<open>C12: \<open>list_reverse\<close> returns and leaves the list holding its elements in the opposite order;
  every other list is kept.\<close>

theorem list_reverse_correct:
  assumes "dll \<sigma> l xs"
  shows "\<exists>\<sigma>'. list_reverse l \<sigma> = Some \<sigma>' \<and> dll \<sigma>' l (rev xs) \<and>
           (\<forall>l' ys. dll \<sigma> l' ys \<and> set (cells l xs) \<inter> set (cells l' ys) = {} \<longrightarrow> dll \<sigma>' l' ys)"
  using list_reverse_dll[OF assms] dll_frame by blast

theorem list_reverse_correct_witness:
  "\<exists>\<sigma>'. list_reverse 256 demo_links = Some \<sigma>' \<and> dll \<sigma>' 256 [544, 528, 512]"
  using list_reverse_correct[OF demo_dll(1)] by auto

text \<open>C9: \<open>list_splice\<close> moves a segment of one list in front of an element, or the tail, of another
  list, in six assignments: the first list loses exactly the segment and the second gains it, in
  order, at that place.\<close>

theorem list_splice_between_lists:
  assumes "dll \<sigma> l (xs @ fs @ zs)" "dll \<sigma> l' (us @ vs)" "fs \<noteq> []"
    and "set (cells l (xs @ fs @ zs)) \<inter> set (cells l' (us @ vs)) = {}"
  shows "\<exists>\<sigma>'. list_splice (hd (vs @ [tail_of l'])) (hd fs) (hd (zs @ [tail_of l])) \<sigma> = Some \<sigma>' \<and>
           dll \<sigma>' l (xs @ zs) \<and> dll \<sigma>' l' (us @ fs @ vs)"
  using list_splice_move[of \<sigma> "head_of l # xs" fs "zs @ [tail_of l]" "head_of l' # us" "vs @ [tail_of l']"] assms
  by (auto simp: dll_def cells_def)

theorem list_splice_between_lists_witness:
  "\<exists>\<sigma>'. list_splice 280 528 264 demo_links = Some \<sigma>' \<and> dll \<sigma>' 256 [512] \<and> dll \<sigma>' 272 [528, 544]"
  using list_splice_between_lists[of demo_links 256 "[512]" "[528, 544]" "[]" 272 "[]" "[]"] demo_dll
  by (simp add: cells_def head_of_def tail_of_def)

end
