(* ===== verification/Klist_Sort.thy ===== *)
theory Klist_Sort
  imports Klist "HOL-Library.Multiset"
begin

section \<open>Doubly linked lists: operations with an order\<close>

text \<open>
  The second half of src/pintos/src/lib/kernel/list.c: the natural merge sort \<open>list_sort\<close>,
  \<open>list_insert_ordered\<close>, \<open>list_unique\<close>, \<open>list_max\<close> and \<open>list_min\<close>. The comparison function of
  the C code is the parameter \<open>lessf\<close>; it reads the structures around the elements, not their
  links. The lemmas take \<open>lessf\<close> to compare a key with a linear order, the general form of a strict
  weak order on the elements of a list. Every loop is shown to end.
\<close>

type_synonym list_less_func = "ptr \<Rightarrow> ptr \<Rightarrow> bool"

subsection \<open>The operations\<close>

partial_function (option) is_sorted_loop ::
    "ptr \<Rightarrow> ptr \<Rightarrow> list_less_func \<Rightarrow> links \<Rightarrow> bool option" where
  "is_sorted_loop a b lessf \<sigma> = do {
     a \<leftarrow> list_next a \<sigma>;
     if a = b then Some True
     else do {
       p \<leftarrow> list_prev a \<sigma>;
       if lessf a p then Some False else is_sorted_loop a b lessf \<sigma>
     }
   }"

definition is_sorted :: "ptr \<Rightarrow> ptr \<Rightarrow> list_less_func \<Rightarrow> links \<Rightarrow> bool option" where
  "is_sorted a b lessf \<sigma> = (if a \<noteq> b then is_sorted_loop a b lessf \<sigma> else Some True)"

partial_function (option) find_end_of_run_loop ::
    "ptr \<Rightarrow> ptr \<Rightarrow> list_less_func \<Rightarrow> links \<Rightarrow> ptr option" where
  "find_end_of_run_loop a b lessf \<sigma> = do {
     a \<leftarrow> list_next a \<sigma>;
     if a = b then Some a
     else do {
       p \<leftarrow> list_prev a \<sigma>;
       if \<not> lessf a p then find_end_of_run_loop a b lessf \<sigma> else Some a
     }
   }"

definition find_end_of_run :: "ptr \<Rightarrow> ptr \<Rightarrow> list_less_func \<Rightarrow> links \<Rightarrow> ptr option" where
  "find_end_of_run a b lessf \<sigma> = do {
     ASSERT (a \<noteq> NULL);
     ASSERT (b \<noteq> NULL);
     ASSERT (a \<noteq> b);
     find_end_of_run_loop a b lessf \<sigma>
   }"

partial_function (option) inplace_merge_loop ::
    "ptr \<Rightarrow> ptr \<Rightarrow> ptr \<Rightarrow> list_less_func \<Rightarrow> links \<Rightarrow> links option" where
  "inplace_merge_loop a0 a1b0 b1 lessf \<sigma> =
     (if a0 \<noteq> a1b0 \<and> a1b0 \<noteq> b1 then
        if \<not> lessf a1b0 a0 then do {
          a0 \<leftarrow> list_next a0 \<sigma>;
          inplace_merge_loop a0 a1b0 b1 lessf \<sigma>
        } else do {
          a1b0 \<leftarrow> list_next a1b0 \<sigma>;
          p \<leftarrow> list_prev a1b0 \<sigma>;
          \<sigma> \<leftarrow> list_splice a0 p a1b0 \<sigma>;
          inplace_merge_loop a0 a1b0 b1 lessf \<sigma>
        }
      else Some \<sigma>)"

definition inplace_merge :: "ptr \<Rightarrow> ptr \<Rightarrow> ptr \<Rightarrow> list_less_func \<Rightarrow> links \<Rightarrow> links option" where
  "inplace_merge a0 a1b0 b1 lessf \<sigma> = do {
     ASSERT (a0 \<noteq> NULL);
     ASSERT (a1b0 \<noteq> NULL);
     ASSERT (b1 \<noteq> NULL);
     s \<leftarrow> is_sorted a0 a1b0 lessf \<sigma>;
     ASSERT s;
     s \<leftarrow> is_sorted a1b0 b1 lessf \<sigma>;
     ASSERT s;
     inplace_merge_loop a0 a1b0 b1 lessf \<sigma>
   }"

text \<open>One pass of \<open>list_sort\<close>, from element \<open>a0\<close> with \<open>output_run_cnt = cnt\<close> on.\<close>

partial_function (option) list_sort_pass ::
    "ptr \<Rightarrow> u32 \<Rightarrow> ptr \<Rightarrow> list_less_func \<Rightarrow> links \<Rightarrow> (u32 \<times> links) option" where
  "list_sort_pass a0 cnt l lessf \<sigma> = do {
     fin \<leftarrow> list_end l;
     if a0 = fin then Some (cnt, \<sigma>)
     else do {
       a1b0 \<leftarrow> find_end_of_run a0 fin lessf \<sigma>;
       if a1b0 = fin then Some (cnt + 1, \<sigma>)
       else do {
         b1 \<leftarrow> find_end_of_run a1b0 fin lessf \<sigma>;
         \<sigma> \<leftarrow> inplace_merge a0 a1b0 b1 lessf \<sigma>;
         list_sort_pass b1 (cnt + 1) l lessf \<sigma>
       }
     }
   }"

partial_function (option) list_sort_loop :: "ptr \<Rightarrow> list_less_func \<Rightarrow> links \<Rightarrow> links option" where
  "list_sort_loop l lessf \<sigma> = do {
     a0 \<leftarrow> list_begin l \<sigma>;
     r \<leftarrow> list_sort_pass a0 0 l lessf \<sigma>;
     if fst r > 1 then list_sort_loop l lessf (snd r) else Some (snd r)
   }"

definition list_sort :: "ptr \<Rightarrow> list_less_func \<Rightarrow> links \<Rightarrow> links option" where
  "list_sort l lessf \<sigma> = do {
     ASSERT (l \<noteq> NULL);
     \<sigma> \<leftarrow> list_sort_loop l lessf \<sigma>;
     b \<leftarrow> list_begin l \<sigma>;
     e \<leftarrow> list_end l;
     s \<leftarrow> is_sorted b e lessf \<sigma>;
     ASSERT s;
     Some \<sigma>
   }"

partial_function (option) insert_position ::
    "ptr \<Rightarrow> ptr \<Rightarrow> ptr \<Rightarrow> list_less_func \<Rightarrow> links \<Rightarrow> ptr option" where
  "insert_position e elem l lessf \<sigma> = do {
     fin \<leftarrow> list_end l;
     if e = fin \<or> lessf elem e then Some e
     else do { e \<leftarrow> list_next e \<sigma>; insert_position e elem l lessf \<sigma> }
   }"

definition list_insert_ordered :: "ptr \<Rightarrow> ptr \<Rightarrow> list_less_func \<Rightarrow> links \<Rightarrow> links option" where
  "list_insert_ordered l elem lessf \<sigma> = do {
     ASSERT (l \<noteq> NULL);
     ASSERT (elem \<noteq> NULL);
     b \<leftarrow> list_begin l \<sigma>;
     e \<leftarrow> insert_position b elem l lessf \<sigma>;
     list_insert e elem \<sigma>
   }"

text \<open>\<open>duplicates\<close> may be null.\<close>

partial_function (option) list_unique_loop ::
    "ptr \<Rightarrow> ptr \<Rightarrow> ptr \<Rightarrow> list_less_func \<Rightarrow> links \<Rightarrow> links option" where
  "list_unique_loop elem l duplicates lessf \<sigma> = do {
     nxt \<leftarrow> list_next elem \<sigma>;
     fin \<leftarrow> list_end l;
     if nxt = fin then Some \<sigma>
     else if \<not> lessf elem nxt \<and> \<not> lessf nxt elem then do {
       r \<leftarrow> list_remove nxt \<sigma>;
       \<sigma> \<leftarrow> (if duplicates \<noteq> NULL then list_push_back duplicates nxt (snd r) else Some (snd r));
       list_unique_loop elem l duplicates lessf \<sigma>
     } else list_unique_loop nxt l duplicates lessf \<sigma>
   }"

definition list_unique :: "ptr \<Rightarrow> ptr \<Rightarrow> list_less_func \<Rightarrow> links \<Rightarrow> links option" where
  "list_unique l duplicates lessf \<sigma> = do {
     ASSERT (l \<noteq> NULL);
     m \<leftarrow> list_empty l \<sigma>;
     if m then Some \<sigma>
     else do { b \<leftarrow> list_begin l \<sigma>; list_unique_loop b l duplicates lessf \<sigma> }
   }"

partial_function (option) list_max_loop ::
    "ptr \<Rightarrow> ptr \<Rightarrow> ptr \<Rightarrow> list_less_func \<Rightarrow> links \<Rightarrow> ptr option" where
  "list_max_loop e mx l lessf \<sigma> = do {
     fin \<leftarrow> list_end l;
     if e = fin then Some mx
     else do { e' \<leftarrow> list_next e \<sigma>; list_max_loop e' (if lessf mx e then e else mx) l lessf \<sigma> }
   }"

definition list_max :: "ptr \<Rightarrow> list_less_func \<Rightarrow> links \<Rightarrow> ptr option" where
  "list_max l lessf \<sigma> = do {
     mx \<leftarrow> list_begin l \<sigma>;
     fin \<leftarrow> list_end l;
     if mx \<noteq> fin then do { e \<leftarrow> list_next mx \<sigma>; list_max_loop e mx l lessf \<sigma> } else Some mx
   }"

partial_function (option) list_min_loop ::
    "ptr \<Rightarrow> ptr \<Rightarrow> ptr \<Rightarrow> list_less_func \<Rightarrow> links \<Rightarrow> ptr option" where
  "list_min_loop e mn l lessf \<sigma> = do {
     fin \<leftarrow> list_end l;
     if e = fin then Some mn
     else do { e' \<leftarrow> list_next e \<sigma>; list_min_loop e' (if lessf e mn then e else mn) l lessf \<sigma> }
   }"

definition list_min :: "ptr \<Rightarrow> list_less_func \<Rightarrow> links \<Rightarrow> ptr option" where
  "list_min l lessf \<sigma> = do {
     mn \<leftarrow> list_begin l \<sigma>;
     fin \<leftarrow> list_end l;
     if mn \<noteq> fin then do { e \<leftarrow> list_next mn \<sigma>; list_min_loop e mn l lessf \<sigma> } else Some mn
   }"

subsection \<open>The natural merge sort on HOL lists\<close>

definition by_key :: "(ptr \<Rightarrow> 'k::linorder) \<Rightarrow> list_less_func" where
  "by_key key = (\<lambda>a b. key a < key b)"

lemma by_key_iff: "by_key key a b \<longleftrightarrow> key a < key b"
  by (simp add: by_key_def)

fun run :: "(ptr \<Rightarrow> 'k::linorder) \<Rightarrow> ptr \<Rightarrow> ptr list \<Rightarrow> ptr list \<times> ptr list" where
  "run key a [] = ([], [])"
| "run key a (y # ys) =
     (if key y < key a then ([], y # ys) else (y # fst (run key y ys), snd (run key y ys)))"

fun merge :: "(ptr \<Rightarrow> 'k::linorder) \<Rightarrow> ptr list \<Rightarrow> ptr list \<Rightarrow> ptr list" where
  "merge key [] bs = bs"
| "merge key as [] = as"
| "merge key (a # as) (b # bs) =
     (if key b < key a then b # merge key (a # as) bs else a # merge key as (b # bs))"

lemma run_append [simp]: "fst (run key a ys) @ snd (run key a ys) = ys"
  by (induction key a ys rule: run.induct) auto

lemma run_length: "run key a ys = (r, zs) \<Longrightarrow> length zs \<le> length ys"
  using arg_cong[OF run_append[of key a ys], of length] by simp

lemma run_sorted: "sorted (map key (a # fst (run key a ys)))"
  by (induction key a ys rule: run.induct) (auto simp: not_less intro: order_trans)

lemma run_descent:
  "snd (run key a ys) = y # zs \<Longrightarrow> key y < key (last (a # fst (run key a ys)))"
  by (induction key a ys rule: run.induct) (auto split: if_splits)

function merge_pass :: "(ptr \<Rightarrow> 'k::linorder) \<Rightarrow> ptr list \<Rightarrow> ptr list \<times> nat" where
  "merge_pass key [] = ([], 0)"
| "merge_pass key (a # xs) =
     (case run key a xs of
        (r, []) \<Rightarrow> (a # r, 1)
      | (r, b # ys) \<Rightarrow>
          let (s, zs) = run key b ys; (ws, n) = merge_pass key zs
          in (merge key (a # r) (b # s) @ ws, Suc n))"
  by pat_completeness auto
termination
  by (relation "measure (length \<circ> snd)") (auto dest!: run_length[OF sym])


text \<open>Stability: a pass keeps, for every key, the elements with this key in their order.\<close>

definition same_key :: "(ptr \<Rightarrow> 'k::linorder) \<Rightarrow> 'k \<Rightarrow> ptr list \<Rightarrow> ptr list" where
  "same_key key k xs = filter (\<lambda>x. key x = k) xs"

lemma same_key_append [simp]: "same_key key k (xs @ ys) = same_key key k xs @ same_key key k ys"
  by (simp add: same_key_def)

lemma same_key_above: "\<forall>x \<in> set xs. k < key x \<Longrightarrow> same_key key k xs = []"
  by (auto simp: same_key_def filter_empty_conv)

lemma mset_merge [simp]: "mset (merge key as bs) = mset as + mset bs"
  by (induction key as bs rule: merge.induct) auto

lemma set_merge [simp]: "set (merge key as bs) = set as \<union> set bs"
  by (metis mset_merge set_mset_mset set_mset_union)

lemma sorted_merge:
  "sorted (map key as) \<Longrightarrow> sorted (map key bs) \<Longrightarrow> sorted (map key (merge key as bs))"
  by (induction key as bs rule: merge.induct) (auto simp: not_less intro: order_trans less_imp_le)

lemma same_key_merge:
  "sorted (map key as) \<Longrightarrow> sorted (map key bs) \<Longrightarrow>
   same_key key k (merge key as bs) = same_key key k as @ same_key key k bs"
proof (induction key as bs rule: merge.induct)
  case (3 key a as b bs)
  show ?case
  proof (cases "key b < key a")
    case True
    then have "same_key key (key b) (a # as) = []"
      using 3(3) by (intro same_key_above) auto
    with 3 True show ?thesis by (auto simp: same_key_def)
  next
    case False
    with 3 show ?thesis by (auto simp: same_key_def)
  qed
qed (auto simp: same_key_def)

fun descents :: "(ptr \<Rightarrow> 'k::linorder) \<Rightarrow> ptr list \<Rightarrow> nat" where
  "descents key (x # y # ys) = (if key y < key x then 1 else 0) + descents key (y # ys)"
| "descents key _ = 0"

lemma descents_sorted: "sorted (map key xs) \<Longrightarrow> descents key xs = 0"
  by (induction key xs rule: descents.induct) (auto simp: not_less)

lemma descents_append:
  "xs \<noteq> [] \<Longrightarrow> ys \<noteq> [] \<Longrightarrow> descents key (xs @ ys) =
     descents key xs + (if key (hd ys) < key (last xs) then 1 else 0) + descents key ys"
  by (induction key xs rule: descents.induct) (cases ys; auto)+

text \<open>The shape of one pass over a non-empty list, by which all its properties are shown.\<close>

lemma merge_pass_cases:
  obtains (one) r where "xs = r" "run key a xs = (r, [])" "merge_pass key (a # xs) = (a # r, 1)"
  | (two) r b s zs where "xs = r @ b # s @ zs" "run key a xs = (r, b # s @ zs)" "run key b (s @ zs) = (s, zs)"
      "sorted (map key (a # r))" "sorted (map key (b # s))" "key b < key (last (a # r))"
      "zs \<noteq> [] \<Longrightarrow> key (hd zs) < key (last (b # s))"
      "merge_pass key (a # xs) = (merge key (a # r) (b # s) @ fst (merge_pass key zs), Suc (snd (merge_pass key zs)))"
proof (cases "snd (run key a xs)")
  case Nil
  then show thesis using run_append[of key a xs] by (intro one[of "fst (run key a xs)"]) (auto simp: prod_eq_iff case_prod_beta)
next
  case (Cons b ys)
  let ?r = "fst (run key a xs)" and ?s = "fst (run key b ys)" and ?zs = "snd (run key b ys)"
  have ys: "ys = ?s @ ?zs" by simp
  show thesis
  proof (rule two[of ?r b ?s ?zs])
    show "key (hd ?zs) < key (last (b # ?s))" if "?zs \<noteq> []"
      using that run_descent[of key b ys "hd ?zs" "tl ?zs"] by simp
    show "key b < key (last (a # ?r))" using run_descent[OF Cons] .
  qed (use Cons run_append[of key a xs] run_sorted[of key a xs] run_sorted[of key b ys] in
        \<open>auto simp: prod_eq_iff case_prod_beta Let_def\<close>)
qed


lemma merge_pass_perm: "mset (fst (merge_pass key xs)) = mset xs"
proof (induction xs rule: length_induct)
  case (1 xs)
  show ?case
  proof (cases xs)
    case (Cons a ys)
    show ?thesis
      by (cases rule: merge_pass_cases[of ys key a]) (use 1 Cons in auto)
  qed simp
qed

lemma merge_pass_stable: "same_key key k (fst (merge_pass key xs)) = same_key key k xs"
proof (induction xs rule: length_induct)
  case (1 xs)
  show ?case
  proof (cases xs)
    case (Cons a ys)
    show ?thesis
    proof (cases rule: merge_pass_cases[of ys key a])
      case one
      then show ?thesis using Cons by simp
    next
      case (two r b s zs)
      have "same_key key k xs = same_key key k (a # r) @ same_key key k (b # s) @ same_key key k zs"
        using two(1) Cons by (simp add: same_key_def)
      moreover have "same_key key k (fst (merge_pass key zs)) = same_key key k zs"
        using 1 Cons two(1) by simp
      ultimately show ?thesis
        unfolding Cons two(8) by (simp add: same_key_merge[OF two(4,5)] del: merge.simps)
    qed
  qed simp
qed

lemma merge_pass_runs:
  "xs \<noteq> [] \<Longrightarrow> descents key (fst (merge_pass key xs)) < snd (merge_pass key xs)"
proof (induction xs rule: length_induct)
  case (1 xs)
  then obtain a ys where xs: "xs = a # ys" by (cases xs) auto
  show ?case
  proof (cases rule: merge_pass_cases[of ys key a])
    case one
    then show ?thesis
      using xs run_sorted[of key a ys] by (simp add: descents_sorted)
  next
    case (two r b s zs)
    let ?m = "merge key (a # r) (b # s)"
    have m: "descents key ?m = 0" "?m \<noteq> []"
      using sorted_merge[OF two(4,5)] by (simp_all add: descents_sorted del: merge.simps) auto
    have "zs \<noteq> [] \<Longrightarrow> fst (merge_pass key zs) \<noteq> []"
      using merge_pass_perm[of key zs] by auto
    then show ?thesis
      using 1(1)[rule_format, of zs] two m xs by (cases "zs = []") (auto simp: descents_append)
  qed
qed

lemma merge_pass_halves: "2 * snd (merge_pass key xs) \<le> descents key xs + 2"
proof (induction xs rule: length_induct)
  case (1 xs)
  show ?case
  proof (cases xs)
    case (Cons a ys)
    show ?thesis
    proof (cases rule: merge_pass_cases[of ys key a])
      case one
      then show ?thesis using Cons by simp
    next
      case (two r b s zs)
      have "descents key xs = 1 + (if zs = [] then 0 else 1 + descents key zs)"
        using two Cons descents_append[of "a # r" "b # s @ zs" key] descents_append[of "b # s" zs key]
        by (simp add: descents_sorted)
      then show ?thesis using two 1 Cons by (auto simp: not_less_eq)
    qed
  qed simp
qed

lemma merge_pass_progress:
  "1 < snd (merge_pass key xs) \<Longrightarrow> descents key (fst (merge_pass key xs)) < descents key xs"
  using merge_pass_runs[of xs key] merge_pass_halves[of key xs] by (cases "xs = []") auto

lemma merge_pass_count: "snd (merge_pass key xs) \<le> length xs"
proof (induction xs rule: length_induct)
  case (1 xs)
  show ?case
  proof (cases xs)
    case (Cons a ys)
    show ?thesis
    proof (cases rule: merge_pass_cases[of ys key a])
      case one
      then show ?thesis using Cons by simp
    next
      case (two r b s zs)
      have "snd (merge_pass key zs) \<le> length zs" using 1 Cons two(1) by simp
      then show ?thesis unfolding Cons two(8) using two(1) by simp
    qed
  qed simp
qed

lemma descents_0_sorted: "descents key xs = 0 \<Longrightarrow> sorted (map key xs)"
  by (induction key xs rule: descents.induct) (auto simp: not_less intro: order_trans split: if_splits)

lemma sort_key_eqI:
  assumes "mset ys = mset xs" "\<And>k. same_key key k ys = same_key key k xs" "sorted (map key ys)"
  shows "sort_key key xs = ys"
proof (rule properties_for_sort_key)
  show "filter (\<lambda>x. key k = key x) ys = filter (\<lambda>x. key k = key x) xs" for k
    using assms(2)[of "key k"] by (simp add: same_key_def eq_commute)
qed (use assms in simp_all)

lemma sort_key_merge_pass: "sort_key key (fst (merge_pass key xs)) = sort_key key xs"
proof (rule sort_key_eqI[symmetric])
  show "same_key key k (sort_key key (fst (merge_pass key xs))) = same_key key k xs" for k
    using sort_key_stable[of key k "fst (merge_pass key xs)"] merge_pass_stable[of key k xs]
    by (simp add: same_key_def)
qed (simp_all add: merge_pass_perm)

lemma merge_pass_last:
  assumes "snd (merge_pass key xs) \<le> 1"
  shows "fst (merge_pass key xs) = sort_key key xs"
proof (rule sort_key_eqI[symmetric])
  show "sorted (map key (fst (merge_pass key xs)))"
    using merge_pass_runs[of xs key] assms by (cases "xs = []") (auto intro: descents_0_sorted)
qed (simp_all add: merge_pass_perm merge_pass_stable)


subsection \<open>The pointer operations implement it\<close>

lemma dll_hd_neq: "dll \<sigma> l (us @ z # vs @ ys) \<Longrightarrow> z \<noteq> hd (ys @ [tail_of l])"
  using dll_distinct[of \<sigma> l "us @ z # vs @ ys"] by (cases ys) auto

lemma dll_hd_nonnull: "dll \<sigma> l (us @ ys) \<Longrightarrow> hd (ys @ [tail_of l]) \<noteq> NULL"
  using dll_distinct[of \<sigma> l "us @ ys"] by (cases ys) auto

lemma list_prev_Cons: "dll \<sigma> l (us @ a # z # vs) \<Longrightarrow> list_prev z \<sigma> = Some a"
  using list_prev_dll[of \<sigma> l "us @ [a]" "z # vs"] by simp

lemma is_sorted_loop_dll:
  "dll \<sigma> l (us @ a # zs @ ys) \<Longrightarrow>
   is_sorted_loop a (hd (ys @ [tail_of l])) (by_key key) \<sigma> = Some (sorted (map key (a # zs)))"
proof (induction zs arbitrary: us a)
  case Nil
  then show ?case by (subst is_sorted_loop.simps) (simp add: list_next_dll)
next
  case (Cons z zs)
  have z: "list_next a \<sigma> = Some z" "list_prev z \<sigma> = Some a" "z \<noteq> hd (ys @ [tail_of l])"
    using list_next_dll[OF Cons.prems] list_prev_Cons[of \<sigma> l us a z "zs @ ys"] Cons.prems
      dll_hd_neq[of \<sigma> l "us @ [a]" z zs ys] by simp_all
  have "is_sorted_loop z (hd (ys @ [tail_of l])) (by_key key) \<sigma> = Some (sorted (map key (z # zs)))"
    using Cons.IH[of "us @ [a]" z] Cons.prems by simp
  with z show ?case
    by (subst is_sorted_loop.simps) (auto simp: by_key_iff not_less intro: order_trans)
qed

lemma is_sorted_dll:
  "dll \<sigma> l (us @ zs @ ys) \<Longrightarrow>
   is_sorted (hd (zs @ ys @ [tail_of l])) (hd (ys @ [tail_of l])) (by_key key) \<sigma> = Some (sorted (map key zs))"
  using dll_hd_neq[of \<sigma> l us "hd zs" "tl zs" ys] is_sorted_loop_dll[of \<sigma> l us "hd zs" "tl zs" ys key]
  by (cases zs) (auto simp: is_sorted_def)

lemma find_end_of_run_loop_dll:
  "dll \<sigma> l (us @ a # ys) \<Longrightarrow>
   find_end_of_run_loop a (tail_of l) (by_key key) \<sigma> = Some (hd (snd (run key a ys) @ [tail_of l]))"
proof (induction ys arbitrary: us a)
  case Nil
  then show ?case by (subst find_end_of_run_loop.simps) (simp add: list_next_dll)
next
  case (Cons y ys)
  have "list_next a \<sigma> = Some y" "list_prev y \<sigma> = Some a" "y \<noteq> tail_of l"
    using list_next_dll[OF Cons.prems] list_prev_Cons[OF Cons.prems]
      dll_hd_neq[of \<sigma> l "us @ [a]" y ys "[]"] Cons.prems by simp_all
  moreover have "find_end_of_run_loop y (tail_of l) (by_key key) \<sigma> = Some (hd (snd (run key y ys) @ [tail_of l]))"
    using Cons.IH[of "us @ [a]" y] Cons.prems by simp
  ultimately show ?case
    by (subst find_end_of_run_loop.simps) (auto simp: by_key_iff)
qed

lemma find_end_of_run_dll:
  assumes "dll \<sigma> l (us @ a # ys)"
  shows "find_end_of_run a (tail_of l) (by_key key) \<sigma> = Some (hd (snd (run key a ys) @ [tail_of l]))"
  using find_end_of_run_loop_dll[OF assms] dll_distinct[OF assms] by (auto simp: find_end_of_run_def)

lemma list_splice_dll:
  assumes "dll \<sigma> l (us @ a # as @ b # ys)"
  shows "\<exists>\<sigma>'. list_splice a b (hd (ys @ [tail_of l])) \<sigma> = Some \<sigma>' \<and> dll \<sigma>' l (us @ b # a # as @ ys) \<and>
           frame (set (cells l (us @ a # as @ b # ys))) \<sigma> \<sigma>'"
proof -
  let ?h = "head_of l # us" and ?x = "a # as" and ?d = "ys @ [tail_of l]"
  have ch: "chain \<sigma> (?h @ ?x @ [b] @ ?d)" using assms by (simp add: dll_def cells_def)
  have "{last ?h, hd ?x, last ?x, hd [b], last [b], hd ?d} \<subseteq> set (cells l (us @ a # as @ b # ys))"
    by (cases us rule: rev_cases; cases as rule: rev_cases; cases ys) (auto simp: cells_def)
  then have "frame (set (cells l (us @ a # as @ b # ys))) \<sigma> (exchange ?h ?x [b] ?d \<sigma>)"
    using chain_exchange(2)[OF ch] frame_mono by blast
  then show ?thesis
    using list_splice_exchange(1)[OF ch] chain_exchange(1)[OF ch] by (auto simp: dll_def cells_def)
qed

lemma inplace_merge_loop_dll:
  "dll \<sigma> l (us @ as @ bs @ ys) \<Longrightarrow>
   \<exists>\<sigma>'. inplace_merge_loop (hd (as @ bs @ ys @ [tail_of l])) (hd (bs @ ys @ [tail_of l])) (hd (ys @ [tail_of l])) (by_key key) \<sigma> = Some \<sigma>'
      \<and> dll \<sigma>' l (us @ merge key as bs @ ys) \<and> frame (set (cells l (us @ as @ bs @ ys))) \<sigma> \<sigma>'"
proof (induction key as bs arbitrary: us \<sigma> rule: merge.induct)
  case (1 key bs)
  then show ?case by (subst inplace_merge_loop.simps) simp
next
  case (2 key a as)
  then show ?case by (subst inplace_merge_loop.simps) simp
next
  case (3 key a as b bs)
  have neq: "a \<noteq> b" "b \<noteq> hd (ys @ [tail_of l])"
    using dll_distinct[OF 3(3)] dll_hd_neq[of \<sigma> l "us @ a # as" b bs ys] 3(3) by auto
  show ?case
  proof (cases "key b < key a")
    case True
    let ?n = "hd (bs @ ys @ [tail_of l])"
    have d: "dll \<sigma> l (us @ a # as @ b # bs @ ys)" using 3(3) by simp
    obtain \<sigma>1 where \<sigma>1: "list_splice a b ?n \<sigma> = Some \<sigma>1" "dll \<sigma>1 l (us @ b # a # as @ bs @ ys)"
      "frame (set (cells l (us @ a # as @ b # bs @ ys))) \<sigma> \<sigma>1"
      using list_splice_dll[OF d] by auto
    have nx: "list_next b \<sigma> = Some ?n" "list_prev ?n \<sigma> = Some b"
      using list_next_dll[of \<sigma> l "us @ a # as" b "bs @ ys"] list_prev_dll[of \<sigma> l "us @ a # as @ [b]" "bs @ ys"] d
      by simp_all
    from 3(1)[OF True, of \<sigma>1 "us @ [b]"] \<sigma>1(2) obtain \<sigma>' where
      "inplace_merge_loop a ?n (hd (ys @ [tail_of l])) (by_key key) \<sigma>1 = Some \<sigma>'"
      "dll \<sigma>' l (us @ b # merge key (a # as) bs @ ys)" "frame (set (cells l (us @ b # a # as @ bs @ ys))) \<sigma>1 \<sigma>'" by auto
    moreover have "set (cells l (us @ b # a # as @ bs @ ys)) = set (cells l (us @ a # as @ b # bs @ ys))"
      by (auto simp: cells_def)
    ultimately show ?thesis
      using True neq nx \<sigma>1 frame_trans by (subst inplace_merge_loop.simps) (auto simp: by_key_iff)
  next
    case False
    have "list_next a \<sigma> = Some (hd (as @ b # bs @ ys @ [tail_of l]))"
      using list_next_dll[of \<sigma> l us a "as @ b # bs @ ys"] 3(3) by simp
    moreover obtain \<sigma>' where
      "inplace_merge_loop (hd (as @ b # bs @ ys @ [tail_of l])) b (hd (ys @ [tail_of l])) (by_key key) \<sigma> = Some \<sigma>'"
      "dll \<sigma>' l (us @ a # merge key as (b # bs) @ ys)" "frame (set (cells l (us @ a # as @ b # bs @ ys))) \<sigma> \<sigma>'"
      using 3(2)[OF False, of \<sigma> "us @ [a]"] 3(3) by auto
    ultimately show ?thesis
      using False neq by (subst inplace_merge_loop.simps) (auto simp: by_key_iff)
  qed
qed

lemma set_cells_eq: "mset xs = mset ys \<Longrightarrow> set (cells l xs) = set (cells l ys)"
  by (auto simp: cells_def dest: mset_eq_setD)

lemma inplace_merge_dll:
  assumes d: "dll \<sigma> l (us @ as @ bs @ ys)" and ne: "as \<noteq> []" "bs \<noteq> []"
    and sorted: "sorted (map key as)" "sorted (map key bs)"
  shows "\<exists>\<sigma>'. inplace_merge (hd as) (hd bs) (hd (ys @ [tail_of l])) (by_key key) \<sigma> = Some \<sigma>'
      \<and> dll \<sigma>' l (us @ merge key as bs @ ys) \<and> frame (set (cells l (us @ as @ bs @ ys))) \<sigma> \<sigma>'"
proof -
  have "is_sorted (hd as) (hd bs) (by_key key) \<sigma> = Some True"
    using is_sorted_dll[of \<sigma> l us as "bs @ ys" key] d ne sorted(1) by simp
  moreover have "is_sorted (hd bs) (hd (ys @ [tail_of l])) (by_key key) \<sigma> = Some True"
    using is_sorted_dll[of \<sigma> l "us @ as" bs ys key] d ne sorted(2) by simp
  moreover have "hd as \<noteq> NULL" "hd bs \<noteq> NULL" "hd (ys @ [tail_of l]) \<noteq> NULL"
    using dll_hd_nonnull[of \<sigma> l us "as @ bs @ ys"] dll_hd_nonnull[of \<sigma> l "us @ as" "bs @ ys"]
      dll_hd_nonnull[of \<sigma> l "us @ as @ bs" ys] d ne by simp_all
  ultimately show ?thesis
    using inplace_merge_loop_dll[OF d, of key] ne by (simp add: inplace_merge_def)
qed

lemma list_sort_pass_dll:
  "dll \<sigma> l (us @ xs) \<Longrightarrow>
   \<exists>\<sigma>'. list_sort_pass (hd (xs @ [tail_of l])) cnt l (by_key key) \<sigma> = Some (cnt + of_nat (snd (merge_pass key xs)), \<sigma>')
      \<and> dll \<sigma>' l (us @ fst (merge_pass key xs)) \<and> frame (set (cells l (us @ xs))) \<sigma> \<sigma>'"
proof (induction xs arbitrary: us cnt \<sigma> rule: length_induct)
  case (1 xs)
  note fin = list_end_dll[OF 1(2)]
  show ?case
  proof (cases xs)
    case Nil
    then show ?thesis using 1(2) fin by (subst list_sort_pass.simps) simp
  next
    case (Cons a ys)
    have a: "a \<noteq> tail_of l" using dll_distinct[OF 1(2)] Cons by auto
    have end1: "find_end_of_run a (tail_of l) (by_key key) \<sigma> = Some (hd (snd (run key a ys) @ [tail_of l]))"
      using find_end_of_run_dll 1(2) Cons by simp
    show ?thesis
    proof (cases rule: merge_pass_cases[of ys key a])
      case one
      then show ?thesis using 1(2) Cons a end1 fin by (subst list_sort_pass.simps) simp
    next
      case (two r b s zs)
      let ?m = "merge key (a # r) (b # s)"
      have d: "dll \<sigma> l (us @ (a # r) @ (b # s) @ zs)" using 1(2) Cons two(1) by simp
      have b: "b \<noteq> tail_of l" using dll_distinct[OF d] by auto
      have end2: "find_end_of_run b (tail_of l) (by_key key) \<sigma> = Some (hd (zs @ [tail_of l]))"
        using find_end_of_run_dll[of \<sigma> l "us @ a # r" b "s @ zs" key] d two(3) by simp
      from inplace_merge_dll[OF d _ _ two(4,5)] obtain \<sigma>1 where \<sigma>1:
        "inplace_merge a b (hd (zs @ [tail_of l])) (by_key key) \<sigma> = Some \<sigma>1"
        "dll \<sigma>1 l ((us @ ?m) @ zs)" "frame (set (cells l (us @ xs))) \<sigma> \<sigma>1"
        using Cons two(1) by (auto simp del: merge.simps)
      have "length zs < length xs" using Cons two(1) by simp
      with 1(1) \<sigma>1(2) obtain \<sigma>' where \<sigma>':
        "list_sort_pass (hd (zs @ [tail_of l])) (cnt + 1) l (by_key key) \<sigma>1 = Some (cnt + 1 + of_nat (snd (merge_pass key zs)), \<sigma>')"
        "dll \<sigma>' l ((us @ ?m) @ fst (merge_pass key zs))" "frame (set (cells l ((us @ ?m) @ zs))) \<sigma>1 \<sigma>'"
        by blast
      have "set (cells l ((us @ ?m) @ zs)) = set (cells l (us @ xs))"
        by (rule set_cells_eq) (simp add: Cons two(1) del: merge.simps)
      with \<sigma>1(3) \<sigma>'(3) have "frame (set (cells l (us @ xs))) \<sigma> \<sigma>'" using frame_trans by simp
      moreover have "list_sort_pass a cnt l (by_key key) \<sigma> = Some (cnt + of_nat (Suc (snd (merge_pass key zs))), \<sigma>')"
        using end1 end2 \<sigma>1(1) \<sigma>'(1) two(2) a b fin
        by (subst list_sort_pass.simps) (simp add: algebra_simps)
      ultimately show ?thesis
        using \<sigma>'(2) unfolding Cons two(8) by (simp del: merge.simps)
    qed
  qed
qed

lemma list_sort_loop_dll:
  "dll \<sigma> l xs \<Longrightarrow>
   \<exists>\<sigma>'. list_sort_loop l (by_key key) \<sigma> = Some \<sigma>' \<and> dll \<sigma>' l (sort_key key xs) \<and> frame (set (cells l xs)) \<sigma> \<sigma>'"
proof (induction "descents key xs" arbitrary: xs \<sigma> rule: less_induct)
  case less
  let ?n = "snd (merge_pass key xs)" and ?ys = "fst (merge_pass key xs)"
  from list_sort_pass_dll[of \<sigma> l "[]" xs 0 key] less(2) obtain \<sigma>1 where \<sigma>1:
    "list_sort_pass (hd (xs @ [tail_of l])) 0 l (by_key key) \<sigma> = Some (of_nat ?n, \<sigma>1)"
    "dll \<sigma>1 l ?ys" "frame (set (cells l xs)) \<sigma> \<sigma>1" by auto
  have "?n < 4294967296" using merge_pass_count[of key xs] dll_length[OF less(2)] by linarith
  then have cnt: "(of_nat ?n :: u32) > 1 \<longleftrightarrow> ?n > 1" by (simp add: word_less_nat_alt unat_of_nat)
  note step = list_begin_dll[OF less(2)] \<sigma>1(1)
  show ?case
  proof (cases "?n > 1")
    case True
    from less(1)[OF merge_pass_progress[OF True] \<sigma>1(2)] obtain \<sigma>' where \<sigma>':
      "list_sort_loop l (by_key key) \<sigma>1 = Some \<sigma>'" "dll \<sigma>' l (sort_key key ?ys)" "frame (set (cells l ?ys)) \<sigma>1 \<sigma>'" by blast
    then show ?thesis
      using step cnt True \<sigma>1(3) frame_trans set_cells_eq[OF merge_pass_perm, of l key xs]
      by (subst list_sort_loop.simps) (auto simp: sort_key_merge_pass)
  next
    case False
    then show ?thesis
      using step cnt \<sigma>1(2,3) merge_pass_last[of key xs] by (subst list_sort_loop.simps) auto
  qed
qed

lemma list_sort_dll:
  assumes "dll \<sigma> l xs"
  shows "\<exists>\<sigma>'. list_sort l (by_key key) \<sigma> = Some \<sigma>' \<and> dll \<sigma>' l (sort_key key xs) \<and> frame (set (cells l xs)) \<sigma> \<sigma>'"
proof -
  from list_sort_loop_dll[OF assms] obtain \<sigma>' where \<sigma>':
    "list_sort_loop l (by_key key) \<sigma> = Some \<sigma>'" "dll \<sigma>' l (sort_key key xs)" "frame (set (cells l xs)) \<sigma> \<sigma>'" by blast
  moreover have "is_sorted (hd (sort_key key xs @ [tail_of l])) (tail_of l) (by_key key) \<sigma>' = Some True"
    using is_sorted_dll[of \<sigma>' l "[]" "sort_key key xs" "[]" key] \<sigma>'(2) by simp
  ultimately show ?thesis
    using dll_nonnull[OF assms] by (simp add: list_sort_def list_begin_dll list_end_dll)
qed

subsection \<open>Ordered insertion, removal of duplicates, extrema\<close>

lemma insert_position_dll:
  "dll \<sigma> l (us @ ys) \<Longrightarrow>
   insert_position (hd (ys @ [tail_of l])) e l (by_key key) \<sigma> =
     Some (hd (dropWhile (\<lambda>y. key y \<le> key e) ys @ [tail_of l]))"
proof (induction ys arbitrary: us)
  case Nil
  then show ?case by (subst insert_position.simps) (simp add: list_end_dll)
next
  case (Cons y ys)
  have "y \<noteq> tail_of l" using dll_distinct[OF Cons.prems] by auto
  moreover have "list_next y \<sigma> = Some (hd (ys @ [tail_of l]))"
    using Cons.prems by (simp add: list_next_dll)
  moreover have "insert_position (hd (ys @ [tail_of l])) e l (by_key key) \<sigma> =
      Some (hd (dropWhile (\<lambda>y. key y \<le> key e) ys @ [tail_of l]))"
    using Cons.IH[of "us @ [y]"] Cons.prems by simp
  ultimately show ?case
    by (subst insert_position.simps) (auto simp: list_end_dll[OF Cons.prems] by_key_iff not_le)
qed

lemma sort_key_snoc:
  fixes xs :: "ptr list"
  assumes "sorted (map key xs)"
  shows "sort_key key (xs @ [e]) = takeWhile (\<lambda>y. key y \<le> key e) xs @ e # dropWhile (\<lambda>y. key y \<le> key e) xs"
    (is "_ = ?t @ e # ?d")
proof (rule sort_key_eqI)
  have td: "xs = ?t @ ?d" by simp
  have sorted: "sorted (map key ?t)" "sorted (map key ?d)"
    using assms sorted_append[of "map key ?t" "map key ?d"] by (simp_all flip: map_append)
  have above: "\<forall>y \<in> set ?d. key e < key y"
  proof (cases ?d)
    case (Cons y ys)
    then have "key e < key y" using hd_dropWhile[of "\<lambda>y. key y \<le> key e" xs] by simp
    then show ?thesis using sorted(2) unfolding Cons by auto
  next
    case Nil
    show ?thesis unfolding Nil by simp
  qed
  show "sorted (map key (?t @ e # ?d))"
    using sorted above by (auto simp: sorted_append dest!: set_takeWhileD less_imp_le intro: order_trans)
  show "same_key key k (?t @ e # ?d) = same_key key k (xs @ [e])" for k
  proof (cases "k = key e")
    case True
    then have "same_key key k ?d = []" using above by (intro same_key_above) simp
    moreover have "same_key key k xs = same_key key k ?t @ same_key key k ?d"
      by (metis td same_key_append)
    ultimately show ?thesis using True by (simp add: same_key_def)
  next
    case False
    then have "same_key key k (e # ?d) = same_key key k ?d" "same_key key k [e] = []"
      by (simp_all add: same_key_def)
    then show ?thesis by (metis td same_key_append append_Nil2)
  qed
  show "mset (?t @ e # ?d) = mset (xs @ [e])"
    by (metis (no_types) mset_append add_mset_add_single mset.simps(2) td union_mset_add_mset_right add.right_neutral mset.simps(1))
qed

lemma list_insert_ordered_dll:
  assumes d: "dll \<sigma> l xs" and s: "sorted (map key xs)" and e: "e \<notin> set (cells l xs)" "allocated \<sigma> e"
  shows "\<exists>\<sigma>'. list_insert_ordered l e (by_key key) \<sigma> = Some \<sigma>' \<and> dll \<sigma>' l (sort_key key (xs @ [e])) \<and>
           frame (insert e (set (cells l xs))) \<sigma> \<sigma>'"
proof -
  let ?t = "takeWhile (\<lambda>y. key y \<le> key e) xs" and ?d = "dropWhile (\<lambda>y. key y \<le> key e) xs"
  have "insert_position (hd (xs @ [tail_of l])) e l (by_key key) \<sigma> = Some (hd (?d @ [tail_of l]))"
    using insert_position_dll[of \<sigma> l "[]" xs e key] d by simp
  moreover have "\<exists>\<sigma>'. list_insert (hd (?d @ [tail_of l])) e \<sigma> = Some \<sigma>' \<and> dll \<sigma>' l (?t @ e # ?d) \<and>
      frame (insert e (set (cells l xs))) \<sigma> \<sigma>'"
    using list_insert_dll[of \<sigma> l ?t ?d e] d e by simp
  ultimately show ?thesis
    using dll_nonnull[OF d] e(2)
    by (auto simp: list_insert_ordered_def list_begin_dll[OF d] sort_key_snoc[OF s] allocated_def)
qed

text \<open>The elements that \<open>list_unique\<close> keeps and the ones it removes.\<close>

fun unique_kept :: "(ptr \<Rightarrow> 'k::linorder) \<Rightarrow> ptr \<Rightarrow> ptr list \<Rightarrow> ptr list" where
  "unique_kept key x [] = []"
| "unique_kept key x (y # ys) = (if key y = key x then unique_kept key x ys else y # unique_kept key y ys)"

fun unique_removed :: "(ptr \<Rightarrow> 'k::linorder) \<Rightarrow> ptr \<Rightarrow> ptr list \<Rightarrow> ptr list" where
  "unique_removed key x [] = []"
| "unique_removed key x (y # ys) = (if key y = key x then y # unique_removed key x ys else unique_removed key y ys)"

lemma unique_kept_remdups_adj: "map key (x # unique_kept key x ys) = remdups_adj (map key (x # ys))"
  by (induction key x ys rule: unique_kept.induct) auto

lemma list_unique_loop_dll:
  assumes "dll \<sigma> l (us @ x # ys)" "dll \<sigma> d zs" "set (cells l (us @ x # ys)) \<inter> set (cells d zs) = {}"
  shows "\<exists>\<sigma>'. list_unique_loop x l d (by_key key) \<sigma> = Some \<sigma>' \<and> dll \<sigma>' l (us @ x # unique_kept key x ys) \<and>
           dll \<sigma>' d (zs @ unique_removed key x ys) \<and>
           frame (set (cells l (us @ x # ys)) \<union> set (cells d zs)) \<sigma> \<sigma>'"
  using assms
proof (induction ys arbitrary: us x zs \<sigma>)
  case Nil
  then show ?case by (subst list_unique_loop.simps) (simp add: list_next_dll list_end_dll)
next
  case (Cons y ys)
  let ?L = "set (cells l (us @ x # y # ys))" and ?D = "set (cells d zs)"
  have nx: "list_next x \<sigma> = Some y" "list_end l = Some (tail_of l)" "y \<noteq> tail_of l" "d \<noteq> NULL"
    using Cons.prems(1,2) dll_distinct[OF Cons.prems(1)] dll_nonnull[OF Cons.prems(2)]
    by (auto simp: list_next_dll list_end_dll)
  show ?case
  proof (cases "key y = key x")
    case True
    from list_remove_dll[of \<sigma> l "us @ [x]" y ys] Cons.prems(1) obtain n \<sigma>1 where \<sigma>1:
      "list_remove y \<sigma> = Some (n, \<sigma>1)" "dll \<sigma>1 l (us @ x # ys)" "frame (set (cells l (us @ x # ys))) \<sigma> \<sigma>1"
      by auto
    have sub: "set (cells l (us @ x # ys)) \<subseteq> ?L" and y: "y \<in> ?L" "y \<notin> set (cells l (us @ x # ys))"
      using dll_distinct[OF Cons.prems(1)] by (auto simp: cells_def)
    have "dll \<sigma>1 d zs" using dll_frame[OF Cons.prems(2) \<sigma>1(3)] sub Cons.prems(3) by blast
    moreover have "allocated \<sigma>1 y"
      using chain_allocated[of \<sigma> "cells l (us @ x # y # ys)" y] Cons.prems(1) y(1) allocated_frame[OF \<sigma>1(3)]
      by (simp add: dll_def)
    ultimately obtain \<sigma>2 where \<sigma>2: "list_push_back d y \<sigma>1 = Some \<sigma>2" "dll \<sigma>2 d (zs @ [y])" "frame (insert y ?D) \<sigma>1 \<sigma>2"
      using list_push_back_dll[of \<sigma>1 d zs y] y(1) Cons.prems(3) by blast
    have "dll \<sigma>2 l (us @ x # ys)"
      using dll_frame[OF \<sigma>1(2) \<sigma>2(3)] sub y(2) Cons.prems(3) by blast
    moreover have D': "set (cells d (zs @ [y])) = insert y ?D" by (auto simp: cells_def)
    ultimately obtain \<sigma>' where \<sigma>': "list_unique_loop x l d (by_key key) \<sigma>2 = Some \<sigma>'"
      "dll \<sigma>' l (us @ x # unique_kept key x ys)" "dll \<sigma>' d ((zs @ [y]) @ unique_removed key x ys)"
      "frame (set (cells l (us @ x # ys)) \<union> insert y ?D) \<sigma>2 \<sigma>'"
      using Cons.IH[of \<sigma>2 us x "zs @ [y]"] \<sigma>2(2) sub y(2) Cons.prems(3) unfolding D' by blast
    have "frame (?L \<union> ?D) \<sigma> \<sigma>1" by (rule frame_mono[OF \<sigma>1(3)]) (use sub in blast)
    moreover have "frame (?L \<union> ?D) \<sigma>1 \<sigma>2" by (rule frame_mono[OF \<sigma>2(3)]) (use y(1) in blast)
    moreover have "frame (?L \<union> ?D) \<sigma>2 \<sigma>'" by (rule frame_mono[OF \<sigma>'(4)]) (use sub y(1) in blast)
    ultimately have "frame (?L \<union> ?D) \<sigma> \<sigma>'" using frame_trans by blast
    then show ?thesis
      using nx True \<sigma>1(1) \<sigma>2(1) \<sigma>'(1-3) by (subst list_unique_loop.simps) (simp add: by_key_iff)
  next
    case False
    from Cons.IH[of \<sigma> "us @ [x]" y zs] Cons.prems obtain \<sigma>' where
      "list_unique_loop y l d (by_key key) \<sigma> = Some \<sigma>'" "dll \<sigma>' l (us @ x # y # unique_kept key y ys)"
      "dll \<sigma>' d (zs @ unique_removed key y ys)" "frame (?L \<union> ?D) \<sigma> \<sigma>'" by auto
    then show ?thesis
      using nx False by (subst list_unique_loop.simps) (auto simp: by_key_iff)
  qed
qed


lemma list_unique_dll:
  assumes "dll \<sigma> l (x # ys)" "dll \<sigma> d zs" "set (cells l (x # ys)) \<inter> set (cells d zs) = {}"
  shows "\<exists>\<sigma>'. list_unique l d (by_key key) \<sigma> = Some \<sigma>' \<and> dll \<sigma>' l (x # unique_kept key x ys) \<and>
           dll \<sigma>' d (zs @ unique_removed key x ys) \<and> frame (set (cells l (x # ys)) \<union> set (cells d zs)) \<sigma> \<sigma>'"
  using list_unique_loop_dll[of \<sigma> l "[]" x ys d zs key] assms dll_nonnull[OF assms(1)]
  by (simp add: list_unique_def list_empty_dll list_begin_dll)

lemma list_max_loop_dll:
  "dll \<sigma> l (us @ ys) \<Longrightarrow>
   list_max_loop (hd (ys @ [tail_of l])) mx l (by_key key) \<sigma> = Some (foldl (\<lambda>m y. if key m < key y then y else m) mx ys)"
proof (induction ys arbitrary: us mx)
  case Nil
  then show ?case by (subst list_max_loop.simps) (simp add: list_end_dll)
next
  case (Cons y ys)
  have "y \<noteq> tail_of l" "list_next y \<sigma> = Some (hd (ys @ [tail_of l]))"
    using dll_distinct[OF Cons.prems] Cons.prems by (auto simp: list_next_dll)
  moreover have "list_max_loop (hd (ys @ [tail_of l])) m l (by_key key) \<sigma> =
      Some (foldl (\<lambda>m y. if key m < key y then y else m) m ys)" for m
    using Cons.IH[of "us @ [y]" m] Cons.prems by simp
  ultimately show ?case
    by (subst list_max_loop.simps) (auto simp: list_end_dll[OF Cons.prems] by_key_iff)
qed

lemma list_min_loop_dll:
  "dll \<sigma> l (us @ ys) \<Longrightarrow>
   list_min_loop (hd (ys @ [tail_of l])) mn l (by_key key) \<sigma> = Some (foldl (\<lambda>m y. if key y < key m then y else m) mn ys)"
proof (induction ys arbitrary: us mn)
  case Nil
  then show ?case by (subst list_min_loop.simps) (simp add: list_end_dll)
next
  case (Cons y ys)
  have "y \<noteq> tail_of l" "list_next y \<sigma> = Some (hd (ys @ [tail_of l]))"
    using dll_distinct[OF Cons.prems] Cons.prems by (auto simp: list_next_dll)
  moreover have "list_min_loop (hd (ys @ [tail_of l])) m l (by_key key) \<sigma> =
      Some (foldl (\<lambda>m y. if key y < key m then y else m) m ys)" for m
    using Cons.IH[of "us @ [y]" m] Cons.prems by simp
  ultimately show ?case
    by (subst list_min_loop.simps) (auto simp: list_end_dll[OF Cons.prems] by_key_iff)
qed

text \<open>A left fold that moves only to strictly better elements stops at the first best one.\<close>

lemma foldl_first_best:
  fixes better :: "'a \<Rightarrow> 'a \<Rightarrow> bool"
  assumes trans: "\<And>a b c. better a b \<Longrightarrow> better b c \<Longrightarrow> better a c"
    and ntrans: "\<And>a b c. \<not> better a b \<Longrightarrow> \<not> better b c \<Longrightarrow> \<not> better a c"
    and irrefl: "\<And>a. \<not> better a a"
  shows "\<exists>us vs. x # ys = us @ foldl (\<lambda>m y. if better m y then y else m) x ys # vs \<and>
           (\<forall>u \<in> set us. better u (foldl (\<lambda>m y. if better m y then y else m) x ys)) \<and>
           (\<forall>v \<in> set (x # ys). \<not> better (foldl (\<lambda>m y. if better m y then y else m) x ys) v)"
proof (induction ys rule: rev_induct)
  case Nil
  then show ?case using irrefl by (intro exI[of _ "[]"] exI[of _ "[]"]) simp
next
  case (snoc y ys)
  define m where "m = foldl (\<lambda>m y. if better m y then y else m) x ys"
  from snoc[folded m_def] obtain us vs where IH: "x # ys = us @ m # vs" "\<forall>u \<in> set us. better u m"
    "\<forall>v \<in> set (x # ys). \<not> better m v" by blast
  have step: "foldl (\<lambda>m y. if better m y then y else m) x (ys @ [y]) = (if better m y then y else m)"
    by (simp add: m_def)
  show ?case
  proof (cases "better m y")
    case True
    then have "\<forall>u \<in> set (x # ys). better u y" using IH(3) ntrans by blast
    moreover from this have "\<forall>v \<in> set (x # ys @ [y]). \<not> better y v"
      using trans irrefl by (metis append_Cons rotate1.simps(2) set_ConsD set_rotate1)
    ultimately show ?thesis
      unfolding step using True by (intro exI[of _ "x # ys"] exI[of _ "[]"]) simp
  next
    case False
    have "x # ys @ [y] = us @ m # vs @ [y]" using arg_cong[OF IH(1), of "\<lambda>zs. zs @ [y]"] by simp
    moreover have "\<forall>v \<in> set (x # ys @ [y]). \<not> better m v" using IH(3) False by simp
    ultimately show ?thesis
      unfolding step using False IH(2) by (intro exI[of _ us] exI[of _ "vs @ [y]"]) simp
  qed
qed

lemma list_max_dll:
  assumes "dll \<sigma> l (x # ys)"
  shows "\<exists>m us vs. list_max l (by_key key) \<sigma> = Some m \<and> x # ys = us @ m # vs \<and>
           (\<forall>u \<in> set us. key u < key m) \<and> (\<forall>v \<in> set (x # ys). key v \<le> key m)"
proof -
  have "x \<noteq> tail_of l" "list_next x \<sigma> = Some (hd (ys @ [tail_of l]))"
    using dll_distinct[OF assms] list_next_dll[of \<sigma> l "[]" x ys] assms by auto
  then have "list_max l (by_key key) \<sigma> = Some (foldl (\<lambda>m y. if key m < key y then y else m) x ys)"
    using list_max_loop_dll[of \<sigma> l "[x]" ys x key] assms
    by (simp add: list_max_def list_begin_dll list_end_dll)
  then show ?thesis
    using foldl_first_best[of "\<lambda>a b. key a < key b" x ys] by (auto simp: not_less)
qed

lemma list_min_dll:
  assumes "dll \<sigma> l (x # ys)"
  shows "\<exists>m us vs. list_min l (by_key key) \<sigma> = Some m \<and> x # ys = us @ m # vs \<and>
           (\<forall>u \<in> set us. key m < key u) \<and> (\<forall>v \<in> set (x # ys). key m \<le> key v)"
proof -
  have "x \<noteq> tail_of l" "list_next x \<sigma> = Some (hd (ys @ [tail_of l]))"
    using dll_distinct[OF assms] list_next_dll[of \<sigma> l "[]" x ys] assms by auto
  then have "list_min l (by_key key) \<sigma> = Some (foldl (\<lambda>m y. if key y < key m then y else m) x ys)"
    using list_min_loop_dll[of \<sigma> l "[x]" ys x key] assms
    by (simp add: list_min_def list_begin_dll list_end_dll)
  then show ?thesis
    using foldl_first_best[of "\<lambda>a b. key b < key a" x ys] by (auto simp: not_less)
qed

text \<open>The positions at which a run of elements with equal keys starts.\<close>

definition run_starts :: "(ptr \<Rightarrow> 'k) \<Rightarrow> ptr list \<Rightarrow> nat set" where
  "run_starts key xs = {i. i = 0 \<or> key (xs ! (i - 1)) \<noteq> key (xs ! i)}"

lemma unique_kept_nths:
  "key w = key x \<Longrightarrow> unique_kept key x ys = nths ys {i. key ((w # ys) ! i) \<noteq> key (ys ! i)} \<and>
     unique_removed key x ys = nths ys (- {i. key ((w # ys) ! i) \<noteq> key (ys ! i)})"
proof (induction ys arbitrary: x w)
  case (Cons y ys)
  show ?case
  proof (cases "key x = key y")
    case True
    then show ?thesis using Cons.IH[of y x] Cons.prems by (simp add: nths_Cons Compl_eq)
  next
    case False
    then show ?thesis using Cons.IH[of y y] Cons.prems by (simp add: nths_Cons Compl_eq)
  qed
qed simp

lemma unique_run_starts:
  "x # unique_kept key x ys = nths (x # ys) (run_starts key (x # ys))"
  "unique_removed key x ys = nths (x # ys) (- run_starts key (x # ys))"
proof -
  have "{j. Suc j \<in> run_starts key (x # ys)} = {i. key ((x # ys) ! i) \<noteq> key (ys ! i)}" "0 \<in> run_starts key (x # ys)"
    "{j. Suc j \<notin> run_starts key (x # ys)} = {i. key ((x # ys) ! i) = key (ys ! i)}"
    by (auto simp: run_starts_def)
  then show "x # unique_kept key x ys = nths (x # ys) (run_starts key (x # ys))"
    "unique_removed key x ys = nths (x # ys) (- run_starts key (x # ys))"
    using unique_kept_nths[of key x x ys] by (simp_all add: nths_Cons Compl_eq)
qed

subsection \<open>Properties\<close>

definition demo_key :: "ptr \<Rightarrow> nat" where
  "demo_key p = (if p = 512 then 5 else 2)"

text \<open>C3: \<open>list_sort\<close> always returns, leaves the list holding the stable sort of its elements by
  key, and changes no link of an element outside the list; so every other list is kept.\<close>

theorem list_sort_correct:
  assumes "dll \<sigma> l xs"
  shows "\<exists>\<sigma>'. list_sort l (by_key key) \<sigma> = Some \<sigma>' \<and> dll \<sigma>' l (sort_key key xs) \<and>
           (\<forall>l' ys. dll \<sigma> l' ys \<and> set (cells l xs) \<inter> set (cells l' ys) = {} \<longrightarrow> dll \<sigma>' l' ys)"
  using list_sort_dll[OF assms, of key] dll_frame by blast

theorem list_sort_correct_witness:
  "\<exists>\<sigma>'. list_sort 256 (by_key demo_key) demo_links = Some \<sigma>' \<and> dll \<sigma>' 256 [528, 544, 512] \<and> dll \<sigma>' 272 []"
proof -
  have "set (cells 256 [512, 528, 544]) \<inter> set (cells 272 []) = {}"
    by (simp add: cells_def head_of_def tail_of_def)
  moreover have "sort_key demo_key [512, 528, 544] = [528, 544, 512]"
    by (simp add: demo_key_def)
  ultimately show ?thesis
    using list_sort_correct[OF demo_dll(1), of demo_key] demo_dll(2) by auto
qed

text \<open>C11: inserting an element with \<open>list_insert_ordered\<close> into a sorted list keeps it sorted and
  puts the element behind all elements with the same key.\<close>

theorem list_insert_ordered_correct:
  assumes "dll \<sigma> l xs" "sorted (map key xs)" "e \<notin> set (cells l xs)" "allocated \<sigma> e"
  shows "\<exists>\<sigma>'. list_insert_ordered l e (by_key key) \<sigma> = Some \<sigma>' \<and> dll \<sigma>' l (sort_key key (xs @ [e]))"
  using list_insert_ordered_dll[OF assms] by blast

theorem list_insert_ordered_correct_witness:
  "\<exists>\<sigma>'. list_insert_ordered 272 512 (by_key demo_key) demo_links = Some \<sigma>' \<and> dll \<sigma>' 272 [512]"
  using list_insert_ordered_correct[OF demo_dll(2), of demo_key 512]
  by (simp add: cells_def head_of_def tail_of_def allocated_def NULL_def demo_links_def)

text \<open>C10: \<open>list_unique\<close> always returns. It leaves exactly the elements at which a run of elements with equal
  keys starts, in their order, and moves all others, in their order, to the end of the duplicates list. So
  the keys left are those of the original list without adjacent repetitions.\<close>

theorem list_unique_correct:
  assumes "dll \<sigma> l xs" "dll \<sigma> d zs" "set (cells l xs) \<inter> set (cells d zs) = {}"
  shows "\<exists>\<sigma>'. list_unique l d (by_key key) \<sigma> = Some \<sigma>' \<and> dll \<sigma>' l (nths xs (run_starts key xs)) \<and>
           dll \<sigma>' d (zs @ nths xs (- run_starts key xs)) \<and> map key (nths xs (run_starts key xs)) = remdups_adj (map key xs)"
proof (cases xs)
  case Nil
  then show ?thesis using assms dll_nonnull[OF assms(1)] by (simp add: list_unique_def list_empty_dll)
next
  case (Cons x ys)
  have "map key (x # unique_kept key x ys) = remdups_adj (map key (x # ys))"
    using unique_kept_remdups_adj[of key x ys] by simp
  with list_unique_dll[OF assms[unfolded Cons], of key] show ?thesis
    unfolding Cons unique_run_starts[symmetric] by blast
qed

theorem list_unique_correct_witness:
  "\<exists>\<sigma>'. list_unique 256 272 (by_key demo_key) demo_links = Some \<sigma>' \<and> dll \<sigma>' 256 [512, 528] \<and> dll \<sigma>' 272 [544]"
proof -
  have "set (cells 256 [512, 528, 544]) \<inter> set (cells 272 []) = {}"
    by (simp add: cells_def head_of_def tail_of_def)
  moreover have "nths [512 :: ptr, 528, 544] (run_starts demo_key [512, 528, 544]) = [512, 528]"
    "nths [512 :: ptr, 528, 544] (- run_starts demo_key [512, 528, 544]) = [544]"
    by (simp_all add: nths_Cons run_starts_def demo_key_def)
  ultimately show ?thesis using list_unique_correct[OF demo_dll, of demo_key] by auto
qed

end
