(* ===== verification/Hash_Table.thy ===== *)
theory Hash_Table
  imports Prelude "HOL-Library.Multiset"
begin

section \<open>Hash tables\<close>

text \<open>
  The chained hash table of src/pintos/src/lib/kernel/hash.c. A bucket is the HOL list of its
  elements, which is what a kernel list of the theory \<open>Klist\<close> holds; \<open>list_push_front\<close> is \<open>#\<close>
  and unlinking an element by its address is \<open>remove1\<close>. The functions \<open>hash\<close> and \<open>less\<close> that the
  C table stores are fields of the record. Whether a \<open>malloc\<close> succeeds is an argument.

  The locale \<open>hash_keys\<close> is what the table requires of its client: two elements of which neither is
  less than the other have the same key, and the hash depends on the key only. Under it the table is
  shown to be a finite map from keys to elements, whatever the number of buckets.
\<close>

unbundle bit_operations_syntax

record 'e hash_table =
  h_elem_cnt :: u32
  h_bucket_cnt :: u32
  h_buckets :: "'e list list"
  h_hash :: "'e \<Rightarrow> u32"
  h_less :: "'e \<Rightarrow> 'e \<Rightarrow> bool"

subsection \<open>Hash functions\<close>

definition FNV_32_PRIME :: u32 where
  "FNV_32_PRIME = 16777619"

definition FNV_32_BASIS :: u32 where
  "FNV_32_BASIS = 2166136261"

definition fnv_step :: "u8 \<Rightarrow> u32 \<Rightarrow> u32" where
  "fnv_step b hash = (hash * FNV_32_PRIME) XOR ucast b"

definition hash_bytes :: "u8 list \<Rightarrow> u32 \<Rightarrow> u32 option" where
  "hash_bytes buf sz = do {
     ASSERT (unat sz \<le> length buf);
     Some (fold fnv_step (take (unat sz) buf) FNV_32_BASIS)
   }"

text \<open>A string without its terminator has no hash: the loop runs off its end.\<close>

definition hash_string :: "u8 list \<Rightarrow> u32 option" where
  "hash_string s = do {
     ASSERT (0 \<in> set s);
     Some (fold fnv_step (takeWhile (\<lambda>c. c \<noteq> 0) s) FNV_32_BASIS)
   }"

definition hash_int :: "u32 \<Rightarrow> u32 option" where
  "hash_int i = hash_bytes (u32_bytes i) 4"

subsection \<open>Buckets and elements\<close>

definition find_bucket :: "'e hash_table \<Rightarrow> 'e \<Rightarrow> u32 option" where
  "find_bucket h e = do {
     let idx = h_hash h e AND (h_bucket_cnt h - 1);
     ASSERT (unat idx < length (h_buckets h));
     Some idx
   }"

definition find_elem :: "'e hash_table \<Rightarrow> u32 \<Rightarrow> 'e \<Rightarrow> 'e option option" where
  "find_elem h bucket e = do {
     ASSERT (unat bucket < length (h_buckets h));
     Some (find (\<lambda>hi. \<not> h_less h hi e \<and> \<not> h_less h e hi) (h_buckets h ! unat bucket))
   }"

definition turn_off_least_1bit :: "u32 \<Rightarrow> u32" where
  "turn_off_least_1bit x = x AND (x - 1)"

definition is_power_of_2 :: "u32 \<Rightarrow> bool" where
  "is_power_of_2 x \<longleftrightarrow> x \<noteq> 0 \<and> turn_off_least_1bit x = 0"

text \<open>\<open>while (!is_power_of_2 (n)) n = turn_off_least_1bit (n);\<close>\<close>

partial_function (option) round_to_power_of_2 :: "u32 \<Rightarrow> u32 option" where
  "round_to_power_of_2 n =
     (if \<not> is_power_of_2 n then round_to_power_of_2 (turn_off_least_1bit n) else Some n)"

definition BEST_ELEMS_PER_BUCKET :: u32 where
  "BEST_ELEMS_PER_BUCKET = 2"

definition push_front :: "u32 \<Rightarrow> 'e \<Rightarrow> 'e hash_table \<Rightarrow> 'e hash_table option" where
  "push_front bucket e h = do {
     ASSERT (unat bucket < length (h_buckets h));
     Some (h\<lparr>h_buckets := (h_buckets h)[unat bucket := e # h_buckets h ! unat bucket]\<rparr>)
   }"

text \<open>Moving one element into its bucket of the new array.\<close>

definition move_elem :: "'e \<Rightarrow> 'e hash_table \<Rightarrow> 'e hash_table option" where
  "move_elem e h = do { b \<leftarrow> find_bucket h e; push_front b e h }"

definition rehash :: "bool \<Rightarrow> 'e hash_table \<Rightarrow> 'e hash_table option" where
  "rehash mem h = do {
     let old_buckets = h_buckets h;
     let old_bucket_cnt = h_bucket_cnt h;
     let n = h_elem_cnt h div BEST_ELEMS_PER_BUCKET;
     new_bucket_cnt \<leftarrow> round_to_power_of_2 (if n < 4 then 4 else n);
     if new_bucket_cnt = old_bucket_cnt then Some h
     else if \<not> mem then Some h
     else for_u32 0 old_bucket_cnt
            (\<lambda>i h. do {
               ASSERT (unat i < length old_buckets);
               foreach move_elem (old_buckets ! unat i) h
             })
            (h\<lparr>h_buckets := replicate (unat new_bucket_cnt) [], h_bucket_cnt := new_bucket_cnt\<rparr>)
   }"

definition insert_elem :: "u32 \<Rightarrow> 'e \<Rightarrow> 'e hash_table \<Rightarrow> 'e hash_table option" where
  "insert_elem bucket e h = push_front bucket e (h\<lparr>h_elem_cnt := h_elem_cnt h + 1\<rparr>)"

definition remove_elem :: "'e \<Rightarrow> 'e hash_table \<Rightarrow> 'e hash_table" where
  "remove_elem e h =
     h\<lparr>h_elem_cnt := h_elem_cnt h - 1, h_buckets := map (remove1 e) (h_buckets h)\<rparr>"

subsection \<open>The interface\<close>

text \<open>\<open>destructor = None\<close> is the null pointer; otherwise it acts on the rest of the state, \<open>'s\<close>.\<close>

definition hash_clear ::
    "('e \<Rightarrow> 's \<Rightarrow> 's option) option \<Rightarrow> 'e hash_table \<Rightarrow> 's \<Rightarrow> ('e hash_table \<times> 's) option" where
  "hash_clear destructor h s = do {
     (h, s) \<leftarrow> for_u32 0 (h_bucket_cnt h)
       (\<lambda>i (h, s). do {
          ASSERT (unat i < length (h_buckets h));
          s \<leftarrow> (case destructor of
                 None \<Rightarrow> Some s
               | Some f \<Rightarrow> foreach f (h_buckets h ! unat i) s);
          Some (h\<lparr>h_buckets := (h_buckets h)[unat i := []]\<rparr>, s)
        })
       (h, s);
     Some (h\<lparr>h_elem_cnt := 0\<rparr>, s)
   }"

text \<open>\<open>mem\<close> is the array of four lists that \<open>malloc\<close> returned, with arbitrary contents.\<close>

definition hash_init ::
    "'e list list option \<Rightarrow> ('e \<Rightarrow> u32) \<Rightarrow> ('e \<Rightarrow> 'e \<Rightarrow> bool) \<Rightarrow> 'e hash_table option option" where
  "hash_init mem hash lessf =
     (case mem of
        None \<Rightarrow> Some None
      | Some bs \<Rightarrow> do {
          let h = \<lparr>h_elem_cnt = 0, h_bucket_cnt = 4, h_buckets = bs, h_hash = hash, h_less = lessf\<rparr>;
          (h, _) \<leftarrow> hash_clear None h ();
          Some (Some h)
        })"

definition hash_insert :: "bool \<Rightarrow> 'e hash_table \<Rightarrow> 'e \<Rightarrow> ('e option \<times> 'e hash_table) option" where
  "hash_insert mem h new = do {
     bucket \<leftarrow> find_bucket h new;
     old \<leftarrow> find_elem h bucket new;
     h \<leftarrow> (if old = None then insert_elem bucket new h else Some h);
     h \<leftarrow> rehash mem h;
     Some (old, h)
   }"

definition hash_replace :: "bool \<Rightarrow> 'e hash_table \<Rightarrow> 'e \<Rightarrow> ('e option \<times> 'e hash_table) option" where
  "hash_replace mem h new = do {
     bucket \<leftarrow> find_bucket h new;
     old \<leftarrow> find_elem h bucket new;
     let h = (case old of None \<Rightarrow> h | Some e \<Rightarrow> remove_elem e h);
     h \<leftarrow> insert_elem bucket new h;
     h \<leftarrow> rehash mem h;
     Some (old, h)
   }"

definition hash_find :: "'e hash_table \<Rightarrow> 'e \<Rightarrow> 'e option option" where
  "hash_find h e = do { bucket \<leftarrow> find_bucket h e; find_elem h bucket e }"

definition hash_delete :: "bool \<Rightarrow> 'e hash_table \<Rightarrow> 'e \<Rightarrow> ('e option \<times> 'e hash_table) option" where
  "hash_delete mem h e = do {
     bucket \<leftarrow> find_bucket h e;
     found \<leftarrow> find_elem h bucket e;
     case found of
       None \<Rightarrow> Some (None, h)
     | Some x \<Rightarrow> do { h \<leftarrow> rehash mem (remove_elem x h); Some (found, h) }
   }"

definition hash_apply :: "('e \<Rightarrow> 's \<Rightarrow> 's option) \<Rightarrow> 'e hash_table \<Rightarrow> 's \<Rightarrow> 's option" where
  "hash_apply action h s =
     for_u32 0 (h_bucket_cnt h)
       (\<lambda>i s. do { ASSERT (unat i < length (h_buckets h)); foreach action (h_buckets h ! unat i) s }) s"

definition hash_destroy ::
    "('e \<Rightarrow> 's \<Rightarrow> 's option) option \<Rightarrow> 'e hash_table \<Rightarrow> 's \<Rightarrow> 's option" where
  "hash_destroy destructor h s =
     (if destructor = None then Some s
      else do { (_, s) \<leftarrow> hash_clear destructor h s; Some s })"

definition hash_size :: "'e hash_table \<Rightarrow> u32" where
  "hash_size h = h_elem_cnt h"

definition hash_empty :: "'e hash_table \<Rightarrow> bool" where
  "hash_empty h \<longleftrightarrow> h_elem_cnt h = 0"

subsection \<open>Iteration\<close>

text \<open>
  An iterator is a bucket and a place in it: 0 is the head of the list, \<open>k\<close> its \<open>k\<close>-th element;
  no place is the null pointer.
\<close>

record hash_iterator =
  it_bucket :: nat
  it_elem :: "nat option"

definition hash_first :: "'e hash_table \<Rightarrow> hash_iterator" where
  "hash_first h = \<lparr>it_bucket = 0, it_elem = Some 0\<rparr>"

definition hash_cur :: "'e hash_table \<Rightarrow> hash_iterator \<Rightarrow> 'e option option" where
  "hash_cur h i = (case it_elem i of
       None \<Rightarrow> Some None
     | Some k \<Rightarrow> do {
         ASSERT (it_bucket i < length (h_buckets h) \<and> 0 < k \<and> k \<le> length (h_buckets h ! it_bucket i));
         Some (Some (h_buckets h ! it_bucket i ! (k - 1)))
       })"

text \<open>The loop of \<open>hash_next\<close>: place \<open>k\<close> of bucket \<open>b\<close>, or the first place of a later bucket.\<close>

function hash_skip :: "'e hash_table \<Rightarrow> nat \<Rightarrow> nat \<Rightarrow> hash_iterator option" where
  "hash_skip h b k = (
     if b < length (h_buckets h) then
       if k = Suc (length (h_buckets h ! b)) then
         if Suc b \<ge> unat (h_bucket_cnt h) then Some \<lparr>it_bucket = Suc b, it_elem = None\<rparr>
         else hash_skip h (Suc b) 1
       else Some \<lparr>it_bucket = b, it_elem = Some k\<rparr>
     else None)"
  by pat_completeness auto
termination
  by (relation "measure (\<lambda>(h, b, _). unat (h_bucket_cnt h) - b)") auto

declare hash_skip.simps [simp del]

definition hash_next :: "'e hash_table \<Rightarrow> hash_iterator \<Rightarrow> ('e option \<times> hash_iterator) option" where
  "hash_next h i = do {
     k \<leftarrow> it_elem i;
     ASSERT (it_bucket i < length (h_buckets h) \<and> k \<le> length (h_buckets h ! it_bucket i));
     i \<leftarrow> hash_skip h (it_bucket i) (Suc k);
     e \<leftarrow> hash_cur h i;
     Some (e, i)
   }"


text \<open>The iteration idiom of the comment above \<open>hash_first\<close>, collecting the elements.\<close>

partial_function (option) hash_collect :: "'e hash_table \<Rightarrow> hash_iterator \<Rightarrow> 'e list \<Rightarrow> 'e list option" where
  "hash_collect h i acc = do {
     r \<leftarrow> hash_next h i;
     case fst r of None \<Rightarrow> Some acc | Some e \<Rightarrow> hash_collect h (snd r) (acc @ [e])
   }"

subsection \<open>The number of buckets\<close>

lemma and_pred_even: "0 < n \<Longrightarrow> (2 * n) AND (2 * n - 1) = 2 * (n AND (n - 1))" for n :: nat
proof -
  assume "0 < n"
  then have "(2 * n - 1) div 2 = n - 1" "(2 * n - 1) mod 2 = 1" by presburger+
  then show ?thesis by (subst and_nat_unfold) auto
qed

lemma and_pred_odd: "(2 * n + 1) AND (2 * n) = 2 * n" for n :: nat
  by (subst and_nat_unfold) simp

text \<open>Turning off the lowest bit reaches zero from a power of two only, and stays above every power
  of two otherwise.\<close>

lemma turn_off_nat:
  "0 < n \<Longrightarrow> (\<exists>k. n = 2 ^ k) \<and> n AND (n - 1) = 0 \<or>
     0 < n AND (n - 1) \<and> n AND (n - 1) < n \<and> (\<forall>k. 2 ^ k \<le> n \<longrightarrow> 2 ^ k \<le> n AND (n - 1))" for n :: nat
proof (induction n rule: less_induct)
  case (less n)
  show ?case
  proof (cases "even n")
    case True
    then obtain m where m: "n = 2 * m" by blast
    with less.prems have pos: "0 < m" "m < n" by auto
    note eq = and_pred_even[OF pos(1), folded m]
    from less.IH[OF pos(2,1)] show ?thesis
    proof
      assume "(\<exists>k. m = 2 ^ k) \<and> m AND (m - 1) = 0"
      then show ?thesis unfolding eq by (metis m mult_0_right power_Suc)
    next
      assume IH: "0 < m AND (m - 1) \<and> m AND (m - 1) < m \<and> (\<forall>k. 2 ^ k \<le> m \<longrightarrow> 2 ^ k \<le> m AND (m - 1))"
      have "2 ^ k \<le> n AND (n - 1)" if "2 ^ k \<le> n" for k
        unfolding eq using that IH m by (cases k) auto
      then show ?thesis using IH m unfolding eq by auto
    qed
  next
    case False
    then obtain m where m: "n = 2 * m + 1" using oddE by blast
    have eq: "n AND (n - 1) = 2 * m" using and_pred_odd[of m] by (simp add: m)
    show ?thesis
    proof (cases "m = 0")
      case True
      then show ?thesis using m eq by (auto intro: exI[of _ 0])
    next
      case False
      have "2 ^ k \<le> 2 * m" if "2 ^ k \<le> n" for k :: nat
        using that m False by (cases k) auto
      then show ?thesis using m False unfolding eq by auto
    qed
  qed
qed

lemma unat_turn_off: "x \<noteq> 0 \<Longrightarrow> unat (turn_off_least_1bit x) = unat x AND (unat x - 1)"
  by (simp add: turn_off_least_1bit_def unsigned_and_eq unat_minus_one)

lemma is_power_of_2_iff: "is_power_of_2 x \<longleftrightarrow> (\<exists>k. unat x = 2 ^ k)"
proof (cases "x = 0")
  case True
  then show ?thesis by (simp add: is_power_of_2_def)
next
  case False
  then have pos: "0 < unat x" by (simp add: unat_gt_0)
  have "is_power_of_2 x \<longleftrightarrow> unat x AND (unat x - 1) = 0"
    using False unat_turn_off[OF False] by (simp add: is_power_of_2_def unat_eq_0[symmetric])
  also have "\<dots> \<longleftrightarrow> (\<exists>k. unat x = 2 ^ k)"
    using turn_off_nat[OF pos] by (metis leD order_refl)
  finally show ?thesis .
qed

lemma round_to_power_of_2_correct:
  "x \<noteq> 0 \<Longrightarrow> \<exists>r k. round_to_power_of_2 x = Some r \<and> unat r = 2 ^ k \<and> r \<le> x \<and> unat x < 2 ^ Suc k"
proof (induction "unat x" arbitrary: x rule: less_induct)
  case less
  then have pos: "0 < unat x" by (simp add: unat_gt_0)
  show ?case
  proof (cases "is_power_of_2 x")
    case True
    then obtain k where "unat x = 2 ^ k" using is_power_of_2_iff by blast
    then show ?thesis using True by (subst round_to_power_of_2.simps) auto
  next
    case False
    let ?y = "turn_off_least_1bit x"
    have y: "0 < unat ?y" "unat ?y < unat x" "\<And>k. 2 ^ k \<le> unat x \<Longrightarrow> 2 ^ k \<le> unat ?y"
      using turn_off_nat[OF pos] False less.prems unat_turn_off[OF less.prems] is_power_of_2_iff[of x] by auto
    then obtain r k where "round_to_power_of_2 ?y = Some r" "unat r = 2 ^ k" "r \<le> ?y" "unat ?y < 2 ^ Suc k"
      using less.hyps[of ?y] by (metis less_irrefl unat_0)
    moreover have "unat x < 2 ^ Suc k" using y(3)[of "Suc k"] calculation(4) by linarith
    moreover have "r \<le> x" using calculation(3) y(2) by (simp add: word_le_nat_alt)
    ultimately show ?thesis using False by (subst round_to_power_of_2.simps) auto
  qed
qed


subsection \<open>Elements are where their hash says\<close>

definition elems :: "'e hash_table \<Rightarrow> 'e list" where
  "elems h = concat (h_buckets h)"

definition hash_index :: "'e hash_table \<Rightarrow> 'e \<Rightarrow> nat" where
  "hash_index h e = unat (h_hash h e AND (h_bucket_cnt h - 1))"

definition placed :: "'e hash_table \<Rightarrow> bool" where
  "placed h \<longleftrightarrow> is_power_of_2 (h_bucket_cnt h) \<and> 4 \<le> h_bucket_cnt h \<and>
     length (h_buckets h) = unat (h_bucket_cnt h) \<and>
     (\<forall>b < length (h_buckets h). \<forall>e \<in> set (h_buckets h ! b). hash_index h e = b)"

lemma hash_index_less: "h_bucket_cnt h \<noteq> 0 \<Longrightarrow> hash_index h e < unat (h_bucket_cnt h)"
proof -
  assume nz: "h_bucket_cnt h \<noteq> 0"
  have "h_hash h e AND (h_bucket_cnt h - 1) \<le> h_bucket_cnt h - 1" by (rule word_and_le1)
  then have "hash_index h e \<le> unat (h_bucket_cnt h) - 1"
    unfolding hash_index_def using nz by (simp add: word_le_nat_alt unat_minus_one)
  then show ?thesis using nz unat_gt_0[of "h_bucket_cnt h"] by linarith
qed

lemma find_bucket_placed:
  assumes "placed h"
  shows "\<exists>b. find_bucket h e = Some b \<and> unat b = hash_index h e \<and> hash_index h e < length (h_buckets h)"
  using assms hash_index_less[of h e] by (auto simp: placed_def find_bucket_def hash_index_def is_power_of_2_def)

lemma mset_concat_update:
  "i < length bs \<Longrightarrow> mset (concat (bs[i := e # bs ! i])) = add_mset e (mset (concat bs))"
  by (induction bs arbitrary: i) (auto split: nat.split)

lemma push_front_placed:
  assumes "placed h" "unat b = hash_index h e"
  shows "\<exists>bs. push_front b e h = Some (h\<lparr>h_buckets := bs\<rparr>) \<and> placed (h\<lparr>h_buckets := bs\<rparr>) \<and>
           mset (concat bs) = add_mset e (mset (elems h))"
proof -
  let ?bs = "(h_buckets h)[unat b := e # h_buckets h ! unat b]"
  have b: "unat b < length (h_buckets h)"
    using assms hash_index_less[of h e] by (auto simp: placed_def is_power_of_2_def)
  have idx: "hash_index (h\<lparr>h_buckets := ?bs\<rparr>) = hash_index h" by (simp add: hash_index_def fun_eq_iff)
  have "placed (h\<lparr>h_buckets := ?bs\<rparr>)"
    using assms b unfolding placed_def idx by (auto simp: nth_list_update)
  then show ?thesis
    using b mset_concat_update[OF b, of e] by (auto simp: push_front_def elems_def)
qed

lemma move_elem_placed:
  assumes "placed h"
  shows "\<exists>bs. move_elem e h = Some (h\<lparr>h_buckets := bs\<rparr>) \<and> placed (h\<lparr>h_buckets := bs\<rparr>) \<and>
           mset (concat bs) = add_mset e (mset (elems h))"
  using find_bucket_placed[OF assms, of e] push_front_placed[OF assms, of _ e] by (auto simp: move_elem_def)

lemma move_elems_placed:
  "placed h \<Longrightarrow> \<exists>bs. foreach move_elem es h = Some (h\<lparr>h_buckets := bs\<rparr>) \<and> placed (h\<lparr>h_buckets := bs\<rparr>) \<and>
           mset (concat bs) = mset es + mset (elems h)"
proof (induction es arbitrary: h)
  case Nil
  then show ?case by (intro exI[of _ "h_buckets h"]) (simp add: elems_def)
next
  case (Cons e es)
  from move_elem_placed[OF Cons.prems, of e] obtain bs where bs:
    "move_elem e h = Some (h\<lparr>h_buckets := bs\<rparr>)" "placed (h\<lparr>h_buckets := bs\<rparr>)"
    "mset (concat bs) = add_mset e (mset (elems h))" by blast
  from Cons.IH[OF bs(2)] bs show ?case by (auto simp: elems_def)
qed

lemma foreach_concat:
  "foreach (\<lambda>k. foreach f (xss ! k)) [0 ..< length xss] s = foreach f (concat xss) s"
proof (induction xss rule: rev_induct)
  case Nil
  then show ?case by simp
next
  case (snoc xs xss)
  have "foreach (\<lambda>k. foreach f ((xss @ [xs]) ! k)) [0 ..< length xss] s =
        foreach (\<lambda>k. foreach f (xss ! k)) [0 ..< length xss] s"
    by (rule foreach_cong) (simp add: nth_append)
  with snoc show ?case by (simp add: nth_append)
qed

text \<open>A loop over all elements of all buckets.\<close>

lemma for_buckets:
  assumes "length bs = unat n"
  shows "for_u32 0 n (\<lambda>i s. do { ASSERT (unat i < length bs); foreach f (bs ! unat i) s }) s =
         foreach f (concat bs) s"
proof -
  have "foreach (\<lambda>k s. do { ASSERT (unat (word_of_nat k :: u32) < length bs); foreach f (bs ! unat (word_of_nat k :: u32)) s }) [0 ..< length bs] s =
        foreach (\<lambda>k. foreach f (bs ! k)) [0 ..< length bs] s"
    using assms unat_u32_less[of n] by (intro foreach_cong) (auto simp: unat_of_nat)
  then show ?thesis using foreach_concat[of f bs s] assms by (simp add: for_u32_foreach)
qed

lemma rehash_placed:
  assumes "placed h"
  shows "\<exists>h'. rehash mem h = Some h' \<and> placed h' \<and> mset (elems h') = mset (elems h) \<and>
           h_elem_cnt h' = h_elem_cnt h \<and> h_hash h' = h_hash h \<and> h_less h' = h_less h"
proof -
  let ?n = "if h_elem_cnt h div BEST_ELEMS_PER_BUCKET < 4 then 4 else h_elem_cnt h div BEST_ELEMS_PER_BUCKET"
  have n4: "4 \<le> ?n" by (simp add: not_less)
  then have "?n \<noteq> 0" by auto
  from round_to_power_of_2_correct[OF this] obtain r k where r:
    "round_to_power_of_2 ?n = Some r" "unat r = 2 ^ k" "unat ?n < 2 ^ Suc k" by blast
  have "2 ^ k \<ge> (4 :: nat)"
  proof -
    have "4 \<le> unat ?n" using n4 by (simp add: word_le_nat_alt)
    with r(3) have "(2 :: nat) ^ 2 < 2 ^ Suc k" by simp
    then have "2 < Suc k" by (rule power_less_imp_less_exp[rotated]) simp
    then have "(2 :: nat) ^ 2 \<le> 2 ^ k" by (intro power_increasing) auto
    then show ?thesis by simp
  qed
  then have r4: "4 \<le> r" using r(2) by (simp add: word_le_nat_alt)
  let ?h = "h\<lparr>h_buckets := replicate (unat r) [], h_bucket_cnt := r\<rparr>"
  have pl: "placed ?h" using r(2) r4 is_power_of_2_iff[of r] by (auto simp: placed_def)
  have mt: "elems ?h = []" by (simp add: elems_def)
  from move_elems_placed[OF pl, of "elems h"] obtain bs where
    "foreach move_elem (elems h) ?h = Some (?h\<lparr>h_buckets := bs\<rparr>)" "placed (?h\<lparr>h_buckets := bs\<rparr>)"
    "mset (concat bs) = mset (elems h)" unfolding mt by auto
  moreover have len: "length (h_buckets h) = unat (h_bucket_cnt h)" using assms by (simp add: placed_def)
  have "rehash mem h = (if r = h_bucket_cnt h \<or> \<not> mem then Some h else foreach move_elem (elems h) ?h)"
    using for_buckets[OF len, of move_elem ?h] r(1) by (simp add: rehash_def Let_def elems_def)
  ultimately show ?thesis using assms by (auto simp: elems_def)
qed


subsection \<open>Tables as maps\<close>

definition hash_inv :: "('e \<Rightarrow> u32) \<Rightarrow> ('e \<Rightarrow> 'e \<Rightarrow> bool) \<Rightarrow> ('e \<Rightarrow> 'k) \<Rightarrow> 'e hash_table \<Rightarrow> bool" where
  "hash_inv hashf lessf key h \<longleftrightarrow> h_hash h = hashf \<and> h_less h = lessf \<and> placed h \<and>
     unat (h_elem_cnt h) = length (elems h) \<and> distinct (map key (elems h))"

definition table :: "('e \<Rightarrow> 'k) \<Rightarrow> 'e hash_table \<Rightarrow> 'k \<rightharpoonup> 'e" where
  "table key h k = find (\<lambda>e. key e = k) (elems h)"

lemma find_key_iff:
  "distinct (map key xs) \<Longrightarrow> find (\<lambda>e. key e = k) xs = Some e \<longleftrightarrow> e \<in> set xs \<and> key e = k"
  by (induction xs) (auto simp: image_iff)

lemma table_iff: "hash_inv hf lf key h \<Longrightarrow> table key h k = Some e \<longleftrightarrow> e \<in> set (elems h) \<and> key e = k"
  by (simp add: table_def hash_inv_def find_key_iff)

lemma distinct_map_bucket:
  "distinct (map key (concat bs)) \<Longrightarrow> i < length bs \<Longrightarrow> distinct (map key (bs ! i))"
  by (induction bs arbitrary: i) (auto simp: nth_Cons split: nat.split)

lemma distinct_keys_mset: "mset xs = mset ys \<Longrightarrow> distinct (map key xs) = distinct (map key ys)"
  by (intro mset_eq_imp_distinct_iff) (simp add: mset_map)

lemma elems_nth: "e \<in> set (elems h) \<longleftrightarrow> (\<exists>b < length (h_buckets h). e \<in> set (h_buckets h ! b))"
  by (auto simp: elems_def in_set_conv_nth) (metis nth_mem)+

lemma concat_remove1: "distinct (concat bs) \<Longrightarrow> concat (map (remove1 e) bs) = removeAll e (concat bs)"
  by (induction bs) (auto simp: distinct_remove1_removeAll)

locale hash_keys =
  fixes hashf :: "'e \<Rightarrow> u32" and lessf :: "'e \<Rightarrow> 'e \<Rightarrow> bool" and key :: "'e \<Rightarrow> 'k"
  assumes same_key_iff: "\<not> lessf a b \<and> \<not> lessf b a \<longleftrightarrow> key a = key b"
    and hash_key: "key a = key b \<Longrightarrow> hashf a = hashf b"
begin

lemma find_elem_table:
  assumes inv: "hash_inv hashf lessf key h" and b: "unat b = hash_index h e" "hash_index h e < length (h_buckets h)"
  shows "find_elem h b e = Some (table key h (key e))"
proof -
  let ?bk = "h_buckets h ! unat b"
  have pl: "placed h" and d: "distinct (map key (elems h))" using inv by (simp_all add: hash_inv_def)
  have "find (\<lambda>hi. \<not> h_less h hi e \<and> \<not> h_less h e hi) ?bk = find (\<lambda>hi. key hi = key e) ?bk"
    using inv by (simp add: hash_inv_def same_key_iff)
  also have "\<dots> = table key h (key e)"
  proof (rule option_eqI)
    fix x
    have idx: "hash_index h x = unat b" if "key x = key e"
      using that hash_key[of x e] inv b(1) by (simp add: hash_index_def hash_inv_def)
    have "find (\<lambda>hi. key hi = key e) ?bk = Some x \<longleftrightarrow> x \<in> set ?bk \<and> key x = key e"
      using d b distinct_map_bucket by (intro find_key_iff) (simp add: elems_def)
    also have "\<dots> \<longleftrightarrow> x \<in> set (elems h) \<and> key x = key e"
      using idx pl b unfolding elems_nth placed_def by metis
    finally show "find (\<lambda>hi. key hi = key e) ?bk = Some x \<longleftrightarrow> table key h (key e) = Some x"
      using table_iff[OF inv] by simp
  qed
  finally show ?thesis using b by (simp add: find_elem_def)
qed

lemma rehash_table:
  assumes "hash_inv hashf lessf key h"
  shows "\<exists>h'. rehash mem h = Some h' \<and> hash_inv hashf lessf key h' \<and> table key h' = table key h"
proof -
  have "placed h" using assms by (simp add: hash_inv_def)
  from rehash_placed[OF this] obtain h' where h': "rehash mem h = Some h'" "placed h'"
    "mset (elems h') = mset (elems h)" "h_elem_cnt h' = h_elem_cnt h" "h_hash h' = h_hash h" "h_less h' = h_less h"
    by blast
  have inv: "hash_inv hashf lessf key h'"
    using assms h' distinct_keys_mset[OF h'(3), of key] mset_eq_length[OF h'(3)] by (simp add: hash_inv_def)
  have "table key h' k = table key h k" for k
    by (rule option_eqI) (simp add: table_iff[OF inv] table_iff[OF assms] mset_eq_setD[OF h'(3)])
  then show ?thesis using h'(1) inv by blast
qed

lemma insert_elem_table:
  assumes inv: "hash_inv hashf lessf key h" and b: "unat b = hash_index h e"
    and fresh: "table key h (key e) = None" and small: "Suc (length (elems h)) < 2 ^ 32"
  shows "\<exists>h'. insert_elem b e h = Some h' \<and> hash_inv hashf lessf key h' \<and> table key h' = (table key h)(key e \<mapsto> e)"
proof -
  let ?h = "h\<lparr>h_elem_cnt := h_elem_cnt h + 1\<rparr>"
  have "placed ?h" "unat b = hash_index ?h e"
    using inv b by (auto simp: hash_inv_def placed_def hash_index_def)
  from push_front_placed[OF this] obtain bs where bs: "push_front b e ?h = Some (?h\<lparr>h_buckets := bs\<rparr>)"
    "placed (?h\<lparr>h_buckets := bs\<rparr>)" "mset (concat bs) = mset (e # elems h)" by (auto simp: elems_def)
  let ?h' = "?h\<lparr>h_buckets := bs\<rparr>"
  have new: "key e \<notin> key ` set (elems h)"
    using fresh by (auto simp: table_def find_None_iff)
  have ms: "mset (elems ?h') = mset (e # elems h)" using bs(3) by (simp add: elems_def)
  have "unat (h_elem_cnt h + 1) = Suc (length (elems h))"
    using inv small by (simp add: hash_inv_def unat_word_ariths(1))
  then have inv': "hash_inv hashf lessf key ?h'"
    using inv bs(2) new distinct_keys_mset[OF ms, of key] mset_eq_length[OF ms] by (simp add: hash_inv_def)
  have "table key ?h' k = ((table key h)(key e \<mapsto> e)) k" for k
    using new mset_eq_setD[OF ms]
    by (intro option_eqI) (auto simp: table_iff[OF inv'] table_iff[OF inv] image_iff)
  then show ?thesis using bs(1) inv' by (auto simp: insert_elem_def)
qed

lemma remove_elem_table:
  assumes inv: "hash_inv hashf lessf key h" and e: "e \<in> set (elems h)"
  shows "hash_inv hashf lessf key (remove_elem e h)"
    and "table key (remove_elem e h) = (table key h)(key e := None)"
proof -
  let ?h = "remove_elem e h"
  have dk: "distinct (map key (elems h))" and pl: "placed h" and cnt: "unat (h_elem_cnt h) = length (elems h)"
    using inv by (simp_all add: hash_inv_def)
  have el: "elems ?h = removeAll e (elems h)"
    using dk by (simp add: elems_def remove_elem_def concat_remove1 distinct_map)
  have len: "length (elems ?h) = length (elems h) - 1"
    using dk e by (simp add: el distinct_map distinct_remove1_removeAll[symmetric] length_remove1)
  have "placed ?h"
    using pl set_remove1_subset[of e] by (fastforce simp: placed_def remove_elem_def hash_index_def)
  moreover have "unat (h_elem_cnt h - 1) = length (elems h) - 1"
    using cnt e by (metis length_pos_if_in_set less_irrefl unat_0 unat_minus_one)
  moreover have "distinct (map key (elems ?h))"
    using dk by (simp add: el distinct_map inj_on_def distinct_removeAll)
  ultimately show inv': "hash_inv hashf lessf key ?h"
    using inv len by (simp add: hash_inv_def remove_elem_def)
  have "table key ?h k = ((table key h)(key e := None)) k" for k
    using dk e by (intro option_eqI) (auto simp: table_iff[OF inv'] table_iff[OF inv] el distinct_map inj_on_def)
  then show "table key ?h = (table key h)(key e := None)" by blast
qed

lemma hash_find_table:
  "hash_inv hashf lessf key h \<Longrightarrow> hash_find h e = Some (table key h (key e))"
  using find_bucket_placed[of h e] find_elem_table[of h _ e] by (auto simp: hash_find_def hash_inv_def)

lemma hash_insert_table:
  assumes inv: "hash_inv hashf lessf key h" and small: "Suc (length (elems h)) < 2 ^ 32"
  shows "\<exists>h'. hash_insert mem h e = Some (table key h (key e), h') \<and> hash_inv hashf lessf key h' \<and>
           table key h' = (if table key h (key e) = None then (table key h)(key e \<mapsto> e) else table key h)"
proof -
  from inv find_bucket_placed[of h e] obtain b where b: "find_bucket h e = Some b" "unat b = hash_index h e"
    "hash_index h e < length (h_buckets h)" by (auto simp: hash_inv_def)
  note fe = find_elem_table[OF inv b(2,3)]
  show ?thesis
  proof (cases "table key h (key e)")
    case None
    from insert_elem_table[OF inv b(2) None small] obtain h1 where
      "insert_elem b e h = Some h1" "hash_inv hashf lessf key h1" "table key h1 = (table key h)(key e \<mapsto> e)" by blast
    then show ?thesis using rehash_table[of h1 mem] b(1) fe None by (auto simp: hash_insert_def)
  next
    case (Some x)
    then show ?thesis using rehash_table[OF inv, of mem] b(1) fe by (auto simp: hash_insert_def)
  qed
qed

lemma hash_delete_table:
  assumes inv: "hash_inv hashf lessf key h"
  shows "\<exists>h'. hash_delete mem h e = Some (table key h (key e), h') \<and> hash_inv hashf lessf key h' \<and>
           table key h' = (table key h)(key e := None)"
proof -
  from inv find_bucket_placed[of h e] obtain b where b: "find_bucket h e = Some b" "unat b = hash_index h e"
    "hash_index h e < length (h_buckets h)" by (auto simp: hash_inv_def)
  note fe = find_elem_table[OF inv b(2,3)]
  show ?thesis
  proof (cases "table key h (key e)")
    case None
    then show ?thesis using b(1) fe inv by (auto simp: hash_delete_def)
  next
    case (Some x)
    then have x: "x \<in> set (elems h)" "key x = key e" using table_iff[OF inv] by auto
    from rehash_table[OF remove_elem_table(1)[OF inv x(1)], of mem] remove_elem_table(2)[OF inv x(1)]
    show ?thesis using b(1) fe Some x(2) by (auto simp: hash_delete_def)
  qed
qed

lemma hash_replace_table:
  assumes inv: "hash_inv hashf lessf key h" and small: "Suc (length (elems h)) < 2 ^ 32"
  shows "\<exists>h'. hash_replace mem h e = Some (table key h (key e), h') \<and> hash_inv hashf lessf key h' \<and>
           table key h' = (table key h)(key e \<mapsto> e)"
proof -
  from inv find_bucket_placed[of h e] obtain b where b: "find_bucket h e = Some b" "unat b = hash_index h e"
    "hash_index h e < length (h_buckets h)" by (auto simp: hash_inv_def)
  note fe = find_elem_table[OF inv b(2,3)]
  define h1 where "h1 = (case table key h (key e) of None \<Rightarrow> h | Some x \<Rightarrow> remove_elem x h)"
  have h1: "hash_inv hashf lessf key h1" "table key h1 = (table key h)(key e := None)"
      "length (elems h1) \<le> length (elems h)" "hash_index h1 e = hash_index h e"
  proof -
    have "hash_inv hashf lessf key h1 \<and> table key h1 = (table key h)(key e := None) \<and>
        length (elems h1) \<le> length (elems h) \<and> hash_index h1 e = hash_index h e"
    proof (cases "table key h (key e)")
      case None
      then show ?thesis using inv by (auto simp: h1_def)
    next
      case (Some x)
      then have x: "x \<in> set (elems h)" "key x = key e" using table_iff[OF inv] by auto
      have "length (elems (remove_elem x h)) \<le> length (elems h)"
        using inv by (simp add: elems_def remove_elem_def concat_remove1 hash_inv_def distinct_map)
      then show ?thesis
        using Some x remove_elem_table[OF inv x(1)] by (simp add: h1_def remove_elem_def hash_index_def)
    qed
    then show "hash_inv hashf lessf key h1" "table key h1 = (table key h)(key e := None)"
      "length (elems h1) \<le> length (elems h)" "hash_index h1 e = hash_index h e" by simp_all
  qed
  have "table key h1 (key e) = None" "Suc (length (elems h1)) < 2 ^ 32" using h1(2,3) small by simp_all
  from insert_elem_table[OF h1(1) _ this] b(2) h1(4) obtain h2 where
    "insert_elem b e h1 = Some h2" "hash_inv hashf lessf key h2" "table key h2 = (table key h)(key e \<mapsto> e)"
    using h1(2) by auto
  then show ?thesis
    using rehash_table[of h2 mem] b(1) fe by (auto simp: hash_replace_def Let_def h1_def[symmetric])
qed

end

subsection \<open>Clearing, initialisation, application\<close>

lemma clear_loop:
  fixes bs :: "'e list list" and h :: "'e hash_table" and destructor :: "('e \<Rightarrow> 's \<Rightarrow> 's option) option"
  assumes "h_buckets h = bs" "length bs < 2 ^ 32" "k \<le> length bs"
  defines "body \<equiv> (\<lambda>j :: nat. \<lambda>(h :: 'e hash_table, s). do {
          ASSERT (unat (word_of_nat j :: u32) < length (h_buckets h));
          s \<leftarrow> (case destructor of None \<Rightarrow> Some s | Some f \<Rightarrow> foreach f (h_buckets h ! unat (word_of_nat j :: u32)) s);
          Some (h\<lparr>h_buckets := (h_buckets h)[unat (word_of_nat j :: u32) := []]\<rparr>, s)
        })"
  shows "foreach body [0 ..< k] (h, s) = do {
           s' \<leftarrow> (case destructor of None \<Rightarrow> Some s | Some f \<Rightarrow> foreach f (concat (take k bs)) s);
           Some (h\<lparr>h_buckets := replicate k [] @ drop k bs\<rparr>, s') }"
  using assms(3)
proof (induction k)
  case 0
  then show ?case using assms(1) by (simp split: option.split)
next
  case (Suc k)
  have j: "unat (word_of_nat k :: u32) = k" using Suc.prems assms(2) by (simp add: unat_of_nat)
  have nth: "(replicate k [] @ drop k bs) ! k = bs ! k" using Suc.prems by (simp add: nth_append)
  have upd: "(replicate k [] @ drop k bs)[k := []] = replicate (Suc k) [] @ drop (Suc k) bs"
    using Suc.prems by (simp add: list_update_append replicate_append_same Cons_nth_drop_Suc[symmetric])
  have tk: "take (Suc k) bs = take k bs @ [bs ! k]" using Suc.prems by (simp add: take_Suc_conv_app_nth)
  show ?case
    using Suc nth upd by (cases destructor) (simp_all add: body_def j tk bind_assoc del: replicate_Suc cong: bind_cong_Some)
qed

lemma hash_clear_result:
  assumes "length (h_buckets h) = unat (h_bucket_cnt h)"
  shows "hash_clear destructor h s = do {
           s' \<leftarrow> (case destructor of None \<Rightarrow> Some s | Some f \<Rightarrow> foreach f (elems h) s);
           Some (h\<lparr>h_buckets := replicate (unat (h_bucket_cnt h)) [], h_elem_cnt := 0\<rparr>, s') }"
  using clear_loop[OF refl, of h "unat (h_bucket_cnt h)" destructor s] assms unat_u32_less[of "h_bucket_cnt h"]
  by (cases destructor) (simp_all add: hash_clear_def for_u32_foreach elems_def bind_assoc)

lemma hash_init_inv:
  assumes "length bs = 4"
  shows "\<exists>h. hash_init (Some bs) hashf lessf = Some (Some h) \<and> hash_inv hashf lessf key h \<and> table key h = Map.empty"
proof -
  let ?h = "\<lparr>h_elem_cnt = 0, h_bucket_cnt = 4, h_buckets = bs, h_hash = hashf, h_less = lessf\<rparr>"
  let ?h' = "\<lparr>h_elem_cnt = 0, h_bucket_cnt = 4, h_buckets = replicate 4 [], h_hash = hashf, h_less = lessf\<rparr>"
  have "hash_clear None ?h () = Some (?h', ())"
    using assms by (subst hash_clear_result) simp_all
  moreover have "is_power_of_2 4" by (simp add: is_power_of_2_def turn_off_least_1bit_def)
  moreover have el: "elems ?h' = []" by (simp add: elems_def)
  moreover have "\<forall>b < 4. replicate 4 [] ! b = []" by simp
  ultimately show ?thesis
    by (auto simp: hash_init_def hash_inv_def table_def placed_def fun_eq_iff el)
qed

lemma hash_apply_elems:
  "placed h \<Longrightarrow> hash_apply action h s = foreach action (elems h) s"
  unfolding hash_apply_def elems_def by (rule for_buckets) (simp add: placed_def)

subsection \<open>Iteration\<close>

text \<open>The elements that an iterator has not reached yet.\<close>

definition remaining :: "'e hash_table \<Rightarrow> nat \<Rightarrow> nat \<Rightarrow> 'e list" where
  "remaining h b k = drop k (h_buckets h ! b) @ concat (drop (Suc b) (h_buckets h))"

lemma hash_skip_remaining:
  assumes "length (h_buckets h) = unat (h_bucket_cnt h)" "b < length (h_buckets h)" "k \<le> length (h_buckets h ! b)"
  shows "\<exists>i. hash_skip h b (Suc k) = Some i \<and>
    (case remaining h b k of
       [] \<Rightarrow> it_elem i = None
     | x # xs \<Rightarrow> \<exists>k'. it_elem i = Some (Suc k') \<and> it_bucket i < length (h_buckets h) \<and>
         k' < length (h_buckets h ! it_bucket i) \<and> h_buckets h ! it_bucket i ! k' = x \<and>
         remaining h (it_bucket i) (Suc k') = xs)"
  using assms
proof (induction "unat (h_bucket_cnt h) - b" arbitrary: b k rule: less_induct)
  case less
  show ?case
  proof (cases "k = length (h_buckets h ! b)")
    case False
    then have "remaining h b k = h_buckets h ! b ! k # remaining h b (Suc k)"
      using less.prems by (simp add: remaining_def Cons_nth_drop_Suc[symmetric])
    then show ?thesis
      using False less.prems by (subst hash_skip.simps) (auto simp: remaining_def)
  next
    case True
    show ?thesis
    proof (cases "Suc b < unat (h_bucket_cnt h)")
      case False
      then have "remaining h b k = []" using less.prems True by (simp add: remaining_def)
      then show ?thesis
        using True False less.prems by (subst hash_skip.simps) auto
    next
      case nxt: True
      have "remaining h b k = remaining h (Suc b) 0"
        using less.prems True nxt by (simp add: remaining_def Cons_nth_drop_Suc[symmetric])
      then show ?thesis
        using less.hyps[of "Suc b" 0] less.prems True nxt by (subst hash_skip.simps) auto
    qed
  qed
qed

lemma hash_collect_remaining:
  assumes "length (h_buckets h) = unat (h_bucket_cnt h)" "it_elem i = Some k"
    "it_bucket i < length (h_buckets h)" "k \<le> length (h_buckets h ! it_bucket i)"
  shows "hash_collect h i acc = Some (acc @ remaining h (it_bucket i) k)"
  using assms
proof (induction "remaining h (it_bucket i) k" arbitrary: i k acc)
  case Nil
  from hash_skip_remaining[OF Nil(2,4,5)] Nil(1)[symmetric] obtain i' where
    "hash_skip h (it_bucket i) (Suc k) = Some i'" "it_elem i' = None" by auto
  with Nil show ?case
    by (subst hash_collect.simps) (simp add: hash_next_def hash_cur_def)
next
  case (Cons x xs)
  from hash_skip_remaining[OF Cons(3,5,6)] Cons(2)[symmetric] obtain i' k' where i':
    "hash_skip h (it_bucket i) (Suc k) = Some i'" "it_elem i' = Some (Suc k')" "it_bucket i' < length (h_buckets h)"
    "k' < length (h_buckets h ! it_bucket i')" "h_buckets h ! it_bucket i' ! k' = x"
    "remaining h (it_bucket i') (Suc k') = xs" by auto
  then have "hash_next h i = Some (Some x, i')"
    using Cons by (simp add: hash_next_def hash_cur_def)
  moreover have "hash_collect h i' (acc @ [x]) = Some ((acc @ [x]) @ remaining h (it_bucket i') (Suc k'))"
    using Cons(1)[OF i'(6)[symmetric] Cons(3) i'(2,3)] i'(4) by simp
  ultimately show ?case
    using Cons(2)[symmetric] i'(6) by (subst hash_collect.simps) simp
qed

lemma hash_collect_elems: "placed h \<Longrightarrow> hash_collect h (hash_first h) [] = Some (elems h)"
proof -
  assume pl: "placed h"
  then have ne: "h_buckets h \<noteq> []" by (auto simp: placed_def is_power_of_2_def unat_eq_0)
  then have "remaining h 0 0 = elems h" by (cases "h_buckets h") (simp_all add: remaining_def elems_def)
  then show ?thesis
    using hash_collect_remaining[of h "hash_first h" 0 "[]"] pl ne length_greater_0_conv[of "h_buckets h"]
    by (simp add: hash_first_def placed_def)
qed

subsection \<open>Sequences of operations\<close>

text \<open>The operations on a table, each with whether memory for growing the table can be had, and what they
  do to a map from keys to elements. Every operation returns the element that had the key before.\<close>

datatype 'e hash_op = Insert 'e | Replace 'e | Find 'e | Delete 'e

fun hash_exec :: "bool \<times> 'e hash_op \<Rightarrow> 'e hash_table \<Rightarrow> ('e option \<times> 'e hash_table) option" where
  "hash_exec (grow, Insert e) h = hash_insert grow h e"
| "hash_exec (grow, Replace e) h = hash_replace grow h e"
| "hash_exec (grow, Find e) h = do { r \<leftarrow> hash_find h e; Some (r, h) }"
| "hash_exec (grow, Delete e) h = hash_delete grow h e"

fun hash_run :: "(bool \<times> 'e hash_op) list \<Rightarrow> 'e hash_table \<Rightarrow> ('e option list \<times> 'e hash_table) option" where
  "hash_run [] h = Some ([], h)"
| "hash_run (x # xs) h = do {
     (r, h) \<leftarrow> hash_exec x h;
     (rs, h) \<leftarrow> hash_run xs h;
     Some (r # rs, h)
   }"

fun map_exec :: "('e \<Rightarrow> 'k) \<Rightarrow> 'e hash_op \<Rightarrow> ('k \<rightharpoonup> 'e) \<Rightarrow> 'e option \<times> ('k \<rightharpoonup> 'e)" where
  "map_exec key (Insert e) m = (m (key e), if m (key e) = None then m(key e \<mapsto> e) else m)"
| "map_exec key (Replace e) m = (m (key e), m(key e \<mapsto> e))"
| "map_exec key (Find e) m = (m (key e), m)"
| "map_exec key (Delete e) m = (m (key e), m(key e := None))"

fun map_run :: "('e \<Rightarrow> 'k) \<Rightarrow> (bool \<times> 'e hash_op) list \<Rightarrow> ('k \<rightharpoonup> 'e) \<Rightarrow> 'e option list \<times> ('k \<rightharpoonup> 'e)" where
  "map_run key [] m = ([], m)"
| "map_run key ((_, x) # xs) m =
     (let (r, m) = map_exec key x m; (rs, m) = map_run key xs m in (r # rs, m))"

lemma table_card:
  assumes "hash_inv hf lf key h"
  shows "dom (table key h) = key ` set (elems h)" "ran (table key h) = set (elems h)" "card (dom (table key h)) = length (elems h)"
proof -
  show d: "dom (table key h) = key ` set (elems h)" using table_iff[OF assms] by (auto simp: dom_def)
  show "ran (table key h) = set (elems h)" using table_iff[OF assms] by (auto simp: ran_def)
  show "card (dom (table key h)) = length (elems h)"
    using assms distinct_card[of "map key (elems h)"] by (simp add: d hash_inv_def)
qed

lemma map_exec_card:
  assumes "finite (dom m)"
  shows "card (dom (snd (map_exec key x m))) \<le> Suc (card (dom m))"
proof -
  obtain k where "dom (snd (map_exec key x m)) \<subseteq> insert k (dom m)"
  proof (cases x)
    case (Insert e)
    then show thesis by (intro that[of "key e"]) auto
  next
    case (Replace e)
    then show thesis by (intro that[of "key e"]) auto
  next
    case (Find e)
    then show thesis by (intro that[of "key e"]) auto
  next
    case (Delete e)
    then show thesis by (intro that[of "key e"]) auto
  qed
  then have "card (dom (snd (map_exec key x m))) \<le> card (insert k (dom m))"
    using assms by (intro card_mono) simp_all
  also have "\<dots> \<le> Suc (card (dom m))" using assms by (simp add: card_insert_if)
  finally show ?thesis .
qed

context hash_keys
begin

lemma hash_exec_table:
  assumes "hash_inv hashf lessf key h" "Suc (length (elems h)) < 2 ^ 32"
  shows "\<exists>h'. hash_exec (grow, x) h = Some (fst (map_exec key x (table key h)), h') \<and> hash_inv hashf lessf key h' \<and>
    table key h' = snd (map_exec key x (table key h))"
proof (cases x)
  case (Insert e)
  then show ?thesis using hash_insert_table[OF assms, of grow e] by auto
next
  case (Replace e)
  then show ?thesis using hash_replace_table[OF assms, of grow e] by auto
next
  case (Find e)
  then show ?thesis using hash_find_table[OF assms(1), of e] assms(1) by simp
next
  case (Delete e)
  then show ?thesis using hash_delete_table[OF assms(1), of grow e] by auto
qed

lemma hash_run_table:
  assumes "hash_inv hashf lessf key h" "length (elems h) + length xs < 2 ^ 32"
  shows "\<exists>h'. hash_run xs h = Some (fst (map_run key xs (table key h)), h') \<and> hash_inv hashf lessf key h' \<and>
    table key h' = snd (map_run key xs (table key h))"
  using assms
proof (induction xs arbitrary: h)
  case (Cons y xs)
  obtain grow x where y: "y = (grow, x)" by force
  obtain h1 where h1: "hash_exec y h = Some (fst (map_exec key x (table key h)), h1)" "hash_inv hashf lessf key h1"
    "table key h1 = snd (map_exec key x (table key h))"
    using hash_exec_table[OF Cons(2), of grow x] Cons(3) y by auto
  have "finite (dom (table key h))" using table_card(1)[OF Cons(2)] by simp
  then have "length (elems h1) \<le> Suc (length (elems h))"
    using map_exec_card[of "table key h" key x] table_card(3)[OF Cons(2)] table_card(3)[OF h1(2)] h1(3) by simp
  then obtain h2 where "hash_run xs h1 = Some (fst (map_run key xs (table key h1)), h2)" "hash_inv hashf lessf key h2"
    "table key h2 = snd (map_run key xs (table key h1))"
    using Cons(1)[OF h1(2)] Cons(3) by auto
  then show ?case using h1 by (auto simp: y split: prod.splits)
qed simp

lemma hash_session:
  assumes "length bs = 4" "length xs < 2 ^ 32"
  shows "\<exists>h0 h es. hash_init (Some bs) hashf lessf = Some (Some h0) \<and> hash_run xs h0 = Some (fst (map_run key xs Map.empty), h) \<and>
    hash_inv hashf lessf key h \<and> table key h = snd (map_run key xs Map.empty) \<and> unat (hash_size h) = card (dom (table key h)) \<and>
    hash_collect h (hash_first h) [] = Some es \<and> distinct es \<and> set es = ran (table key h)"
proof -
  obtain h0 where h0: "hash_init (Some bs) hashf lessf = Some (Some h0)" "hash_inv hashf lessf key h0" "table key h0 = Map.empty"
    using hash_init_inv[OF assms(1)] by blast
  have "length (elems h0) = 0" using table_card(3)[OF h0(2)] h0(3) by simp
  then obtain h where h: "hash_run xs h0 = Some (fst (map_run key xs Map.empty), h)" "hash_inv hashf lessf key h"
    "table key h = snd (map_run key xs Map.empty)"
    using hash_run_table[OF h0(2), of xs] assms(2) h0(3) by auto
  have "hash_collect h (hash_first h) [] = Some (elems h)" "distinct (elems h)" "unat (hash_size h) = length (elems h)"
    using hash_collect_elems[of h] h(2) by (auto simp: hash_inv_def hash_size_def distinct_map)
  then show ?thesis using h0(1) h table_card[OF h(2)] by auto
qed

end

end
