(* ===== verification/Memory.thy ===== *)
theory Memory
  imports Prelude
begin

section \<open>Byte-addressed memory\<close>

text \<open>
  Memory as the kernel sees it: a function from virtual addresses to bytes, with little-endian
  32-bit words. The page tables, the page allocator and the string functions work on it.
\<close>

unbundle bit_operations_syntax

subsection \<open>Bytes and words of memory\<close>

type_synonym ram = "u32 \<Rightarrow> u8"

definition load32 :: "u32 \<Rightarrow> ram \<Rightarrow> u32" where
  "load32 a m = ucast (m a) OR push_bit 8 (ucast (m (a + 1))) OR
     push_bit 16 (ucast (m (a + 2))) OR push_bit 24 (ucast (m (a + 3)))"

definition store32 :: "u32 \<Rightarrow> u32 \<Rightarrow> ram \<Rightarrow> ram" where
  "store32 a v m = m(a := ucast v, a + 1 := ucast (drop_bit 8 v),
     a + 2 := ucast (drop_bit 16 v), a + 3 := ucast (drop_bit 24 v))"

definition memset :: "u32 \<Rightarrow> u8 \<Rightarrow> u32 \<Rightarrow> ram \<Rightarrow> ram" where
  "memset a b n m = (\<lambda>x. if x - a < n then b else m x)"

definition read_bytes :: "u32 \<Rightarrow> nat \<Rightarrow> ram \<Rightarrow> u8 list" where
  "read_bytes a n m = map (\<lambda>k. m (a + of_nat k)) [0 ..< n]"

definition write_bytes :: "u32 \<Rightarrow> u8 list \<Rightarrow> ram \<Rightarrow> ram" where
  "write_bytes a bs m = (\<lambda>x. if unat (x - a) < length bs then bs ! unat (x - a) else m x)"

definition aligned4 :: "u32 \<Rightarrow> bool" where
  "aligned4 a \<longleftrightarrow> unat a mod 4 = 0"

lemma load_store_same: "load32 a (store32 a v m) = v"
proof -
  have "load32 a (store32 a v m) = ucast (ucast v :: u8) OR push_bit 8 (ucast (ucast (drop_bit 8 v) :: u8)) OR
      push_bit 16 (ucast (ucast (drop_bit 16 v) :: u8)) OR push_bit 24 (ucast (ucast (drop_bit 24 v) :: u8))"
    by (simp add: load32_def store32_def)
  also have "\<dots> = v"
  proof (rule bit_word_eqI)
    fix n assume n: "n < LENGTH(32)"
    consider "n < 8" | "8 \<le> n" "n < 16" | "16 \<le> n" "n < 24" | "24 \<le> n" "n < 32" using n by fastforce
    then show "bit (ucast (ucast v :: u8) OR push_bit 8 (ucast (ucast (drop_bit 8 v) :: u8)) OR
      push_bit 16 (ucast (ucast (drop_bit 16 v) :: u8)) OR push_bit 24 (ucast (ucast (drop_bit 24 v) :: u8)) :: u32) n = bit v n"
      by cases (auto simp: bit_simps)
  qed
  finally show ?thesis .
qed

lemma unat_aligned_plus: "aligned4 a \<Longrightarrow> unat i < 4 \<Longrightarrow> unat (a + i) = unat a + unat i"
proof -
  assume a: "aligned4 a" and i: "unat i < 4"
  have "unat a + unat i < 4294967296"
    using a i unat_u32_less[of a] unfolding aligned4_def by presburger
  then show ?thesis by (simp add: unat_word_ariths(1))
qed

lemma aligned_bytes_neq:
  assumes "aligned4 a" "aligned4 b" "a \<noteq> b" "unat i < 4" "unat j < 4"
  shows "a + i \<noteq> b + j"
proof
  assume "a + i = b + j"
  then have "unat a + unat i = unat b + unat j"
    using assms unat_aligned_plus by metis
  then have "unat a = unat b" using assms unfolding aligned4_def by presburger
  with assms(3) show False using unat_inject by blast
qed

lemma load_store_other:
  assumes "aligned4 a" "aligned4 b" "a \<noteq> b"
  shows "load32 b (store32 a v m) = load32 b m"
  using aligned_bytes_neq[of b a 0] aligned_bytes_neq[of b a 1] aligned_bytes_neq[of b a 2] aligned_bytes_neq[of b a 3]
    assms by (simp add: load32_def store32_def) (metis add.right_neutral unat_0 unat_1 zero_less_numeral one_less_numeral_iff semiring_norm(76))

lemma load_zero: "(\<forall>i. unat i < 4 \<longrightarrow> m (a + i) = 0) \<Longrightarrow> load32 a m = 0"
  using spec[of "\<lambda>i. unat i < 4 \<longrightarrow> m (a + i) = 0" 0] spec[of "\<lambda>i. unat i < 4 \<longrightarrow> m (a + i) = 0" 1]
    spec[of "\<lambda>i. unat i < 4 \<longrightarrow> m (a + i) = 0" 2] spec[of "\<lambda>i. unat i < 4 \<longrightarrow> m (a + i) = 0" 3]
  by (simp add: load32_def)

lemma load_cong: "(\<forall>i. unat i < 4 \<longrightarrow> m (a + i) = m' (a + i)) \<Longrightarrow> load32 a m = load32 a m'"
  using spec[of "\<lambda>i. unat i < 4 \<longrightarrow> m (a + i) = m' (a + i)" 0] spec[of "\<lambda>i. unat i < 4 \<longrightarrow> m (a + i) = m' (a + i)" 1]
    spec[of "\<lambda>i. unat i < 4 \<longrightarrow> m (a + i) = m' (a + i)" 2] spec[of "\<lambda>i. unat i < 4 \<longrightarrow> m (a + i) = m' (a + i)" 3]
  by (simp add: load32_def)

lemma length_read_bytes [simp]: "length (read_bytes a n m) = n"
  by (simp add: read_bytes_def)

lemma read_write_bytes:
  assumes "length bs \<le> 4294967296"
  shows "read_bytes a (length bs) (write_bytes a bs m) = bs"
  by (rule nth_equalityI) (use assms in \<open>auto simp: read_bytes_def write_bytes_def unat_of_nat\<close>)

end
