(* ===== verification/Palloc.thy ===== *)
theory Palloc
  imports Run_Allocator Vaddr Memory
begin

section \<open>Kernel memory and the page allocator\<close>

text \<open>
  The page allocator src/pintos/src/threads/palloc.c over the kernel's memory (theory \<open>Memory\<close>). Each pool is its bitmap and its base address; a set bit is a page in
  use. The memory in which the bitmap itself lies is part of the bitmap. Acquiring and releasing the
  lock of a pool has no effect on this state and is left out.

  The locale of the theory \<open>Run_Allocator\<close> is interpreted on \<open>palloc_get_multiple\<close> and
  \<open>palloc_free_multiple\<close> with page numbers as the units: page groups held at the same time are
  disjoint.
\<close>

unbundle bit_operations_syntax

subsection \<open>The allocator\<close>

definition PAL_ASSERT :: u32 where "PAL_ASSERT = 1"
definition PAL_ZERO :: u32 where "PAL_ZERO = 2"
definition PAL_USER :: u32 where "PAL_USER = 4"

record pool =
  used_map :: bitmap
  pool_base :: u32

record kmem =
  kernel_pool :: pool
  user_pool :: pool
  ram :: ram

definition DIV_ROUND_UP :: "u32 \<Rightarrow> u32 \<Rightarrow> u32" where
  "DIV_ROUND_UP x step = (x + step - 1) div step"

text \<open>\<open>mem\<close> is what lies at the start of the pool, where the bitmap is put.\<close>

definition init_pool :: "u32 list \<Rightarrow> u32 \<Rightarrow> u32 \<Rightarrow> pool option" where
  "init_pool mem base page_cnt = do {
     let bm_pages = DIV_ROUND_UP (bitmap_buf_size page_cnt) PGSIZE;
     ASSERT (\<not> bm_pages > page_cnt);
     let page_cnt = page_cnt - bm_pages;
     m \<leftarrow> bitmap_create_in_buf mem page_cnt (bm_pages * PGSIZE);
     Some \<lparr>used_map = m, pool_base = base + bm_pages * PGSIZE\<rparr>
   }"

definition palloc_init :: "u32 list \<Rightarrow> u32 list \<Rightarrow> u32 \<Rightarrow> u32 \<Rightarrow> ram \<Rightarrow> kmem option" where
  "palloc_init kmap umap init_ram_pages user_page_limit m = do {
     free_start \<leftarrow> ptov (1024 * 1024);
     free_end \<leftarrow> ptov (init_ram_pages * PGSIZE);
     let free_pages = (free_end - free_start) div PGSIZE;
     let user_pages = free_pages div 2;
     let user_pages = (if user_pages > user_page_limit then user_page_limit else user_pages);
     let kernel_pages = free_pages - user_pages;
     k \<leftarrow> init_pool kmap free_start kernel_pages;
     u \<leftarrow> init_pool umap (free_start + kernel_pages * PGSIZE) user_pages;
     Some \<lparr>kernel_pool = k, user_pool = u, ram = m\<rparr>
   }"

definition page_from_pool :: "pool \<Rightarrow> u32 \<Rightarrow> bool" where
  "page_from_pool p page =
     (let page_no = pg_no page; start_page = pg_no (pool_base p);
          end_page = start_page + bitmap_size (used_map p)
      in page_no \<ge> start_page \<and> page_no < end_page)"

definition palloc_get_multiple :: "u32 \<Rightarrow> u32 \<Rightarrow> kmem \<Rightarrow> (u32 \<times> kmem) option" where
  "palloc_get_multiple flags page_cnt s = do {
     let user = (flags AND PAL_USER \<noteq> 0);
     let pool = (if user then user_pool s else kernel_pool s);
     if page_cnt = 0 then Some (0, s)
     else do {
       (page_idx, m) \<leftarrow> bitmap_scan_and_flip (used_map pool) 0 page_cnt False;
       let pool = pool\<lparr>used_map := m\<rparr>;
       let s = (if user then s\<lparr>user_pool := pool\<rparr> else s\<lparr>kernel_pool := pool\<rparr>);
       let pages = (if page_idx \<noteq> BITMAP_ERROR then pool_base pool + PGSIZE * page_idx else 0);
       if pages \<noteq> 0 then
         Some (pages, if flags AND PAL_ZERO \<noteq> 0
                      then s\<lparr>ram := memset pages 0 (PGSIZE * page_cnt) (ram s)\<rparr> else s)
       else do { ASSERT (flags AND PAL_ASSERT = 0); Some (pages, s) }
     }
   }"

definition palloc_get_page :: "u32 \<Rightarrow> kmem \<Rightarrow> (u32 \<times> kmem) option" where
  "palloc_get_page flags s = palloc_get_multiple flags 1 s"

definition palloc_free_multiple :: "u32 \<Rightarrow> u32 \<Rightarrow> kmem \<Rightarrow> kmem option" where
  "palloc_free_multiple pages page_cnt s = do {
     ASSERT (pg_ofs pages = 0);
     if pages = 0 \<or> page_cnt = 0 then Some s
     else do {
       let kernel = page_from_pool (kernel_pool s) pages;
       ASSERT (kernel \<or> page_from_pool (user_pool s) pages);
       let pool = (if kernel then kernel_pool s else user_pool s);
       let page_idx = pg_no pages - pg_no (pool_base pool);
       let s = s\<lparr>ram := memset pages 0xcc (PGSIZE * page_cnt) (ram s)\<rparr>;
       used \<leftarrow> bitmap_all (used_map pool) page_idx page_cnt;
       ASSERT used;
       m \<leftarrow> bitmap_set_multiple (used_map pool) page_idx page_cnt False;
       let pool = pool\<lparr>used_map := m\<rparr>;
       Some (if kernel then s\<lparr>kernel_pool := pool\<rparr> else s\<lparr>user_pool := pool\<rparr>)
     }
   }"

definition palloc_free_page :: "u32 \<Rightarrow> kmem \<Rightarrow> kmem option" where
  "palloc_free_page page s = palloc_free_multiple page 1 s"


subsection \<open>Pools\<close>

definition pool_wf :: "pool \<Rightarrow> bool" where
  "pool_wf p \<longleftrightarrow> bitmap_wf (used_map p) \<and> pg_ofs (pool_base p) = 0 \<and> is_kernel_vaddr (pool_base p) \<and>
     unat (pool_base p) + 4096 * unat (bit_cnt (used_map p)) \<le> 4294967296"

text \<open>The page numbers of a pool, and those of its free pages.\<close>

definition pool_pages :: "pool \<Rightarrow> nat set" where
  "pool_pages p = {unat (pg_no (pool_base p)) ..< unat (pg_no (pool_base p)) + unat (bit_cnt (used_map p))}"

definition free_pool :: "pool \<Rightarrow> nat set" where
  "free_pool p = (+) (unat (pg_no (pool_base p))) ` free_bits False (used_map p)"

definition kmem_wf :: "kmem \<Rightarrow> bool" where
  "kmem_wf s \<longleftrightarrow> pool_wf (kernel_pool s) \<and> pool_wf (user_pool s) \<and>
     pool_pages (kernel_pool s) \<inter> pool_pages (user_pool s) = {}"

definition pool_of :: "bool \<Rightarrow> kmem \<Rightarrow> pool" where
  "pool_of user s = (if user then user_pool s else kernel_pool s)"

definition set_pool :: "bool \<Rightarrow> pool \<Rightarrow> kmem \<Rightarrow> kmem" where
  "set_pool user p s = (if user then s\<lparr>user_pool := p\<rparr> else s\<lparr>kernel_pool := p\<rparr>)"

lemma free_pool_subset: "free_pool p \<subseteq> pool_pages p"
  by (auto simp: free_pool_def pool_pages_def free_bits_def)

lemma pool_of_wf: "kmem_wf s \<Longrightarrow> pool_wf (pool_of user s)"
  by (simp add: kmem_wf_def pool_of_def)

lemma set_pool_same [simp]: "set_pool user (pool_of user s) s = s"
  by (simp add: set_pool_def pool_of_def)

lemma pool_of_set_pool [simp]: "pool_of u (set_pool user p s) = (if u = user then p else pool_of u s)"
  by (auto simp: set_pool_def pool_of_def)

lemma pool_of_ram [simp]: "pool_of u (s\<lparr>ram := m\<rparr>) = pool_of u s"
  by (simp add: pool_of_def)

lemma kmem_wf_set_map:
  assumes "kmem_wf s" "bitmap_wf m" "bit_cnt m = bit_cnt (used_map (pool_of user s))"
  shows "kmem_wf (set_pool user ((pool_of user s)\<lparr>used_map := m\<rparr>) s)"
  using assms by (auto simp: kmem_wf_def set_pool_def pool_of_def pool_wf_def pool_pages_def)

lemma kmem_wf_ram [simp]: "kmem_wf (s\<lparr>ram := m\<rparr>) = kmem_wf s"
  by (simp add: kmem_wf_def)

lemma pool_page:
  assumes "pool_wf p" "unat i < unat (bit_cnt (used_map p))"
  defines "a \<equiv> pool_base p + PGSIZE * i"
  shows "unat a = unat (pool_base p) + 4096 * unat i" "pg_ofs a = 0" "is_kernel_vaddr a" "a \<noteq> 0"
    and "unat (pg_no a) = unat (pg_no (pool_base p)) + unat i"
proof -
  have b: "unat (pool_base p) + 4096 * unat i < 4294967296" "unat (pool_base p) mod 4096 = 0"
      "3221225472 \<le> unat (pool_base p)"
    using assms(1,2) by (auto simp: pool_wf_def pg_ofs_eq_0_iff is_kernel_vaddr_def PHYS_BASE_def word_le_nat_alt)
  then have "unat (PGSIZE * i) = 4096 * unat i"
    by (simp add: unat_word_ariths(2) unat_PGSIZE)
  then show ua: "unat a = unat (pool_base p) + 4096 * unat i"
    using b by (simp add: a_def unat_word_ariths(1))
  show "pg_ofs a = 0" "is_kernel_vaddr a"
    using b by (simp_all add: pg_ofs_eq_0_iff ua is_kernel_vaddr_def PHYS_BASE_def word_le_nat_alt)
  then show "a \<noteq> 0" by (auto simp: is_kernel_vaddr_def PHYS_BASE_def)
  show "unat (pg_no a) = unat (pg_no (pool_base p)) + unat i"
    by (simp add: unat_pg_no ua)
qed

lemma free_pool_region:
  assumes "unat j = unat (pg_no (pool_base p)) + unat i"
  shows "region j c = (+) (unat (pg_no (pool_base p))) ` region i c"
  using assms by (simp add: region_def ac_simps)

lemma palloc_get_multiple_cases [consumes 3, case_names none some]:
  assumes wf: "kmem_wf s" and c: "c \<noteq> 0" and flags: "flags AND PAL_ASSERT = 0"
  defines "user \<equiv> flags AND PAL_USER \<noteq> 0"
  obtains (none) "palloc_get_multiple flags c s = Some (0, s)"
      "\<nexists>k. {k ..< k + unat c} \<subseteq> free_pool (pool_of user s)"
  | (some) a m r where "palloc_get_multiple flags c s = Some (a, (set_pool user ((pool_of user s)\<lparr>used_map := m\<rparr>) s)\<lparr>ram := r\<rparr>)"
      "r = (if flags AND PAL_ZERO \<noteq> 0 then memset a 0 (PGSIZE * c) (ram s) else ram s)"
      "a \<noteq> 0" "pg_ofs a = 0" "is_kernel_vaddr a" "region (pg_no a) c \<subseteq> free_pool (pool_of user s)"
      "free_pool ((pool_of user s)\<lparr>used_map := m\<rparr>) = free_pool (pool_of user s) - region (pg_no a) c"
      "bitmap_wf m" "bit_cnt m = bit_cnt (used_map (pool_of user s))"
proof -
  let ?p = "pool_of user s"
  have pw: "pool_wf ?p" and bw: "bitmap_wf (used_map ?p)" using pool_of_wf[OF wf] by (simp_all add: pool_wf_def)
  from bitmap_alloc.alloc_total[OF bw c, of False] obtain i m where im:
    "bitmap_scan_and_flip (used_map ?p) 0 c False = Some (i, m)" by blast
  show thesis
  proof (cases "i = BITMAP_ERROR")
    case True
    then have m: "m = used_map ?p" and no: "\<nexists>k. {k ..< k + unat c} \<subseteq> free_bits False (used_map ?p)"
      using bitmap_alloc.alloc_none[OF bw c, of False m] im by auto
    have "palloc_get_multiple flags c s = Some (0, s)"
      using im True c flags m by (simp add: palloc_get_multiple_def Let_def user_def pool_of_def split: if_splits)
    moreover have "\<nexists>k. {k ..< k + unat c} \<subseteq> free_pool ?p"
    proof
      assume "\<exists>k. {k ..< k + unat c} \<subseteq> free_pool ?p"
      then obtain k where k: "{k ..< k + unat c} \<subseteq> free_pool ?p" by blast
      let ?b = "unat (pg_no (pool_base ?p))"
      have "unat c > 0" using c by (simp add: unat_gt_0)
      with k have kb: "?b \<le> k" by (fastforce simp: free_pool_def)
      have "{k - ?b ..< k - ?b + unat c} \<subseteq> free_bits False (used_map ?p)"
      proof
        fix x assume "x \<in> {k - ?b ..< k - ?b + unat c}"
        with kb have "?b + x \<in> {k ..< k + unat c}" by auto
        with k have "?b + x \<in> free_pool ?p" by blast
        then show "x \<in> free_bits False (used_map ?p)" by (auto simp: free_pool_def)
      qed
      with no show False by blast
    qed
    ultimately show thesis by (rule none)
  next
    case False
    note run = bitmap_alloc.alloc_run[OF bw c im False]
    have "unat i + unat c \<le> unat (bit_cnt (used_map ?p))"
      using bitmap_alloc.alloc_within[OF bw c im False] region_bound[OF c] by blast
    then have "unat i < unat (bit_cnt (used_map ?p))" using unat_gt_0[of c] c by linarith
    note page = pool_page[OF pw this]
    let ?a = "pool_base ?p + PGSIZE * i"
    note rg = free_pool_region[OF page(5), of c]
    show thesis
    proof (rule some[of ?a _ m])
      show "palloc_get_multiple flags c s = Some (?a, (set_pool user (?p\<lparr>used_map := m\<rparr>) s)
          \<lparr>ram := if flags AND PAL_ZERO \<noteq> 0 then memset ?a 0 (PGSIZE * c) (ram s) else ram s\<rparr>)"
        using im False c page(4)
        by (auto simp: palloc_get_multiple_def Let_def user_def pool_of_def set_pool_def)
      show "free_pool (?p\<lparr>used_map := m\<rparr>) = free_pool ?p - region (pg_no ?a) c"
        using run rg by (auto simp: free_pool_def)
      show "region (pg_no ?a) c \<subseteq> free_pool ?p" using run rg by (auto simp: free_pool_def)
      show "bit_cnt m = bit_cnt (used_map ?p)"
        using run by (metis lessThan_eq_iff unat_inject)
    qed (use page run in simp_all)
  qed
qed


lemma page_from_pool_iff:
  assumes "pool_wf p"
  shows "page_from_pool p a \<longleftrightarrow> unat (pg_no a) \<in> pool_pages p"
proof -
  have "unat (pool_base p) div 4096 + unat (bit_cnt (used_map p)) < 4294967296"
    using assms by (auto simp: pool_wf_def)
  then have "unat (pg_no (pool_base p) + bit_cnt (used_map p)) = unat (pg_no (pool_base p)) + unat (bit_cnt (used_map p))"
    by (simp add: unat_word_ariths(1) unat_pg_no)
  then show ?thesis
    by (auto simp: page_from_pool_def pool_pages_def bitmap_size_def word_le_nat_alt word_less_nat_alt Let_def)
qed

lemma palloc_free_multiple_spec:
  assumes wf: "kmem_wf s" and c: "c \<noteq> 0" and a: "pg_ofs a = 0" "region (pg_no a) c \<subseteq> pool_pages (pool_of user s)"
    and used: "region (pg_no a) c \<inter> free_pool (pool_of user s) = {}"
  shows "\<exists>m. palloc_free_multiple a c s =
           Some ((set_pool user ((pool_of user s)\<lparr>used_map := m\<rparr>) s)\<lparr>ram := memset a 0xcc (PGSIZE * c) (ram s)\<rparr>) \<and>
         bitmap_wf m \<and> bit_cnt m = bit_cnt (used_map (pool_of user s)) \<and>
         free_pool ((pool_of user s)\<lparr>used_map := m\<rparr>) = free_pool (pool_of user s) \<union> region (pg_no a) c"
proof -
  let ?p = "pool_of user s"
  let ?b = "unat (pg_no (pool_base ?p))" and ?i = "pg_no a - pg_no (pool_base ?p)"
  have pw: "pool_wf ?p" and bw: "bitmap_wf (used_map ?p)" using pool_of_wf[OF wf] by (simp_all add: pool_wf_def)
  have cpos: "unat c > 0" using c by (simp add: unat_gt_0)
  have "unat (pg_no a) \<in> region (pg_no a) c" "unat (pg_no a) + unat c - 1 \<in> region (pg_no a) c"
    using cpos by (auto simp: region_def)
  with a(2) have in1: "unat (pg_no a) \<in> pool_pages ?p" and in2: "unat (pg_no a) + unat c - 1 \<in> pool_pages ?p" by blast+
  then have i: "unat ?i = unat (pg_no a) - ?b" "?b \<le> unat (pg_no a)"
    by (auto simp: pool_pages_def unat_sub_if' word_le_nat_alt)
  have le: "unat ?i + unat c \<le> unat (bit_cnt (used_map ?p))"
    using i in2 cpos by (auto simp: pool_pages_def)
  have rg: "region (pg_no a) c = (+) ?b ` region ?i c" by (rule free_pool_region) (use i in simp)
  have "region ?i c \<inter> free_bits False (used_map ?p) = {}"
    using used unfolding rg by (auto simp: free_pool_def)
  then have "run_at (bits_of (used_map ?p)) (unat ?i) (unat c) True"
    using le by (fastforce simp: run_at_def region_def free_bits_def bits_of_def)
  then have all: "bitmap_all (used_map ?p) ?i c = Some True" using bitmap_all_bits_of[OF bw le] by simp
  from bitmap_alloc.release_run[OF bw c, of ?i False] region_bound[OF c] le
  obtain m where m: "bitmap_set_multiple (used_map ?p) ?i c False = Some m"
    "free_bits False m = free_bits False (used_map ?p) \<union> region ?i c" "bitmap_wf m"
    "{..< unat (bit_cnt m)} = {..< unat (bit_cnt (used_map ?p))}"
    using \<open>region ?i c \<inter> free_bits False (used_map ?p) = {}\<close> by auto
  have "page_from_pool (kernel_pool s) a \<longleftrightarrow> \<not> user" "user \<Longrightarrow> page_from_pool (user_pool s) a"
    using in1 wf page_from_pool_iff[of _ a] by (auto simp: kmem_wf_def pool_of_def split: if_splits)
  moreover have "a \<noteq> 0"
  proof
    assume "a = 0"
    with in1 pw show False
      by (auto simp: pool_pages_def pool_wf_def is_kernel_vaddr_def PHYS_BASE_def word_le_nat_alt unat_pg_no)
  qed
  ultimately have "palloc_free_multiple a c s =
      Some ((set_pool user (?p\<lparr>used_map := m\<rparr>) s)\<lparr>ram := memset a 0xcc (PGSIZE * c) (ram s)\<rparr>)"
    using a(1) c all m(1) by (cases user) (auto simp: palloc_free_multiple_def Let_def pool_of_def set_pool_def)
  moreover have "free_pool (?p\<lparr>used_map := m\<rparr>) = free_pool ?p \<union> region (pg_no a) c"
    unfolding rg by (auto simp: free_pool_def m(2))
  ultimately show ?thesis using m(3,4) unat_inject by (metis lessThan_eq_iff)
qed

subsection \<open>Page groups never overlap\<close>

text \<open>The allocator in terms of page numbers.\<close>

definition get_pages :: "u32 \<Rightarrow> u32 \<Rightarrow> kmem \<Rightarrow> (u32 \<times> kmem) option" where
  "get_pages flags c s = do {
     (a, s) \<leftarrow> palloc_get_multiple flags c s;
     Some (if a = 0 then BITMAP_ERROR else pg_no a, s)
   }"

definition put_pages :: "u32 \<Rightarrow> u32 \<Rightarrow> kmem \<Rightarrow> kmem option" where
  "put_pages i c s = palloc_free_multiple (push_bit 12 i) c s"

lemma pg_no_neq_error: "pg_no a \<noteq> BITMAP_ERROR"
  using unat_u32_less[of a] by (auto simp: BITMAP_ERROR_def unat_pg_no dest!: arg_cong[where f = unat])

lemma page_address: "unat i < 1048576 \<Longrightarrow> pg_ofs (push_bit 12 i) = 0 \<and> pg_no (push_bit 12 i) = i"
proof -
  assume i: "unat i < 1048576"
  have "push_bit 12 i = i * 4096" by (simp add: push_bit_eq_mult)
  then have "unat (push_bit 12 i) = 4096 * unat i" using i by (simp add: unat_word_ariths(2))
  then show ?thesis by (auto simp: pg_ofs_eq_0_iff unat_pg_no intro!: unat_inject)
qed

lemma pool_pages_small: "pool_wf p \<Longrightarrow> k \<in> pool_pages p \<Longrightarrow> k < 1048576"
  by (auto simp: pool_pages_def pool_wf_def unat_pg_no)

text \<open>With \<open>PAL_ASSERT\<close> a request either panics or does what it does without.\<close>

lemma palloc_get_assert:
  assumes "palloc_get_multiple flags c s = Some r"
  shows "palloc_get_multiple (flags AND NOT PAL_ASSERT) c s = Some r"
proof -
  have "NOT PAL_ASSERT AND PAL_USER = PAL_USER" "NOT PAL_ASSERT AND PAL_ZERO = PAL_ZERO"
    by (simp_all add: PAL_ASSERT_def PAL_USER_def PAL_ZERO_def)
  then show ?thesis
    using assms by (auto simp: palloc_get_multiple_def Let_def and.assoc split: Option.bind_splits if_splits)
qed

lemma get_pages_cases [consumes 3, case_names none some]:
  assumes wf: "kmem_wf s" and c: "c \<noteq> 0" and run: "get_pages flags c s = Some (i, s')"
  defines "user \<equiv> flags AND PAL_USER \<noteq> 0"
  obtains (none) "i = BITMAP_ERROR" "s' = s"
  | (some) m r where "i \<noteq> BITMAP_ERROR" "s' = (set_pool user ((pool_of user s)\<lparr>used_map := m\<rparr>) s)\<lparr>ram := r\<rparr>"
      "region i c \<subseteq> free_pool (pool_of user s)"
      "free_pool ((pool_of user s)\<lparr>used_map := m\<rparr>) = free_pool (pool_of user s) - region i c"
      "bitmap_wf m" "bit_cnt m = bit_cnt (used_map (pool_of user s))"
proof -
  let ?fl = "flags AND NOT PAL_ASSERT"
  have fl: "?fl AND PAL_ASSERT = 0" "(?fl AND PAL_USER \<noteq> 0) = user"
    by (simp_all add: user_def and.assoc PAL_ASSERT_def PAL_USER_def)
  obtain a where a: "palloc_get_multiple ?fl c s = Some (a, s')" "i = (if a = 0 then BITMAP_ERROR else pg_no a)"
    using run palloc_get_assert[of flags c s] by (auto simp: get_pages_def split: Option.bind_splits)
  show thesis
    using wf c fl(1)
  proof (cases rule: palloc_get_multiple_cases)
    case none
    then show thesis using a that(1) by simp
  next
    case (some a' m r)
    then show thesis using a fl(2) pg_no_neq_error by (intro that(2)[of r m]) (simp_all split: if_splits)
  qed
qed

abbreviation all_free :: "kmem \<Rightarrow> nat set" where
  "all_free s \<equiv> free_pool (kernel_pool s) \<union> free_pool (user_pool s)"

lemma all_free_pools: "all_free s = free_pool (pool_of user s) \<union> free_pool (pool_of (\<not> user) s)"
  by (auto simp: pool_of_def)

lemma pools_apart: "kmem_wf s \<Longrightarrow> pool_pages (pool_of user s) \<inter> pool_pages (pool_of (\<not> user) s) = {}"
  by (auto simp: kmem_wf_def pool_of_def)

text \<open>A change to one pool, as the free pages of both see it.\<close>

lemma all_free_set_pool:
  "all_free ((set_pool user p s)\<lparr>ram := r\<rparr>) = free_pool p \<union> free_pool (pool_of (\<not> user) s)"
  by (auto simp: set_pool_def pool_of_def)

lemma pool_pages_set_map:
  "bit_cnt m = bit_cnt (used_map (pool_of user s)) \<Longrightarrow>
   pool_pages (pool_of u ((set_pool user ((pool_of user s)\<lparr>used_map := m\<rparr>) s)\<lparr>ram := r\<rparr>)) = pool_pages (pool_of u s)"
  by (simp add: pool_pages_def)

interpretation palloc_alloc: shared_allocator kmem_wf "\<lambda>flags s. pool_pages (pool_of (flags AND PAL_USER \<noteq> 0) s)" all_free
    get_pages put_pages
proof (unfold_locales, goal_cases)
  case (1 s c q i s')
  let ?u = "q AND PAL_USER \<noteq> 0"
  from 1(1-3) show ?case
  proof (cases rule: get_pages_cases)
    case (some m r)
    have "region i c \<inter> free_pool (pool_of (\<not> ?u) s) = {}"
      using some(3) pools_apart[OF 1(1), of ?u] free_pool_subset[of "pool_of ?u s"] free_pool_subset[of "pool_of (\<not> ?u) s"] by blast
    then have "all_free s' = all_free s - region i c" using some(4) unfolding some(2) all_free_set_pool all_free_pools[of s ?u] by auto
    moreover have "region i c \<subseteq> all_free s \<inter> pool_pages (pool_of ?u s)"
      using some(3) free_pool_subset[of "pool_of ?u s"] unfolding all_free_pools[of s ?u] by blast
    moreover have "kmem_wf s'" using kmem_wf_set_map[OF 1(1) some(5,6)] by (simp add: some(2))
    ultimately show ?thesis using pool_pages_set_map[OF some(6)] unfolding some(2) by blast
  qed (use 1(4) in simp)
next
  case (2 s c q s')
  from 2 show ?case by (cases rule: get_pages_cases) simp_all
next
  case (3 s c i q)
  let ?u = "q AND PAL_USER \<noteq> 0"
  have "unat i \<in> region i c" using 3(2) by (simp add: region_def unat_gt_0)
  then have "unat i < 1048576" using 3(3) pool_pages_small[OF pool_of_wf[OF 3(1)]] by blast
  note pa = page_address[OF this]
  have "region i c \<inter> free_pool (pool_of ?u s) = {}" using 3(4) unfolding all_free_pools[of s ?u] by blast
  with palloc_free_multiple_spec[OF 3(1,2), of "push_bit 12 i" ?u] pa 3(3) obtain m where m:
    "put_pages i c s = Some ((set_pool ?u ((pool_of ?u s)\<lparr>used_map := m\<rparr>) s)\<lparr>ram := memset (push_bit 12 i) 0xcc (PGSIZE * c) (ram s)\<rparr>)"
    "bitmap_wf m" "bit_cnt m = bit_cnt (used_map (pool_of ?u s))"
    "free_pool ((pool_of ?u s)\<lparr>used_map := m\<rparr>) = free_pool (pool_of ?u s) \<union> region i c"
    by (auto simp: put_pages_def)
  let ?s = "(set_pool ?u ((pool_of ?u s)\<lparr>used_map := m\<rparr>) s)\<lparr>ram := memset (push_bit 12 i) 0xcc (PGSIZE * c) (ram s)\<rparr>"
  have "all_free ?s = all_free s \<union> region i c" using m(4) unfolding all_free_set_pool all_free_pools[of s ?u] by auto
  moreover have "kmem_wf ?s" using kmem_wf_set_map[OF 3(1) m(2,3)] by simp
  ultimately show ?case using m(1) pool_pages_set_map[OF m(3)] by blast
qed

subsection \<open>Initialisation\<close>

lemma unat_bitmap_buf_size:
  assumes "unat n \<le> 262144"
  shows "unat (bitmap_buf_size n) = 8 + 4 * ((unat n + 31) div 32)"
proof -
  have "n \<le> 0xffffffe0" using assms by (simp add: word_le_nat_alt)
  note e = unat_elem_cnt[OF this]
  have "(unat n + 31) div 32 \<le> 8193" using assms by linarith
  then show ?thesis
    by (simp add: bitmap_buf_size_def byte_cnt_def unat_word_ariths e)
qed

text \<open>The number of pages that the bitmap of a pool of \<open>n\<close> pages takes.\<close>

definition map_pages :: "nat \<Rightarrow> nat" where
  "map_pages n = (8 + 4 * ((n + 31) div 32) + 4095) div 4096"

lemma map_pages_le: "0 < n \<Longrightarrow> map_pages n \<le> n"
proof -
  assume n: "0 < n"
  have "8 + 4 * ((n + 31) div 32) + 4095 < Suc n * 4096" using n by simp
  then have "map_pages n < Suc n" unfolding map_pages_def by (rule less_mult_imp_div_less)
  then show ?thesis by simp
qed

lemma unat_bm_pages:
  assumes "unat n \<le> 262144"
  shows "unat (DIV_ROUND_UP (bitmap_buf_size n) PGSIZE) = map_pages (unat n)"
proof -
  have "unat (bitmap_buf_size n) \<le> 32780" using assms by (simp add: unat_bitmap_buf_size)
  then have "unat (bitmap_buf_size n + PGSIZE - 1) = unat (bitmap_buf_size n) + 4095"
    by (simp add: PGSIZE_eq unat_word_ariths(1))
  then show ?thesis
    using assms by (simp add: DIV_ROUND_UP_def unat_div unat_PGSIZE unat_bitmap_buf_size map_pages_def)
qed

lemma init_pool_spec:
  assumes n: "0 < unat n" "unat n \<le> 262144" and base: "pg_ofs base = 0" "is_kernel_vaddr base"
    and fits: "unat base + 4096 * unat n < 4294967296"
    and mem: "length mem = (unat n - map_pages (unat n) + 31) div 32"
  shows "\<exists>p. init_pool mem base n = Some p \<and> pool_wf p \<and> free_pool p = pool_pages p \<and>
           pool_pages p = {unat (pg_no base) + map_pages (unat n) ..< unat (pg_no base) + unat n} \<and>
           unat (bitmap_buf_size (bit_cnt (used_map p))) \<le> 4096 * map_pages (unat n)"
proof -
  let ?k = "DIV_ROUND_UP (bitmap_buf_size n) PGSIZE"
  have k: "unat ?k = map_pages (unat n)" "map_pages (unat n) \<le> unat n"
    using unat_bm_pages n map_pages_le by blast+
  then have c: "unat (n - ?k) = unat n - map_pages (unat n)" by (simp add: unat_sub_if')
  have small: "n - ?k \<le> 0xffffffe0" using c n by (simp add: word_le_nat_alt)
  have kp: "unat (?k * PGSIZE) = map_pages (unat n) * 4096"
    using k n by (simp add: unat_word_ariths(2) unat_PGSIZE)
  have "unat (bitmap_buf_size (n - ?k)) \<le> unat (bitmap_buf_size n)"
    using n c by (simp add: unat_bitmap_buf_size)
  also have "\<dots> \<le> map_pages (unat n) * 4096"
    using n by (simp add: unat_bitmap_buf_size map_pages_def)
  finally have fit: "unat (bitmap_buf_size (n - ?k)) \<le> 4096 * map_pages (unat n)" by simp
  then have size: "bitmap_buf_size (n - ?k) \<le> ?k * PGSIZE" by (simp add: word_le_nat_alt kp)
  have "bitmap_wf \<lparr>bit_cnt = n - ?k, bits = mem\<rparr>"
    using small mem c by (simp add: bitmap_wf_def unat_elem_cnt)
  from bitmap_set_all_bits_of[OF this, of False] obtain m where m:
    "bitmap_create_in_buf mem (n - ?k) (?k * PGSIZE) = Some m" "bitmap_wf m" "bit_cnt m = n - ?k"
    "bits_of m = replicate (unat (n - ?k)) False"
    using size by (auto simp: bitmap_create_in_buf_def)
  let ?p = "\<lparr>used_map = m, pool_base = base + ?k * PGSIZE\<rparr>"
  have run: "init_pool mem base n = Some ?p"
    using m(1) k by (simp add: init_pool_def Let_def not_less word_le_nat_alt)
  have ub: "unat (base + ?k * PGSIZE) = unat base + map_pages (unat n) * 4096"
    using fits k(2) by (simp add: unat_word_ariths(1) kp)
  have pg: "unat (pg_no (base + ?k * PGSIZE)) = unat (pg_no base) + map_pages (unat n)"
    by (simp add: unat_pg_no ub)
  have "pool_wf ?p"
    using m(2,3) base ub fits k(2) c by (auto simp: pool_wf_def pg_ofs_eq_0_iff is_kernel_vaddr_def word_le_nat_alt)
  moreover have "free_bits False m = {..< unat n - map_pages (unat n)}"
    using m(3,4) c by (auto simp: free_bits_def)
  ultimately show ?thesis
    using run m(3) c k(2) fit
    by (auto simp: free_pool_def pool_pages_def pg image_add_atLeastLessThan lessThan_atLeast0)
qed


subsection \<open>Properties\<close>

lemma memset_inside: "x - a < n \<Longrightarrow> memset a b n m x = b"
  by (simp add: memset_def)

text \<open>C6: \<open>palloc_init\<close> divides the pages from the first megabyte to the end of the memory into a
  kernel part of \<open>k\<close> pages and a user part of \<open>u\<close> pages, at most half of the memory and at most
  \<open>user_page_limit\<close>. The pool of each part is exactly the pages behind the first \<open>map_pages\<close> ones,
  in which its bitmap fits, and all pages of both pools are free.\<close>

theorem palloc_init_pools:
  assumes n: "258 \<le> unat n" "unat n \<le> 262143" and limit: "limit \<noteq> 0"
  defines "u \<equiv> min ((unat n - 256) div 2) (unat limit)"
  defines "k \<equiv> unat n - 256 - u"
  assumes maps: "length kmap = (k - map_pages k + 31) div 32" "length umap = (u - map_pages u + 31) div 32"
  defines "first \<equiv> unat (pg_no PHYS_BASE) + 256"
  shows "\<exists>s. palloc_init kmap umap n limit m = Some s \<and> kmem_wf s \<and> ram s = m \<and>
           pool_pages (kernel_pool s) = {first + map_pages k ..< first + k} \<and>
           pool_pages (user_pool s) = {first + k + map_pages u ..< first + k + u} \<and>
           first + k + u = unat (pg_no PHYS_BASE) + unat n \<and>
           free_pool (kernel_pool s) = pool_pages (kernel_pool s) \<and> free_pool (user_pool s) = pool_pages (user_pool s) \<and>
           unat (bitmap_buf_size (bit_cnt (used_map (kernel_pool s)))) \<le> 4096 * map_pages k \<and>
           unat (bitmap_buf_size (bit_cnt (used_map (user_pool s)))) \<le> 4096 * map_pages u"
proof -
  let ?start = "0xc0100000 :: u32" and ?free = "(n * PGSIZE + PHYS_BASE - 0xc0100000) div PGSIZE"
  have np: "unat (n * PGSIZE) = unat n * 4096" using n by (simp add: unat_word_ariths(2) unat_PGSIZE)
  have ptov: "ptov (1024 * 1024) = Some ?start" "ptov (n * PGSIZE) = Some (n * PGSIZE + PHYS_BASE)"
    using n np by (simp_all add: ptov_def PHYS_BASE_def word_less_nat_alt)
  have "unat (n * PGSIZE + PHYS_BASE - 0xc0100000) = unat n * 4096 - 1048576"
    using n np by (simp add: PHYS_BASE_def unat_sub_if' unat_word_ariths(1) word_le_nat_alt)
  also have "\<dots> = (unat n - 256) * 4096" by simp
  finally have "unat ?free = unat n - 256" by (simp add: unat_div unat_PGSIZE)
  moreover define f where "f = ?free"
  ultimately have f: "unat f = unat n - 256" by simp
  define us where "us = (if f div 2 > limit then limit else f div 2)"
  have u: "unat us = u" using f by (simp add: u_def us_def unat_div word_less_nat_alt)
  have u2: "0 < u" "u \<le> (unat n - 256) div 2"
    using n limit unat_gt_0[of limit] unfolding u_def by auto
  have k: "unat (f - us) = k" using f u u2(2) by (simp add: k_def unat_sub_if' word_le_nat_alt)
  have k2: "0 < k" "u + k = unat n - 256" using n u2 unfolding k_def by auto
  have kb: "k < 261888" "k * 4096 + 4096 * u < 1072693248" using k2 u2 n by linarith+
  define st where "st = ?start + (f - us) * PGSIZE"
  have ks: "unat st = 0xc0100000 + k * 4096"
    using k k2 n by (simp add: st_def unat_word_ariths unat_PGSIZE)
  have al: "pg_ofs ?start = 0" "is_kernel_vaddr ?start" "pg_ofs st = 0" "is_kernel_vaddr st"
    by (simp_all add: pg_ofs_eq_0_iff is_kernel_vaddr_def PHYS_BASE_def word_le_nat_alt ks)
  from init_pool_spec[of "f - us" ?start kmap] obtain kp where kp: "init_pool kmap ?start (f - us) = Some kp"
    "pool_wf kp" "free_pool kp = pool_pages kp" "pool_pages kp = {0xc0100 + map_pages k ..< 0xc0100 + k}"
    "unat (bitmap_buf_size (bit_cnt (used_map kp))) \<le> 4096 * map_pages k"
    using al k k2 kb n maps by (auto simp: unat_pg_no)
  from init_pool_spec[of us st umap] obtain up where up: "init_pool umap st us = Some up"
    "pool_wf up" "free_pool up = pool_pages up" "pool_pages up = {0xc0100 + k + map_pages u ..< 0xc0100 + k + u}"
    "unat (bitmap_buf_size (bit_cnt (used_map up))) \<le> 4096 * map_pages u"
    using al u u2 k2 kb n maps ks by (auto simp: unat_pg_no)
  have "palloc_init kmap umap n limit m = Some \<lparr>kernel_pool = kp, user_pool = up, ram = m\<rparr>"
    using ptov kp(1) up(1)
    by (simp add: palloc_init_def Let_def f_def[symmetric] us_def[symmetric] st_def[symmetric] split del: if_split cong: if_cong)
  moreover have "first = 0xc0100" "first + k + u = unat (pg_no PHYS_BASE) + unat n"
    using k2(2) n by (simp_all add: first_def unat_pg_no PHYS_BASE_def)
  ultimately show ?thesis using kp up by (auto simp: kmem_wf_def)
qed

text \<open>Four megabytes: 384 pages for each part, one of which holds the bitmap.\<close>

theorem palloc_init_pools_witness:
  "\<exists>s. palloc_init (replicate 12 0) (replicate 12 0) 1024 0xffffffff (\<lambda>_. 0) = Some s \<and> kmem_wf s \<and>
     pool_pages (kernel_pool s) = {0xc0101 ..< 0xc0280} \<and> pool_pages (user_pool s) = {0xc0281 ..< 0xc0400} \<and>
     free_pool (user_pool s) = {0xc0281 ..< 0xc0400}"
  using palloc_init_pools[where n = 1024 and limit = "0xffffffff" and kmap = "replicate 12 0" and umap = "replicate 12 0" and m = "\<lambda>_. 0"]
  by (auto simp: map_pages_def unat_pg_no PHYS_BASE_def)

text \<open>C5: \<open>palloc_get_multiple\<close> returns the page-aligned kernel address of a group of pages of the
  requested pool that were all free and are no longer; with \<open>PAL_ZERO\<close> the group is filled with
  zeros, and no byte outside it changes. It returns a null pointer, changing nothing, only if the
  pool has no run of free pages of this length.\<close>

theorem palloc_get_multiple_correct:
  assumes "kmem_wf s" "c \<noteq> 0" "flags AND PAL_ASSERT = 0"
  defines "user \<equiv> flags AND PAL_USER \<noteq> 0"
  shows "\<exists>a s'. palloc_get_multiple flags c s = Some (a, s') \<and> kmem_wf s' \<and>
     (if a = 0 then s' = s \<and> (\<nexists>k. {k ..< k + unat c} \<subseteq> free_pool (pool_of user s))
      else pg_ofs a = 0 \<and> is_kernel_vaddr a \<and> region (pg_no a) c \<subseteq> free_pool (pool_of user s) \<and>
           free_pool (pool_of user s') = free_pool (pool_of user s) - region (pg_no a) c \<and>
           pool_of (\<not> user) s' = pool_of (\<not> user) s \<and>
           (\<forall>x. ram s' x = (if flags AND PAL_ZERO \<noteq> 0 \<and> x - a < PGSIZE * c then 0 else ram s x)))"
  using assms(1-3)
proof (cases rule: palloc_get_multiple_cases)
  case none
  then show ?thesis using assms(1) by (auto simp: user_def)
next
  case (some a m r)
  then show ?thesis
    using kmem_wf_set_map[OF assms(1), of m user] by (auto simp: memset_def user_def)
qed

definition demo_pool :: "u32 \<Rightarrow> pool" where
  "demo_pool base = \<lparr>used_map = \<lparr>bit_cnt = 4, bits = [3]\<rparr>, pool_base = base\<rparr>"

definition demo_kmem :: kmem where
  "demo_kmem = \<lparr>kernel_pool = demo_pool 0xc0101000, user_pool = demo_pool 0xc0200000, ram = (\<lambda>_. 7)\<rparr>"

lemma demo_pool_free: "free_bits False (used_map (demo_pool base)) = {2, 3}"
proof -
  have "bits_of (used_map (demo_pool base)) = [True, True, False, False]"
    by (simp add: bits_of_def demo_pool_def upt_rec bit_numeral_rec)
  moreover have "{k. k < 4 \<and> [True, True, False, False] ! k = False} = {2, 3 :: nat}"
    by (auto simp: less_Suc_eq numeral_eq_Suc)
  ultimately show ?thesis by (auto simp: free_bits_def demo_pool_def)
qed

lemma demo_kmem_wf: "kmem_wf demo_kmem"
  by (simp add: kmem_wf_def demo_kmem_def demo_pool_def pool_wf_def bitmap_wf_def pool_pages_def unat_elem_cnt
      pg_ofs_eq_0_iff is_kernel_vaddr_def PHYS_BASE_def unat_pg_no)

theorem palloc_get_multiple_correct_witness:
  "\<exists>a s'. palloc_get_multiple PAL_ZERO 2 demo_kmem = Some (a, s') \<and> a \<noteq> 0 \<and> ram s' a = 0 \<and>
     free_pool (kernel_pool s') = {}"
proof -
  have "free_pool (kernel_pool demo_kmem) = {0xc0103, 0xc0104}"
    by (simp add: free_pool_def demo_kmem_def demo_pool_free) (simp add: demo_pool_def unat_pg_no)
  then have two: "free_pool (pool_of False demo_kmem) = {0xc0103, 0xc0104}" by (simp add: pool_of_def)
  from palloc_get_multiple_correct[OF demo_kmem_wf, of 2 PAL_ZERO] obtain a s' where
    get: "palloc_get_multiple PAL_ZERO 2 demo_kmem = Some (a, s')"
    and res: "if a = 0 then s' = demo_kmem \<and> (\<nexists>k. {k ..< k + 2} \<subseteq> free_pool (pool_of False demo_kmem))
      else region (pg_no a) 2 \<subseteq> free_pool (pool_of False demo_kmem) \<and>
           free_pool (pool_of False s') = free_pool (pool_of False demo_kmem) - region (pg_no a) 2 \<and>
           ram s' a = 0"
    by (auto simp: PAL_ZERO_def PAL_ASSERT_def PAL_USER_def PGSIZE_eq split: if_splits)
  have "\<exists>k. {k ..< k + 2} \<subseteq> free_pool (pool_of False demo_kmem)"
    unfolding two by (intro exI[of _ "0xc0103"]) auto
  with res have nz: "a \<noteq> 0" by (metis (no_types))
  moreover have "card (region (pg_no a) 2) = card {0xc0103, 0xc0104 :: nat}" by (simp add: region_def)
  ultimately have "region (pg_no a) 2 = {0xc0103, 0xc0104}"
    using res two by (intro card_subset_eq) (auto split: if_splits)
  then show ?thesis using get res nz two by (auto simp: pool_of_def)
qed

text \<open>C4: whatever page groups are allocated and freed, in any order, from both pools and with any flags,
  no two of the groups held at the same time have a page in common, and each of them can be freed.\<close>

theorem palloc_groups_disjoint:
  assumes "session get_pages put_pages s0 s H" "kmem_wf s0"
  shows "disjoint_runs H \<and> (\<forall>(i, c) \<in> set H. \<exists>s'. put_pages i c s = Some s' \<and> all_free s' = all_free s \<union> region i c)"
  using palloc_alloc.session_invariant[OF assms] palloc_alloc.session_give[OF assms] by fast

lemma get_one_page:
  assumes wf: "kmem_wf s" and fl: "flags AND PAL_ASSERT = 0" and k: "k \<in> free_pool (pool_of (flags AND PAL_USER \<noteq> 0) s)"
  shows "\<exists>i s'. get_pages flags 1 s = Some (i, s') \<and> i \<noteq> BITMAP_ERROR \<and> kmem_wf s' \<and>
           pool_of (flags AND PAL_USER = 0) s' = pool_of (flags AND PAL_USER = 0) s"
  using wf one_neq_zero fl
proof (cases rule: palloc_get_multiple_cases)
  case none
  have "{k ..< k + 1} \<subseteq> free_pool (pool_of (flags AND PAL_USER \<noteq> 0) s)" using k by simp
  then show ?thesis using none(2) by (metis unat_1)
next
  case (some a m r)
  then show ?thesis
    using kmem_wf_set_map[OF wf, of m "flags AND PAL_USER \<noteq> 0"] by (simp add: get_pages_def pg_no_neq_error)
qed

text \<open>A page of the kernel pool and a zeroed page of the user pool.\<close>

theorem palloc_groups_disjoint_witness:
  "\<exists>s i j. session get_pages put_pages demo_kmem s [(j, 1), (i, 1)] \<and> kmem_wf demo_kmem \<and> region j 1 \<inter> region i 1 = {} \<and>
     (\<exists>s'. put_pages i 1 s = Some s' \<and> all_free s' = all_free s \<union> region i 1)"
proof -
  have "free_pool (kernel_pool demo_kmem) = {0xc0103, 0xc0104}" "free_pool (user_pool demo_kmem) = {0xc0202, 0xc0203}"
    by (simp_all add: free_pool_def demo_kmem_def demo_pool_free) (simp_all add: demo_pool_def unat_pg_no)
  then have k: "0xc0103 \<in> free_pool (pool_of (0 AND PAL_USER \<noteq> 0) demo_kmem)"
    and u: "0xc0202 \<in> free_pool (pool_of True demo_kmem)" by (simp_all add: pool_of_def)
  obtain i s1 where i: "get_pages 0 1 demo_kmem = Some (i, s1)" "i \<noteq> BITMAP_ERROR" "kmem_wf s1" "pool_of True s1 = pool_of True demo_kmem"
    using get_one_page[OF demo_kmem_wf _ k] by auto
  let ?fl = "PAL_USER OR PAL_ZERO"
  have fl: "?fl AND PAL_ASSERT = 0" "?fl AND PAL_USER \<noteq> 0" by (simp_all add: PAL_USER_def PAL_ZERO_def PAL_ASSERT_def)
  have "0xc0202 \<in> free_pool (pool_of (?fl AND PAL_USER \<noteq> 0) s1)" using u i(4) fl(2) by simp
  then obtain j s2 where j: "get_pages ?fl 1 s1 = Some (j, s2)" "j \<noteq> BITMAP_ERROR" using get_one_page[OF i(3) fl(1)] by blast
  have "session get_pages put_pages demo_kmem s1 [(i, 1)]" using session.obtain_run[OF session.start[of get_pages put_pages demo_kmem] _ i(1,2)] by simp
  from session.obtain_run[OF this _ j] have S: "session get_pages put_pages demo_kmem s2 [(j, 1), (i, 1)]" by simp
  from palloc_groups_disjoint[OF S demo_kmem_wf] S demo_kmem_wf show ?thesis by auto
qed

end
