(* ===== verification/Pagedir.thy ===== *)
theory Pagedir
  imports Palloc
begin

section \<open>Page directories\<close>

text \<open>
  The two-level page tables of src/pintos/src/userprog/pagedir.c, in the bytes of the kernel's
  memory: a directory and a table are pages of 1024 little-endian words. The state adds to the
  memory the directory \<open>init_page_dir\<close> and the size \<open>init_ram_pages\<close> of
  src/pintos/src/threads/init.h, and the page directory base register of the processor.

  \<open>mapped s pd va\<close> is the present entry that translates \<open>va\<close>. Each operation is shown to change it at
  the page it is called for and nowhere else; the invariant says that the tables of a directory are
  distinct pages in use.
\<close>

unbundle bit_operations_syntax

record mmu =
  mem :: kmem
  init_page_dir :: u32
  init_ram_pages :: u32
  cr3 :: u32

definition set_ram :: "ram \<Rightarrow> mmu \<Rightarrow> mmu" where
  "set_ram m s = s\<lparr>mem := (mem s)\<lparr>ram := m\<rparr>\<rparr>"

definition load :: "u32 \<Rightarrow> mmu \<Rightarrow> u32" where
  "load a s = load32 a (ram (mem s))"

definition store :: "u32 \<Rightarrow> u32 \<Rightarrow> mmu \<Rightarrow> mmu" where
  "store a v s = set_ram (store32 a v (ram (mem s))) s"

subsection \<open>The operations\<close>

definition pagedir_create :: "mmu \<Rightarrow> (u32 \<times> mmu) option" where
  "pagedir_create s = do {
     (pd, m) \<leftarrow> palloc_get_page 0 (mem s);
     let s = s\<lparr>mem := m\<rparr>;
     Some (pd, if pd \<noteq> 0
               then set_ram (write_bytes pd (read_bytes (init_page_dir s) (unat PGSIZE) (ram (mem s))) (ram (mem s))) s
               else s)
   }"

definition free_page :: "u32 \<Rightarrow> mmu \<Rightarrow> mmu option" where
  "free_page page s = do { m \<leftarrow> palloc_free_page page (mem s); Some (s\<lparr>mem := m\<rparr>) }"

definition pagedir_destroy :: "u32 \<Rightarrow> mmu \<Rightarrow> mmu option" where
  "pagedir_destroy pd s =
     (if pd = 0 then Some s
      else do {
        ASSERT (pd \<noteq> init_page_dir s);
        s \<leftarrow> for_u32 0 (pd_no PHYS_BASE)
          (\<lambda>i s. do {
             let pde = load (pd + 4 * i) s;
             if pde AND PTE_P \<noteq> 0 then do {
               pt \<leftarrow> pde_get_pt pde;
               s \<leftarrow> for_u32 0 (PGSIZE div 4)
                 (\<lambda>j s. do {
                    let pte = load (pt + 4 * j) s;
                    if pte AND PTE_P \<noteq> 0 then do { page \<leftarrow> pte_get_page pte; free_page page s }
                    else Some s
                  }) s;
               free_page pt s
             } else Some s
           }) s;
        free_page pd s
      })"

definition lookup_page :: "u32 \<Rightarrow> u32 \<Rightarrow> bool \<Rightarrow> mmu \<Rightarrow> (u32 \<times> mmu) option" where
  "lookup_page pd vaddr create s = do {
     ASSERT (pd \<noteq> 0);
     ASSERT (\<not> create \<or> is_user_vaddr vaddr);
     let pde = pd + 4 * pd_no vaddr;
     if load pde s = 0 then
       if create then do {
         (pt, m) \<leftarrow> palloc_get_page PAL_ZERO (mem s);
         let s = s\<lparr>mem := m\<rparr>;
         if pt = 0 then Some (0, s)
         else do {
           e \<leftarrow> pde_create pt;
           let s = store pde e s;
           pt \<leftarrow> pde_get_pt (load pde s);
           Some (pt + 4 * pt_no vaddr, s)
         }
       } else Some (0, s)
     else do {
       pt \<leftarrow> pde_get_pt (load pde s);
       Some (pt + 4 * pt_no vaddr, s)
     }
   }"

definition pagedir_set_page :: "u32 \<Rightarrow> u32 \<Rightarrow> u32 \<Rightarrow> bool \<Rightarrow> mmu \<Rightarrow> (bool \<times> mmu) option" where
  "pagedir_set_page pd upage kpage writable s = do {
     ASSERT (pg_ofs upage = 0);
     ASSERT (pg_ofs kpage = 0);
     ASSERT (is_user_vaddr upage);
     p \<leftarrow> vtop kpage;
     ASSERT (drop_bit PTSHIFT p < init_ram_pages s);
     ASSERT (pd \<noteq> init_page_dir s);
     (pte, s) \<leftarrow> lookup_page pd upage True s;
     if pte \<noteq> 0 then do {
       ASSERT (load pte s AND PTE_P = 0);
       e \<leftarrow> pte_create_user kpage writable;
       Some (True, store pte e s)
     } else Some (False, s)
   }"

definition pagedir_get_page :: "u32 \<Rightarrow> u32 \<Rightarrow> mmu \<Rightarrow> u32 option" where
  "pagedir_get_page pd uaddr s = do {
     ASSERT (is_user_vaddr uaddr);
     (pte, s) \<leftarrow> lookup_page pd uaddr False s;
     if pte \<noteq> 0 \<and> load pte s AND PTE_P \<noteq> 0
     then do { page \<leftarrow> pte_get_page (load pte s); Some (page + pg_ofs uaddr) }
     else Some 0
   }"

definition pagedir_activate :: "u32 \<Rightarrow> mmu \<Rightarrow> mmu option" where
  "pagedir_activate pd s = do {
     p \<leftarrow> vtop (if pd = 0 then init_page_dir s else pd);
     Some (s\<lparr>cr3 := p\<rparr>)
   }"

definition active_pd :: "mmu \<Rightarrow> u32 option" where
  "active_pd s = ptov (cr3 s)"

definition invalidate_pagedir :: "u32 \<Rightarrow> mmu \<Rightarrow> mmu option" where
  "invalidate_pagedir pd s = do {
     a \<leftarrow> active_pd s;
     if a = pd then pagedir_activate pd s else Some s
   }"

definition pagedir_clear_page :: "u32 \<Rightarrow> u32 \<Rightarrow> mmu \<Rightarrow> mmu option" where
  "pagedir_clear_page pd upage s = do {
     ASSERT (pg_ofs upage = 0);
     ASSERT (is_user_vaddr upage);
     (pte, s) \<leftarrow> lookup_page pd upage False s;
     if pte \<noteq> 0 \<and> load pte s AND PTE_P \<noteq> 0
     then invalidate_pagedir pd (store pte (load pte s AND NOT PTE_P) s)
     else Some s
   }"

definition pagedir_is_dirty :: "u32 \<Rightarrow> u32 \<Rightarrow> mmu \<Rightarrow> bool option" where
  "pagedir_is_dirty pd vpage s = do {
     (pte, s) \<leftarrow> lookup_page pd vpage False s;
     Some (pte \<noteq> 0 \<and> load pte s AND PTE_D \<noteq> 0)
   }"

definition pagedir_set_dirty :: "u32 \<Rightarrow> u32 \<Rightarrow> bool \<Rightarrow> mmu \<Rightarrow> mmu option" where
  "pagedir_set_dirty pd vpage dirty s = do {
     (pte, s) \<leftarrow> lookup_page pd vpage False s;
     if pte \<noteq> 0 then
       if dirty then Some (store pte (load pte s OR PTE_D) s)
       else invalidate_pagedir pd (store pte (load pte s AND NOT PTE_D) s)
     else Some s
   }"

definition pagedir_is_accessed :: "u32 \<Rightarrow> u32 \<Rightarrow> mmu \<Rightarrow> bool option" where
  "pagedir_is_accessed pd vpage s = do {
     (pte, s) \<leftarrow> lookup_page pd vpage False s;
     Some (pte \<noteq> 0 \<and> load pte s AND PTE_A \<noteq> 0)
   }"

definition pagedir_set_accessed :: "u32 \<Rightarrow> u32 \<Rightarrow> bool \<Rightarrow> mmu \<Rightarrow> mmu option" where
  "pagedir_set_accessed pd vpage accessed s = do {
     (pte, s) \<leftarrow> lookup_page pd vpage False s;
     if pte \<noteq> 0 then
       if accessed then Some (store pte (load pte s OR PTE_A) s)
       else invalidate_pagedir pd (store pte (load pte s AND NOT PTE_A) s)
     else Some s
   }"

subsection \<open>Entries of a page of words\<close>

definition is_kpage :: "u32 \<Rightarrow> bool" where
  "is_kpage p \<longleftrightarrow> is_kernel_vaddr p \<and> pg_ofs p = 0"

lemma entry_addr:
  assumes "is_kpage p" "unat i < 1024"
  shows "unat (p + 4 * i) = unat p + 4 * unat i" "aligned4 (p + 4 * i)" "pg_no (p + 4 * i) = pg_no p"
proof -
  have p: "unat p mod 4096 = 0" using assms(1) by (simp add: is_kpage_def pg_ofs_eq_0_iff)
  then obtain k where k: "unat p = 4096 * k" by (metis mod_0_imp_dvd dvd_def)
  then have "k < 1048576" using unat_u32_less[of p] by linarith
  with k assms(2) have "unat p + 4 * unat i < 4294967296" by linarith
  moreover have "unat (4 * i) = 4 * unat i" using assms(2) by (simp add: unat_word_ariths(2))
  ultimately show u: "unat (p + 4 * i) = unat p + 4 * unat i" by (simp add: unat_word_ariths(1))
  have "4 dvd 4096 * k + 4 * unat i" by (intro dvd_add) simp_all
  then show "aligned4 (p + 4 * i)" by (simp add: aligned4_def u k)
  have "(4096 * k + 4 * unat i) div 4096 = k" using assms(2) by simp
  then show "pg_no (p + 4 * i) = pg_no p" by (intro unat_inject) (simp add: unat_pg_no u k)
qed

lemma kpage_unat: "is_kpage p \<Longrightarrow> unat p = unat (pg_no p) * 4096"
  by (simp add: is_kpage_def pg_ofs_eq_0_iff unat_pg_no mod_0_imp_dvd)

lemma kpage_pg_no: "is_kpage p \<Longrightarrow> is_kpage q \<Longrightarrow> pg_no p = pg_no q \<Longrightarrow> p = q"
  using kpage_unat[of p] kpage_unat[of q] by (intro unat_inject) simp

lemma entry_addr_eq_iff:
  assumes "is_kpage p" "is_kpage q" "unat i < 1024" "unat j < 1024"
  shows "p + 4 * i = q + 4 * j \<longleftrightarrow> p = q \<and> i = j"
proof
  assume eq: "p + 4 * i = q + 4 * j"
  then have pq: "p = q"
    using entry_addr(3)[OF assms(1,3)] entry_addr(3)[OF assms(2,4)] kpage_pg_no[OF assms(1,2)] by simp
  then have "unat i = unat j"
    using eq entry_addr(1)[OF assms(1,3)] entry_addr(1)[OF assms(2,4)] by simp
  with pq show "p = q \<and> i = j" using unat_inject by blast
qed simp

lemma load_store_entry:
  assumes "is_kpage p" "is_kpage q" "unat i < 1024" "unat j < 1024"
  shows "load (q + 4 * j) (store (p + 4 * i) v s) = (if p = q \<and> i = j then v else load (q + 4 * j) s)"
  using entry_addr_eq_iff[OF assms] load_store_other[OF entry_addr(2)[OF assms(1,3)] entry_addr(2)[OF assms(2,4)]]
  by (cases "p + 4 * i = q + 4 * j") (auto simp: load_def store_def set_ram_def load_store_same)


lemma word_in_page:
  assumes "is_kpage p" "unat j < 1024" "unat k < 4"
  shows "pg_no (p + 4 * j + k) = pg_no p"
proof -
  have "unat (p + 4 * j + k) = unat (pg_no p) * 4096 + (4 * unat j + unat k)"
    using unat_aligned_plus[OF entry_addr(2)[OF assms(1,2)] assms(3)] entry_addr(1)[OF assms(1,2)] kpage_unat[OF assms(1)]
    by simp
  then show ?thesis using assms by (intro unat_inject) (simp add: unat_pg_no)
qed

lemma page_distance:
  assumes "is_kpage p"
  shows "x - p < PGSIZE \<longleftrightarrow> pg_no x = pg_no p"
proof -
  define P where "P = unat (pg_no p)"
  define X where "X = unat x"
  have up: "unat p = 4096 * P" using kpage_unat[OF assms] by (simp add: P_def)
  have P: "P < 1048576" using unat_u32_less[of p] up by linarith
  have X: "X < 4294967296" using unat_u32_less[of x] by (simp add: X_def)
  have lt: "x - p < PGSIZE \<longleftrightarrow> unat (x - p) < 4096" by (simp add: word_less_nat_alt unat_PGSIZE)
  have eq: "pg_no x = pg_no p \<longleftrightarrow> X div 4096 = P"
    unfolding P_def X_def unat_pg_no[symmetric] using unat_inject by auto
  have "unat (x - p) = (if 4096 * P \<le> X then X - 4096 * P else X + 4294967296 - 4096 * P)"
    using up by (simp add: unat_sub_if' X_def word_le_nat_alt)
  moreover have "X div 4096 = P \<longleftrightarrow> 4096 * P \<le> X \<and> X < 4096 * P + 4096"
    by (auto simp: div_nat_eqI less_eq_div_iff_mult_less_eq)
  ultimately show ?thesis unfolding lt eq using P X by auto
qed

lemma load_memset_page:
  assumes "is_kpage p" "is_kpage q" "unat j < 1024"
  shows "load32 (q + 4 * j) (memset p 0 PGSIZE m) = (if p = q then 0 else load32 (q + 4 * j) m)"
proof (cases "p = q")
  case True
  then show ?thesis
    using word_in_page[OF assms(2,3)] page_distance[OF assms(1)] by (auto simp: memset_def intro!: load_zero)
next
  case False
  then have "pg_no p \<noteq> pg_no q" using kpage_pg_no[OF assms(1,2)] by blast
  then show ?thesis
    using False word_in_page[OF assms(2,3)] page_distance[OF assms(1)] by (auto simp: memset_def intro!: load_cong)
qed

subsection \<open>Well-formed directories\<close>

definition free_pages :: "mmu \<Rightarrow> nat set" where
  "free_pages s = free_pool (kernel_pool (mem s)) \<union> free_pool (user_pool (mem s))"

text \<open>The page table for the addresses with directory index \<open>i\<close>.\<close>

definition table_at :: "mmu \<Rightarrow> u32 \<Rightarrow> u32 \<Rightarrow> u32 option" where
  "table_at s pd i = (if load (pd + 4 * i) s = 0 then None else pde_get_pt (load (pd + 4 * i) s))"

definition in_use :: "mmu \<Rightarrow> u32 \<Rightarrow> bool" where
  "in_use s p \<longleftrightarrow> is_kpage p \<and> unat (pg_no p) \<notin> free_pages s"

definition pagedir_wf :: "mmu \<Rightarrow> u32 \<Rightarrow> bool" where
  "pagedir_wf s pd \<longleftrightarrow> kmem_wf (mem s) \<and> in_use s pd \<and>
     (\<forall>i. unat i < 768 \<and> load (pd + 4 * i) s \<noteq> 0 \<longrightarrow>
        (\<exists>pt. table_at s pd i = Some pt \<and> in_use s pt \<and> pt \<noteq> pd)) \<and>
     (\<forall>i j pt. unat i < 768 \<longrightarrow> unat j < 768 \<longrightarrow> table_at s pd i = Some pt \<longrightarrow> table_at s pd j = Some pt \<longrightarrow> i = j)"

text \<open>The entry for a user address, and the entry if it is present.\<close>

definition pte_of :: "mmu \<Rightarrow> u32 \<Rightarrow> u32 \<Rightarrow> u32 option" where
  "pte_of s pd va = do { pt \<leftarrow> table_at s pd (pd_no va); Some (load (pt + 4 * pt_no va) s) }"

definition mapped :: "mmu \<Rightarrow> u32 \<Rightarrow> u32 \<Rightarrow> u32 option" where
  "mapped s pd va = do { e \<leftarrow> pte_of s pd va; if e AND PTE_P \<noteq> 0 then Some e else None }"

lemma kpage_nonzero: "is_kpage p \<Longrightarrow> p \<noteq> 0"
  by (auto simp: is_kpage_def is_kernel_vaddr_def PHYS_BASE_def)

lemma entry_nonzero: "is_kpage p \<Longrightarrow> unat i < 1024 \<Longrightarrow> p + 4 * i \<noteq> 0"
  using entry_addr(1)[of p i] kpage_nonzero[of p] by (metis add_is_0 unat_0 unat_eq_0)

lemma table_at_in_use:
  assumes "pagedir_wf s pd" "is_user_vaddr va" "table_at s pd (pd_no va) = Some pt"
  shows "in_use s pt" "is_kpage pt" "pt \<noteq> pd"
proof -
  have "load (pd + 4 * pd_no va) s \<noteq> 0" using assms(3) by (auto simp: table_at_def)
  then show "in_use s pt" "pt \<noteq> pd" using assms pd_no_user[OF assms(2)] by (auto simp: pagedir_wf_def)
  then show "is_kpage pt" by (simp add: in_use_def)
qed

lemma lookup_existing:
  assumes "pagedir_wf s pd" "is_user_vaddr va"
  shows "lookup_page pd va False s =
           Some (case table_at s pd (pd_no va) of None \<Rightarrow> 0 | Some pt \<Rightarrow> pt + 4 * pt_no va, s)"
proof -
  have "pd \<noteq> 0" using assms(1) by (auto simp: pagedir_wf_def in_use_def dest: kpage_nonzero)
  moreover have "unat (pd_no va) < 768" using pd_no_user assms(2) .
  ultimately show ?thesis
    using assms(1) by (auto simp: lookup_page_def Let_def table_at_def pagedir_wf_def split: option.split)
qed

lemma split_1024:
  fixes x y x' y' :: nat
  assumes "1024 * x + y = 1024 * x' + y'" "y < 1024" "y' < 1024"
  shows "x = x' \<and> y = y'"
proof -
  have "x = (1024 * x + y) div 1024" using assms(2) by simp
  also have "\<dots> = x'" unfolding assms(1) using assms(3) by simp
  finally show ?thesis using assms(1) by simp
qed

lemma same_page_iff: "pg_no a = pg_no b \<longleftrightarrow> pd_no a = pd_no b \<and> pt_no a = pt_no b"
proof
  assume "pg_no a = pg_no b"
  then have "1024 * unat (pd_no a) + unat (pt_no a) = 1024 * unat (pd_no b) + unat (pt_no b)"
    by (simp add: pg_no_split[symmetric])
  from split_1024[OF this pt_no_less pt_no_less] show "pd_no a = pd_no b \<and> pt_no a = pt_no b" using unat_inject by blast
next
  assume "pd_no a = pd_no b \<and> pt_no a = pt_no b"
  then show "pg_no a = pg_no b" by (intro unat_inject) (simp add: pg_no_split)
qed

subsection \<open>Writing an entry\<close>

lemma store_pools [simp]: "free_pages (store a v s) = free_pages s" "kmem_wf (mem (store a v s)) = kmem_wf (mem s)"
  by (simp_all add: store_def set_ram_def free_pages_def)

lemma in_use_store [simp]: "in_use (store a v s) p = in_use s p"
  by (simp add: in_use_def)

lemma store_regs [simp]: "init_page_dir (store a v s) = init_page_dir s" "init_ram_pages (store a v s) = init_ram_pages s"
    "cr3 (store a v s) = cr3 s"
  by (simp_all add: store_def set_ram_def)

lemma store_pte:
  fixes v :: u32
  assumes wf: "pagedir_wf s pd" and u: "is_user_vaddr va" and pt: "table_at s pd (pd_no va) = Some pt"
  defines "s' \<equiv> store (pt + 4 * pt_no va) v s"
  shows "pagedir_wf s' pd"
    and "\<And>va'. is_user_vaddr va' \<Longrightarrow> pte_of s' pd va' = (if pg_no va' = pg_no va then Some v else pte_of s pd va')"
proof -
  note ptu = table_at_in_use[OF wf u pt]
  have kpd: "is_kpage pd" using wf by (simp add: pagedir_wf_def in_use_def)
  have pde: "load (pd + 4 * i) s' = load (pd + 4 * i) s" if "unat i < 768" for i
    unfolding s'_def using load_store_entry[OF ptu(2) kpd pt_no_less[of va], of i v s] ptu(3) that by simp
  have tab: "table_at s' pd i = table_at s pd i" if "unat i < 768" for i
    using pde[OF that] by (simp add: table_at_def)
  have use: "in_use s' p = in_use s p" for p by (simp add: s'_def)
  have "kmem_wf (mem s')" using wf by (simp add: s'_def pagedir_wf_def)
  then show "pagedir_wf s' pd"
    using wf pde tab unfolding pagedir_wf_def use by metis
  fix va' assume u': "is_user_vaddr va'"
  show "pte_of s' pd va' = (if pg_no va' = pg_no va then Some v else pte_of s pd va')"
  proof (cases "table_at s pd (pd_no va')")
    case None
    then have "pg_no va' \<noteq> pg_no va" using pt by (auto simp: same_page_iff)
    then show ?thesis using None tab[OF pd_no_user[OF u']] by (simp add: pte_of_def)
  next
    case (Some pt')
    note ptu' = table_at_in_use[OF wf u' Some]
    have "pt = pt' \<longleftrightarrow> pd_no va' = pd_no va"
      using wf Some pt pd_no_user[OF u] pd_no_user[OF u'] unfolding pagedir_wf_def by (metis option.inject)
    then show ?thesis
      using Some tab[OF pd_no_user[OF u']] load_store_entry[OF ptu(2) ptu'(2) pt_no_less[of va] pt_no_less[of va'], of v s]
      by (auto simp: pte_of_def s'_def same_page_iff)
  qed
qed

lemma pte_of_table: "table_at s pd (pd_no va) = Some pt \<Longrightarrow> pte_of s pd va = Some (load (pt + 4 * pt_no va) s)"
  by (simp add: pte_of_def)

lemma invalidate_pagedir_wf:
  assumes "pagedir_wf s pd" "cr3 s < PHYS_BASE"
  shows "invalidate_pagedir pd s = Some s"
proof -
  have k: "is_kernel_vaddr pd" using assms(1) by (simp add: pagedir_wf_def in_use_def is_kpage_def)
  have "cr3 s + PHYS_BASE = pd \<Longrightarrow> pd - PHYS_BASE = cr3 s" by (metis add_diff_cancel)
  then show ?thesis
    using k assms kpage_nonzero[of pd]
    by (auto simp: invalidate_pagedir_def active_pd_def ptov_def pagedir_activate_def vtop_def pagedir_wf_def in_use_def)
qed

text \<open>All the operations that modify an existing entry.\<close>

lemma modify_pte:
  assumes wf: "pagedir_wf s pd" and u: "is_user_vaddr va" and pt: "table_at s pd (pd_no va) = Some pt"
  shows "lookup_page pd va False s = Some (pt + 4 * pt_no va, s)" "pt + 4 * pt_no va \<noteq> 0"
    and "load (pt + 4 * pt_no va) s = the (pte_of s pd va)"
  using lookup_existing[OF wf u] pt entry_nonzero[OF table_at_in_use(2)[OF wf u pt] pt_no_less, of va]
  by (simp_all add: pte_of_def)

subsection \<open>Creating a table\<close>

lemma get_page_cases:
  assumes "kmem_wf (mem s)"
  obtains (none) "palloc_get_page PAL_ZERO (mem s) = Some (0, mem s)"
  | (page) pt m where "palloc_get_page PAL_ZERO (mem s) = Some (pt, m)" "is_kpage pt" "kmem_wf m"
      "unat (pg_no pt) \<in> free_pages s" "free_pages (s\<lparr>mem := m\<rparr>) = free_pages s - {unat (pg_no pt)}"
      "ram m = memset pt 0 PGSIZE (ram (mem s))" "unat (pg_no pt) \<in> free_pool (kernel_pool (mem s))"
proof -
  have f: "PAL_ZERO AND PAL_ASSERT = 0" "PAL_ZERO AND PAL_USER = 0" "PAL_ZERO AND PAL_ZERO \<noteq> 0"
    by (simp_all add: PAL_ZERO_def PAL_ASSERT_def PAL_USER_def)
  show thesis
    using assms one_neq_zero f(1)
  proof (cases rule: palloc_get_multiple_cases)
    case none
    then show thesis using that(1) by (simp add: palloc_get_page_def)
  next
    case (some a m r)
    let ?m = "(set_pool False ((pool_of False (mem s))\<lparr>used_map := m\<rparr>) (mem s))\<lparr>ram := r\<rparr>"
    have rg: "region (pg_no a) 1 = {unat (pg_no a)}" by (auto simp: region_def)
    have "pool_pages (kernel_pool (mem s)) \<inter> pool_pages (user_pool (mem s)) = {}"
      using assms by (simp add: kmem_wf_def)
    then have dis: "unat (pg_no a) \<notin> free_pool (user_pool (mem s))" "unat (pg_no a) \<in> free_pool (kernel_pool (mem s))"
      using some(6) free_pool_subset[of "kernel_pool (mem s)"] free_pool_subset[of "user_pool (mem s)"]
      unfolding rg by (auto simp: f pool_of_def)
    show thesis
    proof (rule that(2)[of a ?m])
      show "palloc_get_page PAL_ZERO (mem s) = Some (a, ?m)" using some(1) by (simp add: palloc_get_page_def f)
      show "is_kpage a" using some(4,5) by (simp add: is_kpage_def)
      show "kmem_wf ?m" using kmem_wf_set_map[OF assms, of m False] some(8,9) by (simp add: f)
      show "unat (pg_no a) \<in> free_pages s" using dis by (simp add: free_pages_def)
      show "free_pages (s\<lparr>mem := ?m\<rparr>) = free_pages s - {unat (pg_no a)}"
        using some(7) dis unfolding rg by (auto simp: free_pages_def f set_pool_def pool_of_def)
      show "ram ?m = memset a 0 PGSIZE (ram (mem s))" using some(2) by (simp add: PAL_ZERO_def)
      show "unat (pg_no a) \<in> free_pool (kernel_pool (mem s))" by (rule dis(2))
    qed
  qed
qed

lemma get_kernel_page_fails:
  assumes "kmem_wf m" "palloc_get_page PAL_ZERO m = Some (0, m')"
  shows "free_pool (kernel_pool m) = {}"
proof -
  have f: "PAL_ZERO AND PAL_ASSERT = 0" "PAL_ZERO AND PAL_USER = 0"
    by (simp_all add: PAL_ZERO_def PAL_ASSERT_def PAL_USER_def)
  from assms(1) one_neq_zero f(1) show ?thesis
  proof (cases rule: palloc_get_multiple_cases)
    case none
    have "k \<notin> free_pool (kernel_pool m)" for k
      using none(2) spec[of "\<lambda>k. \<not> {k..<k + unat (1 :: u32)} \<subseteq> free_pool (pool_of (PAL_ZERO AND PAL_USER \<noteq> 0) m)" k]
      by (auto simp: f pool_of_def)
    then show ?thesis by blast
  next
    case (some a m r)
    then show ?thesis using assms(2) by (simp add: palloc_get_page_def)
  qed
qed

text \<open>A table for the address is missing and there is no page for a new one.\<close>

definition no_table :: "mmu \<Rightarrow> u32 \<Rightarrow> u32 \<Rightarrow> bool" where
  "no_table s pd va \<longleftrightarrow> table_at s pd (pd_no va) = None \<and> free_pool (kernel_pool (mem s)) = {}"

lemma lookup_create_none:
  assumes wf: "pagedir_wf s pd" and u: "is_user_vaddr va" and run: "lookup_page pd va True s = Some (p, s')"
  shows "p = 0 \<longleftrightarrow> no_table s pd va"
proof (cases "load (pd + 4 * pd_no va) s = 0")
  case False
  then obtain pt where pt: "table_at s pd (pd_no va) = Some pt"
    using wf pd_no_user[OF u] by (auto simp: pagedir_wf_def)
  then have "p = pt + 4 * pt_no va"
    using run False u wf kpage_nonzero[of pd] by (simp add: lookup_page_def table_at_def pagedir_wf_def in_use_def)
  then show ?thesis using modify_pte(2)[OF wf u pt] pt by (simp add: no_table_def)
next
  case True
  have kw: "kmem_wf (mem s)" and kpd: "is_kpage pd" "pd \<noteq> 0"
    using wf kpage_nonzero[of pd] by (simp_all add: pagedir_wf_def in_use_def)
  from kw show ?thesis
  proof (cases rule: get_page_cases)
    case none
    then show ?thesis
      using get_kernel_page_fails[OF kw none] True u kpd run by (simp add: lookup_page_def table_at_def no_table_def)
  next
    case (page pt m)
    have kpt: "is_kernel_vaddr pt" "pg_ofs pt = 0" using page(2) by (simp_all add: is_kpage_def)
    obtain e where e: "pde_create pt = Some e" "pde_get_pt e = Some pt"
      using pde_get_pt_create[OF kpt] by (auto simp: pde_create_Some[OF kpt])
    have "p = pt + 4 * pt_no va"
      using run True u kpd page(1) kpage_nonzero[OF page(2)] e
        load_store_entry[OF kpd(1) kpd(1) pd_no_less[of va] pd_no_less[of va], of e "s\<lparr>mem := m\<rparr>"]
      by (simp add: lookup_page_def Let_def)
    then show ?thesis using entry_nonzero[OF page(2) pt_no_less, of va] page(7) by (auto simp: no_table_def)
  qed
qed

lemma lookup_create:
  assumes wf: "pagedir_wf s pd" and u: "is_user_vaddr va"
  shows "lookup_page pd va True s = Some (0, s) \<or>
    (\<exists>s' pt. lookup_page pd va True s = Some (pt + 4 * pt_no va, s') \<and> table_at s' pd (pd_no va) = Some pt \<and>
       pagedir_wf s' pd \<and> (\<forall>va'. is_user_vaddr va' \<longrightarrow> mapped s' pd va' = mapped s pd va') \<and>
       init_page_dir s' = init_page_dir s \<and> init_ram_pages s' = init_ram_pages s \<and> cr3 s' = cr3 s)"
proof (cases "load (pd + 4 * pd_no va) s = 0")
  case False
  then obtain pt where "table_at s pd (pd_no va) = Some pt"
    using wf pd_no_user[OF u] by (auto simp: pagedir_wf_def)
  moreover from this have "lookup_page pd va True s = Some (pt + 4 * pt_no va, s)"
    using False u wf kpage_nonzero[of pd] by (simp add: lookup_page_def table_at_def pagedir_wf_def in_use_def)
  ultimately show ?thesis using wf by blast
next
  case True
  have kw: "kmem_wf (mem s)" and kpd: "is_kpage pd" "pd \<noteq> 0" and pdu: "unat (pg_no pd) \<notin> free_pages s"
    using wf kpage_nonzero[of pd] by (simp_all add: pagedir_wf_def in_use_def)
  from kw show ?thesis
  proof (cases rule: get_page_cases)
    case none
    then show ?thesis using True u kpd by (simp add: lookup_page_def)
  next
    case (page pt m)
    let ?s1 = "s\<lparr>mem := m\<rparr>"
    have kpt: "is_kernel_vaddr pt" "pg_ofs pt = 0" using page(2) by (simp_all add: is_kpage_def)
    obtain e where e: "pde_create pt = Some e" "pde_get_pt e = Some pt"
      using pde_get_pt_create[OF kpt] by (auto simp: pde_create_Some[OF kpt])
    have e0: "e \<noteq> 0" using e(2) by (auto simp: pde_get_pt_def)
    let ?s2 = "store (pd + 4 * pd_no va) e ?s1"
    have l1: "load (q + 4 * j) ?s1 = (if q = pt then 0 else load (q + 4 * j) s)" if "is_kpage q" "unat j < 1024" for q j
      using load_memset_page[OF page(2) that, of "ram (mem s)"] page(6) by (auto simp: load_def)
    have fresh: "q \<noteq> pt" if "in_use s q" for q using that page(4) by (auto simp: in_use_def)
    have l2: "load (q + 4 * j) ?s2 = (if q = pd \<and> j = pd_no va then e else if q = pt then 0 else load (q + 4 * j) s)"
      if "is_kpage q" "unat j < 1024" for q j
      using load_store_entry[OF kpd(1) that(1) pd_no_less[of va] that(2), of e ?s1] l1[OF that] by auto
    have pdpt: "pd \<noteq> pt" using fresh wf by (auto simp: pagedir_wf_def)
    have tab: "table_at ?s2 pd i = (if i = pd_no va then Some pt else table_at s pd i)" if "unat i < 768" for i
      using l2[OF kpd(1), of i] that pdpt e0 e(2) by (auto simp: table_at_def)
    have use: "in_use ?s2 q \<longleftrightarrow> in_use s q \<or> q = pt" if "is_kpage q" for q
    proof -
      have "unat (pg_no q) = unat (pg_no pt) \<longleftrightarrow> q = pt"
        using kpage_pg_no[OF that page(2)] unat_inject[of "pg_no q" "pg_no pt"] by blast
      then show ?thesis using page(5) that by (simp add: in_use_def)
    qed
    have "pagedir_wf ?s2 pd"
      unfolding pagedir_wf_def
    proof (intro conjI allI impI)
      show "kmem_wf (mem ?s2)" using page(3) by simp
      show "in_use ?s2 pd" using use[OF kpd(1)] wf by (simp add: pagedir_wf_def)
      show "\<exists>q. table_at ?s2 pd i = Some q \<and> in_use ?s2 q \<and> q \<noteq> pd" if i768: "unat i < 768 \<and> load (pd + 4 * i) ?s2 \<noteq> 0" for i
      proof (cases "i = pd_no va")
        case True
        then show ?thesis using tab i768 use[OF page(2)] pdpt by auto
      next
        case False
        then have "load (pd + 4 * i) s \<noteq> 0" using i768 l2[OF kpd(1), of i] pdpt by auto
        then obtain q where "table_at s pd i = Some q" "in_use s q" "q \<noteq> pd" using wf conjunct1[OF i768] unfolding pagedir_wf_def by blast
        then show ?thesis using False tab[of i] conjunct1[OF i768] use[of q] by (auto simp: in_use_def)
      qed
      have old: "q \<noteq> pt" if "table_at s pd i = Some q" "unat i < 768" for i q
        using that wf fresh by (auto simp: pagedir_wf_def table_at_def split: if_splits)
      show "i = j" if "unat i < 768" "unat j < 768" "table_at ?s2 pd i = Some q" "table_at ?s2 pd j = Some q" for i j q
        using that tab old wf unfolding pagedir_wf_def by (metis option.inject)
    qed
    moreover have "mapped ?s2 pd va' = mapped s pd va'" if u': "is_user_vaddr va'" for va'
    proof (cases "pd_no va' = pd_no va")
      case same: True
      then have "table_at s pd (pd_no va') = None" using True by (simp add: table_at_def)
      moreover have "load (pt + 4 * pt_no va') ?s2 = 0" using l2[OF page(2) pt_no_less] pdpt by auto
      ultimately show ?thesis using same tab[OF pd_no_user[OF u']] by (simp add: mapped_def pte_of_def)
    next
      case False
      then show ?thesis
        using tab[OF pd_no_user[OF u']] l2[OF _ pt_no_less] table_at_in_use[OF wf u'] fresh
        by (cases "table_at s pd (pd_no va')") (auto simp: mapped_def pte_of_def)
    qed
    moreover have "lookup_page pd va True s = Some (pt + 4 * pt_no va, ?s2)"
      using True u kpd page(1) kpage_nonzero[OF page(2)] e l2[OF kpd(1) pd_no_less, of va]
      by (simp add: lookup_page_def Let_def)
    moreover have "table_at ?s2 pd (pd_no va) = Some pt" using tab[OF pd_no_user[OF u]] by simp
    ultimately show ?thesis by (intro disjI2 exI[of _ ?s2] exI[of _ pt]) simp
  qed
qed

subsection \<open>Translations\<close>

lemma pagedir_get_page_mapped:
  assumes "pagedir_wf s pd" "is_user_vaddr va"
  shows "pagedir_get_page pd va s =
    (case mapped s pd va of
       None \<Rightarrow> Some 0
     | Some e \<Rightarrow> do { page \<leftarrow> pte_get_page e; Some (page + pg_ofs va) })"
proof (cases "table_at s pd (pd_no va)")
  case None
  then show ?thesis
    using lookup_existing[OF assms] assms(2) by (simp add: pagedir_get_page_def mapped_def pte_of_def)
next
  case (Some pt)
  then show ?thesis
    using modify_pte[OF assms Some] assms(2) by (simp add: pagedir_get_page_def mapped_def pte_of_def)
qed

lemma pte_create_user_entry:
  assumes "is_kpage k"
  obtains e where "pte_create_user k w = Some e" "e AND PTE_P \<noteq> 0" "pte_get_page e = Some k"
    "e AND PTE_W \<noteq> 0 \<longleftrightarrow> w" "e AND PTE_U \<noteq> 0" "e AND PTE_D = 0" "e AND PTE_A = 0"
proof -
  have k: "is_kernel_vaddr k" "pg_ofs k = 0" using assms by (simp_all add: is_kpage_def)
  note low = kernel_page_low_bits[OF k]
  let ?e = "(k - PHYS_BASE) OR (PTE_P OR (if w then PTE_W else 0) OR PTE_U)"
  have "pte_create_user k w = Some ?e" by (rule pte_create_user_Some[OF k])
  moreover have "pte_get_page ?e = Some k"
    using entry_address[OF low, of "PTE_P OR (if w then PTE_W else 0) OR PTE_U"] kernel_vaddr_minus[OF k(1)]
    by (auto simp: pte_get_page_def ptov_Some pte_flag_defs)
  moreover have "?e AND PTE_P \<noteq> 0" "?e AND PTE_W \<noteq> 0 \<longleftrightarrow> w" "?e AND PTE_U \<noteq> 0" "?e AND PTE_D = 0" "?e AND PTE_A = 0"
    by (simp_all add: entry_flags[OF low] pte_flag_defs)
  ultimately show thesis using that by blast
qed

lemma pagedir_set_page_mapped:
  assumes wf: "pagedir_wf s pd" and up: "is_user_vaddr upage" "pg_ofs upage = 0"
    and k: "is_kpage k" "drop_bit 12 (k - PHYS_BASE) < init_ram_pages s" and pd: "pd \<noteq> init_page_dir s"
    and free: "mapped s pd upage = None" and e: "pte_create_user k w = Some e" "e AND PTE_P \<noteq> 0"
  shows "pagedir_set_page pd upage k w s = Some (False, s) \<or>
    (\<exists>s'. pagedir_set_page pd upage k w s = Some (True, s') \<and> pagedir_wf s' pd \<and>
       (\<forall>va. is_user_vaddr va \<longrightarrow> mapped s' pd va = (if pg_no va = pg_no upage then Some e else mapped s pd va)))"
proof -
  have pre: "vtop k = Some (k - PHYS_BASE)" "pg_ofs k = 0" using k(1) by (simp_all add: is_kpage_def vtop_Some)
  from lookup_create[OF wf up(1)] show ?thesis
  proof
    assume "lookup_page pd upage True s = Some (0, s)"
    then show ?thesis using pre up k pd by (simp add: pagedir_set_page_def vaddr_consts)
  next
    assume "\<exists>s' pt. lookup_page pd upage True s = Some (pt + 4 * pt_no upage, s') \<and> table_at s' pd (pd_no upage) = Some pt \<and>
       pagedir_wf s' pd \<and> (\<forall>va'. is_user_vaddr va' \<longrightarrow> mapped s' pd va' = mapped s pd va') \<and>
       init_page_dir s' = init_page_dir s \<and> init_ram_pages s' = init_ram_pages s \<and> cr3 s' = cr3 s"
    then obtain s1 pt where s1: "lookup_page pd upage True s = Some (pt + 4 * pt_no upage, s1)"
      "table_at s1 pd (pd_no upage) = Some pt" "pagedir_wf s1 pd"
      "\<And>va. is_user_vaddr va \<Longrightarrow> mapped s1 pd va = mapped s pd va" by blast
    let ?s' = "store (pt + 4 * pt_no upage) e s1"
    have "load (pt + 4 * pt_no upage) s1 AND PTE_P = 0"
      using free s1(4)[OF up(1)] s1(2) by (auto simp: mapped_def pte_of_def split: if_splits)
    moreover have "pt + 4 * pt_no upage \<noteq> 0" by (rule modify_pte(2)[OF s1(3) up(1) s1(2)])
    ultimately have "pagedir_set_page pd upage k w s = Some (True, ?s')"
      using pre up k pd s1(1) e(1) by (simp add: pagedir_set_page_def vaddr_consts)
    moreover have "mapped ?s' pd va = (if pg_no va = pg_no upage then Some e else mapped s pd va)" if "is_user_vaddr va" for va
      using store_pte(2)[OF s1(3) up(1) s1(2) that, of e] s1(4)[OF that] e(2) by (simp add: mapped_def)
    ultimately show ?thesis using store_pte(1)[OF s1(3) up(1) s1(2)] by blast
  qed
qed

lemma pagedir_set_page_fails:
  assumes wf: "pagedir_wf s pd" and u: "is_user_vaddr upage" and run: "pagedir_set_page pd upage k w s = Some (ok, s')"
  shows "ok \<longleftrightarrow> \<not> no_table s pd upage"
proof -
  obtain p s1 where l: "lookup_page pd upage True s = Some (p, s1)" "ok \<longleftrightarrow> p \<noteq> 0"
    using run by (auto simp: pagedir_set_page_def split: Option.bind_splits if_splits)
  then show ?thesis using lookup_create_none[OF wf u l(1)] by simp
qed

text \<open>Changing a bit of an existing entry and possibly reloading the directory.\<close>

lemma update_pte:
  assumes wf: "pagedir_wf s pd" and u: "is_user_vaddr va" and cr: "cr3 s < PHYS_BASE"
    and pt: "table_at s pd (pd_no va) = Some pt"
  shows "invalidate_pagedir pd (store (pt + 4 * pt_no va) v s) = Some (store (pt + 4 * pt_no va) v s)"
  using invalidate_pagedir_wf[OF store_pte(1)[OF wf u pt]] cr by simp

lemma pagedir_clear_page_mapped:
  assumes wf: "pagedir_wf s pd" and u: "is_user_vaddr upage" "pg_ofs upage = 0" and cr: "cr3 s < PHYS_BASE"
  shows "\<exists>s'. pagedir_clear_page pd upage s = Some s' \<and> pagedir_wf s' pd \<and>
    (\<forall>va. is_user_vaddr va \<longrightarrow> mapped s' pd va = (if pg_no va = pg_no upage then None else mapped s pd va))"
proof (cases "mapped s pd upage")
  case None
  then have "pagedir_clear_page pd upage s = Some s"
    using lookup_existing[OF wf u(1)] u
    by (cases "table_at s pd (pd_no upage)") (auto simp: pagedir_clear_page_def mapped_def pte_of_def split: if_splits)
  moreover have "mapped s pd va = None" if "pg_no va = pg_no upage" for va
    using None that by (simp add: mapped_def pte_of_def same_page_iff)
  ultimately show ?thesis using wf by (intro exI[of _ s]) simp
next
  case (Some e)
  then obtain pt where pt: "table_at s pd (pd_no upage) = Some pt" and e: "load (pt + 4 * pt_no upage) s = e" "e AND PTE_P \<noteq> 0"
    by (auto simp: mapped_def pte_of_def split: Option.bind_splits if_splits)
  let ?s' = "store (pt + 4 * pt_no upage) (e AND NOT PTE_P) s"
  have "pagedir_clear_page pd upage s = Some ?s'"
    using modify_pte(1,2)[OF wf u(1) pt] e u update_pte[OF wf u(1) cr pt] by (simp add: pagedir_clear_page_def)
  moreover have "(e AND NOT PTE_P) AND PTE_P = 0" by (simp add: and.assoc)
  then have "mapped ?s' pd va = (if pg_no va = pg_no upage then None else mapped s pd va)" if "is_user_vaddr va" for va
    using store_pte(2)[OF wf u(1) pt that, of "e AND NOT PTE_P"] by (simp add: mapped_def)
  ultimately show ?thesis using store_pte(1)[OF wf u(1) pt] by blast
qed

lemma pagedir_is_dirty_pte:
  "pagedir_wf s pd \<Longrightarrow> is_user_vaddr va \<Longrightarrow>
   pagedir_is_dirty pd va s = Some (case pte_of s pd va of None \<Rightarrow> False | Some e \<Rightarrow> e AND PTE_D \<noteq> 0)"
  using lookup_existing[of s pd va] entry_nonzero[OF table_at_in_use(2) pt_no_less, of s pd va _ va]
  by (cases "table_at s pd (pd_no va)") (simp_all add: pagedir_is_dirty_def pte_of_def)

lemma pagedir_is_accessed_pte:
  "pagedir_wf s pd \<Longrightarrow> is_user_vaddr va \<Longrightarrow>
   pagedir_is_accessed pd va s = Some (case pte_of s pd va of None \<Rightarrow> False | Some e \<Rightarrow> e AND PTE_A \<noteq> 0)"
  using lookup_existing[of s pd va] entry_nonzero[OF table_at_in_use(2) pt_no_less, of s pd va _ va]
  by (cases "table_at s pd (pd_no va)") (simp_all add: pagedir_is_accessed_def pte_of_def)

lemma pagedir_set_bits:
  assumes wf: "pagedir_wf s pd" and u: "is_user_vaddr va" and cr: "cr3 s < PHYS_BASE" and e: "pte_of s pd va = Some e"
  shows "\<exists>s'. pagedir_set_dirty pd va d s = Some s' \<and> pagedir_wf s' pd \<and>
    (\<forall>va'. is_user_vaddr va' \<longrightarrow> pte_of s' pd va' =
      (if pg_no va' = pg_no va then Some (if d then e OR PTE_D else e AND NOT PTE_D) else pte_of s pd va'))" (is ?D)
    and "\<exists>s'. pagedir_set_accessed pd va d s = Some s' \<and> pagedir_wf s' pd \<and>
    (\<forall>va'. is_user_vaddr va' \<longrightarrow> pte_of s' pd va' =
      (if pg_no va' = pg_no va then Some (if d then e OR PTE_A else e AND NOT PTE_A) else pte_of s pd va'))" (is ?A)
proof -
  obtain pt where pt: "table_at s pd (pd_no va) = Some pt" and l: "load (pt + 4 * pt_no va) s = e"
    using e by (auto simp: pte_of_def split: Option.bind_splits)
  note run = modify_pte(1,2)[OF wf u pt] l update_pte[OF wf u cr pt] and
    st = store_pte[OF wf u pt]
  have "pagedir_set_dirty pd va d s = Some (store (pt + 4 * pt_no va) (if d then e OR PTE_D else e AND NOT PTE_D) s)"
    using run by (simp add: pagedir_set_dirty_def)
  then show ?D using st by blast
  have "pagedir_set_accessed pd va d s = Some (store (pt + 4 * pt_no va) (if d then e OR PTE_A else e AND NOT PTE_A) s)"
    using run by (simp add: pagedir_set_accessed_def)
  then show ?A using st by blast
qed

text \<open>Mapping a user page that is already mapped is refused by an assertion.\<close>

lemma pagedir_no_double_map:
  assumes wf: "pagedir_wf s pd" and up: "is_user_vaddr upage" and m: "mapped s pd upage = Some e"
  shows "pagedir_set_page pd upage k w s = None"
proof -
  obtain pt where pt: "table_at s pd (pd_no upage) = Some pt" "load (pt + 4 * pt_no upage) s = e" "e AND PTE_P \<noteq> 0"
    using m by (auto simp: mapped_def pte_of_def split: Option.bind_splits if_splits)
  have "pd \<noteq> 0" "load (pd + 4 * pd_no upage) s \<noteq> 0"
    using wf pt(1) kpage_nonzero[of pd] by (auto simp: pagedir_wf_def in_use_def table_at_def)
  then have "lookup_page pd upage True s = Some (pt + 4 * pt_no upage, s)"
    using up pt(1) by (simp add: lookup_page_def table_at_def)
  then show ?thesis
    using pt(2,3) modify_pte(2)[OF wf up pt(1)] by (cases "vtop k") (simp_all add: pagedir_set_page_def)
qed

subsection \<open>Properties\<close>

definition demo_mmu :: mmu where
  "demo_mmu = \<lparr>mem = demo_kmem\<lparr>ram := \<lambda>_. 0\<rparr>, init_page_dir = 0xc0100000, init_ram_pages = 1024, cr3 = 0\<rparr>"

lemma demo_mmu_wf: "pagedir_wf demo_mmu 0xc0101000"
proof -
  have l: "load a demo_mmu = 0" for a by (simp add: load_def demo_mmu_def load32_def)
  have "free_pool (kernel_pool demo_kmem) = {0xc0103, 0xc0104}" "free_pool (user_pool demo_kmem) = {0xc0202, 0xc0203}"
    by (simp_all add: free_pool_def demo_kmem_def demo_pool_free) (simp_all add: demo_pool_def unat_pg_no)
  then show ?thesis
    using demo_kmem_wf
    by (simp add: pagedir_wf_def table_at_def l in_use_def is_kpage_def is_kernel_vaddr_def PHYS_BASE_def pg_ofs_eq_0_iff
        free_pages_def unat_pg_no) (simp add: demo_mmu_def)
qed

text \<open>C2: mapping an unmapped user page succeeds exactly when the directory has a table for its address or
  the kernel pool has a page for one. It then makes the entry present and accessible to the user, writable as
  asked, neither accessed nor dirty, and from then on exactly the addresses of this page translate to the
  frame, at the same offset; every other user address translates as before and the directory stays
  well-formed. If it fails it changes nothing.\<close>

theorem pagedir_map_translate:
  assumes wf: "pagedir_wf s pd" and up: "is_user_vaddr upage" "pg_ofs upage = 0"
    and k: "is_kpage k" "drop_bit 12 (k - PHYS_BASE) < init_ram_pages s" and pd: "pd \<noteq> init_page_dir s"
    and free: "mapped s pd upage = None"
  defines "ok \<equiv> table_at s pd (pd_no upage) \<noteq> None \<or> free_pool (kernel_pool (mem s)) \<noteq> {}"
  shows "\<exists>s'. pagedir_set_page pd upage k w s = Some (ok, s') \<and> pagedir_wf s' pd \<and> (\<not> ok \<longrightarrow> s' = s) \<and>
    (ok \<longrightarrow> (\<exists>e. mapped s' pd upage = Some e \<and> (e AND PTE_W \<noteq> 0 \<longleftrightarrow> w) \<and> e AND PTE_U \<noteq> 0 \<and> e AND PTE_D = 0 \<and> e AND PTE_A = 0)) \<and>
    (\<forall>va. is_user_vaddr va \<longrightarrow> pagedir_get_page pd va s' =
       (if ok \<and> pg_no va = pg_no upage then Some (k + pg_ofs va) else pagedir_get_page pd va s))"
proof -
  have nt: "ok \<longleftrightarrow> \<not> no_table s pd upage" by (auto simp: ok_def no_table_def)
  obtain e where e: "pte_create_user k w = Some e" "e AND PTE_P \<noteq> 0" "pte_get_page e = Some k" "e AND PTE_W \<noteq> 0 \<longleftrightarrow> w"
    "e AND PTE_U \<noteq> 0" "e AND PTE_D = 0" "e AND PTE_A = 0"
    by (rule pte_create_user_entry[OF k(1)])
  from pagedir_set_page_mapped[OF assms(1-7) e(1,2)] show ?thesis
  proof
    assume a: "pagedir_set_page pd upage k w s = Some (False, s)"
    then have "\<not> ok" using pagedir_set_page_fails[OF wf up(1) a] nt by simp
    then show ?thesis using wf a by auto
  next
    assume "\<exists>s'. pagedir_set_page pd upage k w s = Some (True, s') \<and> pagedir_wf s' pd \<and>
       (\<forall>va. is_user_vaddr va \<longrightarrow> mapped s' pd va = (if pg_no va = pg_no upage then Some e else mapped s pd va))"
    then obtain s' where s': "pagedir_set_page pd upage k w s = Some (True, s')" "pagedir_wf s' pd"
      "\<And>va. is_user_vaddr va \<Longrightarrow> mapped s' pd va = (if pg_no va = pg_no upage then Some e else mapped s pd va)" by blast
    have ok: ok using pagedir_set_page_fails[OF wf up(1) s'(1)] nt by simp
    have "pagedir_get_page pd va s' = (if pg_no va = pg_no upage then Some (k + pg_ofs va) else pagedir_get_page pd va s)"
      if "is_user_vaddr va" for va
      using s'(3)[OF that] e(3) by (simp add: pagedir_get_page_mapped[OF s'(2) that] pagedir_get_page_mapped[OF wf that])
    moreover have "mapped s' pd upage = Some e" using s'(3)[OF up(1)] by simp
    ultimately show ?thesis using s'(1,2) e(4-7) ok by auto
  qed
qed

theorem pagedir_map_translate_witness:
  "\<exists>s'. pagedir_set_page 0xc0101000 0x8048000 0xc0200000 True demo_mmu = Some (True, s') \<and> pagedir_wf s' 0xc0101000 \<and>
     pagedir_get_page 0xc0101000 0x8048123 s' = Some 0xc0200123"
proof -
  have "free_pool (kernel_pool (mem demo_mmu)) \<noteq> {}"
    by (simp add: demo_mmu_def free_pool_def demo_kmem_def demo_pool_free)
  moreover have "is_user_vaddr 0x8048123" "pg_no 0x8048123 = pg_no 0x8048000" "pg_ofs 0x8048123 = 0x123"
    by (auto simp: is_user_vaddr_def PHYS_BASE_def unat_pg_no unat_pg_ofs intro!: unat_inject)
  moreover have "mapped demo_mmu 0xc0101000 0x8048000 = None"
    by (simp add: mapped_def pte_of_def table_at_def load_def load32_def demo_mmu_def)
  moreover have "is_user_vaddr 0x8048000" "pg_ofs 0x8048000 = 0" "is_kpage 0xc0200000" "0xc0101000 \<noteq> init_page_dir demo_mmu"
    "drop_bit 12 (0xc0200000 - PHYS_BASE) < init_ram_pages demo_mmu"
    by (simp_all add: is_user_vaddr_def PHYS_BASE_def pg_ofs_eq_0_iff is_kpage_def is_kernel_vaddr_def drop_bit_eq_div demo_mmu_def)
  ultimately show ?thesis
    using pagedir_map_translate[OF demo_mmu_wf, of "0x8048000" "0xc0200000" True] by fastforce
qed

text \<open>C7: after \<open>pagedir_clear_page\<close> no address of the page translates any more, every other user
  address translates as before, and the page can be mapped again.\<close>

theorem pagedir_unmap:
  assumes "pagedir_wf s pd" "is_user_vaddr upage" "pg_ofs upage = 0" "cr3 s < PHYS_BASE"
  shows "\<exists>s'. pagedir_clear_page pd upage s = Some s' \<and> pagedir_wf s' pd \<and> mapped s' pd upage = None \<and>
    (\<forall>va. is_user_vaddr va \<longrightarrow> pagedir_get_page pd va s' =
       (if pg_no va = pg_no upage then Some 0 else pagedir_get_page pd va s))"
proof -
  obtain s' where s': "pagedir_clear_page pd upage s = Some s'" "pagedir_wf s' pd"
    "\<And>va. is_user_vaddr va \<Longrightarrow> mapped s' pd va = (if pg_no va = pg_no upage then None else mapped s pd va)"
    using pagedir_clear_page_mapped[OF assms] by blast
  have "pagedir_get_page pd va s' = (if pg_no va = pg_no upage then Some 0 else pagedir_get_page pd va s)"
    if "is_user_vaddr va" for va
    using s'(3)[OF that] by (simp add: pagedir_get_page_mapped[OF s'(2) that] pagedir_get_page_mapped[OF assms(1) that])
  then show ?thesis using s' assms(2) by auto
qed

theorem pagedir_unmap_witness:
  "\<exists>s'. pagedir_clear_page 0xc0101000 0x8048000 demo_mmu = Some s' \<and> mapped s' 0xc0101000 0x8048000 = None"
  using pagedir_unmap[OF demo_mmu_wf, of "0x8048000"]
  by (simp add: is_user_vaddr_def PHYS_BASE_def pg_ofs_eq_0_iff demo_mmu_def) blast

lemma bit_flag: "bit (64 :: int) n \<longleftrightarrow> n = 6" "bit (32 :: int) n \<longleftrightarrow> n = 5"
  using bit_exp_iff[where 'a = int, of 6 n] bit_exp_iff[where 'a = int, of 5 n] by auto

lemma dirty_flag:
  fixes e :: u32
  defines "e' \<equiv> \<lambda>d. if d then e OR PTE_D else e AND NOT PTE_D"
  shows "e' d AND PTE_D \<noteq> 0 \<longleftrightarrow> d" "e' d AND PTE_A = e AND PTE_A" "e' d AND PTE_P = e AND PTE_P"
    "e' d AND PTE_ADDR = e AND PTE_ADDR"
proof -
  have bits: "bit (e' d) n = (if n = 6 then d else bit e n)" if "n < 32" for n
    using that by (auto simp: e'_def PTE_D_def bit_flag bit_simps)
  have "e' d AND PTE_D \<noteq> 0 \<longleftrightarrow> bit (e' d) 6"
    using and_exp_eq_0_iff_not_bit[of "e' d" 6] by (simp add: PTE_D_def)
  then show "e' d AND PTE_D \<noteq> 0 \<longleftrightarrow> d" using bits[of 6] by simp
  show "e' d AND PTE_A = e AND PTE_A" "e' d AND PTE_P = e AND PTE_P" "e' d AND PTE_ADDR = e AND PTE_ADDR"
    by (auto simp: PTE_A_def PTE_P_def PTE_ADDR_eq bit_flag bits bit_simps intro!: bit_word_eqI)
qed

text \<open>C8: setting the dirty bit of a page changes this bit in the entry of the page and nothing else: no
  other bit of the entry, no other entry, no other byte of the memory, no pool of pages and no register. So
  the dirty bit reads back as it was last set, for all addresses of the page and no others, and the accessed
  bits and all translations are as before.\<close>

theorem pagedir_dirty_bit:
  fixes d :: bool
  assumes wf: "pagedir_wf s pd" and u: "is_user_vaddr va" and cr: "cr3 s < PHYS_BASE"
    and pt: "table_at s pd (pd_no va) = Some pt" and e: "load (pt + 4 * pt_no va) s = e"
  defines "e' \<equiv> if d then e OR PTE_D else e AND NOT PTE_D"
  shows "\<exists>s'. pagedir_set_dirty pd va d s = Some s' \<and>
    load (pt + 4 * pt_no va) s' = e' \<and> (\<forall>n. bit e' n = (if n = 6 then d else bit e n)) \<and>
    (\<forall>x. \<not> x - (pt + 4 * pt_no va) < 4 \<longrightarrow> ram (mem s') x = ram (mem s) x) \<and>
    s' = s\<lparr>mem := (mem s)\<lparr>ram := ram (mem s')\<rparr>\<rparr> \<and>
    (\<forall>va'. is_user_vaddr va' \<longrightarrow>
       pagedir_is_dirty pd va' s' = (if pg_no va' = pg_no va then Some d else pagedir_is_dirty pd va' s) \<and>
       pagedir_is_accessed pd va' s' = pagedir_is_accessed pd va' s \<and>
       pagedir_get_page pd va' s' = pagedir_get_page pd va' s)"
proof -
  let ?s' = "store (pt + 4 * pt_no va) e' s"
  note st = store_pte[OF wf u pt, where v = e']
  have run: "pagedir_set_dirty pd va d s = Some ?s'"
    using modify_pte(1,2)[OF wf u pt] e update_pte[OF wf u cr pt] by (simp add: pagedir_set_dirty_def e'_def)
  have pte: "pte_of s pd va' = Some e" if "pg_no va' = pg_no va" for va'
    using pt e that by (simp add: pte_of_def same_page_iff)
  note flag = dirty_flag[of d e, folded e'_def]
  have bits: "bit e' n = (if n = 6 then d else bit e n)" for n
    by (cases "n < 32") (auto simp: e'_def PTE_D_def bit_flag bit_simps dest: bit_imp_le_length)
  have bytes: "ram (mem ?s') x = ram (mem s) x" if "\<not> x - (pt + 4 * pt_no va) < 4" for x
  proof -
    have "x \<noteq> pt + 4 * pt_no va + j" if "j < 4" for j using \<open>\<not> x - (pt + 4 * pt_no va) < 4\<close> that by auto
    from this[of 0] this[of 1] this[of 2] this[of 3] show ?thesis by (simp add: store_def set_ram_def store32_def)
  qed
  have view: "pagedir_is_dirty pd va' ?s' = (if pg_no va' = pg_no va then Some d else pagedir_is_dirty pd va' s) \<and>
       pagedir_is_accessed pd va' ?s' = pagedir_is_accessed pd va' s \<and> pagedir_get_page pd va' ?s' = pagedir_get_page pd va' s"
    if u': "is_user_vaddr va'" for va'
    using st(2)[OF u'] pte[of va'] flag
    by (simp add: pagedir_is_dirty_pte[OF st(1) u'] pagedir_is_dirty_pte[OF wf u'] pagedir_is_accessed_pte[OF st(1) u']
        pagedir_is_accessed_pte[OF wf u'] pagedir_get_page_mapped[OF st(1) u'] pagedir_get_page_mapped[OF wf u'] mapped_def pte_get_page_def)
  have "load (pt + 4 * pt_no va) ?s' = e'" by (simp add: load_def store_def set_ram_def load_store_same)
  moreover have "?s' = s\<lparr>mem := (mem s)\<lparr>ram := ram (mem ?s')\<rparr>\<rparr>" by (simp add: store_def set_ram_def)
  ultimately show ?thesis using run bits bytes view by blast
qed

text \<open>The example state with a table of unused entries for the addresses from 0x8000000 on.\<close>

definition demo_mmu2 :: mmu where
  "demo_mmu2 = store (0xc0101000 + 4 * 32) 0x102007 demo_mmu"

lemma demo_mmu2_wf: "pagedir_wf demo_mmu2 0xc0101000" "table_at demo_mmu2 0xc0101000 (pd_no 0x8048000) = Some 0xc0102000"
    "load (0xc0102000 + 4 * pt_no 0x8048000) demo_mmu2 = 0"
proof -
  have k: "is_kpage 0xc0101000" "is_kpage 0xc0102000"
    by (simp_all add: is_kpage_def is_kernel_vaddr_def PHYS_BASE_def pg_ofs_eq_0_iff)
  have l: "load (q + 4 * j) demo_mmu2 = (if q = 0xc0101000 \<and> j = 32 then 0x102007 else 0)"
    if "is_kpage q" "unat j < 1024" for q j
    using load_store_entry[OF k(1) that(1) _ that(2), of 32 "0x102007" demo_mmu]
    by (auto simp: demo_mmu2_def load_def demo_mmu_def load32_def)
  have pt: "pde_get_pt 0x102007 = Some 0xc0102000"
    by (simp add: pde_get_pt_def PTE_P_def PTE_ADDR_def ptov_def PHYS_BASE_def)
  have tab: "table_at demo_mmu2 0xc0101000 i = (if i = 32 then Some 0xc0102000 else None)" if "unat i < 1024" for i
    using l[OF k(1) that] pt by (cases "i = 32") (simp_all add: table_at_def)
  have use: "in_use demo_mmu2 0xc0101000" "in_use demo_mmu2 0xc0102000" "kmem_wf (mem demo_mmu2)"
  proof -
    have "free_pool (kernel_pool demo_kmem) = {0xc0103, 0xc0104}" "free_pool (user_pool demo_kmem) = {0xc0202, 0xc0203}"
      by (simp_all add: free_pool_def demo_kmem_def demo_pool_free) (simp_all add: demo_pool_def unat_pg_no)
    then have "free_pages demo_mmu = {0xc0103, 0xc0104, 0xc0202, 0xc0203}"
      by (auto simp: free_pages_def demo_mmu_def)
    then show "in_use demo_mmu2 0xc0101000" "in_use demo_mmu2 0xc0102000"
      using k by (simp_all add: demo_mmu2_def in_use_def unat_pg_no)
    show "kmem_wf (mem demo_mmu2)" using demo_mmu_wf by (simp add: demo_mmu2_def pagedir_wf_def)
  qed
  show "pagedir_wf demo_mmu2 0xc0101000"
    unfolding pagedir_wf_def using use l[OF k(1)] tab by (auto split: if_splits)
  have "pd_no 0x8048000 = 32" by (simp add: pd_no_def vaddr_consts drop_bit_eq_div)
  then show "table_at demo_mmu2 0xc0101000 (pd_no 0x8048000) = Some 0xc0102000" using tab[of 32] by simp
  show "load (0xc0102000 + 4 * pt_no 0x8048000) demo_mmu2 = 0" using l[OF k(2) pt_no_less, of "0x8048000"] by simp
qed

theorem pagedir_dirty_bit_witness:
  "\<exists>s'. pagedir_set_dirty 0xc0101000 0x8048000 True demo_mmu2 = Some s' \<and>
     load (0xc0102000 + 4 * pt_no 0x8048000) s' = PTE_D \<and> pagedir_is_dirty 0xc0101000 0x8048000 s' = Some True"
  using pagedir_dirty_bit[OF demo_mmu2_wf(1) _ _ demo_mmu2_wf(2,3), of True]
  by (auto simp: is_user_vaddr_def PHYS_BASE_def demo_mmu2_def demo_mmu_def)

end
