(* ===== verification/Cstring.thy ===== *)
theory Cstring
  imports Memory
begin

section \<open>Memory blocks and strings\<close>

text \<open>
  The functions of src/pintos/src/lib/string.c on byte-addressed memory. A loop over \<open>size\<close>
  bytes is a recursion on \<open>size\<close>; a loop that runs to a terminator is a \<open>partial_function\<close>, which
  has no result if there is no terminator. A null pointer result is the address 0.

  \<open>cstring m p s\<close> says that the string at \<open>p\<close> is \<open>s\<close>. The lemmas show that the functions find what
  the corresponding list functions find, that copies write exactly the bytes they should, and that
  repeated calls of \<open>strtok_r\<close> return the tokens of a string.
\<close>

subsection \<open>Blocks of memory\<close>

fun copy_up :: "u32 \<Rightarrow> u32 \<Rightarrow> nat \<Rightarrow> ram \<Rightarrow> ram" where
  "copy_up dst src 0 m = m"
| "copy_up dst src (Suc n) m = copy_up (dst + 1) (src + 1) n (m(dst := m src))"

definition memcpy :: "u32 \<Rightarrow> u32 \<Rightarrow> u32 \<Rightarrow> ram \<Rightarrow> (u32 \<times> ram) option" where
  "memcpy dst src sz m = do {
     ASSERT (dst \<noteq> 0 \<or> sz = 0);
     ASSERT (src \<noteq> 0 \<or> sz = 0);
     Some (dst, copy_up dst src (unat sz) m)
   }"

text \<open>\<open>while (size-- > 0) *--dst = *--src;\<close>\<close>

fun copy_down :: "u32 \<Rightarrow> u32 \<Rightarrow> nat \<Rightarrow> ram \<Rightarrow> ram" where
  "copy_down dst src 0 m = m"
| "copy_down dst src (Suc n) m = copy_down (dst - 1) (src - 1) n (m(dst - 1 := m (src - 1)))"

text \<open>The result is the pointer \<open>dst\<close> as the loops leave it.\<close>

definition memmove :: "u32 \<Rightarrow> u32 \<Rightarrow> u32 \<Rightarrow> ram \<Rightarrow> (u32 \<times> ram) option" where
  "memmove dst src sz m = do {
     ASSERT (dst \<noteq> 0 \<or> sz = 0);
     ASSERT (src \<noteq> 0 \<or> sz = 0);
     if dst < src then Some (dst + sz, copy_up dst src (unat sz) m)
     else Some (dst + sz - sz, copy_down (dst + sz) (src + sz) (unat sz) m)
   }"

fun memcmp_loop :: "u32 \<Rightarrow> u32 \<Rightarrow> nat \<Rightarrow> ram \<Rightarrow> int" where
  "memcmp_loop a b 0 m = 0"
| "memcmp_loop a b (Suc n) m =
     (if m a \<noteq> m b then if m a > m b then 1 else -1 else memcmp_loop (a + 1) (b + 1) n m)"

definition memcmp :: "u32 \<Rightarrow> u32 \<Rightarrow> u32 \<Rightarrow> ram \<Rightarrow> int option" where
  "memcmp a b sz m = do {
     ASSERT (a \<noteq> 0 \<or> sz = 0);
     ASSERT (b \<noteq> 0 \<or> sz = 0);
     Some (memcmp_loop a b (unat sz) m)
   }"

fun memchr_loop :: "u32 \<Rightarrow> u8 \<Rightarrow> nat \<Rightarrow> ram \<Rightarrow> u32" where
  "memchr_loop block ch 0 m = 0"
| "memchr_loop block ch (Suc n) m = (if m block = ch then block else memchr_loop (block + 1) ch n m)"

definition memchr :: "u32 \<Rightarrow> u32 \<Rightarrow> u32 \<Rightarrow> ram \<Rightarrow> u32 option" where
  "memchr block ch sz m = do {
     ASSERT (block \<noteq> 0 \<or> sz = 0);
     Some (memchr_loop block (ucast ch) (unat sz) m)
   }"

fun fill_up :: "u32 \<Rightarrow> u8 \<Rightarrow> nat \<Rightarrow> ram \<Rightarrow> ram" where
  "fill_up dst v 0 m = m"
| "fill_up dst v (Suc n) m = fill_up (dst + 1) v n (m(dst := v))"

definition memset_c :: "u32 \<Rightarrow> u32 \<Rightarrow> u32 \<Rightarrow> ram \<Rightarrow> (u32 \<times> ram) option" where
  "memset_c dst value sz m = do {
     ASSERT (dst \<noteq> 0 \<or> sz = 0);
     Some (dst, fill_up dst (ucast value) (unat sz) m)
   }"

subsection \<open>Strings\<close>

partial_function (option) strcmp_loop :: "u32 \<Rightarrow> u32 \<Rightarrow> ram \<Rightarrow> int option" where
  "strcmp_loop a b m =
     (if m a \<noteq> 0 \<and> m a = m b then strcmp_loop (a + 1) (b + 1) m
      else Some (if m a < m b then -1 else if m a > m b then 1 else 0))"

definition strcmp :: "u32 \<Rightarrow> u32 \<Rightarrow> ram \<Rightarrow> int option" where
  "strcmp a b m = do { ASSERT (a \<noteq> 0); ASSERT (b \<noteq> 0); strcmp_loop a b m }"

partial_function (option) strchr_loop :: "u32 \<Rightarrow> u8 \<Rightarrow> ram \<Rightarrow> u32 option" where
  "strchr_loop string c m =
     (if m string = c then Some string
      else if m string = 0 then Some 0
      else strchr_loop (string + 1) c m)"

definition strchr :: "u32 \<Rightarrow> u8 \<Rightarrow> ram \<Rightarrow> u32 option" where
  "strchr string c m = do { ASSERT (string \<noteq> 0); strchr_loop string c m }"

partial_function (option) strcspn_loop :: "u32 \<Rightarrow> u32 \<Rightarrow> u32 \<Rightarrow> ram \<Rightarrow> u32 option" where
  "strcspn_loop len string stop m =
     (if m (string + len) \<noteq> 0 then do {
        p \<leftarrow> strchr stop (m (string + len)) m;
        if p \<noteq> 0 then Some len else strcspn_loop (len + 1) string stop m
      } else Some len)"

definition strcspn :: "u32 \<Rightarrow> u32 \<Rightarrow> ram \<Rightarrow> u32 option" where
  "strcspn string stop m = strcspn_loop 0 string stop m"

partial_function (option) strpbrk :: "u32 \<Rightarrow> u32 \<Rightarrow> ram \<Rightarrow> u32 option" where
  "strpbrk string stop m =
     (if m string \<noteq> 0 then do {
        p \<leftarrow> strchr stop (m string) m;
        if p \<noteq> 0 then Some string else strpbrk (string + 1) stop m
      } else Some 0)"

partial_function (option) strrchr_loop :: "u32 \<Rightarrow> u8 \<Rightarrow> u32 \<Rightarrow> ram \<Rightarrow> u32 option" where
  "strrchr_loop string c p m =
     (if m string \<noteq> 0 then strrchr_loop (string + 1) c (if m string = c then string else p) m
      else Some p)"

definition strrchr :: "u32 \<Rightarrow> u8 \<Rightarrow> ram \<Rightarrow> u32 option" where
  "strrchr string c m = strrchr_loop string c 0 m"

partial_function (option) strspn_loop :: "u32 \<Rightarrow> u32 \<Rightarrow> u32 \<Rightarrow> ram \<Rightarrow> u32 option" where
  "strspn_loop len string skip m =
     (if m (string + len) \<noteq> 0 then do {
        p \<leftarrow> strchr skip (m (string + len)) m;
        if p = 0 then Some len else strspn_loop (len + 1) string skip m
      } else Some len)"

definition strspn :: "u32 \<Rightarrow> u32 \<Rightarrow> ram \<Rightarrow> u32 option" where
  "strspn string skip m = strspn_loop 0 string skip m"

partial_function (option) strlen_loop :: "u32 \<Rightarrow> ram \<Rightarrow> u32 option" where
  "strlen_loop p m = (if m p \<noteq> 0 then strlen_loop (p + 1) m else Some p)"

definition strlen :: "u32 \<Rightarrow> ram \<Rightarrow> u32 option" where
  "strlen string m = do { ASSERT (string \<noteq> 0); p \<leftarrow> strlen_loop string m; Some (p - string) }"

partial_function (option) strnlen_loop :: "u32 \<Rightarrow> u32 \<Rightarrow> u32 \<Rightarrow> ram \<Rightarrow> u32 option" where
  "strnlen_loop len string maxlen m =
     (if m (string + len) \<noteq> 0 \<and> len < maxlen then strnlen_loop (len + 1) string maxlen m else Some len)"

definition strnlen :: "u32 \<Rightarrow> u32 \<Rightarrow> ram \<Rightarrow> u32 option" where
  "strnlen string maxlen m = strnlen_loop 0 string maxlen m"

partial_function (option) strstr_loop :: "u32 \<Rightarrow> u32 \<Rightarrow> u32 \<Rightarrow> u32 \<Rightarrow> u32 \<Rightarrow> ram \<Rightarrow> u32 option" where
  "strstr_loop i haystack needle haystack_len needle_len m =
     (if i \<le> haystack_len - needle_len then do {
        c \<leftarrow> memcmp (haystack + i) needle needle_len m;
        if c = 0 then Some (haystack + i)
        else strstr_loop (i + 1) haystack needle haystack_len needle_len m
      } else Some 0)"

definition strstr :: "u32 \<Rightarrow> u32 \<Rightarrow> ram \<Rightarrow> u32 option" where
  "strstr haystack needle m = do {
     haystack_len \<leftarrow> strlen haystack m;
     needle_len \<leftarrow> strlen needle m;
     if haystack_len \<ge> needle_len
     then strstr_loop 0 haystack needle haystack_len needle_len m
     else Some 0
   }"

text \<open>The first loop of \<open>strtok_r\<close>; the result is the place where it stops, and whether it is the end.\<close>

partial_function (option) skip_delimiters :: "u32 \<Rightarrow> u32 \<Rightarrow> ram \<Rightarrow> (u32 \<times> bool) option" where
  "skip_delimiters s delimiters m = do {
     p \<leftarrow> strchr delimiters (m s) m;
     if p \<noteq> 0 then
       if m s = 0 then Some (s, True) else skip_delimiters (s + 1) delimiters m
     else Some (s, False)
   }"

partial_function (option) skip_token :: "u32 \<Rightarrow> u32 \<Rightarrow> ram \<Rightarrow> u32 option" where
  "skip_token s delimiters m = do {
     p \<leftarrow> strchr delimiters (m s) m;
     if p = 0 then skip_token (s + 1) delimiters m else Some s
   }"

text \<open>\<open>save_ptr\<close> is the value of \<open>*save_ptr\<close>; the results are the token, the new value and the memory.\<close>

definition strtok_r :: "u32 \<Rightarrow> u32 \<Rightarrow> u32 \<Rightarrow> ram \<Rightarrow> (u32 \<times> u32 \<times> ram) option" where
  "strtok_r s delimiters save_ptr m = do {
     ASSERT (delimiters \<noteq> 0);
     let s = (if s = 0 then save_ptr else s);
     ASSERT (s \<noteq> 0);
     (s, fin) \<leftarrow> skip_delimiters s delimiters m;
     if fin then Some (0, s, m)
     else do {
       let token = s;
       s \<leftarrow> skip_token s delimiters m;
       if m s \<noteq> 0 then Some (token, s + 1, m(s := 0)) else Some (token, s, m)
     }
   }"

definition strlcpy :: "u32 \<Rightarrow> u32 \<Rightarrow> u32 \<Rightarrow> ram \<Rightarrow> (u32 \<times> ram) option" where
  "strlcpy dst src sz m = do {
     ASSERT (dst \<noteq> 0);
     ASSERT (src \<noteq> 0);
     src_len \<leftarrow> strlen src m;
     if sz > 0 then do {
       let dst_len = (if src_len < sz - 1 then src_len else sz - 1);
       (_, m) \<leftarrow> memcpy dst src dst_len m;
       Some (src_len, m(dst + dst_len := 0))
     } else Some (src_len, m)
   }"

definition strlcat :: "u32 \<Rightarrow> u32 \<Rightarrow> u32 \<Rightarrow> ram \<Rightarrow> (u32 \<times> ram) option" where
  "strlcat dst src sz m = do {
     ASSERT (dst \<noteq> 0);
     ASSERT (src \<noteq> 0);
     src_len \<leftarrow> strlen src m;
     dst_len \<leftarrow> strlen dst m;
     if sz > 0 \<and> dst_len < sz then do {
       let copy_cnt = (if src_len < sz - dst_len - 1 then src_len else sz - dst_len - 1);
       (_, m) \<leftarrow> memcpy (dst + dst_len) src copy_cnt m;
       Some (src_len + dst_len, m(dst + dst_len + copy_cnt := 0))
     } else Some (src_len + dst_len, m)
   }"

subsection \<open>What a string is\<close>

text \<open>The string at \<open>p\<close> consists of the bytes \<open>s\<close>; it does not wrap around the end of memory.\<close>

fun cstring :: "ram \<Rightarrow> u32 \<Rightarrow> u8 list \<Rightarrow> bool" where
  "cstring m p [] \<longleftrightarrow> p \<noteq> 0 \<and> m p = 0"
| "cstring m p (c # cs) \<longleftrightarrow> p \<noteq> 0 \<and> c \<noteq> 0 \<and> m p = c \<and> cstring m (p + 1) cs"

text \<open>The \<open>n\<close> bytes from \<open>p\<close> on.\<close>

definition bytes_at :: "u32 \<Rightarrow> nat \<Rightarrow> u32 set" where
  "bytes_at p n = {x. unat (x - p) < n}"

lemma unat_Suc_nonzero: "p + 1 \<noteq> 0 \<Longrightarrow> unat (p + 1) = Suc (unat p)" for p :: u32
proof -
  assume "p + 1 \<noteq> 0"
  then have "p \<noteq> - 1" by auto
  then have "p < - 1" using word_order.not_eq_extremum by blast
  then show ?thesis by (rule unat_Suc_less)
qed

lemma cstring_nonnull: "cstring m p s \<Longrightarrow> p \<noteq> 0"
  by (cases s) auto

lemma cstring_bound: "cstring m p s \<Longrightarrow> unat p + length s < 4294967296"
proof (induction m p s rule: cstring.induct)
  case (1 m p)
  then show ?case using unat_u32_less[of p] by simp
next
  case (2 m p c cs)
  then have "p + 1 \<noteq> 0" using cstring_nonnull by auto
  with 2 show ?case by (simp add: unat_Suc_nonzero)
qed

lemma cstring_iff:
  "cstring m p s \<longleftrightarrow> p \<noteq> 0 \<and> unat p + length s < 4294967296 \<and> 0 \<notin> set s \<and>
     (\<forall>k < length s. m (p + of_nat k) = s ! k) \<and> m (p + of_nat (length s)) = 0"
proof (induction m p s rule: cstring.induct)
  case (1 m p)
  then show ?case using unat_u32_less[of p] by simp
next
  case (2 m p c cs)
  have ix: "p + 1 + of_nat k = p + of_nat (Suc k)" for k by simp
  have nz: "unat p + Suc (length cs) < 4294967296 \<longleftrightarrow> p + 1 \<noteq> 0 \<and> unat (p + 1) + length cs < 4294967296"
  proof
    assume a: "unat p + Suc (length cs) < 4294967296"
    then have "unat (p + 1) = unat p + 1" using unat_add_less[of p 1] by simp
    with a show "p + 1 \<noteq> 0 \<and> unat (p + 1) + length cs < 4294967296" by auto
  next
    assume a: "p + 1 \<noteq> 0 \<and> unat (p + 1) + length cs < 4294967296"
    then show "unat p + Suc (length cs) < 4294967296" using unat_Suc_nonzero[of p] by simp
  qed
  show ?case
    by (simp only: cstring.simps 2 length_Cons nz ix All_less_Suc2 nth_Cons_0 nth_Cons_Suc list.set insert_iff) auto
qed

lemma cstring_unique: "cstring m p s \<Longrightarrow> cstring m p t \<Longrightarrow> s = t"
proof (induction s arbitrary: p t)
  case Nil
  then show ?case by (cases t) auto
next
  case (Cons c s)
  then show ?case by (cases t) auto
qed

lemma cstring_drop: "cstring m p s \<Longrightarrow> n \<le> length s \<Longrightarrow> cstring m (p + of_nat n) (drop n s)"
proof (induction n arbitrary: p s)
  case (Suc n)
  then obtain c cs where s: "s = c # cs" by (cases s) auto
  with Suc have "cstring m (p + 1 + of_nat n) (drop n cs)" by simp
  with s show ?case by (simp add: algebra_simps)
qed simp

lemma cstring_cong:
  assumes "cstring m p s" "\<And>x. x \<in> bytes_at p (Suc (length s)) \<Longrightarrow> m' x = m x"
  shows "cstring m' p s"
proof -
  have "p + of_nat k \<in> bytes_at p (Suc (length s))" if "k \<le> length s" for k
    using that cstring_bound[OF assms(1)] by (simp add: bytes_at_def unat_of_nat)
  with assms show ?thesis by (simp add: cstring_iff)
qed

subsection \<open>Searching\<close>

lemma strlen_loop_cstring: "cstring m p s \<Longrightarrow> strlen_loop p m = Some (p + of_nat (length s))"
  by (induction m p s rule: cstring.induct; subst strlen_loop.simps) auto

lemma strlen_cstring: "cstring m p s \<Longrightarrow> strlen p m = Some (of_nat (length s))"
  by (simp add: strlen_def strlen_loop_cstring cstring_nonnull)

lemma strchr_loop_cstring:
  "cstring m p s \<Longrightarrow> strchr_loop p c m =
     Some (if c = 0 \<or> c \<in> set s then p + of_nat (length (takeWhile (\<lambda>x. x \<noteq> c) s)) else 0)"
  by (induction m p s rule: cstring.induct; subst strchr_loop.simps) auto

lemma strchr_cstring:
  "cstring m p s \<Longrightarrow> strchr p c m =
     Some (if c = 0 \<or> c \<in> set s then p + of_nat (length (takeWhile (\<lambda>x. x \<noteq> c) s)) else 0)"
  by (simp add: strchr_def strchr_loop_cstring cstring_nonnull)

text \<open>Its use as a test for membership.\<close>

lemma strchr_member:
  assumes "cstring m p s"
  shows "\<exists>q. strchr p c m = Some q \<and> (q \<noteq> 0 \<longleftrightarrow> c = 0 \<or> c \<in> set s)"
proof -
  let ?n = "length (takeWhile (\<lambda>x. x \<noteq> c) s)"
  have "?n \<le> length s" by (rule length_takeWhile_le)
  then have "p + of_nat ?n \<noteq> 0" using cstring_drop[OF assms] cstring_nonnull by blast
  with strchr_cstring[OF assms, of c] show ?thesis by auto
qed

lemma strcspn_loop_cstring:
  assumes "cstring m q stop" "cstring m (p + n) s"
  shows "strcspn_loop n p q m = Some (n + of_nat (length (takeWhile (\<lambda>x. x \<notin> set stop) s)))"
  using assms(2)
proof (induction s arbitrary: n)
  case Nil
  then show ?case by (subst strcspn_loop.simps) simp
next
  case (Cons c s)
  obtain r where r: "strchr q c m = Some r" "r \<noteq> 0 \<longleftrightarrow> c = 0 \<or> c \<in> set stop"
    using strchr_member[OF assms(1)] by blast
  have "cstring m (p + (n + 1)) s" using Cons.prems by (simp add: add.assoc)
  then have "strcspn_loop (n + 1) p q m = Some (n + 1 + of_nat (length (takeWhile (\<lambda>x. x \<notin> set stop) s)))"
    by (rule Cons.IH)
  with Cons.prems r show ?case by (subst strcspn_loop.simps) simp
qed

lemma strcspn_cstring:
  "cstring m q stop \<Longrightarrow> cstring m p s \<Longrightarrow>
   strcspn p q m = Some (of_nat (length (takeWhile (\<lambda>x. x \<notin> set stop) s)))"
  using strcspn_loop_cstring[of m q stop p 0 s] by (simp add: strcspn_def)

lemma strspn_loop_cstring:
  assumes "cstring m q skip" "cstring m (p + n) s"
  shows "strspn_loop n p q m = Some (n + of_nat (length (takeWhile (\<lambda>x. x \<in> set skip) s)))"
  using assms(2)
proof (induction s arbitrary: n)
  case Nil
  then show ?case by (subst strspn_loop.simps) simp
next
  case (Cons c s)
  obtain r where r: "strchr q c m = Some r" "r \<noteq> 0 \<longleftrightarrow> c = 0 \<or> c \<in> set skip"
    using strchr_member[OF assms(1)] by blast
  have "cstring m (p + (n + 1)) s" using Cons.prems by (simp add: add.assoc)
  then have "strspn_loop (n + 1) p q m = Some (n + 1 + of_nat (length (takeWhile (\<lambda>x. x \<in> set skip) s)))"
    by (rule Cons.IH)
  with Cons.prems r show ?case by (subst strspn_loop.simps) auto
qed

lemma strspn_cstring:
  "cstring m q skip \<Longrightarrow> cstring m p s \<Longrightarrow>
   strspn p q m = Some (of_nat (length (takeWhile (\<lambda>x. x \<in> set skip) s)))"
  using strspn_loop_cstring[of m q skip p 0 s] by (simp add: strspn_def)

lemma strpbrk_cstring:
  assumes "cstring m q stop" "cstring m p s"
  shows "strpbrk p q m =
     Some (if set s \<inter> set stop = {} then 0 else p + of_nat (length (takeWhile (\<lambda>x. x \<notin> set stop) s)))"
  using assms(2)
proof (induction s arbitrary: p)
  case Nil
  then show ?case by (subst strpbrk.simps) simp
next
  case (Cons c s)
  obtain r where r: "strchr q c m = Some r" "r \<noteq> 0 \<longleftrightarrow> c = 0 \<or> c \<in> set stop"
    using strchr_member[OF assms(1)] by blast
  with Cons show ?case by (subst strpbrk.simps) auto
qed

lemma takeWhile_length_less: "x \<in> set xs \<Longrightarrow> \<not> P x \<Longrightarrow> length (takeWhile P xs) < length xs"
  by (induction xs) auto

text \<open>The position of the last occurrence of \<open>c\<close>.\<close>

lemma strrchr_loop_cstring:
  "cstring m p s \<Longrightarrow> strrchr_loop p c r m =
     Some (if c \<in> set s then p + of_nat (length s - Suc (length (takeWhile (\<lambda>x. x \<noteq> c) (rev s)))) else r)"
proof (induction s arbitrary: p r)
  case Nil
  then show ?case by (subst strrchr_loop.simps) simp
next
  case (Cons d s)
  show ?case
  proof (cases "c \<in> set s")
    case True
    then have tw: "takeWhile (\<lambda>x. x \<noteq> c) (rev s @ [d]) = takeWhile (\<lambda>x. x \<noteq> c) (rev s)"
      by (intro takeWhile_append1[of c]) auto
    have "length (takeWhile (\<lambda>x. x \<noteq> c) (rev s)) < length s"
      using True takeWhile_length_less[of c "rev s" "\<lambda>x. x \<noteq> c"] by simp
    then have "length s - length (takeWhile (\<lambda>x. x \<noteq> c) (rev s)) =
        Suc (length s - Suc (length (takeWhile (\<lambda>x. x \<noteq> c) (rev s))))" by simp
    then have "of_nat (length s - length (takeWhile (\<lambda>x. x \<noteq> c) (rev s))) =
        (1 :: u32) + of_nat (length s - Suc (length (takeWhile (\<lambda>x. x \<noteq> c) (rev s))))"
      by (simp only: of_nat_Suc)
    with Cons True tw show ?thesis by (subst strrchr_loop.simps) simp
  next
    case False
    then have "takeWhile (\<lambda>x. x \<noteq> c) (rev s @ [d]) = rev s @ (if d = c then [] else [d])"
      by (subst takeWhile_append2) auto
    then have "length (takeWhile (\<lambda>x. x \<noteq> c) (rev s @ [d])) = (if d = c then length s else Suc (length s))" by simp
    with Cons False show ?thesis by (subst strrchr_loop.simps) auto
  qed
qed

lemma strrchr_cstring:
  "cstring m p s \<Longrightarrow> strrchr p c m =
     Some (if c \<in> set s then p + of_nat (length s - Suc (length (takeWhile (\<lambda>x. x \<noteq> c) (rev s)))) else 0)"
  by (simp add: strrchr_def strrchr_loop_cstring)

lemma strnlen_loop_cstring:
  "cstring m (p + n) s \<Longrightarrow> unat n + k = unat maxlen \<Longrightarrow>
   strnlen_loop n p maxlen m = Some (n + of_nat (min k (length s)))"
proof (induction s arbitrary: n k)
  case Nil
  then show ?case by (subst strnlen_loop.simps) simp
next
  case (Cons c s)
  show ?case
  proof (cases k)
    case 0
    with Cons show ?thesis by (subst strnlen_loop.simps) (simp add: word_less_nat_alt)
  next
    case (Suc j)
    then have less: "n < maxlen" using Cons.prems by (simp add: word_less_nat_alt)
    then have "unat (n + 1) + j = unat maxlen" using Cons.prems Suc by (simp add: unat_Suc_less)
    moreover have "cstring m (p + (n + 1)) s" using Cons.prems by (simp add: add.assoc)
    ultimately have "strnlen_loop (n + 1) p maxlen m = Some (n + 1 + of_nat (min j (length s)))"
      by (intro Cons.IH)
    with Cons.prems Suc less show ?thesis by (subst strnlen_loop.simps) simp
  qed
qed

lemma strnlen_cstring: "cstring m p s \<Longrightarrow> strnlen p maxlen m = Some (of_nat (min (unat maxlen) (length s)))"
  using strnlen_loop_cstring[of m p 0 s "unat maxlen" maxlen] by (simp add: strnlen_def)

subsection \<open>Comparing\<close>

text \<open>The order of byte strings that \<open>strcmp\<close> decides.\<close>

fun bytes_less :: "u8 list \<Rightarrow> u8 list \<Rightarrow> bool" where
  "bytes_less s [] = False"
| "bytes_less [] (d # t) = True"
| "bytes_less (c # s) (d # t) = (c < d \<or> c = d \<and> bytes_less s t)"

lemma bytes_less_lexord: "bytes_less s t \<longleftrightarrow> (s, t) \<in> lexord {(x, y). x < y}"
  by (induction s t rule: bytes_less.induct) auto

lemma strcmp_loop_cstring:
  "cstring m a s \<Longrightarrow> cstring m b t \<Longrightarrow>
   strcmp_loop a b m = Some (if s = t then 0 else if bytes_less s t then -1 else 1)"
proof (induction s t arbitrary: a b rule: bytes_less.induct)
  case (1 s)
  then show ?case by (cases s; subst strcmp_loop.simps) (auto simp: word_gt_0)
next
  case (2 d t)
  then show ?case by (subst strcmp_loop.simps) (auto simp: word_gt_0)
next
  case (3 c s d t)
  then show ?case by (subst strcmp_loop.simps) auto
qed

lemma strcmp_cstring:
  "cstring m a s \<Longrightarrow> cstring m b t \<Longrightarrow>
   strcmp a b m = Some (if s = t then 0 else if bytes_less s t then -1 else 1)"
  by (simp add: strcmp_def strcmp_loop_cstring cstring_nonnull)

lemma read_bytes_Suc: "read_bytes p (Suc n) m = m p # read_bytes (p + 1) n m"
  unfolding read_bytes_def
  by (subst upt_conv_Cons) (simp_all add: map_Suc_upt[symmetric] algebra_simps del: upt_Suc)

lemma memcmp_loop_eq_0: "memcmp_loop a b n m = 0 \<longleftrightarrow> read_bytes a n m = read_bytes b n m"
  by (induction n arbitrary: a b) (auto simp: read_bytes_def[of _ 0] read_bytes_Suc)

lemma memcmp_less: "memcmp_loop a b n m < 0 \<longleftrightarrow> bytes_less (read_bytes a n m) (read_bytes b n m)"
  by (induction n arbitrary: a b) (auto simp: read_bytes_def[of _ 0] read_bytes_Suc)

lemma read_bytes_cstring: "cstring m p s \<Longrightarrow> n \<le> length s \<Longrightarrow> read_bytes p n m = take n s"
proof (induction s arbitrary: p n)
  case (Cons c s)
  then show ?case by (cases n) (auto simp: read_bytes_def[of _ 0] read_bytes_Suc)
qed (simp add: read_bytes_def)

text \<open>The first place where \<open>t\<close> occurs in \<open>s\<close>.\<close>

definition occurs_at :: "u8 list \<Rightarrow> u8 list \<Rightarrow> nat \<Rightarrow> bool" where
  "occurs_at t s i \<longleftrightarrow> i + length t \<le> length s \<and> take (length t) (drop i s) = t"

lemma strstr_loop_cstring:
  assumes s: "cstring m h s" and t: "cstring m q t"
    and len: "length t \<le> length s" and i: "i \<le> Suc (length s - length t)"
  shows "strstr_loop (of_nat i) h q (of_nat (length s)) (of_nat (length t)) m =
    Some (case List.find (occurs_at t s) [i ..< Suc (length s - length t)] of Some j \<Rightarrow> h + of_nat j | None \<Rightarrow> 0)"
  using i
proof (induction "Suc (length s - length t) - i" arbitrary: i)
  case 0
  have "unat h \<noteq> 0" using cstring_nonnull[OF s] by (simp add: unat_eq_0)
  then have b: "Suc (length s) < 4294967296" using cstring_bound[OF s] by linarith
  have "(of_nat (length s) :: u32) - of_nat (length t) = of_nat (length s - length t)" using len by simp
  moreover have "\<not> (of_nat i :: u32) \<le> of_nat (length s - length t)"
    using 0 b len by (simp add: word_le_nat_alt unat_of_nat del: of_nat_diff)
  ultimately show ?case using 0 by (subst strstr_loop.simps) simp
next
  case (Suc d)
  have "unat h \<noteq> 0" using cstring_nonnull[OF s] by (simp add: unat_eq_0)
  then have b: "Suc (length s) < 4294967296" using cstring_bound[OF s] by linarith
  have i: "i \<le> length s - length t" using Suc(2) by linarith
  have e: "(of_nat (length s) :: u32) - of_nat (length t) = of_nat (length s - length t)" using len by simp
  have le: "(of_nat i :: u32) \<le> of_nat (length s - length t)"
    using i b len by (simp add: word_le_nat_alt unat_of_nat del: of_nat_diff)
  have il: "i \<le> length s" using i by linarith
  have hs: "cstring m (h + of_nat i) (drop i s)" using cstring_drop[OF s il] .
  have rb: "read_bytes (h + of_nat i) (length t) m = take (length t) (drop i s)"
    using read_bytes_cstring[OF hs, of "length t"] i len by simp
  have "read_bytes q (length t) m = t" using read_bytes_cstring[OF t, of "length t"] by simp
  then have cmp: "memcmp_loop (h + of_nat i) q (length t) m = 0 \<longleftrightarrow> occurs_at t s i"
    unfolding memcmp_loop_eq_0 rb occurs_at_def using i len by auto
  have mc: "memcmp (h + of_nat i) q (of_nat (length t)) m = Some (memcmp_loop (h + of_nat i) q (length t) m)"
    using cstring_nonnull[OF hs] cstring_nonnull[OF t] b len by (simp add: memcmp_def unat_of_nat)
  have IH: "strstr_loop (of_nat i + 1) h q (of_nat (length s)) (of_nat (length t)) m =
    Some (case List.find (occurs_at t s) [Suc i ..< Suc (length s - length t)] of Some j \<Rightarrow> h + of_nat j | None \<Rightarrow> 0)"
    using Suc(1)[of "Suc i"] Suc(2) i by (simp add: add.commute)
  have upt: "[i ..< Suc (length s - length t)] = i # [Suc i ..< Suc (length s - length t)]"
    using i by (intro upt_conv_Cons) simp
  show ?case
    by (subst strstr_loop.simps) (simp add: e le mc cmp IH upt del: of_nat_diff upt_Suc)
qed

lemma strstr_cstring:
  assumes s: "cstring m h s" and t: "cstring m q t"
  shows "strstr h q m = Some (case List.find (occurs_at t s) [0 ..< Suc (length s)] of Some j \<Rightarrow> h + of_nat j | None \<Rightarrow> 0)"
proof -
  have le: "(of_nat (length t) :: u32) \<le> of_nat (length s) \<longleftrightarrow> length t \<le> length s"
    using cstring_bound[OF s] cstring_bound[OF t] by (simp add: word_le_nat_alt unat_of_nat)
  show ?thesis
  proof (cases "length t \<le> length s")
    case True
    have "[0 ..< Suc (length s)] = [0 ..< Suc (length s - length t)] @ [Suc (length s - length t) ..< Suc (length s)]"
      using upt_add_eq_append[of 0 "Suc (length s - length t)" "length t"] True by simp
    moreover have "List.find (occurs_at t s) [Suc (length s - length t) ..< Suc (length s)] = None"
      using True by (auto simp: find_None_iff occurs_at_def)
    ultimately have "List.find (occurs_at t s) [0 ..< Suc (length s)] = List.find (occurs_at t s) [0 ..< Suc (length s - length t)]"
      by (simp add: find_append del: upt_Suc split: option.split)
    with strstr_loop_cstring[OF s t True, of 0] show ?thesis
      using True le by (simp add: strstr_def strlen_cstring[OF s] strlen_cstring[OF t] del: upt_Suc)
  next
    case False
    then have "List.find (occurs_at t s) [0 ..< Suc (length s)] = None"
      by (auto simp: find_None_iff occurs_at_def)
    with False le show ?thesis by (simp add: strstr_def strlen_cstring[OF s] strlen_cstring[OF t] del: upt_Suc)
  qed
qed

subsection \<open>Copying\<close>

lemma write_bytes_Nil [simp]: "write_bytes a [] m = m"
  by (simp add: write_bytes_def)

lemma write_bytes_Cons:
  assumes "length bs < 4294967296"
  shows "write_bytes a (b # bs) m = write_bytes (a + 1) bs (m(a := b))"
proof
  fix x
  show "write_bytes a (b # bs) m x = write_bytes (a + 1) bs (m(a := b)) x"
  proof (cases "x = a")
    case True
    have "unat (- 1 :: u32) = 4294967295" by (simp add: unsigned_minus_1_eq_mask mask_eq_exp_minus_1)
    with True assms show ?thesis by (simp add: write_bytes_def)
  next
    case False
    then have nz: "x - (a + 1) + 1 \<noteq> 0" by simp
    have "x - a = x - (a + 1) + 1" by simp
    then have "unat (x - a) = Suc (unat (x - (a + 1)))" using unat_Suc_nonzero[OF nz] by simp
    with False show ?thesis by (simp add: write_bytes_def)
  qed
qed

lemma write_bytes_snoc:
  assumes "length bs < 4294967296"
  shows "write_bytes a (bs @ [b]) m = write_bytes a bs (m(a + of_nat (length bs) := b))"
proof
  fix x
  have "unat (x - a) = length bs \<longleftrightarrow> x = a + of_nat (length bs)"
  proof
    assume "unat (x - a) = length bs"
    then have "x - a = of_nat (length bs)" using assms by (simp add: word_unat_eq_iff unat_of_nat)
    then show "x = a + of_nat (length bs)" by (simp add: algebra_simps)
  next
    assume "x = a + of_nat (length bs)"
    with assms show "unat (x - a) = length bs" by (simp add: unat_of_nat)
  qed
  then show "write_bytes a (bs @ [b]) m x = write_bytes a bs (m(a + of_nat (length bs) := b)) x"
    by (auto simp: write_bytes_def nth_append less_Suc_eq)
qed

lemma read_bytes_snoc: "read_bytes a (Suc n) m = read_bytes a n m @ [m (a + of_nat n)]"
  by (simp add: read_bytes_def)

lemma read_bytes_upd:
  assumes "\<And>j. j < n \<Longrightarrow> x \<noteq> a + of_nat j"
  shows "read_bytes a n (m(x := v)) = read_bytes a n m"
proof -
  have "(m(x := v)) (a + of_nat j) = m (a + of_nat j)" if "j < n" for j
    using assms[OF that] by simp
  then show ?thesis unfolding read_bytes_def by (intro map_cong refl) simp
qed

lemma copy_up_bytes:
  assumes "n \<le> 4294967296" and "\<And>i j. i < j \<Longrightarrow> j < n \<Longrightarrow> dst + of_nat i \<noteq> src + of_nat j"
  shows "copy_up dst src n m = write_bytes dst (read_bytes src n m) m"
  using assms
proof (induction n arbitrary: dst src m)
  case (Suc n)
  have "dst \<noteq> src + 1 + of_nat j" if "j < n" for j
    using Suc.prems(2)[of 0 "Suc j"] that by (simp add: algebra_simps)
  then have rd: "read_bytes (src + 1) n (m(dst := m src)) = read_bytes (src + 1) n m"
    by (rule read_bytes_upd)
  have "dst + 1 + of_nat i \<noteq> src + 1 + of_nat j" if "i < j" "j < n" for i j
    using Suc.prems(2)[of "Suc i" "Suc j"] that by (simp add: algebra_simps)
  then have "copy_up (dst + 1) (src + 1) n (m(dst := m src)) =
      write_bytes (dst + 1) (read_bytes (src + 1) n (m(dst := m src))) (m(dst := m src))"
    using Suc.prems(1) by (intro Suc.IH) simp_all
  then have "copy_up (dst + 1) (src + 1) n (m(dst := m src)) =
      write_bytes (dst + 1) (read_bytes (src + 1) n m) (m(dst := m src))"
    unfolding rd .
  with Suc.prems(1) show ?case by (simp add: read_bytes_Suc write_bytes_Cons)
qed (simp add: read_bytes_def)

lemma copy_down_bytes:
  assumes "n \<le> 4294967296" and "\<And>i j. i < j \<Longrightarrow> j < n \<Longrightarrow> src + of_nat i \<noteq> dst + of_nat j"
  shows "copy_down (dst + of_nat n) (src + of_nat n) n m = write_bytes dst (read_bytes src n m) m"
  using assms
proof (induction n arbitrary: m)
  case (Suc n)
  have "dst + of_nat n \<noteq> src + of_nat j" if "j < n" for j
    using Suc.prems(2)[of j n] that by auto
  then have rd: "read_bytes src n (m(dst + of_nat n := v)) = read_bytes src n m" for v
    by (intro read_bytes_upd)
  have "copy_down (dst + of_nat n) (src + of_nat n) n (m(dst + of_nat n := m (src + of_nat n))) =
      write_bytes dst (read_bytes src n (m(dst + of_nat n := m (src + of_nat n)))) (m(dst + of_nat n := m (src + of_nat n)))"
    using Suc.prems by (intro Suc.IH) simp_all
  then have "copy_down (dst + of_nat n) (src + of_nat n) n (m(dst + of_nat n := m (src + of_nat n))) =
      write_bytes dst (read_bytes src n m) (m(dst + of_nat n := m (src + of_nat n)))"
    unfolding rd .
  with Suc.prems(1) show ?case
    by (simp add: read_bytes_snoc write_bytes_snoc algebra_simps)
qed (simp add: read_bytes_def)

lemma fill_up_bytes: "n \<le> 4294967296 \<Longrightarrow> fill_up dst v n m = write_bytes dst (replicate n v) m"
  by (induction n arbitrary: dst m) (simp_all add: write_bytes_Cons)

text \<open>The closed form of \<open>memset\<close> that the page allocator uses is what the loop computes.\<close>

lemma memset_c_memset:
  assumes "dst \<noteq> 0 \<or> sz = 0"
  shows "memset_c dst value sz m = Some (dst, memset dst (ucast value) sz m)"
proof -
  have "unat sz \<le> 4294967296" using unat_u32_less[of sz] by simp
  with assms show ?thesis
    by (auto simp: memset_c_def fill_up_bytes memset_def write_bytes_def word_less_nat_alt fun_eq_iff)
qed

lemma unat_offset_eq:
  fixes a b :: u32
  assumes "unat a + i < 4294967296" "unat b + j < 4294967296" "a + of_nat i = b + of_nat j"
  shows "unat a + i = unat b + j"
proof -
  have "unat (a + of_nat i) = unat a + i" using assms(1) by (rule unat_add_of_nat)
  moreover have "unat (b + of_nat j) = unat b + j" using assms(2) by (rule unat_add_of_nat)
  ultimately show ?thesis using assms(3) by argo
qed

lemma memmove_bytes:
  assumes "dst \<noteq> 0" "src \<noteq> 0" "unat dst + unat sz \<le> 4294967296" "unat src + unat sz \<le> 4294967296"
  shows "memmove dst src sz m =
     Some (if dst < src then dst + sz else dst, write_bytes dst (read_bytes src (unat sz) m) m)"
proof (cases "dst < src")
  case True
  have "dst + of_nat i \<noteq> src + of_nat j" if "i < j" "j < unat sz" for i j
    using unat_offset_eq[of dst i src j] that True assms(3,4) by (auto simp: word_less_nat_alt)
  then have "copy_up dst src (unat sz) m = write_bytes dst (read_bytes src (unat sz) m) m"
    using unat_u32_less[of sz] by (intro copy_up_bytes) auto
  with True assms show ?thesis by (simp add: memmove_def)
next
  case False
  have "src + of_nat i \<noteq> dst + of_nat j" if "i < j" "j < unat sz" for i j
    using unat_offset_eq[of src i dst j] that False assms(3,4) by (auto simp: word_less_nat_alt)
  then have "copy_down (dst + sz) (src + sz) (unat sz) m = write_bytes dst (read_bytes src (unat sz) m) m"
    using copy_down_bytes[of "unat sz" src dst m] unat_u32_less[of sz] by simp
  with False assms show ?thesis by (simp add: memmove_def)
qed

lemma memcpy_bytes:
  assumes "dst \<noteq> 0" "src \<noteq> 0" "bytes_at dst (unat sz) \<inter> bytes_at src (unat sz) = {}"
  shows "memcpy dst src sz m = Some (dst, write_bytes dst (read_bytes src (unat sz) m) m)"
proof -
  have "dst + of_nat i \<noteq> src + of_nat j" if "i < j" "j < unat sz" for i j
  proof -
    have "dst + of_nat i \<in> bytes_at dst (unat sz)" "src + of_nat j \<in> bytes_at src (unat sz)"
      using that unat_u32_less[of sz] by (simp_all add: bytes_at_def unat_of_nat)
    with assms(3) show ?thesis by auto
  qed
  then have "copy_up dst src (unat sz) m = write_bytes dst (read_bytes src (unat sz) m) m"
    using unat_u32_less[of sz] by (intro copy_up_bytes) auto
  with assms show ?thesis by (simp add: memcpy_def)
qed

lemma cstring_intro:
  assumes "p \<noteq> 0" "unat p + length s < 4294967296" "0 \<notin> set s"
    and "read_bytes p (length s) m = s" "m (p + of_nat (length s)) = 0"
  shows "cstring m p s"
proof -
  have "m (p + of_nat k) = s ! k" if "k < length s" for k
  proof -
    have "read_bytes p (length s) m ! k = s ! k" using assms(4) by simp
    with that show ?thesis by (simp add: read_bytes_def)
  qed
  with assms show ?thesis by (simp add: cstring_iff)
qed

lemma write_bytes_outside: "x \<notin> bytes_at a (length bs) \<Longrightarrow> write_bytes a bs m x = m x"
  by (simp add: write_bytes_def bytes_at_def)

lemma bytes_at_mono: "n \<le> k \<Longrightarrow> bytes_at a n \<subseteq> bytes_at a k"
  by (auto simp: bytes_at_def)

lemma bytes_at_offset: "unat i + n \<le> k \<Longrightarrow> bytes_at (a + i) n \<subseteq> bytes_at a k"
proof
  fix x assume le: "unat i + n \<le> k" and "x \<in> bytes_at (a + i) n"
  then have "unat (x - (a + i)) < n" by (simp add: bytes_at_def)
  moreover have "x - a = i + (x - (a + i))" by simp
  then have "unat (x - a) \<le> unat i + unat (x - (a + i))"
    by (simp only: unat_word_ariths(1)) (rule mod_less_eq_dividend)
  ultimately show "x \<in> bytes_at a k" using le by (simp add: bytes_at_def)
qed

text \<open>The string that the bytes \<open>bs\<close> followed by a null form.\<close>

lemma cstring_written:
  assumes "p \<noteq> 0" "unat p + length bs < 4294967296" "0 \<notin> set bs"
  shows "cstring ((write_bytes p bs m)(p + of_nat (length bs) := 0)) p bs"
proof (rule cstring_intro)
  have "p + of_nat (length bs) \<noteq> p + of_nat j" if "j < length bs" for j
  proof
    assume "p + of_nat (length bs) = p + of_nat j"
    then show False using that unat_offset_eq[of p "length bs" p j] assms(2) by simp
  qed
  then have "read_bytes p (length bs) ((write_bytes p bs m)(p + of_nat (length bs) := 0)) =
      read_bytes p (length bs) (write_bytes p bs m)"
    by (rule read_bytes_upd)
  also have "\<dots> = bs" using assms(2) by (intro read_write_bytes) simp
  finally show "read_bytes p (length bs) ((write_bytes p bs m)(p + of_nat (length bs) := 0)) = bs" .
qed (use assms in auto)

lemma strlcpy_cstring:
  assumes s: "cstring m src s" and d: "dst \<noteq> 0" "unat dst + unat sz \<le> 4294967296"
    and dj: "bytes_at dst (unat sz) \<inter> bytes_at src (Suc (length s)) = {}"
  shows "\<exists>m'. strlcpy dst src sz m = Some (of_nat (length s), m') \<and>
     (sz \<noteq> 0 \<longrightarrow> cstring m' dst (take (unat sz - 1) s)) \<and>
     (\<forall>x. x \<notin> bytes_at dst (unat sz) \<longrightarrow> m' x = m x)"
proof (cases "sz = 0")
  case True
  with d cstring_nonnull[OF s] show ?thesis by (simp add: strlcpy_def strlen_cstring[OF s])
next
  case False
  define n where "n = min (length s) (unat sz - 1)"
  have b: "length s < 4294967296" using cstring_bound[OF s] by simp
  have us: "unat (sz - 1) = unat sz - 1" using False by (simp add: unat_sub word_le_nat_alt unat_gt_0 Suc_leI)
  have pos: "0 < unat sz" using False by (simp add: unat_gt_0)
  have nb: "n < unat sz" "n \<le> length s" using pos by (auto simp: n_def)
  have dl: "(if of_nat (length s) < sz - 1 then of_nat (length s) else sz - 1) = (of_nat n :: u32)"
    using b us False unat_u32_less[of sz] by (auto simp: n_def word_less_nat_alt unat_of_nat word_unat_eq_iff)
  have un: "unat (of_nat n :: u32) = n" using nb b by (simp add: unat_of_nat)
  have bs: "read_bytes src n m = take n s" using read_bytes_cstring[OF s nb(2)] .
  have "bytes_at dst n \<inter> bytes_at src n = {}"
    using dj bytes_at_mono[of n "unat sz" dst] bytes_at_mono[of n "Suc (length s)" src] nb by auto
  then have mc: "memcpy dst src (of_nat n) m = Some (dst, write_bytes dst (take n s) m)"
    using memcpy_bytes[of dst src "of_nat n" m] d cstring_nonnull[OF s] un bs by simp
  let ?m = "(write_bytes dst (take n s) m)(dst + of_nat n := 0)"
  have r: "strlcpy dst src sz m = Some (of_nat (length s), ?m)"
    using False d cstring_nonnull[OF s] by (simp add: strlcpy_def strlen_cstring[OF s] dl mc word_gt_0)
  have "0 \<notin> set s" using s by (simp add: cstring_iff)
  then have "0 \<notin> set (take n s)" using set_take_subset[of n s] by blast
  moreover have "unat dst + n < 4294967296" using d nb by linarith
  ultimately have "cstring ?m dst (take n s)"
    using cstring_written[of dst "take n s" m] d nb by simp
  moreover have "take n s = take (unat sz - 1) s" by (simp add: n_def min_def)
  moreover have "?m x = m x" if "x \<notin> bytes_at dst (unat sz)" for x
  proof -
    have "dst + of_nat n \<in> bytes_at dst (unat sz)" using un nb by (simp add: bytes_at_def)
    moreover have "x \<notin> bytes_at dst n" using that bytes_at_mono[of n "unat sz" dst] nb by auto
    ultimately show ?thesis using that write_bytes_outside[of x dst "take n s" m] nb by auto
  qed
  ultimately show ?thesis using r by auto
qed

lemma cstring_append:
  assumes "cstring m p (s @ t)" "cstring m' (p + of_nat (length s)) t'"
    and "\<And>x. x \<in> bytes_at p (length s) \<Longrightarrow> m' x = m x"
  shows "cstring m' p (s @ t')"
  using assms
proof (induction s arbitrary: p)
  case (Cons c s)
  have nz: "p + 1 \<noteq> 0" using Cons.prems(1) cstring_nonnull[of m "p + 1" "s @ t"] by simp
  have sub: "bytes_at (p + 1) (length s) \<subseteq> bytes_at p (length (c # s))"
    using bytes_at_offset[of 1 "length s" "length (c # s)" p] by simp
  have "m' p = m p" using Cons.prems(3)[of p] by (simp add: bytes_at_def)
  moreover have "cstring m' (p + 1) (s @ t')"
    using Cons.prems(1,2) Cons.prems(3) sub by (intro Cons.IH) (auto simp: add.assoc)
  ultimately show ?case using Cons.prems(1) by simp
qed simp

text \<open>\<open>strlcat\<close> copies as \<open>strlcpy\<close> does to the end of the string.\<close>

lemma strlcat_strlcpy:
  assumes s: "cstring m src s" and d: "cstring m dst d" and less: "length d < unat sz"
    and r: "strlcpy (dst + of_nat (length d)) src (sz - of_nat (length d)) m = Some (n, m')"
  shows "strlcat dst src sz m = Some (of_nat (length s + length d), m')"
proof -
  have b: "length d < 4294967296" using cstring_bound[OF d] by simp
  have "dst + of_nat (length d) \<noteq> 0"
    using cstring_drop[OF d, of "length d"] cstring_nonnull by blast
  moreover have "unat (sz - of_nat (length d)) = unat sz - length d"
    using less b by (simp add: unat_sub word_le_nat_alt unat_of_nat)
  then have "sz - of_nat (length d) > 0" using less by (simp add: word_less_nat_alt)
  moreover have "of_nat (length d) < sz" "sz > 0"
    using less b by (simp_all add: word_less_nat_alt unat_of_nat)
  ultimately show ?thesis
    using r cstring_nonnull[OF s] cstring_nonnull[OF d]
    by (auto simp: strlcat_def strlcpy_def strlen_cstring[OF s] strlen_cstring[OF d] Let_def add.assoc
        split: if_splits Option.bind_splits)
qed

lemma strlcat_cstring:
  assumes s: "cstring m src s" and d: "cstring m dst d" and sz: "unat dst + unat sz \<le> 4294967296" "length d < unat sz"
    and dj: "bytes_at dst (unat sz) \<inter> bytes_at src (Suc (length s)) = {}"
  shows "\<exists>m'. strlcat dst src sz m = Some (of_nat (length s + length d), m') \<and>
     cstring m' dst (take (unat sz - 1) (d @ s)) \<and>
     (\<forall>x. x \<notin> bytes_at dst (unat sz) \<longrightarrow> m' x = m x)"
proof -
  let ?n = "of_nat (length d) :: u32"
  have b: "length d < 4294967296" using cstring_bound[OF d] by simp
  have un: "unat ?n = length d" using b by (simp add: unat_of_nat)
  have us: "unat (sz - ?n) = unat sz - length d"
    using sz un by (simp add: unat_sub word_le_nat_alt)
  have ud: "unat (dst + ?n) = unat dst + length d"
    using sz by (intro unat_add_of_nat) linarith
  have nz: "dst + ?n \<noteq> 0" using cstring_drop[OF d, of "length d"] cstring_nonnull by blast
  have sub: "bytes_at (dst + ?n) (unat (sz - ?n)) \<subseteq> bytes_at dst (unat sz)"
    using us un sz(2) by (intro bytes_at_offset) simp
  obtain m' where m': "strlcpy (dst + ?n) src (sz - ?n) m = Some (of_nat (length s), m')"
    "sz - ?n \<noteq> 0 \<longrightarrow> cstring m' (dst + ?n) (take (unat (sz - ?n) - 1) s)"
    "\<forall>x. x \<notin> bytes_at (dst + ?n) (unat (sz - ?n)) \<longrightarrow> m' x = m x"
    using strlcpy_cstring[OF s nz, of "sz - ?n"] dj sub us ud sz by auto
  have "sz - ?n \<noteq> 0" using us sz(2) by (metis unat_0 zero_less_diff less_numeral_extra(3))
  with m'(2) us have c2: "cstring m' (dst + ?n) (take (unat sz - length d - 1) s)" by simp
  have same: "m' x = m x" if "x \<in> bytes_at dst (length d)" for x
  proof -
    have "x \<notin> bytes_at (dst + ?n) (unat (sz - ?n))"
    proof
      assume a: "x \<in> bytes_at (dst + ?n) (unat (sz - ?n))"
      have e: "x - (dst + ?n) + ?n = x - dst" by simp
      have lt: "unat (x - (dst + ?n)) + unat ?n < 4294967296"
        using a us un sz(2) unat_u32_less[of sz] by (simp add: bytes_at_def)
      have "unat (x - dst) = unat (x - (dst + ?n)) + unat ?n"
        using unat_add_less[OF lt] unfolding e .
      with that un show False by (simp add: bytes_at_def)
    qed
    with m'(3) show ?thesis by blast
  qed
  have "cstring m' dst (d @ take (unat sz - length d - 1) s)"
    using cstring_append[of m dst d "[]" m' "take (unat sz - length d - 1) s"] d c2 same by simp
  moreover have "d @ take (unat sz - length d - 1) s = take (unat sz - 1) (d @ s)"
    using sz(2) by simp
  moreover have "\<forall>x. x \<notin> bytes_at dst (unat sz) \<longrightarrow> m' x = m x" using m'(3) sub by blast
  ultimately show ?thesis
    using strlcat_strlcpy[OF s d sz(2) m'(1)] by auto
qed

subsection \<open>Tokens\<close>

text \<open>The maximal runs of characters that are not delimiters.\<close>

function tokens :: "u8 set \<Rightarrow> u8 list \<Rightarrow> u8 list list" where
  "tokens D s =
     (case dropWhile (\<lambda>c. c \<in> D) s of [] \<Rightarrow> []
      | c # t \<Rightarrow> takeWhile (\<lambda>c. c \<notin> D) (c # t) # tokens D (dropWhile (\<lambda>c. c \<notin> D) (c # t)))"
  by pat_completeness auto
termination
proof (relation "measure (\<lambda>(D, s). length s)")
  fix D s c t
  assume a: "dropWhile (\<lambda>c. c \<in> D) s = c # t"
  then have "c \<notin> D" by (metis hd_dropWhile list.distinct(1) list.sel(1))
  then have "length (dropWhile (\<lambda>c. c \<notin> D) (c # t)) \<le> length t" by (simp add: length_dropWhile_le)
  moreover have "length (c # t) \<le> length s" using a length_dropWhile_le[of "\<lambda>c. c \<in> D" s] by simp
  ultimately show "((D, dropWhile (\<lambda>c. c \<notin> D) (c # t)), (D, s)) \<in> measure (\<lambda>(D, s). length s)" by simp
qed simp

declare tokens.simps [simp del]

text \<open>A caller of \<open>strtok_r\<close> that takes all tokens of a string, the loop in the comment above \<open>strtok_r\<close>. It is no
  code of the kernel: it only says what the repeated calls of the property below are.\<close>

partial_function (option) strtok_all :: "u32 \<Rightarrow> u32 \<Rightarrow> u32 \<Rightarrow> ram \<Rightarrow> (u32 list \<times> ram) option" where
  "strtok_all s delimiters save_ptr m = do {
     (token, save_ptr, m) \<leftarrow> strtok_r s delimiters save_ptr m;
     if token = 0 then Some ([], m)
     else do {
       (ts, m) \<leftarrow> strtok_all 0 delimiters save_ptr m;
       Some (token # ts, m)
     }
   }"

lemma skip_delimiters_cstring:
  assumes "cstring m q ds" "cstring m p s"
  shows "skip_delimiters p q m =
    Some (p + of_nat (length (takeWhile (\<lambda>c. c \<in> set ds) s)), dropWhile (\<lambda>c. c \<in> set ds) s = [])"
  using assms(2)
proof (induction s arbitrary: p)
  case Nil
  obtain r where "strchr q 0 m = Some r" "r \<noteq> 0" using strchr_member[OF assms(1)] by blast
  with Nil show ?case by (subst skip_delimiters.simps) simp
next
  case (Cons c s)
  obtain r where "strchr q c m = Some r" "r \<noteq> 0 \<longleftrightarrow> c = 0 \<or> c \<in> set ds"
    using strchr_member[OF assms(1)] by blast
  with Cons show ?case by (subst skip_delimiters.simps) auto
qed

lemma skip_token_cstring:
  assumes "cstring m q ds" "cstring m p s"
  shows "skip_token p q m = Some (p + of_nat (length (takeWhile (\<lambda>c. c \<notin> set ds) s)))"
  using assms(2)
proof (induction s arbitrary: p)
  case Nil
  obtain r where "strchr q 0 m = Some r" "r \<noteq> 0" using strchr_member[OF assms(1)] by blast
  with Nil show ?case by (subst skip_token.simps) simp
next
  case (Cons c s)
  obtain r where "strchr q c m = Some r" "r \<noteq> 0 \<longleftrightarrow> c = 0 \<or> c \<in> set ds"
    using strchr_member[OF assms(1)] by blast
  with Cons show ?case by (subst skip_token.simps) auto
qed

lemma bytes_at_unat:
  fixes p :: u32
  assumes "unat p + n \<le> 4294967296"
  shows "x \<in> bytes_at p n \<longleftrightarrow> unat p \<le> unat x \<and> unat x < unat p + n"
proof (cases "p \<le> x")
  case True
  then have "unat (x - p) = unat x - unat p" by (rule unat_sub)
  with True show ?thesis by (auto simp: bytes_at_def word_le_nat_alt)
next
  case False
  then have lt: "unat x < unat p" by (simp add: word_le_nat_alt)
  have "unat (x - p) + unat p \<ge> 4294967296"
  proof (rule ccontr)
    assume "\<not> ?thesis"
    then have "unat (x - p + p) = unat (x - p) + unat p" by (intro unat_add_less) simp
    with lt show False by simp
  qed
  with lt assms show ?thesis by (auto simp: bytes_at_def)
qed

lemma cstring_truncate:
  assumes "cstring m p (s @ t)" "unat (p + of_nat (length s)) = unat p + length s"
  shows "cstring (m(p + of_nat (length s) := 0)) p s"
proof -
  have d: "cstring m (p + of_nat (length s)) t" using cstring_drop[OF assms(1), of "length s"] by simp
  have b: "unat p + length s + length t < 4294967296" using cstring_bound[OF assms(1)] by simp
  have "cstring (m(p + of_nat (length s) := 0)) (p + of_nat (length s)) []"
    using cstring_nonnull[OF d] by simp
  moreover have "(m(p + of_nat (length s) := 0)) x = m x" if "x \<in> bytes_at p (length s)" for x
    using that b assms(2) by (auto simp: bytes_at_unat)
  ultimately have "cstring (m(p + of_nat (length s) := 0)) p (s @ [])"
    by (intro cstring_append[OF assms(1)])
  then show ?thesis by simp
qed

lemma strtok_r_cstring:
  assumes q: "cstring m q ds" and p: "cstring m p (pre @ tok @ rem)" and start: "s = p \<or> s = 0 \<and> save = p"
    and pre: "set pre \<subseteq> set ds" and tok: "set tok \<inter> set ds = {}" and ne: "tok \<noteq> []"
    and rem: "rem = [] \<or> hd rem \<in> set ds"
  shows "strtok_r s q save m = Some (p + of_nat (length pre),
     p + of_nat (length pre) + of_nat (length tok) + (if rem = [] then 0 else 1),
     if rem = [] then m else m(p + of_nat (length pre) + of_nat (length tok) := 0))"
proof -
  have dw: "dropWhile (\<lambda>c. c \<in> set ds) (tok @ rem) = tok @ rem" using ne tok by (cases tok) auto
  have tw: "takeWhile (\<lambda>c. c \<in> set ds) (tok @ rem) = []" using ne tok by (cases tok) auto
  have sd: "skip_delimiters p q m = Some (p + of_nat (length pre), False)"
    using skip_delimiters_cstring[OF q p] pre ne dw tw
    by (subst (asm) takeWhile_append2, blast, subst (asm) dropWhile_append2, blast) simp
  have pt: "cstring m (p + of_nat (length pre)) (tok @ rem)"
    using cstring_drop[OF p, of "length pre"] by simp
  have "takeWhile (\<lambda>c. c \<notin> set ds) (tok @ rem) = tok"
    using tok rem by (subst takeWhile_append2) (auto simp: takeWhile_eq_Nil_iff)
  then have st: "skip_token (p + of_nat (length pre)) q m = Some (p + of_nat (length pre) + of_nat (length tok))"
    using skip_token_cstring[OF q pt] by simp
  have pr: "cstring m (p + of_nat (length pre) + of_nat (length tok)) rem"
    using cstring_drop[OF pt, of "length tok"] by simp
  then have "m (p + of_nat (length pre) + of_nat (length tok)) = 0 \<longleftrightarrow> rem = []" by (cases rem) auto
  with start cstring_nonnull[OF q] cstring_nonnull[OF p] show ?thesis
    by (auto simp: strtok_r_def sd st)
qed

lemma strtok_r_end:
  assumes q: "cstring m q ds" and p: "cstring m p s'" and start: "s = p \<or> s = 0 \<and> save = p"
    and "set s' \<subseteq> set ds"
  shows "\<exists>save'. strtok_r s q save m = Some (0, save', m)"
proof -
  have "dropWhile (\<lambda>c. c \<in> set ds) s' = []" using assms(4) by auto
  then show ?thesis
    using start cstring_nonnull[OF q] cstring_nonnull[OF p] skip_delimiters_cstring[OF q p]
    by (auto simp: strtok_r_def)
qed

lemma tokens_delimiters: "set s \<subseteq> D \<Longrightarrow> tokens D s = []"
proof -
  assume "set s \<subseteq> D"
  then have "dropWhile (\<lambda>c. c \<in> D) s = []" by auto
  then show ?thesis by (simp only: tokens.simps[of D s] list.case)
qed

lemma tokens_step:
  assumes "set pre \<subseteq> D" "set tok \<inter> D = {}" "tok \<noteq> []" "rem = [] \<or> hd rem \<in> D"
  shows "tokens D (pre @ tok @ rem) = tok # tokens D (tl rem)"
proof -
  obtain c t where t: "tok = c # t" using assms(3) by (cases tok) auto
  have "dropWhile (\<lambda>c. c \<in> D) (pre @ tok @ rem) = dropWhile (\<lambda>c. c \<in> D) (tok @ rem)"
    using assms(1) by (intro dropWhile_append2) auto
  then have dw: "dropWhile (\<lambda>c. c \<in> D) (pre @ tok @ rem) = c # t @ rem" using assms(2) t by auto
  have "takeWhile (\<lambda>c. c \<notin> D) (tok @ rem) = tok"
    using assms(2,4) by (subst takeWhile_append2) (auto simp: takeWhile_eq_Nil_iff)
  moreover have "dropWhile (\<lambda>c. c \<notin> D) (tok @ rem) = rem"
    using assms(2,4) by (subst dropWhile_append2) (auto simp: dropWhile_eq_self_iff)
  ultimately have "tokens D (pre @ tok @ rem) = tok # tokens D rem"
    using dw t by (subst tokens.simps) simp
  moreover have "tokens D rem = tokens D (tl rem)"
  proof (cases rem)
    case (Cons d r)
    with assms(4) have "dropWhile (\<lambda>c. c \<in> D) rem = dropWhile (\<lambda>c. c \<in> D) r" by simp
    then show ?thesis using Cons by (subst (1 2) tokens.simps) simp
  qed simp
  ultimately show ?thesis by simp
qed

lemma token_split:
  assumes "\<not> set s \<subseteq> D"
  obtains pre tok rem where "s = pre @ tok @ rem" "set pre \<subseteq> D" "set tok \<inter> D = {}" "tok \<noteq> []" "rem = [] \<or> hd rem \<in> D"
proof
  let ?r = "dropWhile (\<lambda>c. c \<in> D) s"
  show "s = takeWhile (\<lambda>c. c \<in> D) s @ takeWhile (\<lambda>c. c \<notin> D) ?r @ dropWhile (\<lambda>c. c \<notin> D) ?r" by simp
  show "set (takeWhile (\<lambda>c. c \<in> D) s) \<subseteq> D" "set (takeWhile (\<lambda>c. c \<notin> D) ?r) \<inter> D = {}"
    by (auto dest: set_takeWhileD)
  have "?r \<noteq> []" using assms by auto
  moreover from this have "hd ?r \<notin> D" by (rule hd_dropWhile)
  ultimately show "takeWhile (\<lambda>c. c \<notin> D) ?r \<noteq> []" by (cases ?r) auto
  show "dropWhile (\<lambda>c. c \<notin> D) ?r = [] \<or> hd (dropWhile (\<lambda>c. c \<notin> D) ?r) \<in> D"
    using hd_dropWhile[of "\<lambda>c. c \<notin> D" ?r] by blast
qed

text \<open>The state after one call: the token is a string of its own and the rest begins behind it.\<close>

lemma token_terminated:
  assumes p: "cstring m p (pre @ tok @ rem)"
  defines "a \<equiv> p + of_nat (length pre)"
  defines "e \<equiv> a + of_nat (length tok)"
  defines "b \<equiv> e + (if rem = [] then 0 else 1)"
  defines "m1 \<equiv> (if rem = [] then m else m(e := 0))"
  shows "cstring m1 a tok" "cstring m1 b (tl rem)" "a \<noteq> 0"
    "unat a = unat p + length pre" "unat b = unat a + length tok + (if rem = [] then 0 else 1)"
    "\<And>x. x \<notin> bytes_at p (length (pre @ tok @ rem)) \<Longrightarrow> m1 x = m x"
proof -
  have bd: "unat p + (length pre + (length tok + length rem)) < 4294967296" using cstring_bound[OF p] by simp
  have a: "cstring m a (tok @ rem)" using cstring_drop[OF p, of "length pre"] by (simp add: a_def)
  show ua: "unat a = unat p + length pre" unfolding a_def using bd by (intro unat_add_of_nat) linarith
  have ue: "unat e = unat a + length tok" unfolding e_def using bd ua by (intro unat_add_of_nat) linarith
  have e: "cstring m e rem" using cstring_drop[OF a, of "length tok"] by (simp add: e_def)
  show "a \<noteq> 0" using a by (rule cstring_nonnull)
  show "cstring m1 a tok"
    using cstring_truncate[OF a] a ue unfolding m1_def e_def by (cases "rem = []") simp_all
  show ub: "unat b = unat a + length tok + (if rem = [] then 0 else 1)"
    using e ue unat_Suc_nonzero[of e] cstring_nonnull[of m "e + 1" "tl rem"] unfolding b_def by (cases rem) auto
  show "cstring m1 b (tl rem)"
  proof (cases rem)
    case Nil
    with e show ?thesis by (simp add: m1_def b_def)
  next
    case (Cons d r)
    with e have "cstring m (e + 1) r" by simp
    moreover have "(m(e := 0)) x = m x" if "x \<in> bytes_at (e + 1) (Suc (length r))" for x
    proof -
      have "unat (e + 1) + Suc (length r) \<le> 4294967296" using ub ue bd ua Cons by (simp add: b_def)
      then have "unat (e + 1) \<le> unat x" using that by (simp add: bytes_at_unat)
      then show ?thesis using ub ue Cons by (auto simp: b_def)
    qed
    ultimately have "cstring (m(e := 0)) (e + 1) r" by (rule cstring_cong)
    with Cons show ?thesis by (simp add: m1_def b_def)
  qed
  show "m1 x = m x" if "x \<notin> bytes_at p (length (pre @ tok @ rem))" for x
  proof (cases rem)
    case (Cons d r)
    have "e \<in> bytes_at p (length (pre @ tok @ rem))" using ua ue bd Cons by (simp add: bytes_at_unat)
    with that show ?thesis by (auto simp: m1_def)
  qed (simp add: m1_def)
qed

lemma strtok_all_cstring:
  assumes "cstring m q ds" "cstring m p s" "t = p \<or> t = 0 \<and> save = p"
    and "bytes_at p (length s) \<inter> bytes_at q (Suc (length ds)) = {}"
  shows "\<exists>ts m'. strtok_all t q save m = Some (ts, m') \<and> list_all2 (cstring m') ts (tokens (set ds) s) \<and>
     (\<forall>x. x \<notin> bytes_at p (length s) \<longrightarrow> m' x = m x)"
  using assms
proof (induction "length s" arbitrary: m p s t save rule: less_induct)
  case less
  show ?case
  proof (cases "set s \<subseteq> set ds")
    case True
    obtain sv where "strtok_r t q save m = Some (0, sv, m)" using strtok_r_end[OF less(2-4) True] by blast
    with True show ?thesis by (subst strtok_all.simps) (simp add: tokens_delimiters)
  next
    case False
    then obtain pre tok rem where s: "s = pre @ tok @ rem" and w: "set pre \<subseteq> set ds" "set tok \<inter> set ds = {}"
      "tok \<noteq> []" "rem = [] \<or> hd rem \<in> set ds"
      by (rule token_split)
    define a where "a = p + of_nat (length pre)"
    define b where "b = a + of_nat (length tok) + (if rem = [] then 0 else 1)"
    define m1 where "m1 = (if rem = [] then m else m(a + of_nat (length tok) := 0))"
    have p: "cstring m p (pre @ tok @ rem)" using less(3) s by simp
    note T = token_terminated[OF p, folded a_def, folded b_def m1_def]
    have bd: "unat p + (length pre + (length tok + length rem)) < 4294967296" using cstring_bound[OF p] by simp
    have call: "strtok_r t q save m = Some (a, b, m1)"
      using strtok_r_cstring[OF less(2) p less(4) w] by (simp add: a_def b_def m1_def)
    have q1: "cstring m1 q ds" by (rule cstring_cong[OF less(2)]) (use T(6) less(5) s in auto)
    have sub: "bytes_at b (length (tl rem)) \<subseteq> bytes_at p (length s)"
    proof
      fix x assume x: "x \<in> bytes_at b (length (tl rem))"
      have "unat b + length (tl rem) \<le> 4294967296" using T(4,5) bd by (cases rem) auto
      with x have "unat b \<le> unat x \<and> unat x < unat b + length (tl rem)" by (simp add: bytes_at_unat)
      with T(4,5) bd s show "x \<in> bytes_at p (length s)" by (cases rem) (auto simp: bytes_at_unat)
    qed
    have len: "length (tl rem) < length s" using s w(3) by (cases tok) auto
    have dj: "bytes_at b (length (tl rem)) \<inter> bytes_at q (Suc (length ds)) = {}" using sub less(5) by blast
    obtain ts m' where IH: "strtok_all 0 q b m1 = Some (ts, m')" "list_all2 (cstring m') ts (tokens (set ds) (tl rem))"
      "\<forall>x. x \<notin> bytes_at b (length (tl rem)) \<longrightarrow> m' x = m1 x"
      using less(1)[OF len q1 T(2) _ dj, of 0 b] by auto
    have "cstring m' a tok"
    proof (rule cstring_cong[OF T(1)])
      fix x assume x: "x \<in> bytes_at a (Suc (length tok))"
      show "m' x = m1 x"
      proof (cases rem)
        case Nil
        then show ?thesis using IH(3) by (simp add: bytes_at_def)
      next
        case (Cons d r)
        have "x \<notin> bytes_at b (length (tl rem))"
          using x Cons T(4,5) bd by (auto simp: bytes_at_unat)
        with IH(3) show ?thesis by blast
      qed
    qed
    moreover have "m' x = m x" if "x \<notin> bytes_at p (length s)" for x
      using that sub IH(3) T(6)[of x] s by auto
    moreover have "strtok_all t q save m = Some (a # ts, m')"
      using call IH(1) T(3) by (subst strtok_all.simps) simp
    ultimately show ?thesis using IH(2) s tokens_step[OF w] by simp
  qed
qed

subsection \<open>Properties\<close>

text \<open>The bytes of \<open>ab  c\<close> at address 16 and the delimiter string, one space, at address 32.\<close>

definition demo_text :: ram where
  "demo_text = write_bytes 32 [32, 0] (write_bytes 16 [97, 98, 32, 32, 99, 0] (\<lambda>x. 0))"

text \<open>C13: calling \<open>strtok_r\<close> first with a string and then with a null pointer until it returns a
  null pointer ends, and returns, in order, exactly the maximal runs of characters of the string that
  are not delimiters. Afterwards each of them is a string of its own, and no byte outside the
  original string has changed.\<close>

theorem strtok_r_tokens:
  assumes "cstring m q ds" "cstring m p s" "bytes_at p (length s) \<inter> bytes_at q (Suc (length ds)) = {}"
  shows "\<exists>ts m'. strtok_all p q save m = Some (ts, m') \<and> list_all2 (cstring m') ts (tokens (set ds) s) \<and>
     (\<forall>x. x \<notin> bytes_at p (length s) \<longrightarrow> m' x = m x)"
  using strtok_all_cstring[OF assms(1,2) _ assms(3)] by blast

theorem strtok_r_tokens_witness:
  "\<exists>ts m'. strtok_all 16 32 0 demo_text = Some (ts, m') \<and> list_all2 (cstring m') ts [[97, 98], [99]]"
proof -
  have "tokens {32} [97, 98, 32, 32, 99] = [[97, 98], [99]]" by (simp add: tokens.simps)
  moreover have "cstring demo_text 32 [32]" by (simp add: demo_text_def write_bytes_def)
  moreover have "cstring demo_text 16 [97, 98, 32, 32, 99]"
    by (simp add: demo_text_def write_bytes_def nth_Cons')
  moreover have "bytes_at 16 5 \<inter> bytes_at 32 2 = {}" by (auto simp: bytes_at_unat)
  then have "bytes_at 16 (length [97, 98, 32, 32, 99 :: u8]) \<inter> bytes_at 32 (Suc (length [32 :: u8])) = {}" by (simp add: numeral_eq_Suc)
  ultimately show ?thesis
    using strtok_r_tokens[of demo_text 32 "[32]" 16 "[97, 98, 32, 32, 99]" 0] by auto
qed

text \<open>C14: \<open>memmove\<close> copies a block to another that may overlap it in any way: afterwards the
  destination holds the former bytes of the source and every other byte is as before. The pointer
  it returns is the destination only if that does not lie below the source; otherwise it is the end
  of the destination.\<close>

theorem memmove_overlapping:
  assumes "dst \<noteq> 0" "src \<noteq> 0" "unat dst + unat sz \<le> 4294967296" "unat src + unat sz \<le> 4294967296"
  shows "\<exists>r m'. memmove dst src sz m = Some (r, m') \<and> r = (if dst < src then dst + sz else dst) \<and>
     read_bytes dst (unat sz) m' = read_bytes src (unat sz) m \<and>
     (\<forall>x. x \<notin> bytes_at dst (unat sz) \<longrightarrow> m' x = m x)"
  using memmove_bytes[OF assms, of m] read_write_bytes[of "read_bytes src (unat sz) m" dst m] unat_u32_less[of sz]
  by (auto simp: write_bytes_outside)

theorem memmove_overlapping_witness:
  "\<exists>m'. memmove 17 16 5 demo_text = Some (17, m') \<and> read_bytes 17 5 m' = [97, 98, 32, 32, 99]"
  using memmove_overlapping[of 17 16 5 demo_text]
  by (auto simp: demo_text_def write_bytes_def read_bytes_def upt_rec)

text \<open>C15: \<open>strlcpy\<close> leaves at the destination a terminated string: the source cut to the size of
  the buffer. It writes nothing outside the buffer and returns the length of the source.\<close>

theorem strlcpy_correct:
  assumes "cstring m src s" "dst \<noteq> 0" "unat dst + unat sz \<le> 4294967296"
    and "bytes_at dst (unat sz) \<inter> bytes_at src (Suc (length s)) = {}"
  shows "\<exists>m'. strlcpy dst src sz m = Some (of_nat (length s), m') \<and>
     (sz \<noteq> 0 \<longrightarrow> cstring m' dst (take (unat sz - 1) s)) \<and>
     (\<forall>x. x \<notin> bytes_at dst (unat sz) \<longrightarrow> m' x = m x)"
  using assms by (rule strlcpy_cstring)

theorem strlcpy_correct_witness:
  "\<exists>m'. strlcpy 64 16 3 demo_text = Some (5, m') \<and> cstring m' 64 [97, 98]"
proof -
  have "cstring demo_text 16 [97, 98, 32, 32, 99]"
    by (simp add: demo_text_def write_bytes_def nth_Cons')
  moreover have "bytes_at 64 3 \<inter> bytes_at 16 6 = {}" by (auto simp: bytes_at_unat)
  then have "bytes_at 64 3 \<inter> bytes_at 16 (Suc (length [97, 98, 32, 32, 99 :: u8])) = {}" by (simp add: numeral_eq_Suc)
  ultimately show ?thesis
    using strlcpy_correct[of demo_text 16 "[97, 98, 32, 32, 99]" 64 3] by auto
qed

end
