(* ===== verification/Inode_Io.thy ===== *)
theory Inode_Io
  imports Block Bitmap "HOL-Library.Signed_Division"
begin

section \<open>Reading and writing inodes\<close>

text \<open>
  The state of the file system and the part of src/pintos/src/filesys/inode.c that reads and
  writes the data of an open inode.

  In-memory objects (\<open>struct inode\<close>, \<open>struct file\<close>) live in stores indexed by their identity, a
  number that is never used again after the object is freed; a null pointer is \<open>None\<close>. Whether the
  next calls of \<open>malloc\<close> and \<open>calloc\<close> return a null pointer is the list \<open>alloc_fails\<close>, after the
  end of which all calls succeed. \<open>off_t\<close> is \<open>int\<close>, with overflow undefined. The buffer a function
  reads into is its result, as long as the number of bytes that the C function returns.
\<close>

type_synonym obj = nat

subsection \<open>The state\<close>

record inode_disk =
  d_start :: u32
  d_length :: int
  d_magic :: u32

record inode =
  i_sector :: u32
  i_open_cnt :: int
  i_removed :: bool
  i_deny_write_cnt :: int
  i_data :: inode_disk

record open_file =
  f_inode :: obj
  f_pos :: int
  f_deny_write :: bool

record fs =
  fs_device :: block
  inodes :: "obj \<Rightarrow> inode option"
  open_inodes :: "obj list"
  files :: "obj \<Rightarrow> open_file option"
  free_map :: bitmap
  free_map_file :: "obj option"
  next_obj :: obj
  alloc_fails :: "bool list"

text \<open>\<open>malloc\<close> and \<open>calloc\<close>: whether the call succeeds.\<close>

definition malloc_ok :: "fs \<Rightarrow> bool \<times> fs" where
  "malloc_ok s = (case alloc_fails s of [] \<Rightarrow> (True, s) | b # bs \<Rightarrow> (\<not> b, s\<lparr>alloc_fails := bs\<rparr>))"

definition fs_read :: "u32 \<Rightarrow> fs \<Rightarrow> (u8 list \<times> fs) option" where
  "fs_read i s = do { (x, d) \<leftarrow> block_read (fs_device s) i; Some (x, s\<lparr>fs_device := d\<rparr>) }"

definition fs_write :: "u32 \<Rightarrow> u8 list \<Rightarrow> fs \<Rightarrow> fs option" where
  "fs_write i x s = do { d \<leftarrow> block_write (fs_device s) i x; Some (s\<lparr>fs_device := d\<rparr>) }"

subsection \<open>Sectors of an inode\<close>

abbreviation SECTOR :: int where "SECTOR \<equiv> int BLOCK_SECTOR_SIZE"

definition bytes_to_sectors :: "int \<Rightarrow> u32 option" where
  "bytes_to_sectors sz = do { n \<leftarrow> i32 (sz + SECTOR - 1); Some (of_int (n sdiv SECTOR)) }"

definition inode_length :: "inode \<Rightarrow> int" where
  "inode_length inode = d_length (i_data inode)"

definition byte_to_sector :: "inode \<Rightarrow> int \<Rightarrow> u32" where
  "byte_to_sector inode pos =
     (if pos < d_length (i_data inode) then d_start (i_data inode) + of_int (pos sdiv SECTOR) else - 1)"

text \<open>The numbers that each iteration of the two loops computes: sector, offset in it, bytes left
  in it, and the size of the chunk to transfer.\<close>

definition next_chunk :: "inode \<Rightarrow> int \<Rightarrow> int \<Rightarrow> (u32 \<times> int \<times> int \<times> int) option" where
  "next_chunk inode sz offset = do {
     let sector_idx = byte_to_sector inode offset;
     let sector_ofs = offset smod SECTOR;
     inode_left \<leftarrow> i32 (inode_length inode - offset);
     let sector_left = SECTOR - sector_ofs;
     let min_left = (if inode_left < sector_left then inode_left else sector_left);
     let chunk_size = (if sz < min_left then sz else min_left);
     Some (sector_idx, sector_ofs, sector_left, chunk_size)
   }"

subsection \<open>Reading\<close>

text \<open>The buffer \<open>bounce\<close> is allocated the first time it is needed.\<close>

definition get_bounce :: "bool \<Rightarrow> fs \<Rightarrow> bool \<times> fs" where
  "get_bounce bounce s = (if bounce then (True, s) else malloc_ok s)"

text \<open>A memory access outside a buffer is undefined.\<close>

definition chunk_of :: "int \<Rightarrow> int \<Rightarrow> u8 list \<Rightarrow> u8 list option" where
  "chunk_of ofs n buf = do {
     ASSERT (0 \<le> ofs \<and> ofs + n \<le> int (length buf));
     Some (buf_get (nat ofs) (nat n) buf)
   }"

function inode_read_loop :: "inode \<Rightarrow> bool \<Rightarrow> int \<Rightarrow> int \<Rightarrow> fs \<Rightarrow> (u8 list \<times> fs) option" where
  "inode_read_loop inode bounce sz offset s =
     (if sz > 0 then do {
        (sector_idx, sector_ofs, sector_left, chunk_size) \<leftarrow> next_chunk inode sz offset;
        if chunk_size \<le> 0 then Some ([], s)
        else if sector_ofs = 0 \<and> chunk_size = SECTOR then do {
          (x, s) \<leftarrow> fs_read sector_idx s;
          (bs, s) \<leftarrow> inode_read_loop inode bounce (sz - chunk_size) (offset + chunk_size) s;
          Some (x @ bs, s)
        }
        else do {
          let (ok, s) = get_bounce bounce s;
          if \<not> ok then Some ([], s)
          else do {
            (x, s) \<leftarrow> fs_read sector_idx s;
            c \<leftarrow> chunk_of sector_ofs chunk_size x;
            (bs, s) \<leftarrow> inode_read_loop inode True (sz - chunk_size) (offset + chunk_size) s;
            Some (c @ bs, s)
          }
        }
      } else Some ([], s))"
  by pat_completeness auto
termination
  by (relation "measure (\<lambda>(inode, bounce, sz, offset, s). nat sz)") auto

declare inode_read_loop.simps [simp del]

definition inode_read_at :: "inode \<Rightarrow> int \<Rightarrow> int \<Rightarrow> fs \<Rightarrow> (u8 list \<times> fs) option" where
  "inode_read_at inode sz offset s = inode_read_loop inode False sz offset s"

subsection \<open>Writing\<close>

text \<open>\<open>buffer\<close> is the part of the caller's buffer still to be written; the result is the number of
  bytes written.\<close>

function inode_write_loop :: "inode \<Rightarrow> bool \<Rightarrow> u8 list \<Rightarrow> int \<Rightarrow> int \<Rightarrow> fs \<Rightarrow> (int \<times> fs) option" where
  "inode_write_loop inode bounce buffer sz offset s =
     (if sz > 0 then do {
        (sector_idx, sector_ofs, sector_left, chunk_size) \<leftarrow> next_chunk inode sz offset;
        if chunk_size \<le> 0 then Some (0, s)
        else if sector_ofs = 0 \<and> chunk_size = SECTOR then do {
          c \<leftarrow> chunk_of 0 chunk_size buffer;
          s \<leftarrow> fs_write sector_idx c s;
          (n, s) \<leftarrow> inode_write_loop inode bounce (drop (nat chunk_size) buffer)
                     (sz - chunk_size) (offset + chunk_size) s;
          Some (chunk_size + n, s)
        }
        else do {
          let (ok, s) = get_bounce bounce s;
          if \<not> ok then Some (0, s)
          else do {
            (x, s) \<leftarrow> (if sector_ofs > 0 \<or> chunk_size < sector_left then fs_read sector_idx s
                       else Some (replicate BLOCK_SECTOR_SIZE 0, s));
            c \<leftarrow> chunk_of 0 chunk_size buffer;
            ASSERT (0 \<le> sector_ofs \<and> sector_ofs + chunk_size \<le> SECTOR);
            s \<leftarrow> fs_write sector_idx (buf_put (nat sector_ofs) c x) s;
            (n, s) \<leftarrow> inode_write_loop inode True (drop (nat chunk_size) buffer)
                       (sz - chunk_size) (offset + chunk_size) s;
            Some (chunk_size + n, s)
          }
        }
      } else Some (0, s))"
  by pat_completeness auto
termination
  by (relation "measure (\<lambda>(inode, bounce, buffer, sz, offset, s). nat sz)") auto

declare inode_write_loop.simps [simp del]

definition inode_write_at :: "inode \<Rightarrow> u8 list \<Rightarrow> int \<Rightarrow> int \<Rightarrow> fs \<Rightarrow> (int \<times> fs) option" where
  "inode_write_at inode buffer sz offset s =
     (if i_deny_write_cnt inode \<noteq> 0 then Some (0, s)
      else inode_write_loop inode False buffer sz offset s)"

subsection \<open>The data of an inode\<close>

text \<open>The number of sectors of \<open>n\<close> bytes.\<close>

definition sector_cnt :: "nat \<Rightarrow> nat" where
  "sector_cnt n = (n + 511) div 512"

definition inode_on :: "block \<Rightarrow> inode \<Rightarrow> bool" where
  "inode_on d inode \<longleftrightarrow> 0 \<le> inode_length inode \<and> inode_length inode < 2147483648 \<and>
     unat (d_start (i_data inode)) + sector_cnt (nat (inode_length inode)) \<le> unat (blk_size d)"

definition byte_at :: "block \<Rightarrow> inode \<Rightarrow> nat \<Rightarrow> u8" where
  "byte_at d inode k = medium d (d_start (i_data inode) + of_nat (k div 512)) ! (k mod 512)"

definition inode_bytes :: "block \<Rightarrow> inode \<Rightarrow> u8 list" where
  "inode_bytes d inode = map (byte_at d inode) [0 ..< nat (inode_length inode)]"

definition inode_sectors :: "inode \<Rightarrow> nat set" where
  "inode_sectors inode = {unat (d_start (i_data inode)) ..<
     unat (d_start (i_data inode)) + sector_cnt (nat (inode_length inode))}"

lemma length_inode_bytes [simp]: "length (inode_bytes d inode) = nat (inode_length inode)"
  by (simp add: inode_bytes_def)

lemma nth_inode_bytes: "k < nat (inode_length inode) \<Longrightarrow> inode_bytes d inode ! k = byte_at d inode k"
  by (simp add: inode_bytes_def)

lemma sector_index:
  assumes "inode_on d inode" "k < nat (inode_length inode)"
  shows "unat (d_start (i_data inode) + of_nat (k div 512)) = unat (d_start (i_data inode)) + k div 512"
    and "d_start (i_data inode) + of_nat (k div 512) < blk_size d"
    and "unat (d_start (i_data inode)) + k div 512 \<in> inode_sectors inode"
proof -
  have k: "k div 512 < sector_cnt (nat (inode_length inode))"
    using assms(2) unfolding sector_cnt_def by linarith
  then have lt: "unat (d_start (i_data inode)) + k div 512 < unat (blk_size d)"
    using assms(1) unfolding inode_on_def by linarith
  then show u: "unat (d_start (i_data inode) + of_nat (k div 512)) = unat (d_start (i_data inode)) + k div 512"
    using unat_u32_less[of "blk_size d"] by (intro unat_add_of_nat) linarith
  show "d_start (i_data inode) + of_nat (k div 512) < blk_size d"
    unfolding word_less_nat_alt u by (rule lt)
  show "unat (d_start (i_data inode)) + k div 512 \<in> inode_sectors inode"
    using k by (simp add: inode_sectors_def)
qed

text \<open>The chunk of an iteration: inside one sector and inside the inode.\<close>

definition chunk_len :: "inode \<Rightarrow> int \<Rightarrow> nat \<Rightarrow> nat" where
  "chunk_len inode sz ofs = min (nat sz) (min (nat (inode_length inode) - ofs) (512 - ofs mod 512))"

lemma int_sector [simp]: "SECTOR = 512"
  by (simp add: BLOCK_SECTOR_SIZE_def)

lemma sdiv_512: "int k sdiv 512 = int (k div 512)"
  by (cases "k = 0") (simp_all add: signed_divide_int_def zdiv_int)

lemma smod_512: "int k smod 512 = int (k mod 512)"
  by (cases "k = 0") (simp_all add: signed_modulo_int_def zmod_int sdiv_512 zdiv_int minus_div_mult_eq_mod)

lemma next_chunk_inside:
  assumes "inode_on d inode" "ofs < nat (inode_length inode)" "sz > 0"
  shows "next_chunk inode sz (int ofs) = Some (d_start (i_data inode) + of_nat (ofs div 512),
     int (ofs mod 512), int (512 - ofs mod 512), int (chunk_len inode sz ofs))"
    and "0 < chunk_len inode sz ofs"
proof -
  obtain l where l: "inode_length inode = int l"
    using assms(1) by (metis inode_on_def nonneg_int_cases)
  obtain z where z: "sz = int z" using assms(3) by (metis nonneg_int_cases less_imp_le)
  have lt: "ofs < l" "l < 2147483648" using assms l by (auto simp: inode_on_def)
  have bs: "byte_to_sector inode (int ofs) = d_start (i_data inode) + of_nat (ofs div 512)"
    using lt l by (simp add: byte_to_sector_def inode_length_def[symmetric] sdiv_512)
  have m: "ofs mod 512 < 512" by simp
  then have sl: "512 - int (ofs mod 512) = int (512 - ofs mod 512)" by linarith
  have le: "int l - int ofs = int (l - ofs)" using lt by linarith
  have "i32 (int (l - ofs)) = Some (int (l - ofs))" using lt by simp
  then show "next_chunk inode sz (int ofs) = Some (d_start (i_data inode) + of_nat (ofs div 512),
     int (ofs mod 512), int (512 - ofs mod 512), int (chunk_len inode sz ofs))"
    by (simp add: next_chunk_def bs smod_512 sl l z le Let_def chunk_len_def min_def del: of_nat_diff)
  show "0 < chunk_len inode sz ofs" using lt l assms(3) m unfolding chunk_len_def by simp
qed

lemma next_chunk_end:
  assumes "0 \<le> inode_length inode" "inode_length inode \<le> int ofs" "ofs < 2147483648"
  shows "\<exists>i so sl c. next_chunk inode sz (int ofs) = Some (i, so, sl, c) \<and> c \<le> 0"
  using assms by (simp add: next_chunk_def Let_def)

text \<open>What reading leaves unchanged.\<close>

definition only_read :: "fs \<Rightarrow> fs \<Rightarrow> bool" where
  "only_read s s' \<longleftrightarrow> medium (fs_device s') = medium (fs_device s) \<and> blk_size (fs_device s') = blk_size (fs_device s) \<and>
     blk_type (fs_device s') = blk_type (fs_device s) \<and> inodes s' = inodes s \<and> open_inodes s' = open_inodes s \<and>
     files s' = files s \<and> next_obj s' = next_obj s \<and> free_map s' = free_map s \<and>
     free_map_file s' = free_map_file s \<and> (alloc_fails s = [] \<longrightarrow> alloc_fails s' = [])"

lemma only_read_refl [simp]: "only_read s s"
  by (simp add: only_read_def)

lemma only_read_trans: "only_read s s1 \<Longrightarrow> only_read s1 s2 \<Longrightarrow> only_read s s2"
  by (simp add: only_read_def)

lemma only_read_inode:
  assumes "only_read s s'"
  shows "block_wf (fs_device s') = block_wf (fs_device s)" "inode_on (fs_device s') = inode_on (fs_device s)"
    "inode_bytes (fs_device s') = inode_bytes (fs_device s)" "byte_at (fs_device s') = byte_at (fs_device s)"
  using assms by (auto simp: only_read_def block_wf_def inode_on_def inode_bytes_def byte_at_def fun_eq_iff)

lemma only_read_malloc: "malloc_ok s = (ok, s') \<Longrightarrow> only_read s s' \<and> (alloc_fails s = [] \<longrightarrow> ok)"
  by (auto simp: malloc_ok_def only_read_def split: list.splits)

lemma only_read_get_bounce: "get_bounce b s = (ok, s') \<Longrightarrow> only_read s s' \<and> (alloc_fails s = [] \<longrightarrow> ok)"
  using only_read_malloc by (auto simp: get_bounce_def only_read_refl split: if_splits)

lemma fs_read_sector:
  assumes "block_wf (fs_device s)" "i < blk_size (fs_device s)"
  obtains s' where "fs_read i s = Some (medium (fs_device s) i, s')" "only_read s s'"
    "length (medium (fs_device s) i) = 512"
proof
  let ?s = "s\<lparr>fs_device := (fs_device s)\<lparr>read_cnt := read_cnt (fs_device s) + 1\<rparr>\<rparr>"
  show "fs_read i s = Some (medium (fs_device s) i, ?s)"
    using assms(2) by (simp add: fs_read_def block_read_def check_sector_def not_le)
  show "only_read s ?s" by (simp add: only_read_def)
  show "length (medium (fs_device s) i) = 512" using assms(1) by (simp add: block_wf_def BLOCK_SECTOR_SIZE_def)
qed

subsection \<open>Reading returns the bytes of the inode\<close>

lemma same_sector:
  fixes o1 k :: nat
  assumes "k < 512 - o1 mod 512"
  shows "(o1 + k) div 512 = o1 div 512" "(o1 + k) mod 512 = o1 mod 512 + k"
proof -
  have lt: "o1 mod 512 + k < 512" using assms by simp
  have e: "512 * (o1 div 512) + o1 mod 512 = o1" by simp
  show q: "(o1 + k) div 512 = o1 div 512"
  proof (rule div_nat_eqI)
    show "512 * (o1 div 512) \<le> o1 + k" using e by linarith
    show "o1 + k < 512 * Suc (o1 div 512)" unfolding mult_Suc_right using lt e by linarith
  qed
  have "512 * ((o1 + k) div 512) + (o1 + k) mod 512 = o1 + k" by simp
  with e show "(o1 + k) mod 512 = o1 mod 512 + k" unfolding q by linarith
qed

lemma chunk_bytes:
  assumes "inode_on d inode" "block_wf d" "ofs < nat (inode_length inode)" "c \<le> nat (inode_length inode) - ofs" "c \<le> 512 - ofs mod 512"
  shows "buf_get (ofs mod 512) c (medium d (d_start (i_data inode) + of_nat (ofs div 512))) = take c (drop ofs (inode_bytes d inode))"
proof (rule nth_equalityI)
  let ?x = "medium d (d_start (i_data inode) + of_nat (ofs div 512))"
  have len: "length ?x = 512" using assms(2) by (simp add: block_wf_def BLOCK_SECTOR_SIZE_def)
  have b: "ofs mod 512 + c \<le> length ?x"
    using assms(5) len mod_less_divisor[of 512 ofs] by linarith
  show "length (buf_get (ofs mod 512) c ?x) = length (take c (drop ofs (inode_bytes d inode)))"
    using length_buf_get[OF b] assms(4) by simp
  fix k assume "k < length (buf_get (ofs mod 512) c ?x)"
  then have k: "k < c" using length_buf_get[OF b] by simp
  then have "k < 512 - ofs mod 512" using assms(5) by linarith
  note ss = same_sector[OF this]
  have "buf_get (ofs mod 512) c ?x ! k = ?x ! (ofs mod 512 + k)" using nth_buf_get[OF b k] .
  also have "\<dots> = byte_at d inode (ofs + k)" by (simp add: byte_at_def ss)
  also have "\<dots> = take c (drop ofs (inode_bytes d inode)) ! k"
    using k assms(3,4) by (simp add: nth_inode_bytes)
  finally show "buf_get (ofs mod 512) c ?x ! k = take c (drop ofs (inode_bytes d inode)) ! k" .
qed

lemma take_chunk:
  "c \<le> n \<Longrightarrow> take c (drop ofs xs) @ take (n - c) (drop (ofs + c) xs) = take n (drop ofs xs)"
  by (metis add.commute drop_drop le_add_diff_inverse take_add)

lemma inode_read_loop_stop:
  assumes "0 \<le> inode_length inode" "\<not> (sz > 0 \<and> ofs < nat (inode_length inode))" "ofs < 2147483648"
  shows "inode_read_loop inode bounce sz (int ofs) s = Some ([], s)"
proof (cases "sz > 0")
  case True
  with assms(1,2) have "inode_length inode \<le> int ofs" by simp
  from next_chunk_end[OF assms(1) this assms(3), of sz] True show ?thesis
    by (subst inode_read_loop.simps) auto
qed (subst inode_read_loop.simps, simp)

text \<open>One iteration: a chunk of the data is read, through the bounce buffer or not, unless the
  allocation of that buffer fails.\<close>

lemma inode_read_loop_step:
  assumes on: "inode_on (fs_device s) inode" and wf: "block_wf (fs_device s)"
    and pos: "sz > 0" "ofs < nat (inode_length inode)"
  defines "c \<equiv> chunk_len inode sz ofs"
  shows "\<exists>ok bn s1. only_read s s1 \<and> (alloc_fails s = [] \<longrightarrow> ok) \<and>
    inode_read_loop inode bounce sz (int ofs) s =
      (if ok then do { (bs, s2) \<leftarrow> inode_read_loop inode bn (sz - int c) (int (ofs + c)) s1;
                       Some (take c (drop ofs (inode_bytes (fs_device s) inode)) @ bs, s2) }
       else Some ([], s1))"
proof -
  define i where "i = d_start (i_data inode) + of_nat (ofs div 512)"
  let ?B = "inode_bytes (fs_device s) inode" and ?x = "medium (fs_device s) i"
  note nc = next_chunk_inside[OF on pos(2,1), folded c_def i_def]
  have c: "c \<le> nat (inode_length inode) - ofs" "c \<le> 512 - ofs mod 512"
    using nc(2) by (auto simp: c_def chunk_len_def)
  have ilt: "i < blk_size (fs_device s)" using sector_index(2)[OF on pos(2)] by (simp add: i_def)
  have cb: "buf_get (ofs mod 512) c ?x = take c (drop ofs ?B)"
    using chunk_bytes[OF on wf pos(2) c] by (simp add: i_def)
  show ?thesis
  proof (cases "ofs mod 512 = 0 \<and> c = 512")
    case True
    obtain s1 where s1: "fs_read i s = Some (?x, s1)" "only_read s s1" "length ?x = 512"
      by (rule fs_read_sector[OF wf ilt])
    then have "?x = take c (drop ofs ?B)" using cb True by (simp add: buf_get_def)
    with True pos nc s1 show ?thesis
      by (intro exI[of _ True] exI[of _ bounce] exI[of _ s1]) (subst inode_read_loop.simps, simp)
  next
    case False
    obtain ok s0 where gb: "get_bounce bounce s = (ok, s0)" by fastforce
    note gbr = only_read_get_bounce[OF gb]
    have s0: "block_wf (fs_device s0)" "i < blk_size (fs_device s0)" "medium (fs_device s0) = medium (fs_device s)"
      using gbr ilt wf only_read_inode[of s s0] by (auto simp: only_read_def)
    obtain s1 where s1: "fs_read i s0 = Some (?x, s1)" "only_read s0 s1" "length ?x = 512"
      by (rule fs_read_sector[OF s0(1,2)]) (simp add: s0(3))
    have co: "chunk_of (int (ofs mod 512)) (int c) ?x = Some (take c (drop ofs ?B))"
      using c(2) s1(3) mod_less_divisor[of 512 ofs] by (simp add: chunk_of_def cb)
    have "inode_read_loop inode bounce sz (int ofs) s = (if ok then do {
        (bs, s2) \<leftarrow> inode_read_loop inode True (sz - int c) (int (ofs + c)) s1; Some (take c (drop ofs ?B) @ bs, s2) }
        else Some ([], s0))"
      using pos False nc gb s1(1) co by (subst inode_read_loop.simps) auto
    then show ?thesis
      using gbr only_read_trans[OF _ s1(2)]
      by (intro exI[of _ ok] exI[of _ True] exI[of _ "if ok then s1 else s0"]) simp
  qed
qed

lemma inode_read_loop_bytes:
  assumes "inode_on (fs_device s) inode" "block_wf (fs_device s)" "ofs < 2147483648"
  shows "\<exists>n s'. inode_read_loop inode bounce sz (int ofs) s =
      Some (take n (take (nat sz) (drop ofs (inode_bytes (fs_device s) inode))), s') \<and> only_read s s' \<and>
      (alloc_fails s = [] \<longrightarrow> nat sz \<le> n)"
  using assms
proof (induction "nat sz" arbitrary: bounce sz ofs s rule: less_induct)
  case less
  let ?B = "inode_bytes (fs_device s) inode"
  show ?case
  proof (cases "sz > 0 \<and> ofs < nat (inode_length inode)")
    case False
    have "0 \<le> inode_length inode" using less.prems(1) by (simp add: inode_on_def)
    note stop = inode_read_loop_stop[OF this False less.prems(3), of bounce s]
    have "take (nat sz) (drop ofs ?B) = []" using False by auto
    with stop show ?thesis by (intro exI[of _ "nat sz"] exI[of _ s]) simp
  next
    case True
    then have pos: "sz > 0" "ofs < nat (inode_length inode)" by auto
    define c where "c = chunk_len inode sz ofs"
    have c: "0 < c" "c \<le> nat sz" "c \<le> nat (inode_length inode) - ofs"
      using next_chunk_inside(2)[OF less.prems(1) pos(2,1)] by (auto simp: c_def chunk_len_def)
    have bnd: "ofs + c < 2147483648" using c(3) pos less.prems(1) unfolding inode_on_def by linarith
    have szc: "nat (sz - int c) < nat sz" "nat (sz - int c) = nat sz - c" using c by auto
    obtain ok bn s1 where s1: "only_read s s1" "alloc_fails s = [] \<longrightarrow> ok"
      "inode_read_loop inode bounce sz (int ofs) s =
        (if ok then do { (bs, s2) \<leftarrow> inode_read_loop inode bn (sz - int c) (int (ofs + c)) s1;
                         Some (take c (drop ofs ?B) @ bs, s2) } else Some ([], s1))"
      using inode_read_loop_step[OF less.prems(1,2) pos, of bounce] unfolding c_def by blast
    note same = only_read_inode[OF s1(1)]
    obtain n s2 where n: "inode_read_loop inode bn (sz - int c) (int (ofs + c)) s1 =
        Some (take n (take (nat sz - c) (drop (ofs + c) ?B)), s2)" "only_read s1 s2" "alloc_fails s1 = [] \<longrightarrow> nat sz - c \<le> n"
      using less.hyps[OF szc(1), of s1 "ofs + c" bn] bnd less.prems same szc(2) by auto
    have join: "take c (drop ofs ?B) @ take n (take (nat sz - c) (drop (ofs + c) ?B)) =
        take (c + n) (take (nat sz) (drop ofs ?B))"
      using c(3) by (subst take_chunk[OF c(2), of ofs ?B, symmetric]) simp
    show ?thesis
    proof (cases ok)
      case True
      with s1(3) n(1) join have "inode_read_loop inode bounce sz (int ofs) s = Some (take (c + n) (take (nat sz) (drop ofs ?B)), s2)"
        by simp
      moreover have "only_read s s2" using only_read_trans[OF s1(1) n(2)] .
      moreover have "alloc_fails s = [] \<longrightarrow> nat sz \<le> c + n" using n(3) s1(1) by (auto simp: only_read_def)
      ultimately show ?thesis by blast
    next
      case False
      with s1 show ?thesis by (intro exI[of _ 0] exI[of _ s1]) auto
    qed
  qed
qed

subsection \<open>Writing changes the bytes of the inode and nothing else\<close>

definition only_wrote :: "nat set \<Rightarrow> fs \<Rightarrow> fs \<Rightarrow> bool" where
  "only_wrote S s s' \<longleftrightarrow> (\<forall>i. unat i \<notin> S \<longrightarrow> medium (fs_device s') i = medium (fs_device s) i) \<and>
     blk_size (fs_device s') = blk_size (fs_device s) \<and> (block_wf (fs_device s) \<longrightarrow> block_wf (fs_device s')) \<and>
     inodes s' = inodes s \<and> open_inodes s' = open_inodes s \<and>
     files s' = files s \<and> next_obj s' = next_obj s \<and> free_map s' = free_map s \<and>
     free_map_file s' = free_map_file s \<and> (alloc_fails s = [] \<longrightarrow> alloc_fails s' = [])"

lemma only_wrote_refl [simp]: "only_wrote S s s"
  by (simp add: only_wrote_def)

lemma only_wrote_trans: "only_wrote S s s1 \<Longrightarrow> only_wrote S s1 s2 \<Longrightarrow> only_wrote S s s2"
  by (simp add: only_wrote_def)

lemma only_wrote_read: "only_read s s' \<Longrightarrow> only_wrote S s s'"
  by (simp add: only_wrote_def only_read_def block_wf_def)

lemma only_wrote_mono: "only_wrote S s s' \<Longrightarrow> S \<subseteq> T \<Longrightarrow> only_wrote T s s'"
  by (auto simp: only_wrote_def)

lemma inode_on_cong: "blk_size d' = blk_size d \<Longrightarrow> inode_on d' = inode_on d"
  by (simp add: inode_on_def fun_eq_iff)

text \<open>An inode with other sectors keeps its data.\<close>

lemma only_wrote_other:
  assumes "only_wrote S s s'" "inode_on (fs_device s) inode" "inode_sectors inode \<inter> S = {}"
  shows "inode_bytes (fs_device s') inode = inode_bytes (fs_device s) inode"
proof -
  have "byte_at (fs_device s') inode k = byte_at (fs_device s) inode k" if "k < nat (inode_length inode)" for k
  proof -
    have "unat (d_start (i_data inode) + of_nat (k div 512)) \<notin> S"
      using sector_index(1,3)[OF assms(2) that] assms(3) by auto
    with assms(1) have "medium (fs_device s') (d_start (i_data inode) + of_nat (k div 512)) =
        medium (fs_device s) (d_start (i_data inode) + of_nat (k div 512))" unfolding only_wrote_def by blast
    then show ?thesis by (simp only: byte_at_def)
  qed
  then show ?thesis by (simp add: inode_bytes_def)
qed

lemma nth_sector_put:
  assumes "length x = 512" "length cs \<le> 512 - ofs mod 512" "k div 512 = ofs div 512"
  shows "buf_put (ofs mod 512) cs x ! (k mod 512) =
    (if ofs \<le> k \<and> k < ofs + length cs then cs ! (k - ofs) else x ! (k mod 512))"
proof -
  define q a b where "q = ofs div 512" and "a = ofs mod 512" and "b = k mod 512"
  have e: "ofs = 512 * q + a" "k = 512 * q + b" unfolding q_def a_def b_def
    using assms(3) by (metis mult_div_mod_eq)+
  have m: "a < 512" "b < 512" unfolding a_def b_def by simp_all
  have mc: "a + length cs \<le> length x" using assms(1,2) m unfolding a_def[symmetric] by linarith
  have km: "b < length x" using assms(1) m by simp
  show ?thesis unfolding a_def[symmetric] b_def[symmetric] nth_buf_put[OF mc km] using e by simp
qed

lemma other_sector:
  fixes ofs k c :: nat
  assumes "c \<le> 512 - ofs mod 512" "k div 512 \<noteq> ofs div 512"
  shows "\<not> (ofs \<le> k \<and> k < ofs + c)"
proof
  assume a: "ofs \<le> k \<and> k < ofs + c"
  then have "k - ofs < 512 - ofs mod 512" using assms(1) by linarith
  moreover have "ofs + (k - ofs) = k" using a by simp
  ultimately show False using same_sector(1)[of "k - ofs" ofs] assms(2) by simp
qed

lemma inode_bytes_update:
  assumes on: "inode_on d inode" and wf: "block_wf d" and ofs: "ofs < nat (inode_length inode)"
    and c: "length cs \<le> nat (inode_length inode) - ofs" "length cs \<le> 512 - ofs mod 512"
    and i: "i = d_start (i_data inode) + of_nat (ofs div 512)"
    and d': "medium d' = (medium d)(i := buf_put (ofs mod 512) cs (medium d i))"
  shows "inode_bytes d' inode = buf_put ofs cs (inode_bytes d inode)"
proof (rule nth_equalityI)
  have bc: "ofs + length cs \<le> length (inode_bytes d inode)" using c(1) ofs by simp
  show "length (inode_bytes d' inode) = length (buf_put ofs cs (inode_bytes d inode))" using length_buf_put[OF bc] by simp
  fix k assume "k < length (inode_bytes d' inode)"
  then have k: "k < nat (inode_length inode)" by simp
  have lx: "length (medium d i) = 512" using wf by (simp add: block_wf_def BLOCK_SECTOR_SIZE_def)
  have same: "d_start (i_data inode) + of_nat (k div 512) = i \<longleftrightarrow> k div 512 = ofs div 512"
  proof
    assume a: "d_start (i_data inode) + of_nat (k div 512) = i"
    have "unat i = unat (d_start (i_data inode)) + k div 512" using sector_index(1)[OF on k] unfolding a .
    moreover have "unat i = unat (d_start (i_data inode)) + ofs div 512" using sector_index(1)[OF on ofs] unfolding i[symmetric] .
    ultimately show "k div 512 = ofs div 512" by simp
  qed (simp only: i)
  have "byte_at d' inode k = (if ofs \<le> k \<and> k < ofs + length cs then cs ! (k - ofs) else byte_at d inode k)"
  proof (cases "k div 512 = ofs div 512")
    case True
    then show ?thesis using nth_sector_put[OF lx c(2) True] same d' by (simp add: byte_at_def)
  next
    case False
    then show ?thesis using other_sector[OF c(2) False] same d' by (auto simp: byte_at_def)
  qed
  with nth_buf_put[OF bc, of k] k show "inode_bytes d' inode ! k = buf_put ofs cs (inode_bytes d inode) ! k"
    by (simp add: nth_inode_bytes)
qed

lemma fs_write_chunk:
  assumes on: "inode_on (fs_device s) inode" and wf: "block_wf (fs_device s)" and ofs: "ofs < nat (inode_length inode)"
    and c: "length cs \<le> nat (inode_length inode) - ofs" "length cs \<le> 512 - ofs mod 512"
    and i: "i = d_start (i_data inode) + of_nat (ofs div 512)"
  shows "\<exists>s'. fs_write i (buf_put (ofs mod 512) cs (medium (fs_device s) i)) s = Some s' \<and>
     only_wrote (inode_sectors inode) s s' \<and>
     inode_bytes (fs_device s') inode = buf_put ofs cs (inode_bytes (fs_device s) inode)"
proof -
  let ?x = "medium (fs_device s) i"
  let ?y = "buf_put (ofs mod 512) cs ?x"
  have "ofs mod 512 < 512" by simp
  moreover have lx: "length ?x = 512" using wf by (simp add: block_wf_def BLOCK_SECTOR_SIZE_def)
  ultimately have "ofs mod 512 + length cs \<le> length ?x" using c(2) by linarith
  then have ly: "length ?y = 512" using length_buf_put[of "ofs mod 512" cs ?x] lx by simp
  note si = sector_index[OF on ofs, folded i]
  define s' where "s' = s\<lparr>fs_device := (fs_device s)\<lparr>medium := (medium (fs_device s))(i := ?y), write_cnt := write_cnt (fs_device s) + 1\<rparr>\<rparr>"
  have w: "fs_write i ?y s = Some s'"
    using si(2) ly wf by (simp add: s'_def fs_write_def block_write_def check_sector_def block_wf_def BLOCK_SECTOR_SIZE_def)
  have "block_wf (fs_device s')" using wf ly by (simp add: s'_def block_wf_def BLOCK_SECTOR_SIZE_def)
  then have "only_wrote (inode_sectors inode) s s'"
    using si(1,3) by (auto simp: only_wrote_def s'_def)
  moreover have "inode_bytes (fs_device s') inode = buf_put ofs cs (inode_bytes (fs_device s) inode)"
    by (rule inode_bytes_update[OF on wf ofs c i]) (simp add: s'_def)
  ultimately show ?thesis using w by blast
qed

lemma inode_write_loop_stop:
  assumes "0 \<le> inode_length inode" "\<not> (sz > 0 \<and> ofs < nat (inode_length inode))" "ofs < 2147483648"
  shows "inode_write_loop inode bounce buffer sz (int ofs) s = Some (0, s)"
proof (cases "sz > 0")
  case True
  with assms(1,2) have "inode_length inode \<le> int ofs" by simp
  from next_chunk_end[OF assms(1) this assms(3), of sz] True show ?thesis
    by (subst inode_write_loop.simps) auto
qed (subst inode_write_loop.simps, simp)

lemma chunk_of_front: "c \<le> length buffer \<Longrightarrow> chunk_of 0 (int c) buffer = Some (take c buffer)"
  by (simp add: chunk_of_def buf_get_def)

text \<open>One iteration. The branch of the code that starts from a sector of zeros is never taken: a
  chunk that fills a sector is written directly.\<close>

lemma inode_write_loop_step:
  assumes on: "inode_on (fs_device s) inode" and wf: "block_wf (fs_device s)"
    and pos: "sz > 0" "ofs < nat (inode_length inode)" and buf: "nat sz \<le> length buffer"
  defines "c \<equiv> chunk_len inode sz ofs"
  shows "\<exists>ok bn s1. only_wrote (inode_sectors inode) s s1 \<and> (alloc_fails s = [] \<longrightarrow> ok) \<and>
    inode_bytes (fs_device s1) inode = (if ok then buf_put ofs (take c buffer) (inode_bytes (fs_device s) inode)
                                        else inode_bytes (fs_device s) inode) \<and>
    inode_write_loop inode bounce buffer sz (int ofs) s =
      (if ok then do { (n, s2) \<leftarrow> inode_write_loop inode bn (drop c buffer) (sz - int c) (int (ofs + c)) s1;
                       Some (int c + n, s2) }
       else Some (0, s1))"
proof -
  define i where "i = d_start (i_data inode) + of_nat (ofs div 512)"
  note nc = next_chunk_inside[OF on pos(2,1), folded c_def i_def]
  have c: "c \<le> nat (inode_length inode) - ofs" "c \<le> 512 - ofs mod 512" "c \<le> length buffer"
    using buf by (auto simp: c_def chunk_len_def min_le_iff_disj)
  have lc: "length (take c buffer) = c" using c(3) by simp
  have co: "chunk_of 0 (int c) buffer = Some (take c buffer)" using c(3) by (rule chunk_of_front)
  have ilt: "i < blk_size (fs_device s)" using sector_index(2)[OF on pos(2)] by (simp add: i_def)
  have lx: "length (medium (fs_device s) i) = 512" using wf by (simp add: block_wf_def BLOCK_SECTOR_SIZE_def)
  have wc: "\<exists>s'. fs_write i (buf_put (ofs mod 512) (take c buffer) (medium (fs_device s) i)) s1 = Some s' \<and>
      only_wrote (inode_sectors inode) s s' \<and>
      inode_bytes (fs_device s') inode = buf_put ofs (take c buffer) (inode_bytes (fs_device s) inode)"
    if r: "only_read s s1" for s1
  proof -
    have "medium (fs_device s1) = medium (fs_device s)" using r by (simp add: only_read_def)
    with fs_write_chunk[of s1 inode ofs "take c buffer" i] only_read_inode[OF r] on wf pos(2) c lc i_def
    obtain s' where "fs_write i (buf_put (ofs mod 512) (take c buffer) (medium (fs_device s) i)) s1 = Some s'"
      "only_wrote (inode_sectors inode) s1 s'"
      "inode_bytes (fs_device s') inode = buf_put ofs (take c buffer) (inode_bytes (fs_device s) inode)" by auto
    then show ?thesis using only_wrote_trans[OF only_wrote_read[OF r]] by blast
  qed
  show ?thesis
  proof (cases "ofs mod 512 = 0 \<and> c = 512")
    case True
    then have "buf_put (ofs mod 512) (take c buffer) (medium (fs_device s) i) = take c buffer"
      using lc lx by (simp add: buf_put_all)
    with wc[OF only_read_refl] obtain s1 where "fs_write i (take c buffer) s = Some s1"
      "only_wrote (inode_sectors inode) s s1"
      "inode_bytes (fs_device s1) inode = buf_put ofs (take c buffer) (inode_bytes (fs_device s) inode)" by auto
    with True pos nc co show ?thesis
      by (intro exI[of _ True] exI[of _ bounce] exI[of _ s1]) (subst inode_write_loop.simps, simp)
  next
    case False
    obtain ok s0 where gb: "get_bounce bounce s = (ok, s0)" by fastforce
    note gbr = only_read_get_bounce[OF gb]
    have s0: "block_wf (fs_device s0)" "i < blk_size (fs_device s0)" "medium (fs_device s0) = medium (fs_device s)"
      using gbr ilt wf only_read_inode[of s s0] by (auto simp: only_read_def)
    obtain s1 where s1: "fs_read i s0 = Some (medium (fs_device s) i, s1)" "only_read s0 s1"
      by (rule fs_read_sector[OF s0(1,2)]) (simp add: s0(3))
    have r1: "only_read s s1" using gbr only_read_trans[OF _ s1(2)] by blast
    obtain s2 where s2: "fs_write i (buf_put (ofs mod 512) (take c buffer) (medium (fs_device s) i)) s1 = Some s2"
      "only_wrote (inode_sectors inode) s s2"
      "inode_bytes (fs_device s2) inode = buf_put ofs (take c buffer) (inode_bytes (fs_device s) inode)"
      using wc[OF r1] by blast
    have m: "ofs mod 512 < 512" by simp
    have rd: "(int (ofs mod 512) > 0 \<or> int c < int (512 - ofs mod 512)) = True"
      using False c(2) by (cases "ofs mod 512 = 0") auto
    have fit: "int (ofs mod 512) + int c \<le> 512" using c(2) m by linarith
    have indirect: "(int (ofs mod 512) = 0 \<and> int c = 512) = False" using False by auto
    have "inode_write_loop inode bounce buffer sz (int ofs) s = (if ok then do {
        (n, s3) \<leftarrow> inode_write_loop inode True (drop c buffer) (sz - int c) (int (ofs + c)) s2; Some (int c + n, s3) }
        else Some (0, s0))"
      using nc(2) fit pos(1) unfolding inode_write_loop.simps[of inode bounce buffer sz "int ofs" s] nc(1) gb
      by (cases ok) (simp_all only: bind.bind_lunit rd indirect s1(1) co s2(1) Let_def prod.case if_True if_False
          not_True_eq_False not_False_eq_True bind_ASSERT nat_int of_nat_add int_sector of_nat_0_le_iff of_nat_le_0_iff simp_thms neq0_conv[symmetric])
    moreover have "only_wrote (inode_sectors inode) s s0" "inode_bytes (fs_device s0) inode = inode_bytes (fs_device s) inode"
      using gbr only_wrote_read only_read_inode(3)[of s s0] by auto
    ultimately show ?thesis
      using gbr s2(2,3) by (intro exI[of _ ok] exI[of _ True] exI[of _ "if ok then s2 else s0"]) simp
  qed
qed

lemma inode_write_loop_bytes:
  assumes "inode_on (fs_device s) inode" "block_wf (fs_device s)" "ofs < 2147483648" "nat sz \<le> length buffer"
  shows "\<exists>n s'. inode_write_loop inode bounce buffer sz (int ofs) s = Some (int n, s') \<and>
      n \<le> min (nat sz) (nat (inode_length inode) - ofs) \<and>
      (alloc_fails s = [] \<longrightarrow> n = min (nat sz) (nat (inode_length inode) - ofs)) \<and>
      only_wrote (inode_sectors inode) s s' \<and>
      inode_bytes (fs_device s') inode = buf_put ofs (take n buffer) (inode_bytes (fs_device s) inode)"
  using assms
proof (induction "nat sz" arbitrary: bounce buffer sz ofs s rule: less_induct)
  case less
  let ?B = "inode_bytes (fs_device s) inode" and ?L = "nat (inode_length inode)"
  show ?case
  proof (cases "sz > 0 \<and> ofs < ?L")
    case False
    have "0 \<le> inode_length inode" using less.prems(1) by (simp add: inode_on_def)
    note stop = inode_write_loop_stop[OF this False less.prems(3), of bounce buffer s]
    have "min (nat sz) (?L - ofs) = 0" using False by auto
    with stop show ?thesis by (intro exI[of _ 0] exI[of _ s]) simp
  next
    case True
    then have pos: "sz > 0" "ofs < ?L" by auto
    define c where "c = chunk_len inode sz ofs"
    have c: "0 < c" "c \<le> nat sz" "c \<le> ?L - ofs"
      using next_chunk_inside(2)[OF less.prems(1) pos(2,1)] by (auto simp: c_def chunk_len_def)
    have bnd: "ofs + c < 2147483648" using c(3) pos less.prems(1) unfolding inode_on_def by linarith
    have szc: "nat (sz - int c) < nat sz" "nat (sz - int c) = nat sz - c" using c by auto
    obtain ok bn s1 where s1: "only_wrote (inode_sectors inode) s s1" "alloc_fails s = [] \<longrightarrow> ok"
      "inode_bytes (fs_device s1) inode = (if ok then buf_put ofs (take c buffer) ?B else ?B)"
      "inode_write_loop inode bounce buffer sz (int ofs) s =
        (if ok then do { (n, s2) \<leftarrow> inode_write_loop inode bn (drop c buffer) (sz - int c) (int (ofs + c)) s1;
                         Some (int c + n, s2) } else Some (0, s1))"
      using inode_write_loop_step[OF less.prems(1,2) pos less.prems(4), of bounce] unfolding c_def by blast
    show ?thesis
    proof (cases ok)
      case True
      have "inode_on (fs_device s1) inode" "block_wf (fs_device s1)"
        using s1(1) less.prems(1,2) inode_on_cong[of "fs_device s1" "fs_device s"] by (auto simp: only_wrote_def)
      moreover have "nat (sz - int c) \<le> length (drop c buffer)" using szc(2) less.prems(4) by simp
      ultimately obtain n s2 where n: "inode_write_loop inode bn (drop c buffer) (sz - int c) (int (ofs + c)) s1 = Some (int n, s2)"
        "n \<le> min (nat sz - c) (?L - (ofs + c))" "alloc_fails s1 = [] \<longrightarrow> n = min (nat sz - c) (?L - (ofs + c))"
        "only_wrote (inode_sectors inode) s1 s2"
        "inode_bytes (fs_device s2) inode = buf_put (ofs + c) (take n (drop c buffer)) (inode_bytes (fs_device s1) inode)"
        using less.hyps[OF szc(1), of s1 "ofs + c" "drop c buffer" bn] bnd szc(2) by auto
      have lc: "length (take c buffer) = c" using c(2) less.prems(4) by simp
      have "ofs + c + n \<le> ?L" "length (take n (drop c buffer)) \<le> n" using n(2) c(3) pos(2) by auto
      then have "ofs + length (take c buffer) + length (take n (drop c buffer)) \<le> length ?B"
        unfolding lc length_inode_bytes by linarith
      then have "inode_bytes (fs_device s2) inode = buf_put ofs (take c buffer @ take n (drop c buffer)) ?B"
        using n(5) s1(3) True lc buf_put_append[of ofs "take c buffer" "take n (drop c buffer)" ?B] by simp
      then have bytes: "inode_bytes (fs_device s2) inode = buf_put ofs (take (c + n) buffer) ?B"
        by (simp add: take_add)
      have "inode_write_loop inode bounce buffer sz (int ofs) s = Some (int (c + n), s2)"
        using s1(4) True n(1) by simp
      moreover have "c + n \<le> min (nat sz) (?L - ofs)" using n(2) c by auto
      moreover have "alloc_fails s = [] \<longrightarrow> alloc_fails s1 = []" using s1(1) by (simp add: only_wrote_def)
      moreover have "c + min (nat sz - c) (?L - (ofs + c)) = min (nat sz) (?L - ofs)"
        unfolding diff_diff_left[symmetric] min_diff using c(2,3) by simp
      then have "alloc_fails s1 = [] \<longrightarrow> c + n = min (nat sz) (?L - ofs)" using n(3) by simp
      ultimately show ?thesis using only_wrote_trans[OF s1(1) n(4)] bytes by blast
    next
      case False
      with s1 show ?thesis by (intro exI[of _ 0] exI[of _ s1]) auto
    qed
  qed
qed

subsection \<open>The two operations\<close>

lemma inode_read_at_bytes:
  assumes "inode_on (fs_device s) inode" "block_wf (fs_device s)" "0 \<le> offset" "offset < 2147483648"
  obtains bs s' where "inode_read_at inode sz offset s = Some (bs, s')" "only_read s s'"
    "\<exists>n. bs = take n (take (nat sz) (drop (nat offset) (inode_bytes (fs_device s) inode)))"
    "alloc_fails s = [] \<longrightarrow> bs = take (nat sz) (drop (nat offset) (inode_bytes (fs_device s) inode))"
proof -
  have "nat offset < 2147483648" using assms(3,4) by simp
  from inode_read_loop_bytes[OF assms(1,2) this, of False sz] assms(3)
  obtain n s' where "inode_read_at inode sz offset s = Some (take n (take (nat sz) (drop (nat offset) (inode_bytes (fs_device s) inode))), s')"
    "only_read s s'" "alloc_fails s = [] \<longrightarrow> nat sz \<le> n" by (auto simp: inode_read_at_def)
  then show thesis by (intro that[of _ s']) auto
qed

lemma inode_write_at_bytes:
  assumes "inode_on (fs_device s) inode" "block_wf (fs_device s)" "0 \<le> offset" "offset < 2147483648"
    "nat sz \<le> length buffer" "i_deny_write_cnt inode = 0"
  obtains n s' where "inode_write_at inode buffer sz offset s = Some (int n, s')"
    "n \<le> min (nat sz) (nat (inode_length inode) - nat offset)"
    "alloc_fails s = [] \<longrightarrow> n = min (nat sz) (nat (inode_length inode) - nat offset)"
    "only_wrote (inode_sectors inode) s s'"
    "inode_bytes (fs_device s') inode = buf_put (nat offset) (take n buffer) (inode_bytes (fs_device s) inode)"
proof -
  have "nat offset < 2147483648" using assms(3,4) by simp
  from inode_write_loop_bytes[OF assms(1,2) this assms(5), of False] assms(3,6) that show thesis
    by (auto simp: inode_write_at_def)
qed

lemma inode_write_at_denied: "i_deny_write_cnt inode \<noteq> 0 \<Longrightarrow> inode_write_at inode buffer sz offset s = Some (0, s)"
  by (simp add: inode_write_at_def)

text \<open>A device of 16 sectors of zeros with an inode of 1000 bytes at sector 4.\<close>

definition demo_device :: block where
  "demo_device = \<lparr>blk_name = ''hda1'', blk_type = BLOCK_FILESYS, blk_size = 16,
     medium = \<lambda>_. replicate 512 0, read_cnt = 0, write_cnt = 0\<rparr>"

definition demo_inode :: inode where
  "demo_inode = \<lparr>i_sector = 3, i_open_cnt = 1, i_removed = False, i_deny_write_cnt = 0,
     i_data = \<lparr>d_start = 4, d_length = 1000, d_magic = 0x494e4f44\<rparr>\<rparr>"

definition demo_inode2 :: inode where
  "demo_inode2 = demo_inode\<lparr>i_sector := 8, i_data := \<lparr>d_start = 9, d_length = 600, d_magic = 0x494e4f44\<rparr>\<rparr>"

definition demo_fs :: fs where
  "demo_fs = \<lparr>fs_device = demo_device, inodes = [0 \<mapsto> demo_inode], open_inodes = [0], files = \<lambda>_. None,
     free_map = \<lparr>bit_cnt = 16, bits = [0xffff]\<rparr>, free_map_file = None, next_obj = 1, alloc_fails = []\<rparr>"

text \<open>C17: whatever an inode held, after a write it holds exactly the bytes written at their place, up
  to the end of the inode, and reads at any position return them; an inode with other sectors reads
  as before. Without failing allocations the number of bytes written and read is the number asked
  for, cut at the end of the inode.\<close>

theorem inode_write_then_read:
  assumes "inode_on (fs_device s) inode" "inode_on (fs_device s) other" "block_wf (fs_device s)" "alloc_fails s = []"
    and "0 \<le> offset" "offset < 2147483648" "0 \<le> sz" "nat sz \<le> length buffer" "i_deny_write_cnt inode = 0"
    and "0 \<le> offset'" "offset' < 2147483648" "inode_sectors inode \<inter> inode_sectors other = {}"
  shows "\<exists>n s' s1 s2. inode_write_at inode buffer sz offset s = Some (int n, s') \<and>
     n = min (nat sz) (nat (inode_length inode) - nat offset) \<and>
     inode_read_at inode sz' offset' s' = Some (take (nat sz') (drop (nat offset')
       (buf_put (nat offset) (take n buffer) (inode_bytes (fs_device s) inode))), s1) \<and>
     inode_read_at other sz' offset' s' = Some (take (nat sz') (drop (nat offset') (inode_bytes (fs_device s) other)), s2)"
proof -
  obtain n s' where w: "inode_write_at inode buffer sz offset s = Some (int n, s')"
    "n = min (nat sz) (nat (inode_length inode) - nat offset)" "only_wrote (inode_sectors inode) s s'"
    "inode_bytes (fs_device s') inode = buf_put (nat offset) (take n buffer) (inode_bytes (fs_device s) inode)"
    by (rule inode_write_at_bytes[OF assms(1,3,5,6,8,9)]) (simp add: assms(4))
  have wf: "block_wf (fs_device s')" "alloc_fails s' = []" "inode_on (fs_device s') = inode_on (fs_device s)"
    using w(3) assms(3,4) inode_on_cong[of "fs_device s'" "fs_device s"] by (auto simp: only_wrote_def)
  have "inode_sectors other \<inter> inode_sectors inode = {}" using assms(12) by blast
  then have ob: "inode_bytes (fs_device s') other = inode_bytes (fs_device s) other"
    by (rule only_wrote_other[OF w(3) assms(2)])
  have on: "inode_on (fs_device s') inode" "inode_on (fs_device s') other" using wf(3) assms(1,2) by simp_all
  obtain s1 where "inode_read_at inode sz' offset' s' = Some (take (nat sz') (drop (nat offset') (inode_bytes (fs_device s') inode)), s1)"
    by (rule inode_read_at_bytes[OF on(1) wf(1) assms(10,11), of sz']) (simp add: wf(2))
  moreover obtain s2 where "inode_read_at other sz' offset' s' = Some (take (nat sz') (drop (nat offset') (inode_bytes (fs_device s') other)), s2)"
    by (rule inode_read_at_bytes[OF on(2) wf(1) assms(10,11), of sz']) (simp add: wf(2))
  ultimately show ?thesis using w(1,2) unfolding w(4) ob by blast
qed

lemma demo_fs_wf: "block_wf (fs_device demo_fs)" "alloc_fails demo_fs = []" "inode_on (fs_device demo_fs) demo_inode"
    "inode_on (fs_device demo_fs) demo_inode2" "inode_sectors demo_inode \<inter> inode_sectors demo_inode2 = {}"
  by (auto simp: demo_fs_def demo_device_def demo_inode_def demo_inode2_def block_wf_def BLOCK_SECTOR_SIZE_def inode_on_def
      inode_length_def sector_cnt_def inode_sectors_def)

theorem inode_write_then_read_witness:
  "\<exists>s' s1 s2. inode_write_at demo_inode [1, 2, 3, 4] 4 998 demo_fs = Some (2, s') \<and>
     inode_read_at demo_inode 10 997 s' = Some ([0, 1, 2], s1) \<and> inode_read_at demo_inode2 2 0 s' = Some ([0, 0], s2)"
proof -
  have l: "inode_length demo_inode = 1000" "inode_length demo_inode2 = 600"
    by (simp_all add: demo_inode_def demo_inode2_def inode_length_def)
  have z: "inode_bytes (fs_device demo_fs) i = replicate (nat (inode_length i)) 0" for i
    by (rule nth_equalityI) (simp_all add: nth_inode_bytes byte_at_def demo_fs_def demo_device_def)
  have "i_deny_write_cnt demo_inode = 0" by (simp add: demo_inode_def)
  from inode_write_then_read[OF demo_fs_wf(3,4,1,2) _ _ _ _ this _ _ demo_fs_wf(5), of 998 4 "[1, 2, 3, 4]" 997 10]
    inode_write_then_read[OF demo_fs_wf(3,4,1,2) _ _ _ _ this _ _ demo_fs_wf(5), of 998 4 "[1, 2, 3, 4]" 0 2]
  show ?thesis
    by (auto simp: l z buf_put_def numeral_2_eq_2)
qed

end
