(* ===== verification/Free_Map.thy ===== *)
theory Free_Map
  imports Inode_Io Run_Allocator
begin

section \<open>The free map\<close>

text \<open>
  Models src/pintos/src/filesys/free-map.c together with the functions it needs to store the map in
  a file: \<open>file_read_at\<close> and \<open>file_write_at\<close> of file.c, and \<open>bitmap_file_size\<close>, \<open>bitmap_read\<close> and
  \<open>bitmap_write\<close> of bitmap.c. The functions that open and create the map file are in theory File.
\<close>

definition FREE_MAP_SECTOR :: u32 where "FREE_MAP_SECTOR = 0"
definition ROOT_DIR_SECTOR :: u32 where "ROOT_DIR_SECTOR = 1"

subsection \<open>Files at a given offset\<close>

definition file_read_at :: "obj \<Rightarrow> int \<Rightarrow> int \<Rightarrow> fs \<Rightarrow> (u8 list \<times> fs) option" where
  "file_read_at f sz file_ofs s = do {
     file \<leftarrow> files s f;
     inode \<leftarrow> inodes s (f_inode file);
     inode_read_at inode sz file_ofs s
   }"

definition file_write_at :: "obj \<Rightarrow> u8 list \<Rightarrow> int \<Rightarrow> int \<Rightarrow> fs \<Rightarrow> (int \<times> fs) option" where
  "file_write_at f buffer sz file_ofs s = do {
     file \<leftarrow> files s f;
     inode \<leftarrow> inodes s (f_inode file);
     inode_write_at inode buffer sz file_ofs s
   }"

subsection \<open>Bitmaps in files\<close>

definition bitmap_bytes :: "bitmap \<Rightarrow> u8 list" where
  "bitmap_bytes b = concat (map u32_bytes (bits b))"

fun words_of :: "u8 list \<Rightarrow> u32 list" where
  "words_of (b0 # b1 # b2 # b3 # bs) = u32_of_bytes [b0, b1, b2, b3] # words_of bs"
| "words_of _ = []"

definition bitmap_file_size :: "bitmap \<Rightarrow> u32" where
  "bitmap_file_size b = byte_cnt (bit_cnt b)"

definition bitmap_read :: "bitmap \<Rightarrow> obj \<Rightarrow> fs \<Rightarrow> (bool \<times> bitmap \<times> fs) option" where
  "bitmap_read b f s =
     (if bit_cnt b > 0 then do {
        let sz = sint (byte_cnt (bit_cnt b));
        (bs, s) \<leftarrow> file_read_at f sz 0 s;
        let b = b\<lparr>bits := words_of (bs @ drop (length bs) (bitmap_bytes b))\<rparr>;
        b \<leftarrow> bits_modify b (elem_cnt (bit_cnt b) - 1) (\<lambda>e. e AND last_mask b);
        Some (int (length bs) = sz, b, s)
      } else Some (True, b, s))"

definition bitmap_write :: "bitmap \<Rightarrow> obj \<Rightarrow> fs \<Rightarrow> (bool \<times> fs) option" where
  "bitmap_write b f s = do {
     let sz = sint (byte_cnt (bit_cnt b));
     (n, s) \<leftarrow> file_write_at f (bitmap_bytes b) sz 0 s;
     Some (n = sz, s)
   }"

subsection \<open>The operations\<close>

text \<open>\<open>junk\<close> is what the memory allocated for the bits contains.\<close>

definition free_map_init :: "u32 list \<Rightarrow> fs \<Rightarrow> fs option" where
  "free_map_init junk s = do {
     let (ok1, s) = malloc_ok s;
     let (ok2, s) = (if ok1 then malloc_ok s else (False, s));
     created \<leftarrow> bitmap_create ok1 (if ok2 then Some junk else None) (block_size (fs_device s));
     m \<leftarrow> created;
     m \<leftarrow> bitmap_mark m FREE_MAP_SECTOR;
     m \<leftarrow> bitmap_mark m ROOT_DIR_SECTOR;
     Some (s\<lparr>free_map := m\<rparr>)
   }"

text \<open>The result is the first sector, or \<open>None\<close> for the result \<open>false\<close>.\<close>

definition free_map_allocate :: "u32 \<Rightarrow> fs \<Rightarrow> (u32 option \<times> fs) option" where
  "free_map_allocate cnt s = do {
     (sector, m) \<leftarrow> bitmap_scan_and_flip (free_map s) 0 cnt False;
     let s = s\<lparr>free_map := m\<rparr>;
     if sector = BITMAP_ERROR then Some (None, s)
     else case free_map_file s of None \<Rightarrow> Some (Some sector, s)
     | Some f \<Rightarrow> do {
         (ok, s) \<leftarrow> bitmap_write m f s;
         if ok then Some (Some sector, s)
         else do {
           m \<leftarrow> bitmap_set_multiple m sector cnt False;
           Some (None, s\<lparr>free_map := m\<rparr>)
         }
       }
   }"

definition free_map_release :: "u32 \<Rightarrow> u32 \<Rightarrow> fs \<Rightarrow> fs option" where
  "free_map_release sector cnt s = do {
     all \<leftarrow> bitmap_all (free_map s) sector cnt;
     ASSERT all;
     m \<leftarrow> bitmap_set_multiple (free_map s) sector cnt False;
     let s = s\<lparr>free_map := m\<rparr>;
     f \<leftarrow> free_map_file s;
     (ok, s) \<leftarrow> bitmap_write m f s;
     Some s
   }"

subsection \<open>Storing a bitmap in a file and reading it back\<close>

lemma length_bitmap_bytes: "length (bitmap_bytes b) = 4 * length (bits b)"
  by (simp add: bitmap_bytes_def length_concat comp_def sum_list_triv)

lemma words_of_append: "words_of (u32_bytes x @ bs) = x # words_of bs"
proof -
  have "u32_of_bytes (u32_bytes x @ []) = x" by (rule u32_of_bytes_u32_bytes)
  then show ?thesis by (simp add: u32_bytes_def)
qed

lemma words_of_bytes: "words_of (concat (map u32_bytes xs)) = xs"
  by (induction xs) (simp_all add: words_of_append)

lemma byte_cnt_small:
  assumes "n \<le> 0xffffffe0"
  shows "unat (byte_cnt n) = 4 * unat (elem_cnt n)" "sint (byte_cnt n) = int (unat (byte_cnt n))" "unat (byte_cnt n) < 2147483648"
proof -
  have "unat n \<le> 4294967264" using assms by (simp add: word_le_nat_alt)
  then have e: "unat (elem_cnt n) \<le> 134217727" using unat_elem_cnt[OF assms] by linarith
  then show u: "unat (byte_cnt n) = 4 * unat (elem_cnt n)"
    by (simp add: byte_cnt_def unat_word_ariths(2))
  with e show lt: "unat (byte_cnt n) < 2147483648" by linarith
  then show "sint (byte_cnt n) = int (unat (byte_cnt n))"
    by (rule sint_small)
qed

lemma bitmap_wf_bytes: "bitmap_wf b \<Longrightarrow> length (bitmap_bytes b) = unat (byte_cnt (bit_cnt b))"
  using byte_cnt_small(1)[of "bit_cnt b"] by (simp add: bitmap_wf_def length_bitmap_bytes)

lemma bit_last_mask:
  assumes "k < 32" "unat (bit_cnt b) mod 32 = 0 \<or> k < unat (bit_cnt b) mod 32"
  shows "bit (last_mask b) k"
proof -
  let ?r = "bit_cnt b mod 32"
  have u: "unat ?r = unat (bit_cnt b) mod 32" by (simp add: unat_mod)
  have lm: "last_mask b = (if ?r \<noteq> 0 then mask (unat ?r) else - 1)"
    unfolding last_mask_def ELEM_BITS_def Let_def by (simp only: mask_eq_exp_minus_1 push_bit_eq_mult mult_1)
  show ?thesis
  proof (cases "?r = 0")
    case True
    then show ?thesis unfolding lm using assms(1) by simp
  next
    case False
    then have "unat ?r \<noteq> 0" by (simp only: unat_eq_0 not_False_eq_True)
    then have "k < unat ?r" using assms(2) unfolding u by simp
    then show ?thesis unfolding lm using False assms(1) by (simp only: if_True not_False_eq_True bit_mask_iff) simp
  qed
qed

lemma last_elem_index:
  fixes n i :: nat
  assumes "i < n" "i div 32 = (n + 31) div 32 - 1"
  shows "n mod 32 = 0 \<or> i mod 32 < n mod 32"
proof (rule disjCI)
  assume "\<not> i mod 32 < n mod 32"
  define q r where "q = n div 32" and "r = n mod 32"
  have n: "n = 32 * q + r" "r < 32" unfolding q_def r_def by simp_all
  show "n mod 32 = 0"
  proof (rule ccontr)
    assume "n mod 32 \<noteq> 0"
    then have r: "0 < r" by (simp add: r_def)
    have "(n + 31) div 32 = q + 1"
      by (rule div_nat_eqI) (use n r in simp_all)
    with assms(2) have "i div 32 = q" by simp
    then have "i = 32 * q + i mod 32" by (metis mult_div_mod_eq)
    moreover have "r \<le> i mod 32" using \<open>\<not> i mod 32 < n mod 32\<close> by (simp add: r_def)
    ultimately show False using assms(1) n(1) by linarith
  qed
qed

text \<open>Masking the last element keeps every bit of the bitmap.\<close>

lemma mask_last_bits_of:
  assumes wf: "bitmap_wf b" and pos: "bit_cnt b > 0"
  shows "\<exists>b'. bits_modify b (elem_cnt (bit_cnt b) - 1) (\<lambda>e. e AND last_mask b) = Some b' \<and>
     bitmap_wf b' \<and> bit_cnt b' = bit_cnt b \<and> bits_of b' = bits_of b"
proof -
  let ?n = "unat (bit_cnt b)" and ?l = "elem_cnt (bit_cnt b) - 1"
  have le: "bit_cnt b \<le> 0xffffffe0" using wf by (simp add: bitmap_wf_def)
  have np: "0 < ?n" using pos by (simp add: word_less_nat_alt)
  have ec: "unat (elem_cnt (bit_cnt b)) = (?n + 31) div 32" by (rule unat_elem_cnt[OF le])
  have gt: "0 < (?n + 31) div 32" using np by linarith
  then have "elem_cnt (bit_cnt b) \<noteq> 0" using ec by (metis less_irrefl unat_0)
  then have "1 \<le> elem_cnt (bit_cnt b)" by (simp only: word_neq_0_conv) (simp add: word_le_nat_alt word_less_nat_alt)
  then have ul: "unat ?l = (?n + 31) div 32 - 1" using unat_sub[of 1 "elem_cnt (bit_cnt b)"] ec by simp
  have len: "length (bits b) = (?n + 31) div 32" using wf ec by (simp add: bitmap_wf_def)
  let ?b = "b\<lparr>bits := (bits b)[unat ?l := bits b ! unat ?l AND last_mask b]\<rparr>"
  have m: "bits_modify b ?l (\<lambda>e. e AND last_mask b) = Some ?b"
    using ul len gt by (simp add: bits_modify_def bits_read_def)
  have "bit (bits ?b ! (i div 32)) (i mod 32) = bit (bits b ! (i div 32)) (i mod 32)" if i: "i < ?n" for i
  proof (cases "i div 32 = unat ?l")
    case True
    have q: "i div 32 = (?n + 31) div 32 - 1" using True ul by simp
    have "?n mod 32 = 0 \<or> i mod 32 < ?n mod 32" using last_elem_index[OF i q] .
    then have "bit (last_mask b) (i mod 32)" by (intro bit_last_mask) simp_all
    moreover have "i div 32 < length (bits b)" using q len gt by linarith
    ultimately show ?thesis using True by (simp add: bit_simps)
  next
    case False
    then show ?thesis by simp
  qed
  then have "bits_of ?b = bits_of b" unfolding bits_of_def by simp
  moreover have "bitmap_wf ?b" using wf by (simp add: bitmap_wf_def)
  ultimately show ?thesis using m by (intro exI[of _ ?b]) simp
qed

lemma file_write_at_bytes:
  assumes "files s f = Some fl" "inodes s (f_inode fl) = Some inode" "inode_on (fs_device s) inode"
    "block_wf (fs_device s)" "i_deny_write_cnt inode = 0" "alloc_fails s = []"
    "length buffer = nat (inode_length inode)"
  shows "\<exists>s'. file_write_at f buffer (inode_length inode) 0 s = Some (inode_length inode, s') \<and>
     only_wrote (inode_sectors inode) s s' \<and> inode_bytes (fs_device s') inode = buffer"
proof -
  have pos: "0 \<le> inode_length inode" using assms(3) by (simp add: inode_on_def)
  have len: "nat (inode_length inode) \<le> length buffer" using assms(7) by simp
  obtain n s' where "inode_write_at inode buffer (inode_length inode) 0 s = Some (int n, s')"
    "n = nat (inode_length inode)" "only_wrote (inode_sectors inode) s s'"
    "inode_bytes (fs_device s') inode = buf_put 0 (take n buffer) (inode_bytes (fs_device s) inode)"
    by (rule inode_write_at_bytes[OF assms(3,4) _ _ len assms(5), of 0]) (auto simp: assms(6))
  with assms pos show ?thesis by (auto simp: file_write_at_def buf_put_all)
qed

text \<open>The file \<open>f\<close>, open on \<open>inode\<close>, can hold the bitmap \<open>b\<close>.\<close>

definition map_file :: "fs \<Rightarrow> obj \<Rightarrow> inode \<Rightarrow> bitmap \<Rightarrow> bool" where
  "map_file s f inode b \<longleftrightarrow> (\<exists>fl. files s f = Some fl \<and> inodes s (f_inode fl) = Some inode) \<and>
     inode_on (fs_device s) inode \<and> i_deny_write_cnt inode = 0 \<and>
     inode_length inode = int (unat (byte_cnt (bit_cnt b)))"

lemma bitmap_write_file:
  assumes "bitmap_wf b" "map_file s f inode b" "block_wf (fs_device s)" "alloc_fails s = []"
  shows "\<exists>s'. bitmap_write b f s = Some (True, s') \<and> only_wrote (inode_sectors inode) s s' \<and>
     inode_bytes (fs_device s') inode = bitmap_bytes b"
proof -
  have b: "bit_cnt b \<le> 0xffffffe0" using assms(1) by (simp add: bitmap_wf_def)
  obtain fl where fl: "files s f = Some fl" "inodes s (f_inode fl) = Some inode"
    using assms(2) by (auto simp: map_file_def)
  have m: "inode_on (fs_device s) inode" "i_deny_write_cnt inode = 0"
    "inode_length inode = int (unat (byte_cnt (bit_cnt b)))" using assms(2) by (auto simp: map_file_def)
  have len: "length (bitmap_bytes b) = nat (inode_length inode)" using bitmap_wf_bytes[OF assms(1)] m(3) by simp
  from file_write_at_bytes[OF fl m(1) assms(3) m(2) assms(4) len] show ?thesis
    by (auto simp: bitmap_write_def byte_cnt_small(2)[OF b] m(3))
qed

lemma bitmap_read_file:
  assumes b: "bitmap_wf b" and b0: "bitmap_wf b0" "bit_cnt b0 = bit_cnt b" and f: "map_file s f inode b"
    and wf: "block_wf (fs_device s)" "alloc_fails s = []" and bytes: "inode_bytes (fs_device s) inode = bitmap_bytes b"
  shows "\<exists>b' s'. bitmap_read b0 f s = Some (True, b', s') \<and> only_read s s' \<and>
     bitmap_wf b' \<and> bit_cnt b' = bit_cnt b \<and> bits_of b' = bits_of b"
proof (cases "bit_cnt b > 0")
  case True
  have le: "bit_cnt b \<le> 0xffffffe0" using b by (simp add: bitmap_wf_def)
  obtain fl where fl: "files s f = Some fl" "inodes s (f_inode fl) = Some inode"
    using f by (auto simp: map_file_def)
  have m: "inode_on (fs_device s) inode" "inode_length inode = int (unat (byte_cnt (bit_cnt b)))"
    using f by (auto simp: map_file_def)
  have len: "length (bitmap_bytes b) = unat (byte_cnt (bit_cnt b))" "length (bitmap_bytes b0) = unat (byte_cnt (bit_cnt b))"
    using bitmap_wf_bytes[OF b] bitmap_wf_bytes[OF b0(1)] b0(2) by simp_all
  obtain s' where r: "inode_read_at inode (sint (byte_cnt (bit_cnt b))) 0 s = Some (bitmap_bytes b, s')" "only_read s s'"
    by (rule inode_read_at_bytes[OF m(1) wf(1), of 0 "sint (byte_cnt (bit_cnt b))"])
       (auto simp: wf(2) bytes len byte_cnt_small(2)[OF le])
  let ?b = "b0\<lparr>bits := words_of (bitmap_bytes b @ drop (length (bitmap_bytes b)) (bitmap_bytes b0))\<rparr>"
  have bb: "bits ?b = bits b" "bit_cnt ?b = bit_cnt b"
    using len b0(2) by (simp_all add: bitmap_bytes_def words_of_bytes)
  then have wfb: "bitmap_wf ?b" and same: "bits_of ?b = bits_of b" and pos: "bit_cnt ?b > 0"
    using b True by (simp_all add: bitmap_wf_def bits_of_def)
  obtain b' where "bits_modify ?b (elem_cnt (bit_cnt ?b) - 1) (\<lambda>e. e AND last_mask ?b) = Some b'"
    "bitmap_wf b'" "bit_cnt b' = bit_cnt b" "bits_of b' = bits_of b"
    using mask_last_bits_of[OF wfb pos] same bb(2) by auto
  then show ?thesis
    using r True b0(2) fl len byte_cnt_small(2)[OF le] by (simp add: bitmap_read_def file_read_at_def Let_def)
next
  case False
  then have "unat (bit_cnt b) = 0" by (simp add: word_gt_0)
  with False b0 b show ?thesis by (auto simp: bitmap_read_def bits_of_def)
qed

subsection \<open>The free map is an allocator, and its file is up to date\<close>

definition free_map_wf :: "fs \<Rightarrow> bool" where
  "free_map_wf s \<longleftrightarrow> block_wf (fs_device s) \<and> bitmap_wf (free_map s) \<and>
     bit_cnt (free_map s) = blk_size (fs_device s) \<and> alloc_fails s = [] \<and>
     (\<exists>f inode. free_map_file s = Some f \<and> map_file s f inode (free_map s))"

definition map_on_disk :: "fs \<Rightarrow> bool" where
  "map_on_disk s \<longleftrightarrow> (\<exists>f inode. free_map_file s = Some f \<and> map_file s f inode (free_map s) \<and>
     inode_bytes (fs_device s) inode = bitmap_bytes (free_map s))"

abbreviation free_sectors :: "fs \<Rightarrow> nat set" where
  "free_sectors s \<equiv> free_bits False (free_map s)"

text \<open>The sectors that hold the map.\<close>

definition map_sectors :: "fs \<Rightarrow> nat set" where
  "map_sectors s = (case free_map_file s of None \<Rightarrow> {} | Some f \<Rightarrow>
     (case files s f of None \<Rightarrow> {} | Some fl \<Rightarrow>
       (case inodes s (f_inode fl) of None \<Rightarrow> {} | Some inode \<Rightarrow> inode_sectors inode)))"

lemma map_file_cong:
  "files s' = files s \<Longrightarrow> inodes s' = inodes s \<Longrightarrow> blk_size (fs_device s') = blk_size (fs_device s) \<Longrightarrow>
   bit_cnt b' = bit_cnt b \<Longrightarrow> map_file s' f inode b' = map_file s f inode b"
  by (simp add: map_file_def inode_on_def)

text \<open>Storing a changed map.\<close>

lemma store_map:
  assumes wf: "free_map_wf s" and m: "bitmap_wf m" "bit_cnt m = bit_cnt (free_map s)"
  shows "\<exists>f s'. free_map_file s = Some f \<and> bitmap_write m f (s\<lparr>free_map := m\<rparr>) = Some (True, s') \<and>
     free_map s' = m \<and> free_map_wf s' \<and> map_on_disk s' \<and> only_wrote (map_sectors s) (s\<lparr>free_map := m\<rparr>) s'"
proof -
  obtain f inode where f: "free_map_file s = Some f" "map_file s f inode (free_map s)"
    using wf by (auto simp: free_map_wf_def)
  let ?s = "s\<lparr>free_map := m\<rparr>"
  have mf: "map_file ?s f inode m" using f(2) m(2) map_file_cong[of ?s s m "free_map s" f inode] by simp
  have "block_wf (fs_device ?s)" "alloc_fails ?s = []" using wf by (simp_all add: free_map_wf_def)
  from bitmap_write_file[OF m(1) mf this] obtain s' where s': "bitmap_write m f ?s = Some (True, s')"
    "only_wrote (inode_sectors inode) ?s s'" "inode_bytes (fs_device s') inode = bitmap_bytes m" by blast
  have eqs: "free_map s' = m" "free_map_file s' = Some f" "block_wf (fs_device s')" "alloc_fails s' = []"
    "blk_size (fs_device s') = blk_size (fs_device s)" "files s' = files s" "inodes s' = inodes s"
    using s'(2) f(1) wf by (auto simp: only_wrote_def free_map_wf_def)
  have mf': "map_file s' f inode m" using map_file_cong[of s' ?s m m f inode] mf eqs by simp
  then have "free_map_wf s'" using eqs wf m by (auto simp: free_map_wf_def)
  moreover have "map_on_disk s'" using mf' eqs s'(3) by (auto simp: map_on_disk_def)
  moreover have "map_sectors s = inode_sectors inode" using f by (auto simp: map_sectors_def map_file_def)
  ultimately show ?thesis using s' f eqs by auto
qed

lemma free_map_allocate_cases:
  assumes wf: "free_map_wf s" and c: "c \<noteq> 0"
  obtains (got) i m s' where "free_map_allocate c s = Some (Some i, s')" "i \<noteq> BITMAP_ERROR"
      "region i c \<subseteq> free_sectors s" "free_sectors s' = free_sectors s - region i c"
      "free_map_wf s'" "map_on_disk s'" "only_wrote (map_sectors s) (s\<lparr>free_map := m\<rparr>) s'" "free_map s' = m"
  | (full) "free_map_allocate c s = Some (None, s)" "\<not> (\<exists>k. {k ..< k + unat c} \<subseteq> free_sectors s)"
proof -
  have b: "bitmap_wf (free_map s)" using wf by (simp add: free_map_wf_def)
  obtain i m where im: "bitmap_scan_and_flip (free_map s) 0 c False = Some (i, m)"
    using bitmap_alloc.alloc_total[OF b c] by blast
  show thesis
  proof (cases "i = BITMAP_ERROR")
    case True
    with im bitmap_alloc.alloc_none[OF b c, of False m] show thesis
      by (intro full) (auto simp: free_map_allocate_def)
  next
    case False
    note a = bitmap_alloc.alloc_run[OF b c im False]
    then have bm: "bitmap_wf m" "bit_cnt m = bit_cnt (free_map s)" by (auto simp: lessThan_eq_iff word_unat_eq_iff)
    obtain f s' where s': "free_map_file s = Some f" "bitmap_write m f (s\<lparr>free_map := m\<rparr>) = Some (True, s')"
      "free_map s' = m" "free_map_wf s'" "map_on_disk s'" "only_wrote (map_sectors s) (s\<lparr>free_map := m\<rparr>) s'"
      using store_map[OF wf bm] by blast
    then have "free_map_allocate c s = Some (Some i, s')" using im False by (simp add: free_map_allocate_def)
    with s' a False show thesis by (intro got) auto
  qed
qed

lemma free_map_release_run:
  assumes wf: "free_map_wf s" and c: "c \<noteq> 0" and used: "region i c \<subseteq> {..< unat (blk_size (fs_device s))}"
    "region i c \<inter> free_sectors s = {}"
  obtains m s' where "free_map_release i c s = Some s'" "free_sectors s' = free_sectors s \<union> region i c"
    "free_map_wf s'" "map_on_disk s'" "only_wrote (map_sectors s) (s\<lparr>free_map := m\<rparr>) s'" "free_map s' = m"
proof -
  have b: "bitmap_wf (free_map s)" and cnt: "bit_cnt (free_map s) = blk_size (fs_device s)"
    using wf by (auto simp: free_map_wf_def)
  have within: "region i c \<subseteq> {..< unat (bit_cnt (free_map s))}" using used(1) cnt by simp
  obtain m where m: "bitmap_set_multiple (free_map s) i c False = Some m" "free_sectors s \<union> region i c = free_bits False m"
    "bitmap_wf m" "unat (bit_cnt m) = unat (bit_cnt (free_map s))"
    using bitmap_alloc.release_run[OF b c within used(2)] by (auto simp: lessThan_eq_iff)
  have bm: "bit_cnt m = bit_cnt (free_map s)" using m(4) by (rule unat_inject)
  have le: "unat i + unat c \<le> unat (bit_cnt (free_map s))" using within c by (simp add: region_bound)
  have "bitmap_all (free_map s) i c = Some True"
  proof -
    have "bits_of (free_map s) ! k" if "unat i \<le> k" "k < unat i + unat c" for k
      using used(2) le that by (auto simp: region_def free_bits_def)
    then show ?thesis using bitmap_all_bits_of[OF b le] le by (auto simp: run_at_def)
  qed
  moreover obtain f s' where s': "free_map_file s = Some f" "bitmap_write m f (s\<lparr>free_map := m\<rparr>) = Some (True, s')"
    "free_map s' = m" "free_map_wf s'" "map_on_disk s'" "only_wrote (map_sectors s) (s\<lparr>free_map := m\<rparr>) s'"
    using store_map[OF wf m(3) bm] by blast
  ultimately have "free_map_release i c s = Some s'" using m(1) by (simp add: free_map_release_def)
  with s' m(2) show thesis by (intro that) auto
qed

text \<open>Allocation with \<open>BITMAP_ERROR\<close> as the result for failure, as the interface of allocators has it.\<close>

definition allocate_sectors :: "u32 \<Rightarrow> fs \<Rightarrow> (u32 \<times> fs) option" where
  "allocate_sectors c s = do {
     (r, s) \<leftarrow> free_map_allocate c s;
     Some (case r of Some i \<Rightarrow> i | None \<Rightarrow> BITMAP_ERROR, s)
   }"

lemma only_wrote_blk_size: "only_wrote S s s' \<Longrightarrow> blk_size (fs_device s') = blk_size (fs_device s)"
  by (simp add: only_wrote_def)

interpretation fm: run_allocator free_map_wf "\<lambda>s. {..< unat (blk_size (fs_device s))}" free_sectors
    allocate_sectors free_map_release
proof (unfold_locales, goal_cases)
  case (1 s)
  then show ?case by (auto simp: free_bits_def free_map_wf_def)
next
  case (2 s c)
  then show ?case by (cases rule: free_map_allocate_cases[of s c]) (auto simp: allocate_sectors_def)
next
  case (3 s c i s')
  from 3(1,2) show ?case
  proof (cases rule: free_map_allocate_cases)
    case (got j m s1)
    with 3 have "j = i" "s1 = s'" by (auto simp: allocate_sectors_def)
    with got show ?thesis using only_wrote_blk_size[OF got(7)] by simp
  next
    case full
    with 3 show ?thesis by (simp add: allocate_sectors_def)
  qed
next
  case (4 s c s')
  from 4(1,2) show ?case
  proof (cases rule: free_map_allocate_cases)
    case (got j m s1)
    with 4 show ?thesis by (simp add: allocate_sectors_def)
  next
    case full
    with 4 show ?thesis by (simp add: allocate_sectors_def)
  qed
next
  case (5 s c i)
  obtain m s' where r: "free_map_release i c s = Some s'" "free_sectors s' = free_sectors s \<union> region i c"
    "free_map_wf s'" "map_on_disk s'" "only_wrote (map_sectors s) (s\<lparr>free_map := m\<rparr>) s'" "free_map s' = m"
    by (rule free_map_release_run[OF 5])
  then show ?case using only_wrote_blk_size[OF r(5)] by auto
qed

abbreviation map_session :: "fs \<Rightarrow> fs \<Rightarrow> (u32 \<times> u32) list \<Rightarrow> bool" where
  "map_session \<equiv> session (\<lambda>_ :: unit. allocate_sectors) free_map_release"

lemma session_map_on_disk:
  assumes "map_session s0 s H" "free_map_wf s0" "map_on_disk s0"
  shows "map_on_disk s"
  using assms
proof (induction rule: session.induct)
  case (obtain_run s H c q i s')
  have "free_map_wf s" using fm.shared.session_invariant[OF obtain_run.hyps(1)] obtain_run.prems by blast
  from this obtain_run.hyps(2) show ?case
    by (cases rule: free_map_allocate_cases) (use obtain_run.hyps(3,4) in \<open>auto simp: allocate_sectors_def\<close>)
next
  case (obtain_none s H c q s')
  have "free_map_wf s" using fm.shared.session_invariant[OF obtain_none.hyps(1)] obtain_none.prems by blast
  then have "s' = s" using fm.alloc_none[OF _ obtain_none.hyps(2,3)] by blast
  with obtain_none show ?case by simp
next
  case (give_back s H i c s')
  have c: "c \<noteq> 0" and r: "region i c \<subseteq> {..< unat (blk_size (fs_device s))}" "region i c \<inter> free_sectors s = {}" and wf: "free_map_wf s"
    using fm.shared.session_invariant[OF give_back.hyps(1) give_back.prems(1)] give_back.hyps(2) by blast+
  obtain m s1 where "free_map_release i c s = Some s1" "map_on_disk s1"
    by (rule free_map_release_run[OF wf c r]) blast
  with give_back.hyps(3) show ?case by simp
qed simp

subsection \<open>Properties\<close>

text \<open>The device of 16 sectors with the map of its sectors in sector 2: the first six are in use.\<close>

definition demo_map_inode :: inode where
  "demo_map_inode = \<lparr>i_sector = 0, i_open_cnt = 1, i_removed = False, i_deny_write_cnt = 0,
     i_data = \<lparr>d_start = 2, d_length = 4, d_magic = 0x494e4f44\<rparr>\<rparr>"

definition demo_map_fs :: fs where
  "demo_map_fs = demo_fs\<lparr>
     fs_device := demo_device\<lparr>medium := (\<lambda>_. replicate 512 0)(2 := u32_bytes 0x3f @ replicate 508 0)\<rparr>,
     inodes := [0 \<mapsto> demo_map_inode], files := [1 \<mapsto> \<lparr>f_inode = 0, f_pos = 0, f_deny_write = False\<rparr>],
     free_map := \<lparr>bit_cnt = 16, bits = [0x3f]\<rparr>, free_map_file := Some 1, next_obj := 2\<rparr>"

text \<open>C18: whatever runs of sectors are allocated from the free map and released to it, in any order, as long
  as the memory allocations for writing the map succeed: no two of the runs held at the same time have a
  sector in common, none has a sector that the map says is free, and the map in its file on the disk is the
  map in memory, so that reading the file into a bitmap of the same size gives the same bits.\<close>

theorem free_map_sessions:
  assumes "map_session s0 s H" "free_map_wf s0" "map_on_disk s0" and "bitmap_wf b0" "bit_cnt b0 = bit_cnt (free_map s)"
  shows "disjoint_runs H \<and> (\<forall>(i, c) \<in> set H. region i c \<inter> free_sectors s = {}) \<and> free_map_wf s \<and> map_on_disk s \<and>
     (\<exists>f b' s'. free_map_file s = Some f \<and> bitmap_read b0 f s = Some (True, b', s') \<and> bits_of b' = bits_of (free_map s))"
proof -
  note inv = fm.shared.session_invariant[OF assms(1,2)]
  then have wf: "free_map_wf s" by blast
  have disk: "map_on_disk s" by (rule session_map_on_disk[OF assms(1-3)])
  then obtain f inode where f: "free_map_file s = Some f" "map_file s f inode (free_map s)"
    "inode_bytes (fs_device s) inode = bitmap_bytes (free_map s)"
    by (auto simp: map_on_disk_def)
  have "bitmap_wf (free_map s)" "block_wf (fs_device s)" "alloc_fails s = []" using wf by (auto simp: free_map_wf_def)
  from bitmap_read_file[OF this(1) assms(4,5) f(2) this(2,3) f(3)] f(1) show ?thesis using inv disk by auto
qed

lemma demo_map_wf: "free_map_wf demo_map_fs" "map_on_disk demo_map_fs"
proof -
  have b: "byte_cnt 16 = 4" by (simp add: byte_cnt_def elem_cnt_def ELEM_BITS_def)
  have m: "map_file demo_map_fs 1 demo_map_inode (free_map demo_map_fs)"
    by (simp add: map_file_def demo_map_fs_def demo_map_inode_def inode_on_def inode_length_def sector_cnt_def demo_fs_def demo_device_def b)
  moreover have "bitmap_wf (free_map demo_map_fs)"
    by (simp add: bitmap_wf_def demo_map_fs_def elem_cnt_def ELEM_BITS_def)
  moreover have "block_wf (fs_device demo_map_fs)"
    by (auto simp: block_wf_def BLOCK_SECTOR_SIZE_def demo_map_fs_def demo_device_def)
  ultimately show "free_map_wf demo_map_fs"
    by (auto simp: free_map_wf_def demo_map_fs_def demo_fs_def demo_device_def)
  have "inode_bytes (fs_device demo_map_fs) demo_map_inode = bitmap_bytes (free_map demo_map_fs)"
    by (simp add: inode_bytes_def byte_at_def demo_map_fs_def demo_map_inode_def inode_length_def bitmap_bytes_def upt_rec nth_append u32_bytes_def)
  with m show "map_on_disk demo_map_fs" by (auto simp: map_on_disk_def demo_map_fs_def)
qed

lemma demo_map_free: "free_sectors demo_map_fs = {6 ..< 16}"
proof -
  have "bit (0x3f :: u32) k \<longleftrightarrow> k < 6" if "k < 16" for k
  proof -
    have "(0x3f :: u32) = mask 6" by (simp add: mask_eq_exp_minus_1)
    then show ?thesis using that by (simp only: bit_mask_iff) auto
  qed
  then show ?thesis by (auto simp: free_bits_def nth_bits_of demo_map_fs_def)
qed

lemma demo_map_session:
  "\<exists>s i j. map_session demo_map_fs s [(j, 1), (i, 3)]"
proof -
  let ?S = "map_session demo_map_fs"
  obtain i s1 where i: "allocate_sectors 3 demo_map_fs = Some (i, s1)" "i \<noteq> BITMAP_ERROR"
  proof (cases rule: free_map_allocate_cases[OF demo_map_wf(1), of 3])
    case 3
    have "{6 ..< 6 + unat (3 :: u32)} \<subseteq> free_sectors demo_map_fs" by (simp add: demo_map_free)
    with 3 show ?thesis by blast
  qed (auto simp: allocate_sectors_def intro: that)
  have S1: "?S s1 [(i, 3)]" by (rule session.obtain_run) (use i session.start in auto)
  have wf: "free_map_wf s1" and fr: "free_sectors s1 = {6 ..< 16} - region i 3"
    using fm.alloc_run[OF demo_map_wf(1) _ i] demo_map_free by auto
  have "finite (region i 3)" "card (region i 3) = 3" by (simp_all add: region_def)
  then have "card ({6 ..< 16} :: nat set) - 3 \<le> card (free_sectors s1)"
    unfolding fr using diff_card_le_card_Diff[of "region i 3" "{6 ..< 16}"] by simp
  then have "free_sectors s1 \<noteq> {}" by fastforce
  then obtain k where "k \<in> free_sectors s1" by blast
  obtain j s2 where j: "allocate_sectors 1 s1 = Some (j, s2)" "j \<noteq> BITMAP_ERROR"
  proof (cases rule: free_map_allocate_cases[OF wf, of 1])
    case 3
    have "{k ..< k + unat (1 :: u32)} \<subseteq> free_sectors s1" using \<open>k \<in> free_sectors s1\<close> by simp
    with 3 show ?thesis by blast
  qed (auto simp: allocate_sectors_def intro: that)
  have "?S s2 [(j, 1), (i, 3)]" by (rule session.obtain_run) (use j S1 in auto)
  then show ?thesis by blast
qed

theorem free_map_sessions_witness:
  "\<exists>s i j f b' s'. map_session demo_map_fs s [(j, 1), (i, 3)] \<and> free_map_wf demo_map_fs \<and> map_on_disk demo_map_fs \<and>
     region j 1 \<inter> region i 3 = {} \<and> map_on_disk s \<and>
     free_map_file s = Some f \<and> bitmap_read (free_map s) f s = Some (True, b', s') \<and> bits_of b' = bits_of (free_map s)"
proof -
  obtain s i j where S: "map_session demo_map_fs s [(j, 1), (i, 3)]" using demo_map_session by blast
  have "bitmap_wf (free_map s)" using fm.shared.session_invariant[OF S demo_map_wf(1)] by (simp add: free_map_wf_def)
  from free_map_sessions[OF S demo_map_wf this refl] have "region j 1 \<inter> region i 3 = {}" "map_on_disk s"
    "\<exists>f b' s'. free_map_file s = Some f \<and> bitmap_read (free_map s) f s = Some (True, b', s') \<and> bits_of b' = bits_of (free_map s)"
    by simp_all
  with S demo_map_wf show ?thesis by blast
qed

text \<open>A release does not look at the result of writing the map: if the memory for it is not available, the
  sectors are free in memory and in use on the disk.\<close>

lemma free_map_release_unsaved:
  "\<exists>s'. free_map_release 4 1 (demo_map_fs\<lparr>alloc_fails := [True]\<rparr>) = Some s' \<and> 4 \<in> free_sectors s' \<and> \<not> map_on_disk s'"
proof -
  let ?s = "demo_map_fs\<lparr>alloc_fails := [True]\<rparr>" and ?m = "\<lparr>bit_cnt = 16, bits = [0x2f]\<rparr> :: bitmap"
  let ?s' = "demo_map_fs\<lparr>alloc_fails := [], free_map := ?m\<rparr>"
  have m: "bitmap_all (free_map ?s) 4 1 = Some True" "bitmap_set_multiple (free_map ?s) 4 1 False = Some ?m"
    by (simp_all add: demo_map_fs_def) code_simp+
  have "sint (byte_cnt 16) = 4" by code_simp
  then have w: "bitmap_write ?m 1 (?s\<lparr>free_map := ?m\<rparr>) = Some (False, ?s')"
    by (simp add: bitmap_write_def file_write_at_def demo_map_fs_def demo_map_inode_def inode_write_at_def)
      (subst inode_write_loop.simps, simp add: next_chunk_def inode_length_def i32_def BLOCK_SECTOR_SIZE_def get_bounce_def
        malloc_ok_def Let_def signed_modulo_int_def)
  have "free_map_release 4 1 ?s = Some ?s'"
    using m w by (simp add: free_map_release_def) (simp add: demo_map_fs_def)
  moreover have "4 \<in> free_sectors ?s'"
    by (simp add: free_bits_def nth_bits_of bit_numeral_rec)
  moreover have "\<not> map_on_disk ?s'"
    by (simp add: map_on_disk_def map_file_def demo_map_fs_def demo_map_inode_def inode_bytes_def byte_at_def inode_length_def bitmap_bytes_def
        upt_rec nth_append u32_bytes_def)
  ultimately show ?thesis by blast
qed

end
