(* ===== verification/Inode.thy ===== *)
theory Inode
  imports Free_Map
begin

section \<open>Inodes\<close>

text \<open>
  The rest of src/pintos/src/filesys/inode.c: creating inodes on disk, opening and closing them with
  reference counts, removing them, and denying writes.
\<close>

definition INODE_MAGIC :: u32 where "INODE_MAGIC = 0x494e4f44"

text \<open>The 512 bytes of a \<open>struct inode_disk\<close> with all unused words zero, and reading one.\<close>

definition inode_disk_bytes :: "inode_disk \<Rightarrow> u8 list" where
  "inode_disk_bytes d =
     u32_bytes (d_start d) @ u32_bytes (of_int (d_length d)) @ u32_bytes (d_magic d) @ replicate 500 0"

definition inode_disk_of :: "u8 list \<Rightarrow> inode_disk" where
  "inode_disk_of bs = \<lparr>d_start = u32_of_bytes bs, d_length = sint (u32_of_bytes (drop 4 bs)),
     d_magic = u32_of_bytes (drop 8 bs)\<rparr>"

definition inode_init :: "fs \<Rightarrow> fs" where
  "inode_init s = s\<lparr>open_inodes := []\<rparr>"

definition inode_create :: "u32 \<Rightarrow> int \<Rightarrow> fs \<Rightarrow> (bool \<times> fs) option" where
  "inode_create sector len s = do {
     ASSERT (len \<ge> 0);
     let (ok, s) = malloc_ok s;
     if \<not> ok then Some (False, s)
     else do {
       sectors \<leftarrow> bytes_to_sectors len;
       (start, s) \<leftarrow> free_map_allocate sectors s;
       case start of None \<Rightarrow> Some (False, s)
       | Some start \<Rightarrow> do {
           s \<leftarrow> fs_write sector
                 (inode_disk_bytes \<lparr>d_start = start, d_length = len, d_magic = INODE_MAGIC\<rparr>) s;
           s \<leftarrow> for_u32 0 sectors (\<lambda>i s. fs_write (start + i) (replicate BLOCK_SECTOR_SIZE 0) s) s;
           Some (True, s)
         }
     }
   }"

definition set_inode :: "obj \<Rightarrow> inode \<Rightarrow> fs \<Rightarrow> fs" where
  "set_inode p inode s = s\<lparr>inodes := (inodes s)(p := Some inode)\<rparr>"

definition inode_reopen :: "obj option \<Rightarrow> fs \<Rightarrow> (obj option \<times> fs) option" where
  "inode_reopen p s = (case p of None \<Rightarrow> Some (None, s)
     | Some q \<Rightarrow> do {
         inode \<leftarrow> inodes s q;
         n \<leftarrow> i32 (i_open_cnt inode + 1);
         Some (Some q, set_inode q (inode\<lparr>i_open_cnt := n\<rparr>) s)
       })"

text \<open>The loop of \<open>inode_open\<close> over the open inodes \<open>ps\<close>.\<close>

fun find_open :: "u32 \<Rightarrow> obj list \<Rightarrow> fs \<Rightarrow> obj option option" where
  "find_open sector [] s = Some None"
| "find_open sector (p # ps) s = do {
     inode \<leftarrow> inodes s p;
     if i_sector inode = sector then Some (Some p) else find_open sector ps s
   }"

definition inode_open :: "u32 \<Rightarrow> fs \<Rightarrow> (obj option \<times> fs) option" where
  "inode_open sector s = do {
     found \<leftarrow> find_open sector (open_inodes s) s;
     case found of Some p \<Rightarrow> inode_reopen (Some p) s
     | None \<Rightarrow> do {
         let (ok, s) = malloc_ok s;
         if \<not> ok then Some (None, s)
         else do {
           let p = next_obj s;
           let s = s\<lparr>next_obj := p + 1, open_inodes := p # open_inodes s\<rparr>;
           (bs, s) \<leftarrow> fs_read sector s;
           Some (Some p, set_inode p \<lparr>i_sector = sector, i_open_cnt = 1, i_removed = False,
             i_deny_write_cnt = 0, i_data = inode_disk_of bs\<rparr> s)
         }
       }
   }"

definition inode_get_inumber :: "obj \<Rightarrow> fs \<Rightarrow> u32 option" where
  "inode_get_inumber p s = do { inode \<leftarrow> inodes s p; Some (i_sector inode) }"

definition inode_close :: "obj option \<Rightarrow> fs \<Rightarrow> fs option" where
  "inode_close p s = (case p of None \<Rightarrow> Some s
     | Some q \<Rightarrow> do {
         inode \<leftarrow> inodes s q;
         n \<leftarrow> i32 (i_open_cnt inode - 1);
         let s = set_inode q (inode\<lparr>i_open_cnt := n\<rparr>) s;
         if n \<noteq> 0 then Some s
         else do {
           ASSERT (q \<in> set (open_inodes s));
           let s = s\<lparr>open_inodes := remove1 q (open_inodes s)\<rparr>;
           s \<leftarrow> (if i_removed inode then do {
                    s \<leftarrow> free_map_release (i_sector inode) 1 s;
                    sectors \<leftarrow> bytes_to_sectors (inode_length inode);
                    free_map_release (d_start (i_data inode)) sectors s
                  } else Some s);
           Some (s\<lparr>inodes := (inodes s)(q := None)\<rparr>)
         }
       })"

definition inode_remove :: "obj \<Rightarrow> fs \<Rightarrow> fs option" where
  "inode_remove p s = do { inode \<leftarrow> inodes s p; Some (set_inode p (inode\<lparr>i_removed := True\<rparr>) s) }"

definition inode_deny_write :: "obj \<Rightarrow> fs \<Rightarrow> fs option" where
  "inode_deny_write p s = do {
     inode \<leftarrow> inodes s p;
     n \<leftarrow> i32 (i_deny_write_cnt inode + 1);
     ASSERT (n \<le> i_open_cnt inode);
     Some (set_inode p (inode\<lparr>i_deny_write_cnt := n\<rparr>) s)
   }"

definition inode_allow_write :: "obj \<Rightarrow> fs \<Rightarrow> fs option" where
  "inode_allow_write p s = do {
     inode \<leftarrow> inodes s p;
     ASSERT (i_deny_write_cnt inode > 0);
     ASSERT (i_deny_write_cnt inode \<le> i_open_cnt inode);
     Some (set_inode p (inode\<lparr>i_deny_write_cnt := i_deny_write_cnt inode - 1\<rparr>) s)
   }"

subsection \<open>Inodes on disk\<close>

lemma sint_of_int: "- 2147483648 \<le> x \<Longrightarrow> x < 2147483648 \<Longrightarrow> sint (of_int x :: u32) = x"
proof -
  assume a: "- 2147483648 \<le> x" "x < 2147483648"
  have "sint (of_int x :: u32) = signed_take_bit 31 x" by (simp add: signed_of_int)
  also have "\<dots> = x" using a by (intro signed_take_bit_int_eq_self) simp_all
  finally show ?thesis .
qed

lemma length_inode_disk_bytes [simp]: "length (inode_disk_bytes d) = 512"
  by (simp add: inode_disk_bytes_def)

lemma inode_disk_roundtrip:
  assumes "- 2147483648 \<le> d_length d" "d_length d < 2147483648"
  shows "inode_disk_of (inode_disk_bytes d) = d"
proof -
  have "drop 4 (inode_disk_bytes d) = u32_bytes (of_int (d_length d)) @ u32_bytes (d_magic d) @ replicate 500 0"
    "drop 8 (inode_disk_bytes d) = u32_bytes (d_magic d) @ replicate 500 0"
    by (simp_all add: inode_disk_bytes_def)
  with assms show ?thesis by (simp add: inode_disk_of_def sint_of_int) (simp add: inode_disk_bytes_def)
qed

lemma sector_cnt_bound: "n \<le> 2147483136 \<Longrightarrow> sector_cnt n \<le> 4194303"
  unfolding sector_cnt_def by linarith

lemma bytes_to_sectors_cnt:
  assumes "0 \<le> len" "len \<le> 2147483136"
  shows "bytes_to_sectors len = Some (of_nat (sector_cnt (nat len)))"
proof -
  have "i32 (len + SECTOR - 1) = Some (len + 511)" using assms by simp
  moreover have "(len + 511) sdiv SECTOR = int ((nat len + 511) div 512)"
    using sdiv_512[of "nat len + 511"] assms(1) by simp
  ultimately show ?thesis by (simp add: bytes_to_sectors_def sector_cnt_def)
qed

subsection \<open>Allocating no sectors\<close>

lemma free_map_allocate_0:
  assumes wf: "free_map_wf s"
  obtains s' where "free_map_allocate 0 s = Some (Some 0, s')" "free_map_wf s'" "map_on_disk s'"
    "only_wrote (map_sectors s) s s'" "free_map s' = free_map s"
proof -
  let ?b = "free_map s"
  have b: "bitmap_wf ?b" using wf by (simp add: free_map_wf_def)
  have fu: "find_u32 0 0 p = Some None" for p by (subst find_u32.simps) simp
  have "bitmap_scan ?b 0 0 False = Some 0"
    by (simp add: bitmap_scan_def, subst find_upto_u32.simps) (simp add: bitmap_contains_def fu)
  moreover have "bitmap_set_multiple ?b 0 0 True = Some ?b"
    by (simp add: bitmap_set_multiple_def, subst for_u32.simps) simp
  ultimately have sf: "bitmap_scan_and_flip ?b 0 0 False = Some (0, ?b)"
    by (simp add: bitmap_scan_and_flip_def BITMAP_ERROR_def)
  obtain f s' where s': "free_map_file s = Some f" "bitmap_write ?b f s = Some (True, s')"
    "free_map s' = ?b" "free_map_wf s'" "map_on_disk s'" "only_wrote (map_sectors s) s s'"
    using store_map[OF wf b refl] by auto
  then have "free_map_allocate 0 s = Some (Some 0, s')"
    using sf by (simp add: free_map_allocate_def BITMAP_ERROR_def)
  with s' show thesis by (intro that)
qed

text \<open>The sectors of a run are those of the data of a new inode.\<close>

lemma region_sectors: "n \<le> 4194303 \<Longrightarrow> region i (of_nat n) = {unat i ..< unat i + n}"
  by (simp add: region_def unat_of_nat)

lemma free_map_allocate_sectors:
  assumes wf: "free_map_wf s" and n: "n \<le> 4194303"
  obtains (got) i m s' where "free_map_allocate (of_nat n) s = Some (Some i, s')"
      "{unat i ..< unat i + n} \<subseteq> free_sectors s" "free_sectors s' = free_sectors s - {unat i ..< unat i + n}"
      "free_map_wf s'" "map_on_disk s'" "only_wrote (map_sectors s) (s\<lparr>free_map := m\<rparr>) s'" "free_map s' = m"
      "unat i + n \<le> unat (blk_size (fs_device s))"
  | (full) "free_map_allocate (of_nat n) s = Some (None, s)" "\<not> (\<exists>k. {k ..< k + n} \<subseteq> free_sectors s)"
proof (cases "n = 0")
  case True
  obtain s' where "free_map_allocate 0 s = Some (Some 0, s')" "free_map_wf s'" "map_on_disk s'"
    "only_wrote (map_sectors s) s s'" "free_map s' = free_map s" by (rule free_map_allocate_0[OF wf])
  with True show thesis by (intro got[of 0 s' "free_map s"]) auto
next
  case False
  have u: "unat (of_nat n :: u32) = n" using n by (simp add: unat_of_nat)
  then have "(of_nat n :: u32) \<noteq> 0" using False by (metis unat_0)
  have "unat i + n \<le> unat (blk_size (fs_device s))" if "{unat i ..< unat i + n} \<subseteq> free_sectors s" for i :: u32
  proof -
    have "unat i + n - 1 \<in> free_sectors s" using that False by auto
    then have "unat i + n - 1 < unat (blk_size (fs_device s))" using wf by (simp add: free_bits_def free_map_wf_def)
    then show ?thesis by linarith
  qed
  note fit = this
  from wf \<open>(of_nat n :: u32) \<noteq> 0\<close> show thesis
    by (cases rule: free_map_allocate_cases) (use region_sectors[OF n] u fit in \<open>auto intro: got full\<close>)
qed

lemma free_map_release_sectors:
  assumes wf: "free_map_wf s" and n: "n \<le> 4194303" and i: "unat i + n \<le> unat (blk_size (fs_device s))"
    and used: "{unat i ..< unat i + n} \<inter> free_sectors s = {}"
  obtains m s' where "free_map_release i (of_nat n) s = Some s'" "free_sectors s' = free_sectors s \<union> {unat i ..< unat i + n}"
    "free_map_wf s'" "map_on_disk s'" "only_wrote (map_sectors s) (s\<lparr>free_map := m\<rparr>) s'" "free_map s' = m"
proof (cases "n = 0")
  case True
  let ?b = "free_map s"
  have b: "bitmap_wf ?b" using wf by (simp add: free_map_wf_def)
  have le: "i \<le> bit_cnt ?b" using wf i by (simp add: free_map_wf_def word_le_nat_alt)
  have fu: "find_u32 0 0 p = Some None" for p by (subst find_u32.simps) simp
  have "bitmap_all ?b i 0 = Some True" using le by (simp add: bitmap_all_def bitmap_contains_def fu)
  moreover have "bitmap_set_multiple ?b i 0 False = Some ?b"
    using le by (simp add: bitmap_set_multiple_def, subst for_u32.simps) simp
  moreover obtain f s' where s': "free_map_file s = Some f" "bitmap_write ?b f s = Some (True, s')"
    "free_map s' = ?b" "free_map_wf s'" "map_on_disk s'" "only_wrote (map_sectors s) s s'"
    using store_map[OF wf b refl] by auto
  ultimately have "free_map_release i 0 s = Some s'" by (simp add: free_map_release_def)
  with True s' show thesis by (intro that[of s' ?b]) auto
next
  case False
  have u: "unat (of_nat n :: u32) = n" using n by (simp add: unat_of_nat)
  then have nz: "(of_nat n :: u32) \<noteq> 0" using False by (metis unat_0)
  have "region i (of_nat n) \<subseteq> {..< unat (blk_size (fs_device s))}" "region i (of_nat n) \<inter> free_sectors s = {}"
    using i used region_sectors[OF n, of i] by auto
  from free_map_release_run[OF wf nz this] that show thesis by (auto simp: region_sectors[OF n])
qed

subsection \<open>Clearing sectors\<close>

lemma foreach_fs_write:
  "foreach (\<lambda>i s. fs_write (g i) x s) is s =
     map_option (\<lambda>d. s\<lparr>fs_device := d\<rparr>) (foreach (\<lambda>i d. block_write d (g i) x) is (fs_device s))"
proof (induction "is" arbitrary: s)
  case (Cons i "is")
  show ?case
    using Cons[of "s\<lparr>fs_device := the (block_write (fs_device s) (g i) x)\<rparr>"]
    by (cases "block_write (fs_device s) (g i) x") (simp_all add: fs_write_def)
qed simp

lemma clear_sectors:
  assumes wf: "block_wf (fs_device s)" and n: "unat start + unat n \<le> unat (blk_size (fs_device s))"
  obtains s' where "for_u32 0 n (\<lambda>i s. fs_write (start + i) (replicate BLOCK_SECTOR_SIZE 0) s) s = Some s'"
    "only_wrote {unat start ..< unat start + unat n} s s'"
    "\<And>i. unat start \<le> unat i \<Longrightarrow> unat i < unat start + unat n \<Longrightarrow> medium (fs_device s') i = replicate 512 0"
proof -
  obtain d where d: "for_u32 0 n (\<lambda>k d. block_write d (start + k) (replicate 512 0)) (fs_device s) = Some d"
    "block_wf d" "blk_size d = blk_size (fs_device s)"
    "\<And>i. medium d i = (if unat start \<le> unat i \<and> unat i < unat start + unat n then replicate 512 0 else medium (fs_device s) i)"
    using blk.write_run[OF wf n, of "\<lambda>_. replicate 512 0"] by auto
  have "for_u32 0 n (\<lambda>i s. fs_write (start + i) (replicate BLOCK_SECTOR_SIZE 0) s) s = Some (s\<lparr>fs_device := d\<rparr>)"
    using d(1) by (simp add: for_u32_foreach foreach_fs_write BLOCK_SECTOR_SIZE_def)
  then show thesis
    by (rule that) (use d in \<open>auto simp: only_wrote_def\<close>)
qed

subsection \<open>Well-formed file systems\<close>

text \<open>All sectors that belong to an inode: its own and those of its data.\<close>

definition inode_extent :: "inode \<Rightarrow> nat set" where
  "inode_extent inode = insert (unat (i_sector inode)) (inode_sectors inode)"

definition inode_ok :: "fs \<Rightarrow> inode \<Rightarrow> bool" where
  "inode_ok s inode \<longleftrightarrow> inode_on (fs_device s) inode \<and> inode_length inode \<le> 2147483136 \<and>
     i_sector inode < blk_size (fs_device s) \<and> unat (i_sector inode) \<notin> inode_sectors inode \<and>
     inode_extent inode \<inter> free_sectors s = {} \<and>
     1 \<le> i_open_cnt inode \<and> i_open_cnt inode < 2147483648 \<and>
     0 \<le> i_deny_write_cnt inode \<and> i_deny_write_cnt inode \<le> i_open_cnt inode"

text \<open>The invariant of the file system, in which the files \<open>F\<close>, about to be freed, may refer to an inode
  that is closed.\<close>

definition fs_inv :: "obj set \<Rightarrow> fs \<Rightarrow> bool" where
  "fs_inv F s \<longleftrightarrow> free_map_wf s \<and> map_on_disk s \<and>
     distinct (open_inodes s) \<and> (\<forall>p. p \<in> set (open_inodes s) \<longleftrightarrow> inodes s p \<noteq> None) \<and>
     (\<forall>p. inodes s p \<noteq> None \<longrightarrow> p < next_obj s) \<and> (\<forall>f. files s f \<noteq> None \<longrightarrow> f < next_obj s) \<and>
     (\<forall>p inode. inodes s p = Some inode \<longrightarrow> inode_ok s inode) \<and>
     (\<forall>p q i j. inodes s p = Some i \<longrightarrow> inodes s q = Some j \<longrightarrow> p \<noteq> q \<longrightarrow> inode_extent i \<inter> inode_extent j = {}) \<and>
     (\<forall>f fl. files s f = Some fl \<longrightarrow> f \<notin> F \<longrightarrow> inodes s (f_inode fl) \<noteq> None \<and> 0 \<le> f_pos fl \<and> f_pos fl < 2147483648)"

abbreviation fs_wf :: "fs \<Rightarrow> bool" where
  "fs_wf \<equiv> fs_inv {}"

lemma fs_invD:
  assumes "fs_inv F s"
  shows "free_map_wf s" "map_on_disk s" "distinct (open_inodes s)" "\<And>p. p \<in> set (open_inodes s) \<longleftrightarrow> inodes s p \<noteq> None"
    "\<And>p inode. inodes s p = Some inode \<Longrightarrow> inode_ok s inode \<and> p < next_obj s"
    "\<And>p q i j. inodes s p = Some i \<Longrightarrow> inodes s q = Some j \<Longrightarrow> p \<noteq> q \<Longrightarrow> inode_extent i \<inter> inode_extent j = {}"
    "\<And>f fl. files s f = Some fl \<Longrightarrow> f \<notin> F \<Longrightarrow> inodes s (f_inode fl) \<noteq> None \<and> 0 \<le> f_pos fl \<and> f_pos fl < 2147483648 \<and> f < next_obj s"
    "block_wf (fs_device s)" "alloc_fails s = []"
  using assms unfolding fs_inv_def by (blast | simp add: free_map_wf_def)+

lemma map_sectors_inode:
  assumes "free_map_wf s"
  obtains f inode p where "free_map_file s = Some f" "map_file s f inode (free_map s)" "inodes s p = Some inode"
    "map_sectors s = inode_sectors inode"
  using assms by (auto simp: free_map_wf_def map_file_def map_sectors_def)

lemma map_sectors_wrote: "only_wrote S s s' \<Longrightarrow> map_sectors s' = map_sectors s"
  unfolding only_wrote_def map_sectors_def by presburger

lemma map_sectors_free_map [simp]: "map_sectors (s\<lparr>free_map := m\<rparr>) = map_sectors s"
  by (simp add: map_sectors_def cong: option.case_cong)

text \<open>Writing to sectors that do not hold the free map keeps the file system well-formed.\<close>

lemma fs_inv_wrote:
  assumes wf: "fs_inv F s" and w: "only_wrote S s s'" and S: "S \<inter> map_sectors s = {}"
  shows "fs_inv F s'"
proof -
  note D = fs_invD[OF wf]
  have eqs: "inodes s' = inodes s" "open_inodes s' = open_inodes s" "files s' = files s" "next_obj s' = next_obj s"
    "free_map s' = free_map s" "free_map_file s' = free_map_file s" "alloc_fails s' = []"
    "blk_size (fs_device s') = blk_size (fs_device s)" "block_wf (fs_device s')"
    using w D(8,9) by (auto simp: only_wrote_def)
  have mf: "map_file s' f i b = map_file s f i b" for f i b using map_file_cong[of s' s b b f i] eqs by simp
  have fm: "free_map_wf s'" using D(1) eqs mf by (simp add: free_map_wf_def)
  obtain f inode where f: "free_map_file s = Some f" "map_file s f inode (free_map s)"
    "inode_bytes (fs_device s) inode = bitmap_bytes (free_map s)" using D(2) by (auto simp: map_on_disk_def)
  then have on: "inode_on (fs_device s) inode" and ms: "map_sectors s = inode_sectors inode"
    by (auto simp: map_file_def map_sectors_def)
  have "inode_bytes (fs_device s') inode = inode_bytes (fs_device s) inode"
    by (rule only_wrote_other[OF w on]) (use S ms in blast)
  then have md: "map_on_disk s'" using f eqs mf by (auto simp: map_on_disk_def)
  have "inode_ok s' i = inode_ok s i" for i using eqs inode_on_cong[OF eqs(8)] by (simp add: inode_ok_def)
  with wf fm md show ?thesis unfolding fs_inv_def eqs by simp
qed

text \<open>So does changing the free map, as long as no sector in use becomes free.\<close>

lemma fs_inv_map_changed:
  assumes wf: "fs_inv F s" and w: "only_wrote (map_sectors s) (s\<lparr>free_map := m\<rparr>) s'"
    and fm: "free_map_wf s'" "map_on_disk s'"
    and free: "\<And>p i. inodes s p = Some i \<Longrightarrow> inode_extent i \<inter> free_sectors s' = {}"
  shows "fs_inv F s'"
proof -
  have eqs: "inodes s' = inodes s" "open_inodes s' = open_inodes s" "files s' = files s" "next_obj s' = next_obj s"
    "blk_size (fs_device s') = blk_size (fs_device s)"
    using w by (auto simp: only_wrote_def)
  have "inode_ok s' i" if "inodes s p = Some i" for p i
    using free[OF that] fs_invD(5)[OF wf that] eqs(5) inode_on_cong[OF eqs(5)] by (simp add: inode_ok_def)
  with wf fm show ?thesis unfolding fs_inv_def eqs by blast
qed

lemma map_sectors_extent:
  assumes "fs_inv F s"
  shows "\<exists>p i. inodes s p = Some i \<and> map_sectors s = inode_sectors i"
  by (rule map_sectors_inode[OF fs_invD(1)[OF assms]]) blast

subsection \<open>Creating an inode\<close>

text \<open>A sector that is in use but belongs to no open inode.\<close>

definition fresh_sector :: "fs \<Rightarrow> u32 \<Rightarrow> bool" where
  "fresh_sector s x \<longleftrightarrow> x < blk_size (fs_device s) \<and> unat x \<notin> free_sectors s \<and>
     (\<forall>p i. inodes s p = Some i \<longrightarrow> unat x \<notin> inode_extent i)"

lemma fs_write_sector:
  assumes "block_wf (fs_device s)" "x < blk_size (fs_device s)" "length bs = 512"
  obtains s' where "fs_write x bs s = Some s'" "only_wrote {unat x} s s'" "medium (fs_device s') x = bs"
proof -
  define s' where "s' = s\<lparr>fs_device := (fs_device s)\<lparr>medium := (medium (fs_device s))(x := bs), write_cnt := write_cnt (fs_device s) + 1\<rparr>\<rparr>"
  have "fs_write x bs s = Some s'"
    using assms by (simp add: s'_def fs_write_def block_write_def check_sector_def block_wf_def BLOCK_SECTOR_SIZE_def)
  moreover have "only_wrote {unat x} s s'"
    using assms by (auto simp: only_wrote_def s'_def block_wf_def BLOCK_SECTOR_SIZE_def)
  ultimately show thesis by (intro that) (auto simp: s'_def)
qed

lemma inode_create_cases:
  assumes wf: "fs_inv F s" and x: "fresh_sector s x" and len: "0 \<le> len" "len \<le> 2147483136"
  defines "n \<equiv> sector_cnt (nat len)"
  obtains (created) start s' where "inode_create x len s = Some (True, s')" "fs_inv F s'"
      "{unat start ..< unat start + n} \<subseteq> free_sectors s"
      "free_sectors s' = free_sectors s - {unat start ..< unat start + n}"
      "medium (fs_device s') x = inode_disk_bytes \<lparr>d_start = start, d_length = len, d_magic = INODE_MAGIC\<rparr>"
      "\<And>i. unat i \<in> {unat start ..< unat start + n} \<Longrightarrow> medium (fs_device s') i = replicate 512 0"
      "\<And>i. unat i \<notin> {unat start ..< unat start + n} \<Longrightarrow> i \<noteq> x \<Longrightarrow> unat i \<notin> map_sectors s \<Longrightarrow>
         medium (fs_device s') i = medium (fs_device s) i"
      "inodes s' = inodes s" "open_inodes s' = open_inodes s" "files s' = files s" "next_obj s' = next_obj s"
      "free_map_file s' = free_map_file s" "blk_size (fs_device s') = blk_size (fs_device s)"
      "unat start + n \<le> unat (blk_size (fs_device s))"
  | (full) "inode_create x len s = Some (False, s)" "\<not> (\<exists>k. {k ..< k + n} \<subseteq> free_sectors s)"
proof -
  note D = fs_invD[OF wf]
  have nb: "n \<le> 4194303" unfolding n_def using len by (intro sector_cnt_bound) simp
  have un: "unat (of_nat n :: u32) = n" using nb by (simp add: unat_of_nat)
  have ok: "malloc_ok s = (True, s)" using D(9) by (simp add: malloc_ok_def)
  have bs: "bytes_to_sectors len = Some (of_nat n)" unfolding n_def using len by (rule bytes_to_sectors_cnt)
  obtain pm im where pm: "inodes s pm = Some im" "map_sectors s = inode_sectors im" using map_sectors_extent[OF wf] by blast
  from D(1) nb show thesis
  proof (cases rule: free_map_allocate_sectors)
    case (got start m s1)
    let ?R = "{unat start ..< unat start + n}"
    have wf1: "fs_inv F s1"
      by (rule fs_inv_map_changed[OF wf got(6,4,5)]) (use got(3) D(5) in \<open>fastforce simp: inode_ok_def\<close>)
    have e1: "blk_size (fs_device s1) = blk_size (fs_device s)" "inodes s1 = inodes s" "open_inodes s1 = open_inodes s"
      "files s1 = files s" "next_obj s1 = next_obj s" "free_map_file s1 = free_map_file s"
      "\<And>i. unat i \<notin> map_sectors s \<Longrightarrow> medium (fs_device s1) i = medium (fs_device s) i"
      using got(6) by (auto simp: only_wrote_def)
    have x1: "x < blk_size (fs_device s1)" "unat x \<notin> map_sectors s" "unat x \<notin> ?R"
      using x e1 pm got(2) by (auto simp: fresh_sector_def inode_extent_def)
    have ms1: "map_sectors s1 = map_sectors s" unfolding map_sectors_def e1 ..
    obtain s2 where s2: "fs_write x (inode_disk_bytes \<lparr>d_start = start, d_length = len, d_magic = INODE_MAGIC\<rparr>) s1 = Some s2"
      "only_wrote {unat x} s1 s2" "medium (fs_device s2) x = inode_disk_bytes \<lparr>d_start = start, d_length = len, d_magic = INODE_MAGIC\<rparr>"
      by (rule fs_write_sector[OF fs_invD(8)[OF wf1] x1(1) length_inode_disk_bytes])
    have wf2: "fs_inv F s2" by (rule fs_inv_wrote[OF wf1 s2(2)]) (use x1 ms1 in simp)
    have e2: "blk_size (fs_device s2) = blk_size (fs_device s)" "map_sectors s2 = map_sectors s"
      using s2(2) e1(1) ms1 map_sectors_wrote[OF s2(2)] by (auto simp: only_wrote_def)
    have fit: "unat start + unat (of_nat n :: u32) \<le> unat (blk_size (fs_device s2))" using got(8) un e2 by simp
    obtain s3 where s3: "for_u32 0 (of_nat n) (\<lambda>i s. fs_write (start + i) (replicate BLOCK_SECTOR_SIZE 0) s) s2 = Some s3"
      "only_wrote {unat start ..< unat start + unat (of_nat n :: u32)} s2 s3"
      "\<And>i. unat start \<le> unat i \<Longrightarrow> unat i < unat start + unat (of_nat n :: u32) \<Longrightarrow> medium (fs_device s3) i = replicate 512 0"
      using clear_sectors[OF fs_invD(8)[OF wf2] fit] by blast
    note s3' = s3(2,3)[unfolded un]
    have "map_sectors s \<inter> free_sectors s = {}" using pm D(5) by (auto simp: inode_ok_def inode_extent_def)
    then have wf3: "fs_inv F s3" by (intro fs_inv_wrote[OF wf2 s3'(1)]) (use got(2) e2 in blast)
    have e3: "free_map s3 = m" "medium (fs_device s3) x = medium (fs_device s2) x"
      "\<And>i. unat i \<notin> ?R \<Longrightarrow> medium (fs_device s3) i = medium (fs_device s2) i"
      "\<And>i. i \<noteq> x \<Longrightarrow> medium (fs_device s2) i = medium (fs_device s1) i"
      "inodes s3 = inodes s" "open_inodes s3 = open_inodes s" "files s3 = files s" "next_obj s3 = next_obj s"
      "free_map_file s3 = free_map_file s" "blk_size (fs_device s3) = blk_size (fs_device s)"
      using s3'(1) s2(2) e1 got(7) x1(3) by (auto simp: only_wrote_def dest: unat_inject)
    show thesis
    proof (rule created)
      show "inode_create x len s = Some (True, s3)"
        using len ok bs got(1) s2(1) s3(1) by (simp add: inode_create_def)
      show "medium (fs_device s3) i = medium (fs_device s) i"
        if "unat i \<notin> ?R" "i \<noteq> x" "unat i \<notin> map_sectors s" for i
        using that e3(3)[of i] e3(4)[of i] e1(7)[of i] by simp
      show "free_sectors s3 = free_sectors s - ?R" using got(3,7) e3(1) by simp
      show "medium (fs_device s3) x = inode_disk_bytes \<lparr>d_start = start, d_length = len, d_magic = INODE_MAGIC\<rparr>"
        using e3(2) s2(3) by simp
      show "medium (fs_device s3) i = replicate 512 0" if "unat i \<in> ?R" for i using that s3'(2)[of i] by simp
    qed (use wf3 got(2,8) e3 in simp_all)
  next
    case full
    then have "inode_create x len s = Some (False, s)"
      using len ok bs by (simp add: inode_create_def)
    with full show thesis by (intro that(2))
  qed
qed

subsection \<open>Opening an inode\<close>

lemma find_open_none:
  "(\<And>p. p \<in> set ps \<Longrightarrow> \<exists>i. inodes s p = Some i \<and> i_sector i \<noteq> x) \<Longrightarrow> find_open x ps s = Some None"
  by (induction ps) fastforce+

lemma find_open_some:
  assumes "\<And>q. q \<in> set ps \<Longrightarrow> \<exists>j. inodes s q = Some j \<and> (i_sector j = x \<longleftrightarrow> q = p)" "p \<in> set ps"
  shows "find_open x ps s = Some (Some p)"
  using assms
proof (induction ps)
  case (Cons q ps)
  then obtain j where "inodes s q = Some j" "i_sector j = x \<longleftrightarrow> q = p" by fastforce
  with Cons show ?case by auto
qed simp

lemma inode_sector_unique:
  assumes "fs_inv F s" "inodes s p = Some i" "inodes s q = Some j" "i_sector i = i_sector j"
  shows "p = q"
  using fs_invD(6)[OF assms(1-3)] assms(4) by (auto simp: inode_extent_def)

text \<open>Changing the counts and flags of an open inode.\<close>

lemma fs_inv_set_inode:
  assumes wf: "fs_inv F s" and p: "inodes s p = Some i" and ok: "inode_ok s i'"
    and same: "i_sector i' = i_sector i" "i_data i' = i_data i"
    and deny: "i_deny_write_cnt i' = 0 \<or> \<not> (\<exists>f fl. free_map_file s = Some f \<and> files s f = Some fl \<and> f_inode fl = p)"
  shows "fs_inv F (set_inode p i' s)"
proof -
  let ?s = "set_inode p i' s"
  have L: "inode_length i' = inode_length i" "inode_sectors i' = inode_sectors i" "inode_on d i' = inode_on d i"
    "inode_bytes d i' = inode_bytes d i" "inode_extent i' = inode_extent i" for d
    using same by (simp_all add: inode_length_def inode_sectors_def inode_on_def inode_bytes_def byte_at_def inode_extent_def fun_eq_iff)
  have mf: "\<exists>i2. map_file ?s f i2 (free_map s) \<and> inode_bytes (fs_device s) i2 = inode_bytes (fs_device s) i1"
    if m: "map_file s f i1 (free_map s)" "free_map_file s = Some f" for f i1
  proof -
    obtain fl where fl: "files s f = Some fl" "inodes s (f_inode fl) = Some i1" using m by (auto simp: map_file_def)
    show ?thesis
    proof (cases "f_inode fl = p")
      case True
      with fl p have "i1 = i" by simp
      with True fl m deny L show ?thesis by (intro exI[of _ i']) (auto simp: map_file_def set_inode_def)
    next
      case False
      with fl m show ?thesis by (intro exI[of _ i1]) (auto simp: map_file_def set_inode_def)
    qed
  qed
  note D = fs_invD[OF wf]
  have fm: "free_map_wf ?s" "map_on_disk ?s"
    using D(1,2) mf unfolding free_map_wf_def map_on_disk_def by (fastforce simp: set_inode_def)+
  have ok': "inode_ok ?s j = inode_ok s j" for j by (simp add: inode_ok_def set_inode_def)
  have ext: "inode_extent a \<inter> inode_extent b = {}"
    if "inodes ?s q = Some a" "inodes ?s r = Some b" "q \<noteq> r" for q r a b
    using D(6) that p L(5) by (auto simp: set_inode_def split: if_splits)
  show ?thesis unfolding fs_inv_def ok'
    using wf fm ext p ok unfolding fs_inv_def by (auto simp: set_inode_def)
qed

lemma inode_reopen_open:
  assumes wf: "fs_inv F s" and p: "inodes s p = Some i" and cnt: "i_open_cnt i < 2147483647"
  shows "inode_reopen (Some p) s = Some (Some p, set_inode p (i\<lparr>i_open_cnt := i_open_cnt i + 1\<rparr>) s) \<and>
     fs_inv F (set_inode p (i\<lparr>i_open_cnt := i_open_cnt i + 1\<rparr>) s)"
proof -
  let ?i = "i\<lparr>i_open_cnt := i_open_cnt i + 1\<rparr>"
  have ok: "inode_ok s i" using fs_invD(5)[OF wf p] by blast
  then have "inode_ok s ?i"
    using cnt by (simp add: inode_ok_def inode_on_def inode_length_def inode_sectors_def inode_extent_def)
  moreover have "i_deny_write_cnt i = 0" if "free_map_file s = Some f" "files s f = Some fl" "f_inode fl = p" for f fl
    using fs_invD(1)[OF wf] that p by (auto simp: free_map_wf_def map_file_def)
  ultimately have "fs_inv F (set_inode p ?i s)" by (intro fs_inv_set_inode[OF wf p]) auto
  moreover have "1 \<le> i_open_cnt i" using ok by (simp add: inode_ok_def)
  ultimately show ?thesis using p cnt by (simp add: inode_reopen_def)
qed

text \<open>An inode that is open already is shared.\<close>

lemma inode_open_again:
  assumes wf: "fs_inv F s" and p: "inodes s p = Some i" and cnt: "i_open_cnt i < 2147483647"
  shows "inode_open (i_sector i) s = Some (Some p, set_inode p (i\<lparr>i_open_cnt := i_open_cnt i + 1\<rparr>) s)"
proof -
  have "find_open (i_sector i) (open_inodes s) s = Some (Some p)"
  proof (rule find_open_some)
    fix q assume "q \<in> set (open_inodes s)"
    then obtain j where j: "inodes s q = Some j" using fs_invD(4)[OF wf] by auto
    with inode_sector_unique[OF wf j p] p show "\<exists>j. inodes s q = Some j \<and> (i_sector j = i_sector i \<longleftrightarrow> q = p)"
      by (intro exI[of _ j]) auto
  qed (use fs_invD(4)[OF wf] p in simp)
  with inode_reopen_open[OF assms] show ?thesis by (simp add: inode_open_def)
qed

text \<open>An inode on disk that is not open: the sectors that belong to it are in use and in no other open
  inode.\<close>

definition inode_from :: "u32 \<Rightarrow> inode_disk \<Rightarrow> inode" where
  "inode_from x d = \<lparr>i_sector = x, i_open_cnt = 1, i_removed = False, i_deny_write_cnt = 0, i_data = d\<rparr>"

definition closed_inode :: "fs \<Rightarrow> u32 \<Rightarrow> inode_disk \<Rightarrow> bool" where
  "closed_inode s x d \<longleftrightarrow> inode_disk_of (medium (fs_device s) x) = d \<and> inode_ok s (inode_from x d) \<and>
     (\<forall>p i. inodes s p = Some i \<longrightarrow> inode_extent i \<inter> inode_extent (inode_from x d) = {})"

lemma inode_open_new:
  assumes wf: "fs_inv F s" and c: "closed_inode s x d"
  obtains s' where "inode_open x s = Some (Some (next_obj s), s')" "inodes s' = (inodes s)(next_obj s \<mapsto> inode_from x d)"
    "open_inodes s' = next_obj s # open_inodes s" "files s' = files s" "next_obj s' = next_obj s + 1"
    "free_map s' = free_map s" "free_map_file s' = free_map_file s"
    "medium (fs_device s') = medium (fs_device s)" "blk_size (fs_device s') = blk_size (fs_device s)" "fs_inv F s'"
proof -
  note D = fs_invD[OF wf]
  let ?p = "next_obj s" and ?i = "inode_from x d"
  have fresh: "inodes s ?p = None" "files s f = Some fl \<Longrightarrow> f \<notin> F \<Longrightarrow> f_inode fl \<noteq> ?p" for f fl
    using D(5)[of ?p] D(5)[of "f_inode fl"] D(7)[of f fl] by fastforce+
  have "find_open x (open_inodes s) s = Some None"
  proof (rule find_open_none)
    fix q assume "q \<in> set (open_inodes s)"
    then obtain j where j: "inodes s q = Some j" using D(4) by auto
    then have "inode_extent j \<inter> inode_extent ?i = {}" using c by (auto simp: closed_inode_def)
    then have "i_sector j \<noteq> x" by (auto simp: inode_extent_def inode_from_def)
    with j show "\<exists>i. inodes s q = Some i \<and> i_sector i \<noteq> x" by blast
  qed
  moreover have ok: "malloc_ok s = (True, s)" using D(9) by (simp add: malloc_ok_def)
  let ?s1 = "s\<lparr>next_obj := ?p + 1, open_inodes := ?p # open_inodes s\<rparr>"
  have "x < blk_size (fs_device s)" using c by (simp add: closed_inode_def inode_ok_def inode_from_def)
  then have x: "block_wf (fs_device ?s1)" "x < blk_size (fs_device ?s1)" using D(8) by simp_all
  obtain s2 where s2: "fs_read x ?s1 = Some (medium (fs_device s) x, s2)" "only_read ?s1 s2"
    by (rule fs_read_sector[OF x]) simp
  define s' where "s' = set_inode ?p ?i s2"
  ultimately have op: "inode_open x s = Some (Some ?p, s')"
    using c ok s2(1) by (simp add: inode_open_def s'_def closed_inode_def inode_from_def Let_def)
  have eqs: "inodes s' = (inodes s)(?p \<mapsto> ?i)" "open_inodes s' = ?p # open_inodes s" "files s' = files s"
    "next_obj s' = ?p + 1" "free_map s' = free_map s" "free_map_file s' = free_map_file s"
    "medium (fs_device s') = medium (fs_device s)" "blk_size (fs_device s') = blk_size (fs_device s)"
    "blk_type (fs_device s') = blk_type (fs_device s)" "alloc_fails s' = []"
    using s2(2) D(9) by (auto simp: only_read_def s'_def set_inode_def)
  have dev: "inode_on (fs_device s') = inode_on (fs_device s)" "inode_bytes (fs_device s') = inode_bytes (fs_device s)"
    "block_wf (fs_device s') = block_wf (fs_device s)"
    using eqs by (auto simp: fun_eq_iff inode_on_def inode_bytes_def byte_at_def block_wf_def)
  have ok': "inode_ok s' j = inode_ok s j" for j using eqs dev by (simp add: inode_ok_def)
  have mf: "map_file s' f j b" if "map_file s f j b" for f j b
    using that fresh(1) eqs dev by (auto simp: map_file_def)
  have "free_map_wf s'" "map_on_disk s'"
    using D(1,2) mf unfolding free_map_wf_def map_on_disk_def eqs dev by blast+
  moreover have "inode_extent a \<inter> inode_extent b = {}"
    if "inodes s' q = Some a" "inodes s' r = Some b" "q \<noteq> r" for q r a b
  proof -
    have new: "inode_extent j \<inter> inode_extent ?i = {}" if "inodes s k = Some j" for k j
      using c that by (auto simp: closed_inode_def)
    show ?thesis
      using D(6)[of q a r b] new[of q a] new[of r b] that unfolding eqs
      by (cases "q = ?p"; cases "r = ?p") (auto simp: Int_commute)
  qed
  ultimately have "fs_inv F s'"
    using wf c fresh unfolding fs_inv_def ok' eqs closed_inode_def by (auto simp: less_Suc_eq)
  with op eqs show thesis by (intro that)
qed

subsection \<open>Closing an inode\<close>

lemma inode_close_shared:
  assumes wf: "fs_inv F s" and p: "inodes s p = Some i" and cnt: "i_deny_write_cnt i < i_open_cnt i" "i_open_cnt i \<noteq> 1"
  shows "inode_close (Some p) s = Some (set_inode p (i\<lparr>i_open_cnt := i_open_cnt i - 1\<rparr>) s) \<and>
     fs_inv F (set_inode p (i\<lparr>i_open_cnt := i_open_cnt i - 1\<rparr>) s)"
proof -
  let ?i = "i\<lparr>i_open_cnt := i_open_cnt i - 1\<rparr>"
  have ok: "inode_ok s i" using fs_invD(5)[OF wf p] by blast
  then have "inode_ok s ?i"
    using cnt by (simp add: inode_ok_def inode_on_def inode_length_def inode_sectors_def inode_extent_def)
  moreover have "i_deny_write_cnt i = 0" if "free_map_file s = Some f" "files s f = Some fl" "f_inode fl = p" for f fl
    using fs_invD(1)[OF wf] that p by (auto simp: free_map_wf_def map_file_def)
  ultimately have "fs_inv F (set_inode p ?i s)" by (intro fs_inv_set_inode[OF wf p]) auto
  moreover have "1 \<le> i_open_cnt i" "i_open_cnt i < 2147483648" using ok by (simp_all add: inode_ok_def)
  ultimately show ?thesis using p cnt by (simp add: inode_close_def Let_def)
qed

text \<open>The state in which inode \<open>p\<close> has been replaced or freed, for the purposes of the free map.\<close>

lemma free_map_other_inode:
  assumes "free_map_wf s" "\<forall>f fl. free_map_file s = Some f \<longrightarrow> files s f = Some fl \<longrightarrow> f_inode fl \<noteq> p"
    and s': "s' = s\<lparr>inodes := (inodes s)(p := v), open_inodes := os\<rparr>"
  shows "free_map_wf s'" "map_on_disk s \<Longrightarrow> map_on_disk s'" "map_sectors s' = map_sectors s"
proof -
  have mf: "map_file s' f i (free_map s')" if "map_file s f i (free_map s)" "free_map_file s = Some f" for f i
    using that assms(2) s' by (auto simp: map_file_def)
  show "free_map_wf s'" using assms(1) mf s' by (auto simp: free_map_wf_def)
  show "map_on_disk s'" if "map_on_disk s" using that mf s' by (auto simp: map_on_disk_def)
  show "map_sectors s' = map_sectors s" using assms(2) s' by (auto simp: map_sectors_def split: option.splits)
qed

lemma release_extent:
  assumes fm: "free_map_wf s" "map_on_disk s" and i: "inode_on (fs_device s) i" "inode_length i \<le> 2147483136"
      "i_sector i < blk_size (fs_device s)" "unat (i_sector i) \<notin> inode_sectors i" "inode_extent i \<inter> free_sectors s = {}"
  obtains n m s' where "bytes_to_sectors (inode_length i) = Some n"
    "do { s \<leftarrow> free_map_release (i_sector i) 1 s; free_map_release (d_start (i_data i)) n s } = Some s'"
    "free_sectors s' = free_sectors s \<union> inode_extent i" "free_map_wf s'" "map_on_disk s'"
    "only_wrote (map_sectors s) (s\<lparr>free_map := m\<rparr>) s'"
proof -
  let ?n = "sector_cnt (nat (inode_length i))"
  have len: "0 \<le> inode_length i" "unat (d_start (i_data i)) + ?n \<le> unat (blk_size (fs_device s))"
    using i(1) by (auto simp: inode_on_def)
  have nb: "?n \<le> 4194303" using i(2) by (intro sector_cnt_bound) simp
  have sec: "unat (i_sector i) + 1 \<le> unat (blk_size (fs_device s))" using i(3) by (simp add: word_less_nat_alt)
  obtain m1 s1 where s1: "free_map_release (i_sector i) (of_nat 1) s = Some s1"
    "free_sectors s1 = free_sectors s \<union> {unat (i_sector i) ..< unat (i_sector i) + 1}" "free_map_wf s1" "map_on_disk s1"
    "only_wrote (map_sectors s) (s\<lparr>free_map := m1\<rparr>) s1"
    by (rule free_map_release_sectors[OF fm(1) _ sec]) (use i(5) in \<open>auto simp: inode_extent_def\<close>)
  have e1: "blk_size (fs_device s1) = blk_size (fs_device s)" "map_sectors s1 = map_sectors s"
    using s1(5) map_sectors_wrote[OF s1(5)] by (auto simp: only_wrote_def)
  have d1: "{unat (d_start (i_data i)) ..< unat (d_start (i_data i)) + ?n} \<inter> free_sectors s1 = {}"
    using s1(2) i(4,5) by (auto simp: inode_extent_def inode_sectors_def)
  obtain m2 s2 where s2: "free_map_release (d_start (i_data i)) (of_nat ?n) s1 = Some s2"
    "free_sectors s2 = free_sectors s1 \<union> {unat (d_start (i_data i)) ..< unat (d_start (i_data i)) + ?n}"
    "free_map_wf s2" "map_on_disk s2" "only_wrote (map_sectors s1) (s1\<lparr>free_map := m2\<rparr>) s2"
    by (rule free_map_release_sectors[OF s1(3) nb _ d1]) (use len(2) e1 in auto)
  show thesis
  proof (rule that)
    show "bytes_to_sectors (inode_length i) = Some (of_nat ?n)" using len(1) i(2) by (rule bytes_to_sectors_cnt)
    show "do { s \<leftarrow> free_map_release (i_sector i) 1 s; free_map_release (d_start (i_data i)) (of_nat ?n) s } = Some s2"
      using s1(1) s2(1) by simp
    show "free_sectors s2 = free_sectors s \<union> inode_extent i"
      using s1(2) s2(2) by (auto simp: inode_extent_def inode_sectors_def)
    show "only_wrote (map_sectors s) (s\<lparr>free_map := m2\<rparr>) s2"
      using s1(5) s2(5) e1 by (auto simp: only_wrote_def)
  qed (use s2 in auto)
qed

lemma inode_close_last:
  assumes wf: "fs_inv F s" and p: "inodes s p = Some i" "i_open_cnt i = 1"
    and F: "\<And>f fl. files s f = Some fl \<Longrightarrow> f_inode fl = p \<Longrightarrow> f \<in> F" "\<And>f. free_map_file s = Some f \<Longrightarrow> f \<notin> F"
  obtains s' where "inode_close (Some p) s = Some s'" "fs_inv F s'" "inodes s' = (inodes s)(p := None)"
    "files s' = files s" "next_obj s' = next_obj s" "free_map_file s' = free_map_file s"
    "free_sectors s' = free_sectors s \<union> (if i_removed i then inode_extent i else {})"
    "\<And>x. unat x \<notin> map_sectors s \<Longrightarrow> medium (fs_device s') x = medium (fs_device s) x"
    "blk_size (fs_device s') = blk_size (fs_device s)"
proof -
  note D = fs_invD[OF wf]
  have ok: "inode_ok s i" using D(5)[OF p(1)] by blast
  have po: "p \<in> set (open_inodes s)" using D(4) p by simp
  define s1 where "s1 = s\<lparr>inodes := (inodes s)(p := Some (i\<lparr>i_open_cnt := 0\<rparr>)), open_inodes := remove1 p (open_inodes s)\<rparr>"
  have nm: "\<forall>f fl. free_map_file s = Some f \<longrightarrow> files s f = Some fl \<longrightarrow> f_inode fl \<noteq> p" using F by blast
  note fm1 = free_map_other_inode[OF D(1) nm s1_def]
  obtain m s2 where s2: "(if i_removed i then do { s \<leftarrow> free_map_release (i_sector i) 1 s1;
       sectors \<leftarrow> bytes_to_sectors (inode_length i); free_map_release (d_start (i_data i)) sectors s } else Some s1) = Some s2"
    "free_sectors s2 = free_sectors s \<union> (if i_removed i then inode_extent i else {})" "free_map_wf s2" "map_on_disk s2"
    "only_wrote (map_sectors s) (s1\<lparr>free_map := m\<rparr>) s2"
  proof (cases "i_removed i")
    case True
    have i1: "inode_on (fs_device s1) i" "inode_length i \<le> 2147483136" "i_sector i < blk_size (fs_device s1)"
      "unat (i_sector i) \<notin> inode_sectors i" "inode_extent i \<inter> free_sectors s1 = {}"
      using ok by (auto simp: inode_ok_def s1_def)
    obtain n m s2 where r: "bytes_to_sectors (inode_length i) = Some n"
      "do { s \<leftarrow> free_map_release (i_sector i) 1 s1; free_map_release (d_start (i_data i)) n s } = Some s2"
      "free_sectors s2 = free_sectors s1 \<union> inode_extent i" "free_map_wf s2" "map_on_disk s2"
      "only_wrote (map_sectors s1) (s1\<lparr>free_map := m\<rparr>) s2"
      by (rule release_extent[OF fm1(1) fm1(2)[OF D(2)] i1])
    have "free_sectors s1 = free_sectors s" by (simp add: s1_def)
    with True r fm1(3) show thesis by (intro that[of s2 m]) auto
  next
    case False
    have "s1\<lparr>free_map := free_map s1\<rparr> = s1" by simp
    with False fm1 D(2) show thesis by (intro that[of s1 "free_map s1"]) (auto simp: s1_def)
  qed
  define s' where "s' = s2\<lparr>inodes := (inodes s2)(p := None), open_inodes := open_inodes s2\<rparr>"
  have cl: "inode_close (Some p) s = Some s'"
    using p po s2(1) unfolding inode_close_def s1_def
    by (cases "i_removed i") (auto simp: Let_def set_inode_def s'_def bind_eq_Some_conv)
  have e2: "inodes s2 = inodes s1" "open_inodes s2 = remove1 p (open_inodes s)" "files s2 = files s" "next_obj s2 = next_obj s"
    "free_map_file s2 = free_map_file s" "blk_size (fs_device s2) = blk_size (fs_device s)"
    "\<And>x. unat x \<notin> map_sectors s \<Longrightarrow> medium (fs_device s2) x = medium (fs_device s) x"
    using s2(5) by (auto simp: only_wrote_def s1_def)
  have nm2: "\<forall>f fl. free_map_file s2 = Some f \<longrightarrow> files s2 f = Some fl \<longrightarrow> f_inode fl \<noteq> p" using nm e2 by simp
  note fm' = free_map_other_inode[OF s2(3) nm2 s'_def]
  have e': "inodes s' = (inodes s)(p := None)" "open_inodes s' = remove1 p (open_inodes s)" "files s' = files s"
    "next_obj s' = next_obj s" "free_map_file s' = free_map_file s" "free_sectors s' = free_sectors s2"
    "fs_device s' = fs_device s2" using e2 by (simp_all add: s'_def s1_def)
  have "inode_ok s' j" if q: "inodes s q = Some j" "q \<noteq> p" for q j
  proof -
    have "inode_extent j \<inter> inode_extent i = {}" using D(6)[OF q(1) p(1) q(2)] .
    then show ?thesis
      using D(5)[OF q(1)] e' s2(2) inode_on_cong[OF e2(6)] e2(6) by (auto simp: inode_ok_def)
  qed
  then have "fs_inv F s'"
    using wf fm'(1) fm'(2)[OF s2(4)] F(1) unfolding fs_inv_def e' by (auto simp: distinct_remove1)
  with cl e' e2 s2(2) show thesis by (intro that[of s']) auto
qed

subsection \<open>Properties\<close>

lemma created_closed_inode:
  assumes wf: "fs_inv F s" and x: "fresh_sector s x" and len: "0 \<le> len" "len \<le> 2147483136"
    and d: "d = \<lparr>d_start = start, d_length = len, d_magic = INODE_MAGIC\<rparr>" and n: "n = sector_cnt (nat len)"
    and R: "{unat start ..< unat start + n} \<subseteq> free_sectors s" "free_sectors s' = free_sectors s - {unat start ..< unat start + n}"
    and s': "medium (fs_device s') x = inode_disk_bytes d" "inodes s' = inodes s" "blk_size (fs_device s') = blk_size (fs_device s)"
    and fit: "unat start + n \<le> unat (blk_size (fs_device s))"
  shows "closed_inode s' x d"
proof -
  let ?i = "inode_from x d"
  have L: "inode_length ?i = len" "inode_sectors ?i = {unat start ..< unat start + n}"
    "inode_extent ?i = insert (unat x) {unat start ..< unat start + n}"
    by (simp_all add: inode_from_def inode_length_def inode_sectors_def inode_extent_def d n)
  have "inode_on (fs_device s') ?i"
    using L(1) len fit s'(3) unfolding inode_on_def by (simp add: inode_from_def d n)
  then have "inode_ok s' ?i"
    using x L R len s'(3) unfolding inode_ok_def fresh_sector_def by (auto simp: inode_from_def)
  moreover have "inode_extent j \<inter> inode_extent ?i = {}" if "inodes s q = Some j" for q j
    using fs_invD(5)[OF wf that] x that R(1) unfolding L(3) fresh_sector_def inode_ok_def by blast
  moreover have "inode_disk_of (inode_disk_bytes d) = d" using len d by (intro inode_disk_roundtrip) simp_all
  ultimately show ?thesis using s' by (simp add: closed_inode_def)
qed

lemma inode_bytes_medium:
  assumes "inode_on d inode" "\<And>x. unat x \<in> inode_sectors inode \<Longrightarrow> medium d' x = medium d x"
  shows "inode_bytes d' inode = inode_bytes d inode"
proof -
  have "byte_at d' inode k = byte_at d inode k" if "k < nat (inode_length inode)" for k
    using assms(2) sector_index(1,3)[OF assms(1) that] by (simp add: byte_at_def)
  then show ?thesis by (simp add: inode_bytes_def)
qed

lemma inode_bytes_zero:
  assumes "inode_on d inode" "\<And>x. unat x \<in> inode_sectors inode \<Longrightarrow> medium d x = replicate 512 0"
  shows "inode_bytes d inode = replicate (nat (inode_length inode)) 0"
proof (rule nth_equalityI)
  fix k assume "k < length (inode_bytes d inode)"
  then have k: "k < nat (inode_length inode)" by simp
  then show "inode_bytes d inode ! k = replicate (nat (inode_length inode)) 0 ! k"
    using assms(2) sector_index(1,3)[OF assms(1) k] by (simp add: nth_inode_bytes byte_at_def)
qed simp

text \<open>C19: while memory allocations succeed, creating an inode in a sector of its own succeeds exactly when the
  free map has a run of sectors for its data; otherwise it returns false and changes nothing. Opening the new
  inode then gives an inode of the given length in which every byte is zero. The sectors of its data were
  free and are no longer, every inode that was open is open with the same data, and the file system stays
  well-formed.\<close>

theorem inode_create_then_open:
  assumes wf: "fs_wf s" and x: "fresh_sector s x" and len: "0 \<le> len" "len \<le> 2147483136"
  shows "if \<exists>k. {k ..< k + sector_cnt (nat len)} \<subseteq> free_sectors s
    then \<exists>s1 p s2 inode. inode_create x len s = Some (True, s1) \<and> inode_open x s1 = Some (Some p, s2) \<and>
     inodes s2 p = Some inode \<and> inode_length inode = len \<and>
     inode_bytes (fs_device s2) inode = replicate (nat len) 0 \<and>
     inode_sectors inode \<subseteq> free_sectors s \<and> free_sectors s2 = free_sectors s - inode_sectors inode \<and> fs_wf s2 \<and>
     (\<forall>q j. inodes s q = Some j \<and> inode_sectors j \<inter> map_sectors s = {} \<longrightarrow>
        inodes s2 q = Some j \<and> inode_bytes (fs_device s2) j = inode_bytes (fs_device s) j)
    else inode_create x len s = Some (False, s)"
proof -
  let ?n = "sector_cnt (nat len)"
  from wf x len show ?thesis
  proof (cases rule: inode_create_cases)
    case (created start s1)
    let ?R = "{unat start ..< unat start + ?n}" and ?d = "\<lparr>d_start = start, d_length = len, d_magic = INODE_MAGIC\<rparr>"
    have fit: "unat start + ?n \<le> unat (blk_size (fs_device s))" using created(14) .
    have ci: "closed_inode s1 x ?d"
      by (rule created_closed_inode[OF wf x len refl refl created(3,4,5,8,13) fit])
    obtain s2 where s2: "inode_open x s1 = Some (Some (next_obj s1), s2)" "inodes s2 = (inodes s1)(next_obj s1 \<mapsto> inode_from x ?d)"
      "free_map s2 = free_map s1" "medium (fs_device s2) = medium (fs_device s1)"
      "blk_size (fs_device s2) = blk_size (fs_device s1)" "fs_inv {} s2"
      by (rule inode_open_new[OF created(2) ci])
    let ?i = "inode_from x ?d"
    have L: "inode_length ?i = len" "inode_sectors ?i = ?R"
      by (simp_all add: inode_from_def inode_length_def inode_sectors_def)
    have on: "inode_on (fs_device s2) ?i" using fs_invD(5)[OF s2(6), of "next_obj s1" ?i] s2(2) by (simp add: inode_ok_def)
    have "inode_bytes (fs_device s2) ?i = replicate (nat len) 0"
      using inode_bytes_zero[OF on] created(6) s2(4) L by simp
    moreover have "inodes s2 q = Some j \<and> inode_bytes (fs_device s2) j = inode_bytes (fs_device s) j"
      if q: "inodes s q = Some j" "inode_sectors j \<inter> map_sectors s = {}" for q j
    proof -
      have ok: "inode_ok s j" "q < next_obj s" using fs_invD(5)[OF wf q(1)] by auto
      have "medium (fs_device s2) y = medium (fs_device s) y" if "unat y \<in> inode_sectors j" for y
      proof -
        have "unat y \<notin> free_sectors s" using that ok by (auto simp: inode_ok_def inode_extent_def)
        then have "unat y \<notin> ?R" using created(3) by blast
        moreover have "y \<noteq> x" using that x q(1) by (auto simp: fresh_sector_def inode_extent_def)
        moreover have "unat y \<notin> map_sectors s" using that q(2) by blast
        ultimately show ?thesis using created(7)[of y] s2(4) by simp
      qed
      then show ?thesis
        using inode_bytes_medium[of "fs_device s" j "fs_device s2"] q(1) ok s2(2) created(8,11) by (auto simp: inode_ok_def)
    qed
    ultimately have "\<exists>s1 p s2 inode. inode_create x len s = Some (True, s1) \<and> inode_open x s1 = Some (Some p, s2) \<and>
     inodes s2 p = Some inode \<and> inode_length inode = len \<and>
     inode_bytes (fs_device s2) inode = replicate (nat len) 0 \<and>
     inode_sectors inode \<subseteq> free_sectors s \<and> free_sectors s2 = free_sectors s - inode_sectors inode \<and> fs_wf s2 \<and>
     (\<forall>q j. inodes s q = Some j \<and> inode_sectors j \<inter> map_sectors s = {} \<longrightarrow>
        inodes s2 q = Some j \<and> inode_bytes (fs_device s2) j = inode_bytes (fs_device s) j)"
      using created(1,3,4) s2 L by (intro exI[of _ s1] exI[of _ "next_obj s1"] exI[of _ s2] exI[of _ ?i]) auto
    moreover have "\<exists>k. {k ..< k + ?n} \<subseteq> free_sectors s" using created(3) by blast
    ultimately show ?thesis by (simp only: if_True)
  next
    case full
    then show ?thesis by (simp only: if_False)
  qed
qed

lemma demo_map_fs_wf: "fs_wf demo_map_fs" "fresh_sector demo_map_fs 5"
proof -
  have i: "inodes demo_map_fs p = Some i \<longleftrightarrow> p = 0 \<and> i = demo_map_inode" for p i
    by (auto simp: demo_map_fs_def)
  have e: "inode_extent demo_map_inode = {0, 2}" "inode_sectors demo_map_inode = {2}"
    by (auto simp: inode_extent_def inode_sectors_def demo_map_inode_def inode_length_def sector_cnt_def)
  have "inode_ok demo_map_fs demo_map_inode"
    unfolding inode_ok_def e demo_map_free
    by (auto simp: demo_map_inode_def inode_on_def inode_length_def sector_cnt_def demo_map_fs_def demo_device_def)
  then show "fs_wf demo_map_fs"
    unfolding fs_inv_def i using demo_map_wf by (auto simp: demo_map_fs_def demo_fs_def)
  show "fresh_sector demo_map_fs 5"
    unfolding fresh_sector_def i demo_map_free by (auto simp: e demo_map_fs_def demo_device_def)
qed

theorem inode_create_then_open_witness:
  "(\<exists>s1 p s2 inode. inode_create 5 1000 demo_map_fs = Some (True, s1) \<and> inode_open 5 s1 = Some (Some p, s2) \<and>
     inodes s2 p = Some inode \<and> inode_bytes (fs_device s2) inode = replicate 1000 0) \<and>
   inode_create 5 6000 demo_map_fs = Some (False, demo_map_fs)"
proof -
  have "{6 ..< 6 + sector_cnt (nat 1000)} \<subseteq> free_sectors demo_map_fs"
    by (simp add: demo_map_free sector_cnt_def)
  then have yes: "\<exists>k. {k ..< k + sector_cnt (nat 1000)} \<subseteq> free_sectors demo_map_fs" by blast
  have "card {k ..< k + sector_cnt (nat 6000)} \<le> card {6 ..< 16 :: nat}" if "{k ..< k + sector_cnt (nat 6000)} \<subseteq> free_sectors demo_map_fs" for k
    using that unfolding demo_map_free by (intro card_mono) auto
  then have no: "\<not> (\<exists>k. {k ..< k + sector_cnt (nat 6000)} \<subseteq> free_sectors demo_map_fs)" by (auto simp: sector_cnt_def)
  show ?thesis
    using inode_create_then_open[OF demo_map_fs_wf, of 1000] inode_create_then_open[OF demo_map_fs_wf, of 6000] yes no by auto
qed

text \<open>Closing an inode a number of times.\<close>

primrec close_times :: "nat \<Rightarrow> obj \<Rightarrow> fs \<Rightarrow> fs option" where
  "close_times 0 p s = Some s"
| "close_times (Suc k) p s = do { s \<leftarrow> close_times k p s; inode_close (Some p) s }"

lemma close_times_shared:
  assumes wf: "fs_inv F s" and p: "inodes s p = Some i" "i_deny_write_cnt i = 0" and k: "int k < i_open_cnt i"
  shows "close_times k p s = Some (set_inode p (i\<lparr>i_open_cnt := i_open_cnt i - int k\<rparr>) s) \<and>
     fs_inv F (set_inode p (i\<lparr>i_open_cnt := i_open_cnt i - int k\<rparr>) s)"
  using k
proof (induction k)
  case 0
  have "set_inode p i s = s" using p by (simp add: set_inode_def fun_upd_idem)
  with wf show ?case by simp
next
  case (Suc k)
  let ?i = "i\<lparr>i_open_cnt := i_open_cnt i - int k\<rparr>"
  have IH: "close_times k p s = Some (set_inode p ?i s)" "fs_inv F (set_inode p ?i s)" using Suc by auto
  have "inodes (set_inode p ?i s) p = Some ?i" by (simp add: set_inode_def)
  from inode_close_shared[OF IH(2) this] Suc.prems p(2) IH(1) show ?case
    by (simp add: set_inode_def algebra_simps)
qed

text \<open>C20: an inode that is removed while it is open keeps its data and all its sectors until its last
  opener closes it; then exactly its own sector and the sectors of its data become free, and the
  file system stays well-formed.\<close>

theorem removed_inode_freed_on_last_close:
  assumes wf: "fs_wf s" and p: "inodes s p = Some i" "i_deny_write_cnt i = 0" "i_open_cnt i = int (Suc n)"
    and nf: "\<forall>f fl. files s f = Some fl \<longrightarrow> f_inode fl \<noteq> p"
  shows "\<exists>s1 s2. inode_remove p s = Some s1 \<and>
     (\<forall>k \<le> n. \<exists>s'. close_times k p s1 = Some s' \<and> free_sectors s' = free_sectors s \<and>
        fs_device s' = fs_device s \<and> inodes s' p = Some (i\<lparr>i_removed := True, i_open_cnt := int (Suc n - k)\<rparr>)) \<and>
     close_times (Suc n) p s1 = Some s2 \<and> free_sectors s2 = free_sectors s \<union> inode_extent i \<and> inodes s2 p = None \<and> fs_wf s2"
proof -
  let ?i = "i\<lparr>i_removed := True\<rparr>"
  have same: "inode_ok s ?i = inode_ok s i" "inode_extent ?i = inode_extent i"
    by (simp_all add: inode_ok_def inode_on_def inode_length_def inode_sectors_def inode_extent_def)
  define s1 where "s1 = set_inode p ?i s"
  have r: "inode_remove p s = Some s1" using p by (simp add: inode_remove_def s1_def)
  have wf1: "fs_wf s1"
    unfolding s1_def by (rule fs_inv_set_inode[OF wf p(1)]) (use fs_invD(5)[OF wf p(1)] same p(2) in auto)
  have p1: "inodes s1 p = Some ?i" "i_deny_write_cnt ?i = 0" using p by (simp_all add: s1_def set_inode_def)
  have early: "close_times k p s1 = Some (set_inode p (?i\<lparr>i_open_cnt := int (Suc n - k)\<rparr>) s1) \<and>
      fs_wf (set_inode p (?i\<lparr>i_open_cnt := int (Suc n - k)\<rparr>) s1)" if "k \<le> n" for k
  proof -
    have "i_open_cnt ?i - int k = int (Suc n - k)" using that p(3) by simp
    with close_times_shared[OF wf1 p1, of k] that p(3) show ?thesis by simp
  qed
  let ?i1 = "?i\<lparr>i_open_cnt := 1\<rparr>"
  let ?s = "set_inode p ?i1 s1"
  have last: "close_times n p s1 = Some ?s" "fs_wf ?s" using early[of n] by simp_all
  have ps: "inodes ?s p = Some ?i1" "i_open_cnt ?i1 = 1" by (simp_all add: set_inode_def)
  have "files ?s = files s" by (simp add: set_inode_def s1_def)
  then obtain s2 where s2: "inode_close (Some p) ?s = Some s2" "fs_wf s2" "inodes s2 = (inodes ?s)(p := None)"
    "free_sectors s2 = free_sectors ?s \<union> (if i_removed ?i1 then inode_extent ?i1 else {})"
    by (rule_tac inode_close_last[OF last(2) ps]) (use nf in auto)
  have "inode_extent ?i1 = inode_extent i" by (simp add: inode_extent_def inode_sectors_def inode_length_def)
  with s2 last(1) have "close_times (Suc n) p s1 = Some s2" "free_sectors s2 = free_sectors s \<union> inode_extent i" "inodes s2 p = None"
    by (simp_all add: set_inode_def s1_def)
  then show ?thesis using r early s2(2)
    by (intro exI[of _ s1] exI[of _ s2]) (auto simp: set_inode_def s1_def)
qed

lemma free_map_next_obj: "free_map_wf (s\<lparr>next_obj := n\<rparr>) = free_map_wf s" "map_on_disk (s\<lparr>next_obj := n\<rparr>) = map_on_disk s"
  by (simp_all add: free_map_wf_def map_on_disk_def map_file_def)

text \<open>The device with the map and a second open inode: two openers, its data in sectors 4 and 5.\<close>

definition demo_two_fs :: fs where
  "demo_two_fs = demo_map_fs\<lparr>inodes := (inodes demo_map_fs)(2 \<mapsto> demo_inode\<lparr>i_open_cnt := 2\<rparr>),
     open_inodes := [2, 0], next_obj := 3\<rparr>"

lemma demo_two_fs_wf: "fs_wf demo_two_fs"
proof -
  have i: "inodes demo_two_fs p = Some i \<longleftrightarrow> p = 0 \<and> i = demo_map_inode \<or> p = 2 \<and> i = demo_inode\<lparr>i_open_cnt := 2\<rparr>" for p i
    by (auto simp: demo_two_fs_def demo_map_fs_def)
  have e: "inode_extent demo_map_inode = {0, 2}" "inode_sectors demo_map_inode = {2}"
    "inode_extent (demo_inode\<lparr>i_open_cnt := 2\<rparr>) = {3, 4, 5}" "inode_sectors (demo_inode\<lparr>i_open_cnt := 2\<rparr>) = {4, 5}"
    by (auto simp: inode_extent_def inode_sectors_def demo_map_inode_def demo_inode_def inode_length_def sector_cnt_def)
  have fr: "free_sectors demo_two_fs = {6 ..< 16}" using demo_map_free by (simp add: demo_two_fs_def)
  have dev: "blk_size (fs_device demo_two_fs) = 16" by (simp add: demo_two_fs_def demo_map_fs_def demo_device_def)
  have ok: "inode_ok demo_two_fs demo_map_inode" "inode_ok demo_two_fs (demo_inode\<lparr>i_open_cnt := 2\<rparr>)"
    unfolding inode_ok_def e fr dev
    by (auto simp: demo_map_inode_def demo_inode_def inode_on_def inode_length_def sector_cnt_def dev)
  have m: "demo_two_fs = demo_map_fs\<lparr>next_obj := 3\<rparr>\<lparr>inodes := (inodes (demo_map_fs\<lparr>next_obj := 3\<rparr>))(2 := Some (demo_inode\<lparr>i_open_cnt := 2\<rparr>)), open_inodes := [2, 0]\<rparr>"
    by (simp add: demo_two_fs_def)
  have "free_map_wf (demo_map_fs\<lparr>next_obj := 3\<rparr>)" "map_on_disk (demo_map_fs\<lparr>next_obj := 3\<rparr>)"
    using demo_map_wf by (simp_all add: free_map_next_obj)
  from free_map_other_inode(1,2)[OF this(1) _ m] this(2) have "free_map_wf demo_two_fs" "map_on_disk demo_two_fs"
    by (auto simp: demo_map_fs_def)
  then show ?thesis unfolding fs_inv_def i using ok
    by (auto simp: e demo_two_fs_def demo_map_fs_def)
qed

theorem removed_inode_freed_on_last_close_witness:
  "\<exists>s1 s2 s'. inode_remove 2 demo_two_fs = Some s1 \<and> close_times 1 2 s1 = Some s' \<and> free_sectors s' = {6 ..< 16} \<and>
     close_times 2 2 s1 = Some s2 \<and> free_sectors s2 = {6 ..< 16} \<union> {3, 4, 5}"
proof -
  let ?i = "demo_inode\<lparr>i_open_cnt := 2\<rparr>"
  have p: "inodes demo_two_fs 2 = Some ?i" by (simp add: demo_two_fs_def)
  have e: "inode_extent ?i = {3, 4, 5}"
    by (auto simp: inode_extent_def inode_sectors_def demo_inode_def inode_length_def sector_cnt_def)
  have fr: "free_sectors demo_two_fs = {6 ..< 16}" using demo_map_free by (simp add: demo_two_fs_def)
  have nf: "\<forall>f fl. files demo_two_fs f = Some fl \<longrightarrow> f_inode fl \<noteq> 2" by (auto simp: demo_two_fs_def demo_map_fs_def)
  have c: "i_deny_write_cnt ?i = 0" "i_open_cnt ?i = int (Suc 1)" by (simp_all add: demo_inode_def)
  from removed_inode_freed_on_last_close[OF demo_two_fs_wf p c nf] obtain s1 s2 where
    r: "inode_remove 2 demo_two_fs = Some s1" "\<forall>k\<le>1. \<exists>s'. close_times k 2 s1 = Some s' \<and> free_sectors s' = free_sectors demo_two_fs"
    "close_times (Suc 1) 2 s1 = Some s2" "free_sectors s2 = free_sectors demo_two_fs \<union> inode_extent ?i"
    by blast
  then obtain s' where "close_times 1 2 s1 = Some s'" "free_sectors s' = free_sectors demo_two_fs" by blast
  with r(1,3,4) show ?thesis unfolding e fr by (simp add: numeral_2_eq_2)
qed

end
