(* ===== verification/File.thy ===== *)
theory File
  imports Inode
begin

section \<open>Open files\<close>

text \<open>
  Models src/pintos/src/filesys/file.c, and the functions of free-map.c that create, open and close
  the file of the free map.
\<close>

definition set_file :: "obj \<Rightarrow> open_file \<Rightarrow> fs \<Rightarrow> fs" where
  "set_file f file s = s\<lparr>files := (files s)(f := Some file)\<rparr>"

definition file_open :: "obj option \<Rightarrow> fs \<Rightarrow> (obj option \<times> fs) option" where
  "file_open inode s = do {
     let (ok, s) = malloc_ok s;
     case (inode, ok) of (Some p, True) \<Rightarrow>
       Some (Some (next_obj s), set_file (next_obj s) \<lparr>f_inode = p, f_pos = 0, f_deny_write = False\<rparr>
                                  (s\<lparr>next_obj := next_obj s + 1\<rparr>))
     | _ \<Rightarrow> do { s \<leftarrow> inode_close inode s; Some (None, s) }
   }"

definition file_reopen :: "obj \<Rightarrow> fs \<Rightarrow> (obj option \<times> fs) option" where
  "file_reopen f s = do {
     file \<leftarrow> files s f;
     (p, s) \<leftarrow> inode_reopen (Some (f_inode file)) s;
     file_open p s
   }"

definition file_deny_write :: "obj \<Rightarrow> fs \<Rightarrow> fs option" where
  "file_deny_write f s = do {
     file \<leftarrow> files s f;
     if \<not> f_deny_write file
     then inode_deny_write (f_inode file) (set_file f (file\<lparr>f_deny_write := True\<rparr>) s)
     else Some s
   }"

definition file_allow_write :: "obj \<Rightarrow> fs \<Rightarrow> fs option" where
  "file_allow_write f s = do {
     file \<leftarrow> files s f;
     if f_deny_write file
     then inode_allow_write (f_inode file) (set_file f (file\<lparr>f_deny_write := False\<rparr>) s)
     else Some s
   }"

definition file_close :: "obj option \<Rightarrow> fs \<Rightarrow> fs option" where
  "file_close f s = (case f of None \<Rightarrow> Some s
     | Some f \<Rightarrow> do {
         s \<leftarrow> file_allow_write f s;
         file \<leftarrow> files s f;
         s \<leftarrow> inode_close (Some (f_inode file)) s;
         Some (s\<lparr>files := (files s)(f := None)\<rparr>)
       })"

definition file_get_inode :: "obj \<Rightarrow> fs \<Rightarrow> obj option" where
  "file_get_inode f s = do { file \<leftarrow> files s f; Some (f_inode file) }"

definition file_read :: "obj \<Rightarrow> int \<Rightarrow> fs \<Rightarrow> (u8 list \<times> fs) option" where
  "file_read f sz s = do {
     file \<leftarrow> files s f;
     inode \<leftarrow> inodes s (f_inode file);
     (bs, s) \<leftarrow> inode_read_at inode sz (f_pos file) s;
     p \<leftarrow> i32 (f_pos file + int (length bs));
     Some (bs, set_file f (file\<lparr>f_pos := p\<rparr>) s)
   }"

definition file_write :: "obj \<Rightarrow> u8 list \<Rightarrow> int \<Rightarrow> fs \<Rightarrow> (int \<times> fs) option" where
  "file_write f buffer sz s = do {
     file \<leftarrow> files s f;
     inode \<leftarrow> inodes s (f_inode file);
     (n, s) \<leftarrow> inode_write_at inode buffer sz (f_pos file) s;
     p \<leftarrow> i32 (f_pos file + n);
     Some (n, set_file f (file\<lparr>f_pos := p\<rparr>) s)
   }"

definition file_length :: "obj \<Rightarrow> fs \<Rightarrow> int option" where
  "file_length f s = do { file \<leftarrow> files s f; inode \<leftarrow> inodes s (f_inode file); Some (inode_length inode) }"

definition file_seek :: "obj \<Rightarrow> int \<Rightarrow> fs \<Rightarrow> fs option" where
  "file_seek f new_pos s = do {
     file \<leftarrow> files s f;
     ASSERT (new_pos \<ge> 0);
     Some (set_file f (file\<lparr>f_pos := new_pos\<rparr>) s)
   }"

definition file_tell :: "obj \<Rightarrow> fs \<Rightarrow> int option" where
  "file_tell f s = do { file \<leftarrow> files s f; Some (f_pos file) }"

subsection \<open>The file of the free map\<close>

definition free_map_open :: "fs \<Rightarrow> fs option" where
  "free_map_open s = do {
     (p, s) \<leftarrow> inode_open FREE_MAP_SECTOR s;
     (f, s) \<leftarrow> file_open p s;
     let s = s\<lparr>free_map_file := f\<rparr>;
     f \<leftarrow> f;
     (ok, m, s) \<leftarrow> bitmap_read (free_map s) f s;
     ASSERT ok;
     Some (s\<lparr>free_map := m\<rparr>)
   }"

definition free_map_close :: "fs \<Rightarrow> fs option" where
  "free_map_close s = file_close (free_map_file s) s"

definition free_map_create :: "fs \<Rightarrow> fs option" where
  "free_map_create s = do {
     (ok, s) \<leftarrow> inode_create FREE_MAP_SECTOR (sint (bitmap_file_size (free_map s))) s;
     ASSERT ok;
     (p, s) \<leftarrow> inode_open FREE_MAP_SECTOR s;
     (f, s) \<leftarrow> file_open p s;
     let s = s\<lparr>free_map_file := f\<rparr>;
     f \<leftarrow> f;
     (ok, s) \<leftarrow> bitmap_write (free_map s) f s;
     ASSERT ok;
     Some s
   }"

subsection \<open>Files and the counts of their inodes\<close>

definition openers :: "fs \<Rightarrow> obj \<Rightarrow> obj set" where
  "openers s p = {f. \<exists>fl. files s f = Some fl \<and> f_inode fl = p}"

definition deniers :: "fs \<Rightarrow> obj \<Rightarrow> obj set" where
  "deniers s p = {f. \<exists>fl. files s f = Some fl \<and> f_inode fl = p \<and> f_deny_write fl}"

text \<open>Every file is one opener of its inode, and an inode counts the files that deny writing to it.\<close>

definition counts_ok :: "fs \<Rightarrow> bool" where
  "counts_ok s \<longleftrightarrow> finite (dom (files s)) \<and>
     (\<forall>p i. inodes s p = Some i \<longrightarrow> int (card (openers s p)) \<le> i_open_cnt i \<and>
        i_deny_write_cnt i = int (card (deniers s p)))"

text \<open>A file that is not open on the inode of the free map.\<close>

definition user_file :: "fs \<Rightarrow> obj \<Rightarrow> open_file \<Rightarrow> bool" where
  "user_file s f fl \<longleftrightarrow> files s f = Some fl \<and>
     (\<forall>m ml. free_map_file s = Some m \<longrightarrow> files s m = Some ml \<longrightarrow> f_inode ml \<noteq> f_inode fl)"

lemma finite_openers: "counts_ok s \<Longrightarrow> finite (openers s p)" "counts_ok s \<Longrightarrow> finite (deniers s p)"
  by (auto simp: counts_ok_def openers_def deniers_def dom_def intro: finite_subset[of _ "dom (files s)"])

lemma deniers_openers: "deniers s p \<subseteq> openers s p"
  by (auto simp: deniers_def openers_def)

lemma openers_set_file:
  assumes "files s f = Some fl" "f_inode fl' = f_inode fl"
  shows "openers (set_file f fl' s) p = openers s p"
    and "deniers (set_file f fl' s) p = (if p = f_inode fl then
      (if f_deny_write fl' then insert f (deniers s p) else deniers s p - {f}) else deniers s p)"
  using assms by (auto simp: openers_def deniers_def set_file_def)

lemma set_file_eqs [simp]:
  "inodes (set_file f fl s) = inodes s" "open_inodes (set_file f fl s) = open_inodes s" "next_obj (set_file f fl s) = next_obj s"
  "fs_device (set_file f fl s) = fs_device s" "free_map (set_file f fl s) = free_map s"
  "free_map_file (set_file f fl s) = free_map_file s" "alloc_fails (set_file f fl s) = alloc_fails s"
  "files (set_file f fl s) = (files s)(f \<mapsto> fl)"
  by (simp_all add: set_file_def)

lemma set_inode_eqs [simp]:
  "files (set_inode p i s) = files s" "open_inodes (set_inode p i s) = open_inodes s" "next_obj (set_inode p i s) = next_obj s"
  "fs_device (set_inode p i s) = fs_device s" "free_map (set_inode p i s) = free_map s"
  "free_map_file (set_inode p i s) = free_map_file s" "alloc_fails (set_inode p i s) = alloc_fails s"
  "inodes (set_inode p i s) = (inodes s)(p \<mapsto> i)"
  "openers (set_inode p i s) = openers s" "deniers (set_inode p i s) = deniers s"
  by (simp_all add: set_inode_def openers_def deniers_def fun_eq_iff)

text \<open>Inodes that differ at most in their counts and flags, and memory that does not move the free map.\<close>

definition same_data :: "fs \<Rightarrow> fs \<Rightarrow> bool" where
  "same_data s s' \<longleftrightarrow> (\<forall>q j. inodes s' q = Some j \<longrightarrow>
     (\<exists>k. inodes s q = Some k \<and> i_data j = i_data k \<and> i_sector j = i_sector k \<and> i_removed j = i_removed k))"

text \<open>Only the sectors of removed inodes become free.\<close>

definition frees_removed :: "fs \<Rightarrow> fs \<Rightarrow> bool" where
  "frees_removed s s' \<longleftrightarrow>
     free_sectors s' \<subseteq> free_sectors s \<union> {z. \<exists>p i. inodes s p = Some i \<and> i_removed i \<and> z \<in> inode_extent i}"

lemma frees_removed_same: "free_map s' = free_map s \<Longrightarrow> frees_removed s s'"
  by (simp add: frees_removed_def)

lemma same_data_refl [simp]: "same_data s s"
  by (simp add: same_data_def)

lemma same_data_trans: "same_data s s1 \<Longrightarrow> same_data s1 s2 \<Longrightarrow> same_data s s2"
  unfolding same_data_def by metis

lemma same_data_set_inode:
  "inodes s p = Some i \<Longrightarrow> i_data i' = i_data i \<Longrightarrow> i_sector i' = i_sector i \<Longrightarrow> i_removed i' = i_removed i \<Longrightarrow>
     same_data s (set_inode p i' s)"
  by (simp add: same_data_def)

lemma map_sectors_set_inode:
  "inodes s p = Some i \<Longrightarrow> i_data i' = i_data i \<Longrightarrow> map_sectors (set_inode p i' s) = map_sectors s"
  by (auto simp: map_sectors_def inode_sectors_def inode_length_def split: option.splits)

lemma map_sectors_set_file:
  "files s f = Some fl \<Longrightarrow> f_inode fl' = f_inode fl \<Longrightarrow> map_sectors (set_file f fl' s) = map_sectors s"
  by (auto simp: map_sectors_def split: option.splits)

text \<open>Changing the position or the flag of a file.\<close>

lemma fs_inv_set_file:
  assumes wf: "fs_inv F s" and f: "files s f = Some fl" "f_inode fl' = f_inode fl" "0 \<le> f_pos fl'" "f_pos fl' < 2147483648"
  shows "fs_inv F (set_file f fl' s)"
proof -
  let ?s = "set_file f fl' s"
  have mf: "map_file ?s g i b = map_file s g i b" for g i b using f by (auto simp: map_file_def)
  have "free_map_wf ?s" "map_on_disk ?s"
    using fs_invD(1,2)[OF wf] by (simp_all add: free_map_wf_def map_on_disk_def mf)
  moreover have "inode_ok ?s i = inode_ok s i" for i by (simp add: inode_ok_def)
  ultimately show ?thesis using wf f unfolding fs_inv_def by auto
qed

lemma user_file_inode:
  assumes "fs_inv {} s" "files s f = Some fl"
  obtains i where "inodes s (f_inode fl) = Some i" "inode_ok s i" "f < next_obj s" "0 \<le> f_pos fl" "f_pos fl < 2147483648"
  using fs_invD(7)[OF assms] fs_invD(5)[OF assms(1)] by blast

subsection \<open>Denying and allowing writes\<close>

lemma file_deny_write_ok:
  assumes wf: "fs_inv {} s" and c: "counts_ok s" and f: "user_file s f fl"
  shows "\<exists>s'. file_deny_write f s = Some s' \<and> fs_inv {} s' \<and> counts_ok s' \<and> fs_device s' = fs_device s \<and>
     openers s' = openers s \<and> deniers s' = (deniers s)(f_inode fl := insert f (deniers s (f_inode fl))) \<and>
     same_data s s' \<and> free_map s' = free_map s \<and> free_map_file s' = free_map_file s \<and> (\<forall>g. g \<noteq> f \<longrightarrow> files s' g = files s g)"
proof (cases "f_deny_write fl")
  case True
  then have "f \<in> deniers s (f_inode fl)" using f by (auto simp: user_file_def deniers_def)
  with True f wf c show ?thesis by (auto simp: file_deny_write_def user_file_def insert_absorb fun_upd_idem)
next
  case False
  let ?p = "f_inode fl" and ?fl = "fl\<lparr>f_deny_write := True\<rparr>"
  have fs: "files s f = Some fl" using f by (simp add: user_file_def)
  obtain i where i: "inodes s ?p = Some i" "inode_ok s i" "0 \<le> f_pos fl" "f_pos fl < 2147483648"
    by (rule user_file_inode[OF wf fs])
  let ?i = "i\<lparr>i_deny_write_cnt := i_deny_write_cnt i + 1\<rparr>"
  let ?s = "set_inode ?p ?i (set_file f ?fl s)"
  have nd: "f \<notin> deniers s ?p" using fs False by (auto simp: deniers_def)
  have "f \<in> openers s ?p" using fs by (auto simp: openers_def)
  then have "card (insert f (deniers s ?p)) \<le> card (openers s ?p)"
    using deniers_openers[of s ?p] finite_openers[OF c, of ?p] by (intro card_mono) auto
  then have le: "i_deny_write_cnt i + 1 \<le> i_open_cnt i"
    using c i(1) nd finite_openers[OF c, of ?p] unfolding counts_ok_def by fastforce
  have bnd: "0 \<le> i_deny_write_cnt i" "i_open_cnt i < 2147483648" using i(2) by (simp_all add: inode_ok_def)
  have wf1: "fs_inv {} (set_file f ?fl s)" by (rule fs_inv_set_file[OF wf fs]) (use i in simp_all)
  have "inode_ok (set_file f ?fl s) ?i"
    using i(2) le by (simp add: inode_ok_def inode_on_def inode_length_def inode_sectors_def inode_extent_def)
  then have "fs_inv {} ?s"
    by (rule_tac fs_inv_set_inode[OF wf1]) (use i f in \<open>auto simp: user_file_def split: if_splits\<close>)
  moreover have r: "file_deny_write f s = Some ?s"
    using fs False i(1) le bnd by (simp add: file_deny_write_def inode_deny_write_def)
  moreover have dn: "deniers ?s = (deniers s)(?p := insert f (deniers s ?p))"
    using openers_set_file(2)[OF fs, of ?fl] by (auto simp: fun_eq_iff)
  moreover have op: "openers ?s = openers s" using openers_set_file(1)[OF fs, of ?fl] by (auto simp: fun_eq_iff)
  moreover have "counts_ok ?s"
    unfolding counts_ok_def op dn
    using c i(1) le nd finite_openers(2)[OF c, of ?p] by (auto simp: counts_ok_def fs)
  moreover have "same_data s ?s" using i(1) by (auto simp: same_data_def)
  ultimately show ?thesis by auto
qed

lemma file_allow_write_ok:
  assumes wf: "fs_inv {} s" and c: "counts_ok s" and f: "user_file s f fl"
  shows "\<exists>s'. file_allow_write f s = Some s' \<and> fs_inv {} s' \<and> counts_ok s' \<and> fs_device s' = fs_device s \<and>
     openers s' = openers s \<and> deniers s' = (deniers s)(f_inode fl := deniers s (f_inode fl) - {f}) \<and>
     user_file s' f (fl\<lparr>f_deny_write := False\<rparr>) \<and> free_map s' = free_map s \<and> free_map_file s' = free_map_file s \<and>
     same_data s s' \<and> map_sectors s' = map_sectors s \<and> (\<forall>g. g \<noteq> f \<longrightarrow> files s' g = files s g)"
proof (cases "f_deny_write fl")
  case False
  then have "f \<notin> deniers s (f_inode fl)" using f by (auto simp: user_file_def deniers_def)
  with False f wf c show ?thesis by (auto simp: file_allow_write_def user_file_def fun_upd_idem)
next
  case True
  let ?p = "f_inode fl" and ?fl = "fl\<lparr>f_deny_write := False\<rparr>"
  have fs: "files s f = Some fl" using f by (simp add: user_file_def)
  obtain i where i: "inodes s ?p = Some i" "inode_ok s i" "0 \<le> f_pos fl" "f_pos fl < 2147483648"
    by (rule user_file_inode[OF wf fs])
  let ?i = "i\<lparr>i_deny_write_cnt := i_deny_write_cnt i - 1\<rparr>"
  let ?s = "set_inode ?p ?i (set_file f ?fl s)"
  have fd: "f \<in> deniers s ?p" using fs True by (auto simp: deniers_def)
  then have "0 < card (deniers s ?p)" using finite_openers(2)[OF c] card_gt_0_iff by blast
  then have pos: "0 < i_deny_write_cnt i" using c i(1) by (simp add: counts_ok_def)
  have le: "i_deny_write_cnt i \<le> i_open_cnt i" using i(2) by (simp add: inode_ok_def)
  have wf1: "fs_inv {} (set_file f ?fl s)" by (rule fs_inv_set_file[OF wf fs]) (use i in simp_all)
  have "inode_ok (set_file f ?fl s) ?i"
    using i(2) pos by (simp add: inode_ok_def inode_on_def inode_length_def inode_sectors_def inode_extent_def)
  then have "fs_inv {} ?s"
    by (rule_tac fs_inv_set_inode[OF wf1]) (use i f in \<open>auto simp: user_file_def split: if_splits\<close>)
  moreover have r: "file_allow_write f s = Some ?s"
    using fs True i(1) le pos by (simp add: file_allow_write_def inode_allow_write_def)
  moreover have dn: "deniers ?s = (deniers s)(?p := deniers s ?p - {f})"
    using openers_set_file(2)[OF fs, of ?fl] by (auto simp: fun_eq_iff)
  moreover have op: "openers ?s = openers s" using openers_set_file(1)[OF fs, of ?fl] by (auto simp: fun_eq_iff)
  moreover have "counts_ok ?s"
    unfolding counts_ok_def op dn
    using c i(1) pos fd finite_openers(2)[OF c, of ?p] by (auto simp: counts_ok_def fs card_Diff_singleton)
  moreover have "user_file ?s f ?fl" using f by (auto simp: user_file_def)
  moreover have "same_data s ?s" using i(1) by (auto simp: same_data_def)
  moreover have "map_sectors ?s = map_sectors s"
    using map_sectors_set_inode[of "set_file f ?fl s" ?p i ?i] map_sectors_set_file[OF fs, of ?fl] i(1) by simp
  ultimately show ?thesis by auto
qed

subsection \<open>Closing and reopening\<close>

lemma free_map_drop_file:
  assumes "free_map_file s \<noteq> Some f"
  shows "free_map_wf (s\<lparr>files := (files s)(f := None)\<rparr>) = free_map_wf s"
    "map_on_disk (s\<lparr>files := (files s)(f := None)\<rparr>) = map_on_disk s"
proof -
  have "map_file (s\<lparr>files := (files s)(f := None)\<rparr>) g i b = map_file s g i b" if "g \<noteq> f" for g i b
    using that by (simp add: map_file_def)
  then show "free_map_wf (s\<lparr>files := (files s)(f := None)\<rparr>) = free_map_wf s"
    "map_on_disk (s\<lparr>files := (files s)(f := None)\<rparr>) = map_on_disk s"
    using assms by (cases "free_map_file s"; simp add: free_map_wf_def map_on_disk_def)+
qed

lemma fs_inv_drop_file:
  assumes wf: "fs_inv {f} s" and m: "free_map_file s \<noteq> Some f"
  shows "fs_inv {} (s\<lparr>files := (files s)(f := None)\<rparr>)"
proof -
  have "inode_ok (s\<lparr>files := (files s)(f := None)\<rparr>) i = inode_ok s i" for i by (simp add: inode_ok_def)
  then show ?thesis using wf unfolding fs_inv_def free_map_drop_file[OF m] by auto
qed

lemma fs_inv_weaken: "fs_inv {} s \<Longrightarrow> fs_inv F s"
  unfolding fs_inv_def by blast

lemma counts_drop_file:
  assumes c: "counts_ok s" and f: "files s f = Some fl" "\<not> f_deny_write fl"
    and files: "files s' = (files s)(f := None)"
    and i: "\<And>p i'. inodes s' p = Some i' \<Longrightarrow> \<exists>i. inodes s p = Some i \<and> i_deny_write_cnt i' = i_deny_write_cnt i \<and>
              i_open_cnt i' = (if p = f_inode fl then i_open_cnt i - 1 else i_open_cnt i)"
  shows "counts_ok s'"
proof -
  have op: "openers s' p = openers s p - {f}" "deniers s' p = deniers s p" for p
    using f files by (auto simp: openers_def deniers_def)
  have "int (card (openers s' p)) \<le> i_open_cnt i' \<and> i_deny_write_cnt i' = int (card (deniers s' p))"
    if i': "inodes s' p = Some i'" for p i'
  proof -
    obtain j where j: "inodes s p = Some j" "i_deny_write_cnt i' = i_deny_write_cnt j"
      "i_open_cnt i' = (if p = f_inode fl then i_open_cnt j - 1 else i_open_cnt j)" using i[OF i'] by blast
    have cj: "int (card (openers s p)) \<le> i_open_cnt j" "i_deny_write_cnt j = int (card (deniers s p))"
      using c j(1) by (auto simp: counts_ok_def)
    have fin: "finite (openers s p)" using finite_openers(1)[OF c] .
    have mem: "f \<in> openers s p \<longleftrightarrow> p = f_inode fl" using f by (auto simp: openers_def)
    show ?thesis
    proof (cases "p = f_inode fl")
      case True
      then have "f \<in> openers s p" using mem by blast
      then have "card (openers s p) = Suc (card (openers s p - {f}))" by (rule card.remove[OF fin])
      then have "int (card (openers s p - {f})) = int (card (openers s p)) - 1" by linarith
      moreover have "i_open_cnt i' = i_open_cnt j - 1" using j(3) True by simp
      ultimately show ?thesis using cj j(2) unfolding op by linarith
    next
      case False
      then have "openers s p - {f} = openers s p" using mem by blast
      with cj j False show ?thesis by (simp add: op)
    qed
  qed
  moreover have "finite (dom (files s'))" using c files by (simp add: counts_ok_def)
  ultimately show ?thesis unfolding counts_ok_def by blast
qed

lemma file_close_ok:
  assumes wf: "fs_inv {} s" and c: "counts_ok s" and f: "user_file s f fl"
  shows "\<exists>s'. file_close (Some f) s = Some s' \<and> fs_inv {} s' \<and> counts_ok s' \<and> files s' f = None \<and>
     free_map_file s' = free_map_file s \<and> (\<forall>g. g \<noteq> f \<longrightarrow> files s' g = files s g) \<and>
     same_data s s' \<and> frees_removed s s' \<and> blk_size (fs_device s') = blk_size (fs_device s) \<and>
     (\<forall>x. unat x \<notin> map_sectors s \<longrightarrow> medium (fs_device s') x = medium (fs_device s) x)"
proof -
  let ?fl = "fl\<lparr>f_deny_write := False\<rparr>" and ?p = "f_inode fl"
  obtain s1 where s1: "file_allow_write f s = Some s1" "fs_inv {} s1" "counts_ok s1" "user_file s1 f ?fl"
    "free_map_file s1 = free_map_file s" "fs_device s1 = fs_device s" "same_data s s1" "map_sectors s1 = map_sectors s"
    "\<forall>g. g \<noteq> f \<longrightarrow> files s1 g = files s g" "free_map s1 = free_map s"
    using file_allow_write_ok[OF assms] by blast
  have f1: "files s1 f = Some ?fl" and m: "free_map_file s1 \<noteq> Some f" using s1(4) by (auto simp: user_file_def)
  obtain i where i: "inodes s1 ?p = Some i" "inode_ok s1 i"
    by (rule user_file_inode[OF s1(2) f1]) simp
  have wfF: "fs_inv {f} s1" using s1(2) by (rule fs_inv_weaken)
  have mem: "f \<in> openers s1 ?p - deniers s1 ?p" using f1 by (auto simp: openers_def deniers_def)
  then have "card (deniers s1 ?p) < card (openers s1 ?p)"
    using deniers_openers[of s1 ?p] finite_openers(1)[OF s1(3), of ?p] by (intro psubset_card_mono) auto
  then have lt: "i_deny_write_cnt i < i_open_cnt i" using s1(3) i(1) unfolding counts_ok_def by fastforce
  have ic: "int (card (openers s1 ?p)) \<le> i_open_cnt i" using s1(3) i(1) by (simp add: counts_ok_def)
  obtain s2 where s2: "inode_close (Some ?p) s1 = Some s2" "fs_inv {f} s2" "files s2 = files s1"
    "free_map_file s2 = free_map_file s1"
    "\<And>q j. inodes s2 q = Some j \<Longrightarrow> \<exists>k. inodes s1 q = Some k \<and> i_deny_write_cnt j = i_deny_write_cnt k \<and>
       i_open_cnt j = (if q = ?p then i_open_cnt k - 1 else i_open_cnt k)"
    "same_data s1 s2" "\<forall>x. unat x \<notin> map_sectors s1 \<longrightarrow> medium (fs_device s2) x = medium (fs_device s1) x"
    "frees_removed s1 s2" "blk_size (fs_device s2) = blk_size (fs_device s1)"
  proof (cases "i_open_cnt i = 1")
    case False
    have "inodes (set_inode ?p (i\<lparr>i_open_cnt := i_open_cnt i - 1\<rparr>) s1) q = Some j \<Longrightarrow>
        \<exists>k. inodes s1 q = Some k \<and> i_deny_write_cnt j = i_deny_write_cnt k \<and>
          i_open_cnt j = (if q = ?p then i_open_cnt k - 1 else i_open_cnt k)" for q j
      using i(1) by (auto split: if_splits)
    with inode_close_shared[OF wfF i(1) lt False] show thesis
      using i(1) by (intro that[of "set_inode ?p (i\<lparr>i_open_cnt := i_open_cnt i - 1\<rparr>) s1"]) (auto simp: same_data_def frees_removed_same)
  next
    case True
    have only: "g \<in> {f}" if "files s1 g = Some gl" "f_inode gl = ?p" for g gl
    proof -
      have "g \<in> openers s1 ?p" using that by (auto simp: openers_def)
      moreover have "card (openers s1 ?p) \<le> 1" using ic True by simp
      ultimately show ?thesis
        using mem finite_openers(1)[OF s1(3), of ?p] by (auto simp: card_le_Suc0_iff_eq)
    qed
    obtain s2 where s2: "inode_close (Some ?p) s1 = Some s2" "fs_inv {f} s2" "inodes s2 = (inodes s1)(?p := None)"
      "files s2 = files s1" "free_map_file s2 = free_map_file s1"
      "\<forall>x. unat x \<notin> map_sectors s1 \<longrightarrow> medium (fs_device s2) x = medium (fs_device s1) x"
      "free_sectors s2 = free_sectors s1 \<union> (if i_removed i then inode_extent i else {})" "blk_size (fs_device s2) = blk_size (fs_device s1)"
    proof (rule inode_close_last[where p = ?p and F = "{f}" and s = s1 and i = i])
      show "g \<in> {f}" if "files s1 g = Some gl" "f_inode gl = ?p" for g gl using only[OF that] .
      show "g \<notin> {f}" if "free_map_file s1 = Some g" for g using that m by auto
    qed (use wfF i True in auto)
    show thesis
    proof (rule that[OF s2(1,2,4,5) _ _ s2(6) _ s2(8)])
      show "frees_removed s1 s2" unfolding frees_removed_def s2(7) using i(1) by auto
      show "same_data s1 s2" unfolding same_data_def s2(3) by (auto split: if_splits)
      fix q j assume "inodes s2 q = Some j"
      then have "inodes s1 q = Some j" "q \<noteq> ?p" unfolding s2(3) by (auto split: if_splits)
      then show "\<exists>k. inodes s1 q = Some k \<and> i_deny_write_cnt j = i_deny_write_cnt k \<and>
          i_open_cnt j = (if q = ?p then i_open_cnt k - 1 else i_open_cnt k)" by simp
    qed
  qed
  define s' where "s' = s2\<lparr>files := (files s2)(f := None)\<rparr>"
  have "file_close (Some f) s = Some s'" using s1(1) f1 s2(1) by (simp add: file_close_def s'_def)
  moreover have "fs_inv {} s'" unfolding s'_def by (rule fs_inv_drop_file[OF s2(2)]) (use m s2(4) in simp)
  moreover have "counts_ok s'"
  proof (rule counts_drop_file[OF s1(3) f1])
    show "files s' = (files s1)(f := None)" using s2(3) by (simp add: s'_def)
    show "\<exists>k. inodes s1 q = Some k \<and> i_deny_write_cnt j = i_deny_write_cnt k \<and>
        i_open_cnt j = (if q = f_inode ?fl then i_open_cnt k - 1 else i_open_cnt k)" if "inodes s' q = Some j" for q j
      using s2(5)[of q j] that by (simp add: s'_def)
  qed simp
  moreover have "same_data s s'" using same_data_trans[OF s1(7) s2(6)] by (simp add: s'_def same_data_def)
  moreover have "frees_removed s s'"
    using s2(8) s1(7,10) unfolding frees_removed_def same_data_def by (fastforce simp: s'_def inode_extent_def inode_sectors_def inode_length_def)
  ultimately show ?thesis using s2(3,4,7,9) s1(5,6,8,9) by (auto simp: s'_def)
qed

lemma file_open_ok:
  assumes wf: "fs_inv {} s" and c: "counts_ok s" and p: "inodes s p = Some i" "int (card (openers s p)) < i_open_cnt i"
  shows "\<exists>s'. file_open (Some p) s = Some (Some (next_obj s), s') \<and> fs_inv {} s' \<and> counts_ok s' \<and>
     files s' = (files s)(next_obj s \<mapsto> \<lparr>f_inode = p, f_pos = 0, f_deny_write = False\<rparr>) \<and>
     fs_device s' = fs_device s \<and> inodes s' = inodes s \<and> free_map s' = free_map s \<and> free_map_file s' = free_map_file s"
proof -
  note D = fs_invD[OF wf]
  let ?f = "next_obj s" and ?fl = "\<lparr>f_inode = p, f_pos = 0, f_deny_write = False\<rparr>"
  define s' where "s' = set_file ?f ?fl (s\<lparr>next_obj := ?f + 1\<rparr>)"
  have fresh: "files s ?f = None" using D(7)[of ?f] by fastforce
  have "malloc_ok s = (True, s)" using D(9) by (simp add: malloc_ok_def)
  then have r: "file_open (Some p) s = Some (Some ?f, s')" by (simp add: file_open_def s'_def)
  have mf: "map_file s' g j b" if "map_file s g j b" for g j b
    using that fresh by (auto simp: map_file_def s'_def)
  have e: "free_map s' = free_map s" "fs_device s' = fs_device s" "free_map_file s' = free_map_file s"
    "alloc_fails s' = alloc_fails s" by (simp_all add: s'_def)
  have "free_map_wf s'" "map_on_disk s'"
    using D(1,2) mf unfolding free_map_wf_def map_on_disk_def e by blast+
  moreover have "inode_ok s' j = inode_ok s j" for j by (simp add: inode_ok_def s'_def)
  ultimately have wf': "fs_inv {} s'"
    using wf p unfolding fs_inv_def by (auto simp: s'_def less_Suc_eq)
  have op: "openers s' q = (if q = p then insert ?f (openers s q) else openers s q)" "deniers s' q = deniers s q" for q
    using fresh by (auto simp: openers_def deniers_def s'_def)
  have "?f \<notin> openers s p" using fresh by (simp add: openers_def)
  then have "counts_ok s'"
    unfolding counts_ok_def op
    using c p finite_openers(1)[OF c, of p] by (auto simp: counts_ok_def s'_def)
  with r wf' show ?thesis by (auto simp: s'_def)
qed

lemma file_reopen_ok:
  assumes wf: "fs_inv {} s" and c: "counts_ok s" and f: "files s f = Some fl" "inodes s (f_inode fl) = Some i"
    "i_open_cnt i < 2147483647"
  shows "\<exists>s'. file_reopen f s = Some (Some (next_obj s), s') \<and> fs_inv {} s' \<and> counts_ok s' \<and>
     files s' = (files s)(next_obj s \<mapsto> \<lparr>f_inode = f_inode fl, f_pos = 0, f_deny_write = False\<rparr>) \<and> fs_device s' = fs_device s \<and>
     free_map s' = free_map s"
proof -
  let ?i = "i\<lparr>i_open_cnt := i_open_cnt i + 1\<rparr>"
  let ?s = "set_inode (f_inode fl) ?i s"
  have r: "inode_reopen (Some (f_inode fl)) s = Some (Some (f_inode fl), ?s)" "fs_inv {} ?s"
    using inode_reopen_open[OF wf f(2,3)] by auto
  have ci: "int (card (openers s (f_inode fl))) \<le> i_open_cnt i" "i_deny_write_cnt i = int (card (deniers s (f_inode fl)))"
    using c f(2) by (simp_all add: counts_ok_def)
  have c1: "counts_ok ?s" "int (card (openers ?s (f_inode fl))) < i_open_cnt ?i"
    using c ci by (auto simp: counts_ok_def)
  have "inodes ?s (f_inode fl) = Some ?i" by simp
  from file_open_ok[OF r(2) c1(1) this c1(2)] r(1) f(1) show ?thesis by (auto simp: file_reopen_def)
qed

subsection \<open>Reading, writing and positioning\<close>

lemma counts_ok_cong: "files s' = files s \<Longrightarrow> inodes s' = inodes s \<Longrightarrow> counts_ok s' = counts_ok s"
  by (simp add: counts_ok_def openers_def deniers_def)

lemma counts_ok_set_file:
  assumes "counts_ok s" "files s f = Some fl" "f_inode fl' = f_inode fl" "f_deny_write fl' = f_deny_write fl"
  shows "counts_ok (set_file f fl' s)"
proof -
  have "openers (set_file f fl' s) p = openers s p" "deniers (set_file f fl' s) p = deniers s p" for p
    using assms by (auto simp: openers_def deniers_def)
  then show ?thesis using assms(1) by (simp add: counts_ok_def)
qed

lemma set_file_same: "files s f = Some fl \<Longrightarrow> set_file f fl s = s"
  by (simp add: set_file_def fun_upd_idem)

text \<open>The state after reading or writing, with the position advanced by \<open>n\<close>.\<close>

lemma advance_file:
  assumes wf: "fs_inv {} s" and c: "counts_ok s" and f: "files s f = Some fl" "0 \<le> n" "f_pos fl + n < 2147483648"
  shows "i32 (f_pos fl + n) = Some (f_pos fl + n) \<and> fs_inv {} (set_file f (fl\<lparr>f_pos := f_pos fl + n\<rparr>) s) \<and>
     counts_ok (set_file f (fl\<lparr>f_pos := f_pos fl + n\<rparr>) s)"
proof -
  have "0 \<le> f_pos fl" using fs_invD(7)[OF wf f(1)] by simp
  then show ?thesis
    using fs_inv_set_file[OF wf f(1), of "fl\<lparr>f_pos := f_pos fl + n\<rparr>"]
      counts_ok_set_file[OF c f(1), of "fl\<lparr>f_pos := f_pos fl + n\<rparr>"] f by simp
qed

lemma file_read_ok:
  assumes wf: "fs_inv {} s" and c: "counts_ok s" and f: "files s f = Some fl" "inodes s (f_inode fl) = Some i"
  shows "\<exists>bs s'. file_read f sz s = Some (bs, s') \<and>
     bs = take (nat sz) (drop (nat (f_pos fl)) (inode_bytes (fs_device s) i)) \<and>
     fs_inv {} s' \<and> counts_ok s' \<and> files s' = (files s)(f \<mapsto> fl\<lparr>f_pos := f_pos fl + int (length bs)\<rparr>) \<and>
     inodes s' = inodes s \<and> free_map s' = free_map s \<and> free_map_file s' = free_map_file s \<and> medium (fs_device s') = medium (fs_device s) \<and>
     blk_size (fs_device s') = blk_size (fs_device s)"
proof -
  note D = fs_invD[OF wf]
  have pos: "0 \<le> f_pos fl" "f_pos fl < 2147483648" using D(7)[OF f(1)] by auto
  have on: "inode_on (fs_device s) i" using D(5)[OF f(2)] by (simp add: inode_ok_def)
  obtain bs s1 where r: "inode_read_at i sz (f_pos fl) s = Some (bs, s1)" "only_read s s1"
    "bs = take (nat sz) (drop (nat (f_pos fl)) (inode_bytes (fs_device s) i))"
    by (rule inode_read_at_bytes[OF on D(8) pos, of sz]) (simp add: D(9))
  have e: "inodes s1 = inodes s" "files s1 = files s" "free_map_file s1 = free_map_file s" "free_map s1 = free_map s"
    "medium (fs_device s1) = medium (fs_device s)" "blk_size (fs_device s1) = blk_size (fs_device s)"
    using r(2) by (auto simp: only_read_def)
  have wf1: "fs_inv {} s1" by (rule fs_inv_wrote[OF wf only_wrote_read[OF r(2), of "{}"]]) simp
  have c1: "counts_ok s1" using c counts_ok_cong[OF e(2,1)] by simp
  have "int (length bs) \<le> max 0 (inode_length i - f_pos fl)" using r(3) pos on by (simp add: inode_on_def)
  then have "f_pos fl + int (length bs) < 2147483648" using pos on by (auto simp: inode_on_def max_def split: if_splits)
  with advance_file[OF wf1 c1, of f fl "int (length bs)"] f r(1) e show ?thesis
    by (auto simp: file_read_def r(3)[symmetric])
qed

lemma file_write_ok:
  assumes wf: "fs_inv {} s" and c: "counts_ok s" and f: "user_file s f fl" "inodes s (f_inode fl) = Some i"
    and buf: "nat sz \<le> length buffer"
  shows "\<exists>n s'. file_write f buffer sz s = Some (int n, s') \<and>
     n = (if deniers s (f_inode fl) = {} then min (nat sz) (nat (inode_length i) - nat (f_pos fl)) else 0) \<and>
     inode_bytes (fs_device s') i = buf_put (nat (f_pos fl)) (take n buffer) (inode_bytes (fs_device s) i) \<and>
     (\<forall>x. unat x \<notin> inode_sectors i \<longrightarrow> medium (fs_device s') x = medium (fs_device s) x) \<and>
     fs_inv {} s' \<and> counts_ok s' \<and> files s' = (files s)(f \<mapsto> fl\<lparr>f_pos := f_pos fl + int n\<rparr>) \<and>
     inodes s' = inodes s \<and> free_map s' = free_map s \<and> free_map_file s' = free_map_file s \<and> blk_size (fs_device s') = blk_size (fs_device s)"
proof -
  note D = fs_invD[OF wf]
  have fs: "files s f = Some fl" using f by (simp add: user_file_def)
  have pos: "0 \<le> f_pos fl" "f_pos fl < 2147483648" using D(7)[OF fs] by auto
  have ok: "inode_ok s i" using D(5)[OF f(2)] by blast
  then have on: "inode_on (fs_device s) i" by (simp add: inode_ok_def)
  have deny: "i_deny_write_cnt i = int (card (deniers s (f_inode fl)))" using c f(2) by (simp add: counts_ok_def)
  show ?thesis
  proof (cases "deniers s (f_inode fl) = {}")
    case False
    then have "i_deny_write_cnt i \<noteq> 0" using deny finite_openers(2)[OF c] by (simp add: card_gt_0_iff)
    then have "file_write f buffer sz s = Some (0, set_file f fl s)"
      using fs f(2) pos by (simp add: file_write_def inode_write_at_denied)
    with False wf c fs show ?thesis
      by (intro exI[of _ 0] exI[of _ s]) (simp add: set_file_same fun_upd_idem)
  next
    case True
    then have d0: "i_deny_write_cnt i = 0" using deny by simp
    obtain n s1 where w: "inode_write_at i buffer sz (f_pos fl) s = Some (int n, s1)"
      "n = min (nat sz) (nat (inode_length i) - nat (f_pos fl))" "only_wrote (inode_sectors i) s s1"
      "inode_bytes (fs_device s1) i = buf_put (nat (f_pos fl)) (take n buffer) (inode_bytes (fs_device s) i)"
      by (rule inode_write_at_bytes[OF on D(8) pos buf d0]) (simp add: D(9))
    have e: "inodes s1 = inodes s" "files s1 = files s" "free_map_file s1 = free_map_file s" "free_map s1 = free_map s"
      "blk_size (fs_device s1) = blk_size (fs_device s)" "\<forall>x. unat x \<notin> inode_sectors i \<longrightarrow> medium (fs_device s1) x = medium (fs_device s) x"
      using w(3) by (auto simp: only_wrote_def)
    have "inode_sectors i \<inter> map_sectors s = {}"
    proof -
      obtain m ml j where m: "free_map_file s = Some m" "files s m = Some ml" "inodes s (f_inode ml) = Some j"
        "map_sectors s = inode_sectors j"
        using D(1) by (auto simp: free_map_wf_def map_file_def map_sectors_def)
      then have "f_inode ml \<noteq> f_inode fl" using f(1) by (auto simp: user_file_def)
      then show ?thesis using D(6)[OF m(3) f(2)] m(4) by (auto simp: inode_extent_def)
    qed
    then have wf1: "fs_inv {} s1" by (rule fs_inv_wrote[OF wf w(3)])
    have c1: "counts_ok s1" using c counts_ok_cong[OF e(2,1)] by simp
    have "n \<le> nat (inode_length i) - nat (f_pos fl)" using w(2) by simp
    then have "f_pos fl + int n < 2147483648" using pos on by (cases "n = 0") (auto simp: inode_on_def)
    then have a: "i32 (f_pos fl + int n) = Some (f_pos fl + int n)"
      "fs_inv {} (set_file f (fl\<lparr>f_pos := f_pos fl + int n\<rparr>) s1)"
      "counts_ok (set_file f (fl\<lparr>f_pos := f_pos fl + int n\<rparr>) s1)"
      using advance_file[OF wf1 c1, of f fl "int n"] fs e(2) by simp_all
    have "file_write f buffer sz s = Some (int n, set_file f (fl\<lparr>f_pos := f_pos fl + int n\<rparr>) s1)"
      using fs f(2) w(1) a(1) by (simp add: file_write_def)
    with a(2,3) True w(2,4) e show ?thesis
      by (intro exI[of _ n] exI[of _ "set_file f (fl\<lparr>f_pos := f_pos fl + int n\<rparr>) s1"]) simp
  qed
qed

lemma file_seek_ok:
  assumes wf: "fs_inv {} s" and c: "counts_ok s" and f: "files s f = Some fl" "0 \<le> q" "q < 2147483648"
  shows "\<exists>s'. file_seek f q s = Some s' \<and> fs_inv {} s' \<and> counts_ok s' \<and> files s' = (files s)(f \<mapsto> fl\<lparr>f_pos := q\<rparr>) \<and>
     inodes s' = inodes s \<and> free_map s' = free_map s \<and> free_map_file s' = free_map_file s \<and> fs_device s' = fs_device s"
  using fs_inv_set_file[OF wf f(1), of "fl\<lparr>f_pos := q\<rparr>"] counts_ok_set_file[OF c f(1), of "fl\<lparr>f_pos := q\<rparr>"] f
  by (simp add: file_seek_def)

subsection \<open>Properties\<close>

text \<open>One operation on the file \<open>g\<close>, with any arguments the C code accepts.\<close>

inductive file_step :: "obj \<Rightarrow> fs \<Rightarrow> fs \<Rightarrow> bool" where
  on_reopen: "user_file s g gl \<Longrightarrow> file_reopen g s = Some (h, s') \<Longrightarrow> file_step g s s'"
| on_deny: "user_file s g gl \<Longrightarrow> file_deny_write g s = Some s' \<Longrightarrow> file_step g s s'"
| on_allow: "user_file s g gl \<Longrightarrow> file_allow_write g s = Some s' \<Longrightarrow> file_step g s s'"
| on_close: "user_file s g gl \<Longrightarrow> file_close (Some g) s = Some s' \<Longrightarrow> file_step g s s'"
| on_seek: "user_file s g gl \<Longrightarrow> q < 2147483648 \<Longrightarrow> file_seek g q s = Some s' \<Longrightarrow> file_step g s s'"
| on_read: "user_file s g gl \<Longrightarrow> file_read g sz s = Some (bs, s') \<Longrightarrow> file_step g s s'"
| on_write: "user_file s g gl \<Longrightarrow> nat sz \<le> length buffer \<Longrightarrow> file_write g buffer sz s = Some (n, s') \<Longrightarrow> file_step g s s'"

text \<open>Any sequence of operations on files other than \<open>f\<close>.\<close>

inductive other_files :: "obj \<Rightarrow> fs \<Rightarrow> fs \<Rightarrow> bool" for f where
  none: "other_files f s s"
| step: "other_files f s s1 \<Longrightarrow> g \<noteq> f \<Longrightarrow> file_step g s1 s2 \<Longrightarrow> other_files f s s2"

text \<open>What an operation on \<open>g\<close> leaves: all other files, the free map file, and every sector outside
  the free map and the inode of \<open>g\<close>, and that inode too if some file denies writing to it.\<close>

definition keeps :: "obj \<Rightarrow> fs \<Rightarrow> fs \<Rightarrow> bool" where
  "keeps g s s' \<longleftrightarrow> fs_inv {} s' \<and> counts_ok s' \<and> free_map_file s' = free_map_file s \<and> free_map_file s \<noteq> Some g \<and> same_data s s' \<and>
     frees_removed s s' \<and> blk_size (fs_device s') = blk_size (fs_device s) \<and>
     (\<forall>f fl. f \<noteq> g \<longrightarrow> files s f = Some fl \<longrightarrow> files s' f = Some fl) \<and>
     (\<forall>x. unat x \<notin> map_sectors s \<and>
        (\<forall>gl i. files s g = Some gl \<and> inodes s (f_inode gl) = Some i \<and> deniers s (f_inode gl) = {} \<longrightarrow> unat x \<notin> inode_sectors i) \<longrightarrow>
        medium (fs_device s') x = medium (fs_device s) x)"

lemma user_file_not_map: "user_file s g gl \<Longrightarrow> free_map_file s \<noteq> Some g"
  by (auto simp: user_file_def)

lemma file_step_keeps:
  assumes "file_step g s s'" "fs_inv {} s" "counts_ok s"
  shows "keeps g s s'"
  using assms
proof (induction rule: file_step.induct)
  case (on_reopen s g gl h s')
  have g: "files s g = Some gl" using on_reopen by (simp add: user_file_def)
  obtain i where i: "inodes s (f_inode gl) = Some i" "inode_ok s i" by (rule user_file_inode[OF on_reopen(3) g])
  have lt: "i_open_cnt i < 2147483647"
    using on_reopen(2) g i by (auto simp: file_reopen_def inode_reopen_def bind_eq_Some_conv i32_def split: if_splits)
  have fresh: "files s (next_obj s) = None" using fs_invD(7)[OF on_reopen(3), of "next_obj s"] by fastforce
  have "same_data s s'"
    using on_reopen(2) g i by (auto simp: file_reopen_def inode_reopen_def file_open_def malloc_ok_def fs_invD(9)[OF on_reopen(3)]
        bind_eq_Some_conv same_data_def i32_def split: if_splits)
  moreover have "free_map_file s' = free_map_file s"
    using on_reopen(2) g i by (auto simp: file_reopen_def inode_reopen_def file_open_def malloc_ok_def fs_invD(9)[OF on_reopen(3)]
        bind_eq_Some_conv i32_def split: if_splits)
  ultimately show ?case
    using user_file_not_map[OF on_reopen(1)] file_reopen_ok[OF on_reopen(3,4) g i(1) lt] on_reopen(2) fresh by (auto simp: keeps_def frees_removed_same)
next
  case (on_deny s g gl s')
  then show ?case using user_file_not_map[OF on_deny(1)] file_deny_write_ok[OF on_deny(3,4,1)] by (auto simp: keeps_def frees_removed_same)
next
  case (on_allow s g gl s')
  then show ?case using user_file_not_map[OF on_allow(1)] file_allow_write_ok[OF on_allow(3,4,1)] by (auto simp: keeps_def frees_removed_same)
next
  case (on_close s g gl s')
  then show ?case using user_file_not_map[OF on_close(1)] file_close_ok[OF on_close(3,4,1)] by (auto simp: keeps_def frees_removed_same)
next
  case (on_seek s g gl q s')
  have g: "files s g = Some gl" using on_seek by (simp add: user_file_def)
  have "0 \<le> q" using on_seek(3) by (auto simp: file_seek_def bind_eq_Some_conv split: if_splits)
  from file_seek_ok[OF on_seek(4,5) g this on_seek(2)] on_seek(3) show ?case
    using user_file_not_map[OF on_seek(1)] by (auto simp: keeps_def same_data_def frees_removed_same)
next
  case (on_read s g gl sz bs s')
  have g: "files s g = Some gl" using on_read by (simp add: user_file_def)
  obtain i where i: "inodes s (f_inode gl) = Some i" by (rule user_file_inode[OF on_read(3) g])
  from file_read_ok[OF on_read(3,4) g i, of sz] on_read(2) show ?case
    using user_file_not_map[OF on_read(1)] by (auto simp: keeps_def same_data_def frees_removed_same)
next
  case (on_write s g gl sz buffer n s')
  have g: "files s g = Some gl" using on_write by (simp add: user_file_def)
  obtain i where i: "inodes s (f_inode gl) = Some i" "inode_ok s i" by (rule user_file_inode[OF on_write(4) g])
  from file_write_ok[OF on_write(4,5,1) i(1) on_write(2)] on_write(3) have w:
    "\<forall>x. unat x \<notin> inode_sectors i \<longrightarrow> medium (fs_device s') x = medium (fs_device s) x"
    "fs_inv {} s'" "counts_ok s'" "files s' = (files s)(g \<mapsto> gl\<lparr>f_pos := f_pos gl + n\<rparr>)"
    "inodes s' = inodes s" "free_map_file s' = free_map_file s" "free_map s' = free_map s"
    "blk_size (fs_device s') = blk_size (fs_device s)" by auto
  have "medium (fs_device s') = medium (fs_device s)" if "deniers s (f_inode gl) \<noteq> {}"
  proof -
    have "i_deny_write_cnt i \<noteq> 0"
      using on_write(5) i(1) that finite_openers(2)[OF on_write(5)] by (simp add: counts_ok_def card_gt_0_iff)
    then show ?thesis
      using on_write(3) g i(1) by (auto simp: file_write_def inode_write_at_denied bind_eq_Some_conv)
  qed
  then have "medium (fs_device s') x = medium (fs_device s) x"
    if "deniers s (f_inode gl) = {} \<longrightarrow> unat x \<notin> inode_sectors i" for x
    using w(1) that by (cases "deniers s (f_inode gl) = {}") auto
  with w g i(1) user_file_not_map[OF on_write(1)] show ?case unfolding keeps_def by (simp add: same_data_def frees_removed_same)
qed

lemma keeps_denied:
  assumes K: "keeps g s s'" and g: "g \<noteq> f" and wf: "fs_inv {} s" and f: "user_file s f fl" "f_deny_write fl"
    and i: "inodes s (f_inode fl) = Some i"
  shows "user_file s' f fl" "\<exists>j. inodes s' (f_inode fl) = Some j \<and> i_data j = i_data i"
    "inode_bytes (fs_device s') i = inode_bytes (fs_device s) i"
proof -
  have fs: "files s f = Some fl" using f by (simp add: user_file_def)
  have fs': "files s' f = Some fl" using K g fs by (simp add: keeps_def)
  obtain m ml k where m: "free_map_file s = Some m" "files s m = Some ml" "inodes s (f_inode ml) = Some k"
    "map_sectors s = inode_sectors k"
    using fs_invD(1)[OF wf] by (auto simp: free_map_wf_def map_file_def map_sectors_def)
  have wf': "fs_inv {} s'" using K by (simp add: keeps_def)
  obtain j where j: "inodes s' (f_inode fl) = Some j" by (rule user_file_inode[OF wf' fs'])
  moreover have "i_data j = i_data i" using K i j unfolding keeps_def same_data_def by fastforce
  ultimately show "\<exists>j. inodes s' (f_inode fl) = Some j \<and> i_data j = i_data i" by blast
  show "user_file s' f fl" using K f(1) m(1,2) fs' unfolding keeps_def user_file_def by auto
  have ne: "f_inode ml \<noteq> f_inode fl" using f(1) m by (auto simp: user_file_def)
  have "unat x \<notin> map_sectors s" if "unat x \<in> inode_sectors i" for x
    using fs_invD(6)[OF wf m(3) i ne] m(4) that by (auto simp: inode_extent_def)
  moreover have "unat x \<notin> inode_sectors k'" if "unat x \<in> inode_sectors i" "files s g = Some gl" "inodes s (f_inode gl) = Some k'"
    "deniers s (f_inode gl) = {}" for x gl k'
  proof -
    have "f_inode gl \<noteq> f_inode fl" using that(4) fs f(2) by (auto simp: deniers_def)
    then show ?thesis using fs_invD(6)[OF wf that(3) i] that(1) by (auto simp: inode_extent_def)
  qed
  ultimately have "medium (fs_device s') x = medium (fs_device s) x" if "unat x \<in> inode_sectors i" for x
    using K that unfolding keeps_def by blast
  then show "inode_bytes (fs_device s') i = inode_bytes (fs_device s) i"
    using inode_bytes_medium[of "fs_device s" i "fs_device s'"] fs_invD(5)[OF wf i] by (simp add: inode_ok_def)
qed

text \<open>C16: as long as a file denies writing to its inode, the data of the inode does not change,
  whatever is done in any order through other open files, of the same inode or of others: opening
  them again, writing, reading, positioning, denying and allowing writes, and closing them.\<close>

theorem deny_write_protects:
  assumes "other_files f s s'" "fs_wf s" "counts_ok s" "user_file s f fl" "f_deny_write fl"
    and "inodes s (f_inode fl) = Some i"
  shows "fs_wf s' \<and> counts_ok s' \<and> user_file s' f fl \<and> inode_bytes (fs_device s') i = inode_bytes (fs_device s) i \<and>
    (\<exists>j. inodes s' (f_inode fl) = Some j \<and> i_data j = i_data i)"
  using assms
proof (induction rule: other_files.induct)
  case (step s s1 g s2)
  then obtain j where IH: "fs_wf s1" "counts_ok s1" "user_file s1 f fl" "inode_bytes (fs_device s1) i = inode_bytes (fs_device s) i"
    "inodes s1 (f_inode fl) = Some j" "i_data j = i_data i" by auto
  have K: "keeps g s1 s2" by (rule file_step_keeps[OF step(3) IH(1,2)])
  have b: "inode_bytes d j = inode_bytes d i" for d using IH(6) by (simp add: inode_bytes_def byte_at_def inode_length_def)
  from keeps_denied[OF K step(2) IH(1,3) step(8) IH(5)] show ?case
    using IH K b by (simp add: keeps_def)
qed simp

theorem deny_write_protects_witness:
  "\<exists>s1 s2 s3 s4 n. file_open (Some 2) demo_two_fs = Some (Some 3, s1) \<and> file_open (Some 2) s1 = Some (Some 4, s2) \<and>
     file_deny_write 3 s2 = Some s3 \<and> file_write 4 [7] 1 s3 = Some (n, s4) \<and>
     inode_bytes (fs_device s4) demo_inode = inode_bytes (fs_device s3) demo_inode"
proof -
  let ?i = "demo_inode\<lparr>i_open_cnt := 2\<rparr>" and ?fl = "\<lparr>f_inode = 2, f_pos = 0, f_deny_write = False\<rparr>"
  have F: "files demo_two_fs = [1 \<mapsto> \<lparr>f_inode = 0, f_pos = 0, f_deny_write = False\<rparr>]" "next_obj demo_two_fs = 3"
    "free_map_file demo_two_fs = Some 1"
    by (simp_all add: demo_two_fs_def demo_map_fs_def)
  have op: "openers demo_two_fs p = (if p = 0 then {1} else {})" "deniers demo_two_fs p = {}" for p
    by (auto simp: openers_def deniers_def F)
  have i2: "inodes demo_two_fs 2 = Some ?i" by (simp add: demo_two_fs_def)
  have c: "counts_ok demo_two_fs"
    unfolding counts_ok_def op F by (auto simp: demo_two_fs_def demo_map_fs_def demo_inode_def demo_map_inode_def)
  obtain s1 where s1: "file_open (Some 2) demo_two_fs = Some (Some 3, s1)" "fs_wf s1" "counts_ok s1"
    "files s1 = [1 \<mapsto> \<lparr>f_inode = 0, f_pos = 0, f_deny_write = False\<rparr>, 3 \<mapsto> ?fl]" "inodes s1 2 = Some ?i" "free_map_file s1 = Some 1"
    using file_open_ok[OF demo_two_fs_wf c i2] by (auto simp: op F i2 demo_inode_def)
  have "openers s1 2 = {3}" by (auto simp: openers_def s1(4))
  moreover have "next_obj s1 = 4"
    using s1(1) by (auto simp: file_open_def malloc_ok_def demo_two_fs_def demo_map_fs_def demo_fs_def)
  ultimately obtain s2 where s2: "file_open (Some 2) s1 = Some (Some 4, s2)" "fs_wf s2" "counts_ok s2"
    "files s2 = [1 \<mapsto> \<lparr>f_inode = 0, f_pos = 0, f_deny_write = False\<rparr>, 3 \<mapsto> ?fl, 4 \<mapsto> ?fl]" "inodes s2 2 = Some ?i" "free_map_file s2 = Some 1"
    using file_open_ok[OF s1(2,3,5)] by (auto simp: s1 demo_inode_def)
  have u: "user_file s2 3 ?fl" by (simp add: user_file_def s2)
  obtain s3 where s3: "file_deny_write 3 s2 = Some s3" "fs_wf s3" "counts_ok s3" "3 \<in> deniers s3 2" "same_data s2 s3"
    "free_map_file s3 = Some 1" "files s3 1 = Some \<lparr>f_inode = 0, f_pos = 0, f_deny_write = False\<rparr>" "files s3 4 = Some ?fl"
    using file_deny_write_ok[OF s2(2,3) u] s2(4,6) by auto
  then obtain fl where fl: "user_file s3 3 fl" "f_deny_write fl" "f_inode fl = 2"
    by (auto simp: deniers_def user_file_def)
  have f4: "user_file s3 4 ?fl" by (simp add: user_file_def s3 del: One_nat_def)
  obtain j where j: "inodes s3 2 = Some j" by (rule user_file_inode[OF s3(2,8)]) simp
  then have "i_data j = i_data demo_inode" using s3(5) s2(5) by (fastforce simp: same_data_def)
  then have b: "inode_bytes d j = inode_bytes d demo_inode" for d
    by (simp add: inode_bytes_def byte_at_def inode_length_def)
  obtain n s4 where w: "file_write 4 [7] 1 s3 = Some (n, s4)"
    using file_write_ok[OF s3(2,3) f4, of j 1 "[7]"] j by auto
  have "other_files 3 s3 s4"
    by (rule other_files.step[OF other_files.none _ file_step.on_write[OF f4 _ w]]) simp_all
  from deny_write_protects[OF this s3(2,3) fl(1,2), of j] j fl(3) b s1(1) s2(1) s3(1) w show ?thesis by auto
qed

end
