(* ===== verification/Directory.thy ===== *)
theory Directory
  imports File
begin

section \<open>Directories\<close>

text \<open>
  Models src/pintos/src/filesys/directory.c. A directory is an inode whose data is a table of 20-byte
  entries. A name is the list of its characters; a name field without a null byte would be read
  beyond its end, which is undefined.
\<close>

definition NAME_MAX :: nat where "NAME_MAX = 14"

record dir =
  dir_inode :: obj
  dir_pos :: int

record dir_entry =
  e_inode_sector :: u32
  e_name :: "u8 list"
  e_in_use :: bool

text \<open>The 20 bytes of a \<open>struct dir_entry\<close> and the entry in 20 bytes.\<close>

abbreviation ENTRY_SIZE :: int where "ENTRY_SIZE \<equiv> 20"

definition entry_bytes :: "dir_entry \<Rightarrow> u8 list" where
  "entry_bytes e = u32_bytes (e_inode_sector e) @ e_name e @ [if e_in_use e then 1 else 0]"

definition entry_of :: "u8 list \<Rightarrow> dir_entry" where
  "entry_of bs = \<lparr>e_inode_sector = u32_of_bytes bs, e_name = take (NAME_MAX + 1) (drop 4 bs), e_in_use = bs ! 19 \<noteq> 0\<rparr>"

definition name_of :: "u8 list \<Rightarrow> u8 list option" where
  "name_of bs = do { ASSERT (0 \<in> set bs); Some (takeWhile (\<lambda>c. c \<noteq> 0) bs) }"

text \<open>\<open>strlcpy\<close> of a name into a name field.\<close>

definition name_field :: "u8 list \<Rightarrow> u8 list \<Rightarrow> u8 list" where
  "name_field name old = buf_put 0 (take NAME_MAX name @ [0]) old"

subsection \<open>Opening and closing\<close>

definition dir_create :: "u32 \<Rightarrow> u32 \<Rightarrow> fs \<Rightarrow> (bool \<times> fs) option" where
  "dir_create sector entry_cnt s = inode_create sector (sint (entry_cnt * 20)) s"

definition dir_open :: "obj option \<Rightarrow> fs \<Rightarrow> (dir option \<times> fs) option" where
  "dir_open inode s = do {
     let (ok, s) = malloc_ok s;
     case (inode, ok) of (Some p, True) \<Rightarrow> Some (Some \<lparr>dir_inode = p, dir_pos = 0\<rparr>, s)
     | _ \<Rightarrow> do { s \<leftarrow> inode_close inode s; Some (None, s) }
   }"

definition dir_open_root :: "fs \<Rightarrow> (dir option \<times> fs) option" where
  "dir_open_root s = do { (p, s) \<leftarrow> inode_open ROOT_DIR_SECTOR s; dir_open p s }"

definition dir_reopen :: "dir \<Rightarrow> fs \<Rightarrow> (dir option \<times> fs) option" where
  "dir_reopen dir s = do { (p, s) \<leftarrow> inode_reopen (Some (dir_inode dir)) s; dir_open p s }"

definition dir_close :: "dir option \<Rightarrow> fs \<Rightarrow> fs option" where
  "dir_close dir s = (case dir of None \<Rightarrow> Some s | Some d \<Rightarrow> inode_close (Some (dir_inode d)) s)"

definition dir_get_inode :: "dir \<Rightarrow> obj" where
  "dir_get_inode dir = dir_inode dir"

subsection \<open>Entries\<close>

text \<open>The loop of \<open>lookup\<close> from offset \<open>ofs\<close> on: the entry and its offset, if there is one.\<close>

partial_function (option) lookup_loop :: "obj \<Rightarrow> u8 list \<Rightarrow> int \<Rightarrow> fs \<Rightarrow> ((dir_entry \<times> int) option \<times> fs) option" where
  "lookup_loop p name ofs s = do {
     inode \<leftarrow> inodes s p;
     (bs, s) \<leftarrow> inode_read_at inode ENTRY_SIZE ofs s;
     if length bs = 20 then do {
       let e = entry_of bs;
       same \<leftarrow> (if e_in_use e then do { n \<leftarrow> name_of (e_name e); Some (name = n) } else Some False);
       if same then Some (Some (e, ofs), s) else lookup_loop p name (ofs + ENTRY_SIZE) s
     } else Some (None, s)
   }"

definition lookup :: "dir \<Rightarrow> u8 list \<Rightarrow> fs \<Rightarrow> ((dir_entry \<times> int) option \<times> fs) option" where
  "lookup dir name s = lookup_loop (dir_inode dir) name 0 s"

definition dir_lookup :: "dir \<Rightarrow> u8 list \<Rightarrow> fs \<Rightarrow> (obj option \<times> fs) option" where
  "dir_lookup dir name s = do {
     (r, s) \<leftarrow> lookup dir name s;
     case r of Some (e, _) \<Rightarrow> inode_open (e_inode_sector e) s | None \<Rightarrow> Some (None, s)
   }"

text \<open>The loop of \<open>dir_add\<close> for a free slot; \<open>e\<close> is the contents of its local variable.\<close>

partial_function (option) free_slot_loop :: "obj \<Rightarrow> int \<Rightarrow> u8 list \<Rightarrow> fs \<Rightarrow> (int \<times> u8 list \<times> fs) option" where
  "free_slot_loop p ofs e s = do {
     inode \<leftarrow> inodes s p;
     (bs, s) \<leftarrow> inode_read_at inode ENTRY_SIZE ofs s;
     let e = buf_put 0 bs e;
     if length bs = 20 \<and> e_in_use (entry_of e) then free_slot_loop p (ofs + ENTRY_SIZE) e s
     else Some (ofs, e, s)
   }"

text \<open>\<open>junk\<close> is what the local variable \<open>e\<close> contains at first.\<close>

definition dir_add :: "u8 list \<Rightarrow> dir \<Rightarrow> u8 list \<Rightarrow> u32 \<Rightarrow> fs \<Rightarrow> (bool \<times> fs) option" where
  "dir_add junk dir name inode_sector s =
     (if name = [] \<or> length name > NAME_MAX then Some (False, s)
      else do {
        (r, s) \<leftarrow> lookup dir name s;
        if r \<noteq> None then Some (False, s)
        else do {
          (ofs, e, s) \<leftarrow> free_slot_loop (dir_inode dir) 0 junk s;
          let e = \<lparr>e_inode_sector = inode_sector, e_name = name_field name (e_name (entry_of e)), e_in_use = True\<rparr>;
          inode \<leftarrow> inodes s (dir_inode dir);
          (n, s) \<leftarrow> inode_write_at inode (entry_bytes e) ENTRY_SIZE ofs s;
          Some (n = ENTRY_SIZE, s)
        }
      })"

definition dir_remove :: "dir \<Rightarrow> u8 list \<Rightarrow> fs \<Rightarrow> (bool \<times> fs) option" where
  "dir_remove dir name s = do {
     (r, s) \<leftarrow> lookup dir name s;
     case r of None \<Rightarrow> Some (False, s)
     | Some (e, ofs) \<Rightarrow> do {
         (p, s) \<leftarrow> inode_open (e_inode_sector e) s;
         case p of None \<Rightarrow> Some (False, s)
         | Some q \<Rightarrow> do {
             inode \<leftarrow> inodes s (dir_inode dir);
             (n, s) \<leftarrow> inode_write_at inode (entry_bytes (e\<lparr>e_in_use := False\<rparr>)) ENTRY_SIZE ofs s;
             s' \<leftarrow> (if n = ENTRY_SIZE then inode_remove q s else Some s);
             s'' \<leftarrow> inode_close (Some q) s';
             Some (n = ENTRY_SIZE, s'')
           }
       }
   }"

text \<open>The name read, or \<open>None\<close> at the end of the directory, and the directory with its new position.\<close>

partial_function (option) dir_readdir :: "dir \<Rightarrow> fs \<Rightarrow> (u8 list option \<times> dir \<times> fs) option" where
  "dir_readdir dir s = do {
     inode \<leftarrow> inodes s (dir_inode dir);
     (bs, s) \<leftarrow> inode_read_at inode ENTRY_SIZE (dir_pos dir) s;
     if length bs = 20 then do {
       let dir = dir\<lparr>dir_pos := dir_pos dir + ENTRY_SIZE\<rparr>;
       if e_in_use (entry_of bs) then do { n \<leftarrow> name_of (e_name (entry_of bs)); Some (Some n, dir, s) }
       else dir_readdir dir s
     } else Some (None, dir, s)
   }"

subsection \<open>The table of a directory\<close>

definition entry_at :: "u8 list \<Rightarrow> nat \<Rightarrow> dir_entry" where
  "entry_at B k = entry_of (take 20 (drop (20 * k) B))"

definition entry_name :: "dir_entry \<Rightarrow> u8 list" where
  "entry_name e = takeWhile (\<lambda>c. c \<noteq> 0) (e_name e)"

abbreviation slots :: "u8 list \<Rightarrow> nat" where
  "slots B \<equiv> length B div 20"

text \<open>The entry in slot \<open>k\<close> is in use, with this name.\<close>

definition used_as :: "u8 list \<Rightarrow> nat \<Rightarrow> u8 list \<Rightarrow> bool" where
  "used_as B k name \<longleftrightarrow> k < slots B \<and> e_in_use (entry_at B k) \<and> entry_name (entry_at B k) = name"

text \<open>The contents of a directory as a map from names to sectors, read off its table, and the
  well-formedness of the table: names are terminated and unique.\<close>

definition dir_map :: "u8 list \<Rightarrow> u8 list \<rightharpoonup> u32" where
  "dir_map B = map_of (map (\<lambda>k. (entry_name (entry_at B k), e_inode_sector (entry_at B k)))
     (filter (\<lambda>k. e_in_use (entry_at B k)) [0 ..< slots B]))"

definition dir_ok :: "u8 list \<Rightarrow> bool" where
  "dir_ok B \<longleftrightarrow> (\<forall>k < slots B. e_in_use (entry_at B k) \<longrightarrow> 0 \<in> set (e_name (entry_at B k))) \<and>
     (\<forall>name j k. used_as B j name \<longrightarrow> used_as B k name \<longrightarrow> j = k)"

lemma dir_map_Some:
  assumes "dir_ok B"
  shows "dir_map B name = Some x \<longleftrightarrow> (\<exists>k. used_as B k name \<and> e_inode_sector (entry_at B k) = x)"
proof -
  let ?f = "\<lambda>k. (entry_name (entry_at B k), e_inode_sector (entry_at B k))"
  let ?ks = "filter (\<lambda>k. e_in_use (entry_at B k)) [0 ..< slots B]"
  have "inj_on (\<lambda>k. entry_name (entry_at B k)) (set ?ks)"
    using assms unfolding dir_ok_def used_as_def inj_on_def by auto
  then have "distinct (map fst (map ?f ?ks))" by (simp add: distinct_map comp_def)
  then have "dir_map B name = Some x \<longleftrightarrow> (name, x) \<in> set (map ?f ?ks)"
    unfolding dir_map_def by (rule map_of_eq_Some_iff)
  then show ?thesis by (auto simp: used_as_def)
qed

lemma dir_map_None:
  assumes "dir_ok B"
  shows "dir_map B name = None \<longleftrightarrow> (\<forall>k. \<not> used_as B k name)"
  using dir_map_Some[OF assms] by (metis option.exhaust option.distinct(1))

subsection \<open>Bytes of entries\<close>

lemma entry_roundtrip: "length (e_name e) = 15 \<Longrightarrow> entry_of (entry_bytes e) = (e :: dir_entry)"
  by (simp add: entry_of_def entry_bytes_def NAME_MAX_def nth_append)

lemma length_entry_bytes: "length (e_name e) = 15 \<Longrightarrow> length (entry_bytes e) = 20"
  by (simp add: entry_bytes_def)

lemma slot_inside: "k < slots B \<longleftrightarrow> 20 * k + 20 \<le> length B"
  using less_eq_div_iff_mult_less_eq[of 20 "Suc k" "length B"] by (simp add: Suc_le_eq algebra_simps)

lemma length_slot: "k < slots B \<Longrightarrow> length (take 20 (drop (20 * k) B)) = 20"
  using slot_inside[of k B] by simp

lemma length_e_name: "k < slots B \<Longrightarrow> length (e_name (entry_at B k)) = 15"
  using slot_inside[of k B] by (simp add: entry_at_def entry_of_def NAME_MAX_def)

lemma entry_at_put:
  assumes "k < slots B" "length (e_name e) = 15"
  shows "entry_at (buf_put (20 * k) (entry_bytes e) B) j = (if j = k then e else entry_at B j)"
    "slots (buf_put (20 * k) (entry_bytes e) B) = slots B"
proof -
  let ?B = "buf_put (20 * k) (entry_bytes e) B"
  have l: "20 * k + length (entry_bytes e) \<le> length B"
    using slot_inside[of k B] assms length_entry_bytes[of e] by simp
  then show "slots ?B = slots B" by (simp add: length_buf_put)
  have "take 20 (drop (20 * j) ?B) = (if j = k then entry_bytes e else take 20 (drop (20 * j) B))"
  proof (rule nth_equalityI)
    show "length (take 20 (drop (20 * j) ?B)) = length (if j = k then entry_bytes e else take 20 (drop (20 * j) B))"
      using l length_entry_bytes[OF assms(2)] by (simp add: length_buf_put)
    fix i assume i: "i < length (take 20 (drop (20 * j) ?B))"
    then have b: "i < 20" "20 * j + i < length B" using l by (auto simp: length_buf_put)
    have "20 * k \<le> 20 * j + i \<and> 20 * j + i < 20 * k + 20 \<longleftrightarrow> j = k" using b(1) by linarith
    then show "take 20 (drop (20 * j) ?B) ! i = (if j = k then entry_bytes e else take 20 (drop (20 * j) B)) ! i"
      using b nth_buf_put[OF l, of "20 * j + i"] length_entry_bytes[OF assms(2)] l
      by (simp add: length_buf_put)
  qed
  then show "entry_at ?B j = (if j = k then e else entry_at B j)"
    using entry_roundtrip[OF assms(2)] by (simp add: entry_at_def)
qed

text \<open>A partial entry behind the last full one does not count.\<close>

lemma entry_at_tail:
  assumes q: "q = slots B" "20 * q \<le> length B" and cs: "length cs \<le> length B - 20 * q"
  shows "slots (buf_put (20 * q) cs B) = q" "j < q \<Longrightarrow> entry_at (buf_put (20 * q) cs B) j = entry_at B j"
proof -
  have l: "20 * q + length cs \<le> length B" using q(2) cs by linarith
  then show "slots (buf_put (20 * q) cs B) = q" using q(1) by (simp add: length_buf_put)
  assume j: "j < q"
  have "take 20 (drop (20 * j) (buf_put (20 * q) cs B)) = take 20 (drop (20 * j) B)"
  proof (rule nth_equalityI)
    fix i assume "i < length (take 20 (drop (20 * j) (buf_put (20 * q) cs B)))"
    then have "i < 20" "20 * j + i < length B" using l by (auto simp: length_buf_put)
    moreover have "20 * j + i < 20 * q" using j \<open>i < 20\<close> by linarith
    ultimately show "take 20 (drop (20 * j) (buf_put (20 * q) cs B)) ! i = take 20 (drop (20 * j) B) ! i"
      using nth_buf_put[OF l, of "20 * j + i"] l by (simp add: length_buf_put)
  qed (use l in \<open>simp add: length_buf_put\<close>)
  then show "entry_at (buf_put (20 * q) cs B) j = entry_at B j" by (simp add: entry_at_def)
qed

lemma length_name_field: "length old = 15 \<Longrightarrow> length (name_field name old) = 15"
  by (simp add: name_field_def length_buf_put NAME_MAX_def)

lemma name_of_field:
  assumes "length name \<le> NAME_MAX" "0 \<notin> set name"
  shows "takeWhile (\<lambda>c. c \<noteq> 0) (name_field name old) = name" "0 \<in> set (name_field name old)"
proof -
  have f: "name_field name old = name @ 0 # drop (Suc (length name)) old"
    using assms(1) by (simp add: name_field_def buf_put_def)
  have "takeWhile (\<lambda>c. c \<noteq> 0) (name @ 0 # drop (Suc (length name)) old) = name @ takeWhile (\<lambda>c. c \<noteq> 0) (0 # drop (Suc (length name)) old)"
    by (rule takeWhile_append2) (use assms(2) in auto)
  then show "takeWhile (\<lambda>c. c \<noteq> 0) (name_field name old) = name" unfolding f by simp
  show "0 \<in> set (name_field name old)" unfolding f by simp
qed

subsection \<open>Searching the table\<close>

text \<open>The states in which an inode can be read without error.\<close>

definition readable :: "fs \<Rightarrow> obj \<Rightarrow> inode \<Rightarrow> bool" where
  "readable s p i \<longleftrightarrow> inodes s p = Some i \<and> inode_on (fs_device s) i \<and> block_wf (fs_device s) \<and> alloc_fails s = []"

lemma readable_only_read: "readable s p i \<Longrightarrow> only_read s s' \<Longrightarrow> readable s' p i"
  using only_read_inode[of s s'] by (simp add: readable_def only_read_def)

lemma fs_inv_readable: "fs_inv F s \<Longrightarrow> inodes s p = Some i \<Longrightarrow> readable s p i"
  using fs_invD(5,8,9)[of F s] by (simp add: readable_def inode_ok_def)

text \<open>Reading the entry in slot \<open>k\<close>, which may lie at the end of the table.\<close>

lemma read_slot:
  assumes r: "readable s p i" and B: "B = inode_bytes (fs_device s) i" and k: "k \<le> slots B"
  obtains s' where "inode_read_at i ENTRY_SIZE (20 * int k) s = Some (take 20 (drop (20 * k) B), s')" "only_read s s'"
    "readable s' p i" "B = inode_bytes (fs_device s') i"
    "k < slots B \<longleftrightarrow> length (take 20 (drop (20 * k) B)) = 20"
proof -
  have on: "inode_on (fs_device s) i" "block_wf (fs_device s)" "alloc_fails s = []" using r by (auto simp: readable_def)
  have "length B < 2147483648" using on(1) by (auto simp: B inode_on_def)
  moreover have "20 * slots B \<le> length B" by (rule times_div_less_eq_dividend)
  ultimately have "20 * k < 2147483648" using k by linarith
  then have o: "0 \<le> 20 * int k" "20 * int k < 2147483648" by auto
  obtain bs s' where s': "inode_read_at i ENTRY_SIZE (20 * int k) s = Some (bs, s')" "only_read s s'"
    "bs = take 20 (drop (20 * k) B)"
    by (rule inode_read_at_bytes[OF on(1,2) o, of 20]) (use on(3) in \<open>simp add: B nat_mult_distrib\<close>)
  show thesis
  proof (rule that[of s'])
    show "k < slots B \<longleftrightarrow> length (take 20 (drop (20 * k) B)) = 20"
      unfolding slot_inside by auto
  qed (use s' only_read_inode(3)[OF s'(2)] readable_only_read[OF r s'(2)] in \<open>simp_all add: B\<close>)
qed

lemma lookup_loop_result:
  assumes "readable s p i" "B = inode_bytes (fs_device s) i" "dir_ok B" "k \<le> slots B"
  shows "\<exists>r s'. lookup_loop p name (20 * int k) s = Some (r, s') \<and> only_read s s' \<and>
     (case r of None \<Rightarrow> \<forall>j \<ge> k. \<not> used_as B j name
      | Some (e, ofs) \<Rightarrow> \<exists>j \<ge> k. used_as B j name \<and> e = entry_at B j \<and> ofs = 20 * int j)"
  using assms
proof (induction "slots B - k" arbitrary: k s)
  case (0 k s)
  obtain s' where s': "inode_read_at i ENTRY_SIZE (20 * int k) s = Some (take 20 (drop (20 * k) B), s')" "only_read s s'"
    "k < slots B \<longleftrightarrow> length (take 20 (drop (20 * k) B)) = 20"
    by (rule read_slot[OF 0(2,3,5)])
  moreover have "inodes s p = Some i" using 0 by (simp add: readable_def)
  ultimately show ?case using 0 by (subst lookup_loop.simps) (auto simp: used_as_def)
next
  case (Suc m k s)
  have k: "k < slots B" using Suc by linarith
  obtain s' where s': "inode_read_at i ENTRY_SIZE (20 * int k) s = Some (take 20 (drop (20 * k) B), s')" "only_read s s'"
    "readable s' p i" "B = inode_bytes (fs_device s') i"
    by (rule read_slot[OF Suc(3,4,6)])
  have i: "inodes s p = Some i" using Suc by (simp add: readable_def)
  define e where "e = entry_at B k"
  have n: "name_of (e_name e) = Some (entry_name e)" if "e_in_use e"
    using Suc.prems(3) k that by (simp add: dir_ok_def e_def name_of_def entry_name_def)
  have step: "lookup_loop p name (20 * int k) s =
    (if used_as B k name then Some (Some (e, 20 * int k), s') else lookup_loop p name (20 * int k + 20) s')"
  proof (cases "e_in_use e")
    case True
    then show ?thesis using i s'(1) length_slot[OF k] n k
      by (subst lookup_loop.simps) (auto simp: entry_at_def[symmetric] e_def[symmetric] used_as_def)
  next
    case False
    then show ?thesis using i s'(1) length_slot[OF k]
      by (subst lookup_loop.simps) (auto simp: entry_at_def[symmetric] e_def[symmetric] used_as_def)
  qed
  show ?case
  proof (cases "used_as B k name")
    case True
    with step s'(2) show ?thesis by (auto simp: e_def)
  next
    case False
    have "\<exists>r s''. lookup_loop p name (20 * int (Suc k)) s' = Some (r, s'') \<and> only_read s' s'' \<and>
       (case r of None \<Rightarrow> \<forall>j \<ge> Suc k. \<not> used_as B j name
        | Some (e, ofs) \<Rightarrow> \<exists>j \<ge> Suc k. used_as B j name \<and> e = entry_at B j \<and> ofs = 20 * int j)"
      by (rule Suc(1)) (use Suc(2,5) s' k in auto)
    then obtain r s'' where IH: "lookup_loop p name (20 * int k + 20) s' = Some (r, s'')" "only_read s' s''"
      "case r of None \<Rightarrow> \<forall>j \<ge> Suc k. \<not> used_as B j name
        | Some (e, ofs) \<Rightarrow> \<exists>j \<ge> Suc k. used_as B j name \<and> e = entry_at B j \<and> ofs = 20 * int j"
      by (auto simp: algebra_simps)
    have "\<not> used_as B j name" if "j \<ge> k" "\<forall>j \<ge> Suc k. \<not> used_as B j name" for j
      using that False by (cases "j = k") auto
    with IH(3) have "case r of None \<Rightarrow> \<forall>j \<ge> k. \<not> used_as B j name
        | Some (e, ofs) \<Rightarrow> \<exists>j \<ge> k. used_as B j name \<and> e = entry_at B j \<and> ofs = 20 * int j"
      by (cases r) (fastforce dest: Suc_leD)+
    then show ?thesis using step False IH(1) only_read_trans[OF s'(2) IH(2)] by auto
  qed
qed

lemma lookup_result:
  assumes "readable s (dir_inode d) i" "B = inode_bytes (fs_device s) i" "dir_ok B"
  obtains (found) k s' where "lookup d name s = Some (Some (entry_at B k, 20 * int k), s')" "only_read s s'" "used_as B k name"
      "dir_map B name = Some (e_inode_sector (entry_at B k))"
  | (missing) s' where "lookup d name s = Some (None, s')" "only_read s s'" "\<And>k. \<not> used_as B k name" "dir_map B name = None"
proof -
  from lookup_loop_result[OF assms, of 0 name] obtain r s' where r: "lookup d name s = Some (r, s')" "only_read s s'"
    "case r of None \<Rightarrow> \<forall>j \<ge> 0. \<not> used_as B j name
      | Some (e, ofs) \<Rightarrow> \<exists>j \<ge> 0. used_as B j name \<and> e = entry_at B j \<and> ofs = 20 * int j" by (auto simp: lookup_def)
  show thesis
  proof (cases r)
    case None
    then show thesis using r dir_map_None[OF assms(3), of name] by (intro missing[of s']) auto
  next
    case (Some x)
    with r obtain j where j: "used_as B j name" "x = (entry_at B j, 20 * int j)" by (cases x) auto
    then show thesis using r Some dir_map_Some[OF assms(3), of name] by (intro found[of j s']) auto
  qed
qed

lemma free_slot_result:
  assumes "readable s p i" "B = inode_bytes (fs_device s) i" "k \<le> slots B" "length e = 20"
  shows "\<exists>j e' s'. free_slot_loop p (20 * int k) e s = Some (20 * int j, e', s') \<and> only_read s s' \<and> length e' = 20 \<and>
     k \<le> j \<and> j \<le> slots B \<and> (\<forall>l. k \<le> l \<and> l < j \<longrightarrow> e_in_use (entry_at B l)) \<and> (j < slots B \<longrightarrow> \<not> e_in_use (entry_at B j))"
  using assms
proof (induction "slots B - k" arbitrary: k s e)
  case (0 k s e)
  obtain s' where s': "inode_read_at i ENTRY_SIZE (20 * int k) s = Some (take 20 (drop (20 * k) B), s')" "only_read s s'"
    "k < slots B \<longleftrightarrow> length (take 20 (drop (20 * k) B)) = 20"
    by (rule read_slot[OF 0(2,3,4)])
  have i: "inodes s p = Some i" using 0 by (simp add: readable_def)
  have k: "k = slots B" using 0 by simp
  have "free_slot_loop p (20 * int k) e s = Some (20 * int k, buf_put 0 (take 20 (drop (20 * k) B)) e, s')"
    using i s' k by (subst free_slot_loop.simps) (simp add: Let_def)
  with s'(2) k 0(5) show ?case by (intro exI[of _ k] exI[of _ "buf_put 0 (take 20 (drop (20 * k) B)) e"] exI[of _ s']) (auto simp: length_buf_put)
next
  case (Suc m k s e)
  have k: "k < slots B" using Suc by linarith
  obtain s' where s': "inode_read_at i ENTRY_SIZE (20 * int k) s = Some (take 20 (drop (20 * k) B), s')" "only_read s s'"
    "readable s' p i" "B = inode_bytes (fs_device s') i"
    by (rule read_slot[OF Suc(3,4,5)])
  have i: "inodes s p = Some i" using Suc by (simp add: readable_def)
  have e: "buf_put 0 (take 20 (drop (20 * k) B)) e = take 20 (drop (20 * k) B)"
    using length_slot[OF k] Suc.prems(4) by (simp add: buf_put_all)
  have step: "free_slot_loop p (20 * int k) e s =
    (if e_in_use (entry_at B k) then free_slot_loop p (20 * int k + 20) (take 20 (drop (20 * k) B)) s'
     else Some (20 * int k, take 20 (drop (20 * k) B), s'))"
    using i s'(1) length_slot[OF k] by (subst free_slot_loop.simps) (simp add: entry_at_def e)
  show ?case
  proof (cases "e_in_use (entry_at B k)")
    case False
    with step s'(2) k length_slot[OF k] show ?thesis by (intro exI[of _ k] exI[of _ "take 20 (drop (20 * k) B)"] exI[of _ s']) auto
  next
    case True
    have "\<exists>j e' s''. free_slot_loop p (20 * int (Suc k)) (take 20 (drop (20 * k) B)) s' = Some (20 * int j, e', s'') \<and> only_read s' s'' \<and>
       length e' = 20 \<and> Suc k \<le> j \<and> j \<le> slots B \<and> (\<forall>l. Suc k \<le> l \<and> l < j \<longrightarrow> e_in_use (entry_at B l)) \<and>
       (j < slots B \<longrightarrow> \<not> e_in_use (entry_at B j))"
      by (rule Suc(1)) (use Suc(2) s' k length_slot[OF k] in auto)
    then obtain j e' s'' where IH: "free_slot_loop p (20 * int k + 20) (take 20 (drop (20 * k) B)) s' = Some (20 * int j, e', s'')"
      "only_read s' s''" "length e' = 20" "Suc k \<le> j" "j \<le> slots B" "\<forall>l. Suc k \<le> l \<and> l < j \<longrightarrow> e_in_use (entry_at B l)"
      "j < slots B \<longrightarrow> \<not> e_in_use (entry_at B j)" by (auto simp: algebra_simps)
    have "e_in_use (entry_at B l)" if "k \<le> l" "l < j" for l using that IH(6) True by (cases "l = k") auto
    then show ?thesis using step True IH only_read_trans[OF s'(2) IH(2)] by (intro exI[of _ j] exI[of _ e'] exI[of _ s'']) auto
  qed
qed

subsection \<open>Changing the table\<close>

lemma used_as_put:
  assumes "k < slots B" "length (e_name e) = 15"
  shows "used_as (buf_put (20 * k) (entry_bytes e) B) j name \<longleftrightarrow>
    (if j = k then e_in_use e \<and> entry_name e = name else used_as B j name)"
  using entry_at_put(1)[OF assms, of j] entry_at_put(2)[OF assms] assms(1) by (simp add: used_as_def)

lemma dir_put_new:
  assumes ok: "dir_ok B" and k: "k < slots B" "\<not> e_in_use (entry_at B k)" and e: "length (e_name e) = 15" "e_in_use e"
      "0 \<in> set (e_name e)" and new: "dir_map B (entry_name e) = None"
  defines "B' \<equiv> buf_put (20 * k) (entry_bytes e) B"
  shows "dir_ok B'" "dir_map B' = (dir_map B)(entry_name e \<mapsto> e_inode_sector e)"
proof -
  have u: "used_as B' j name \<longleftrightarrow> (if j = k then entry_name e = name else used_as B j name)" for j name
    unfolding B'_def using used_as_put[OF k(1) e(1)] e(2) by simp
  have at: "entry_at B' j = (if j = k then e else entry_at B j)" "slots B' = slots B" for j
    unfolding B'_def using entry_at_put[OF k(1) e(1)] by simp_all
  have nu: "\<not> used_as B j (entry_name e)" for j using new dir_map_None[OF ok] by simp
  have nk: "\<not> used_as B k name" for name using k(2) by (simp add: used_as_def)
  show ok': "dir_ok B'" unfolding dir_ok_def u at using ok e(3) nu by (auto simp: dir_ok_def split: if_splits)
  have "dir_map B' name = Some x \<longleftrightarrow> ((dir_map B)(entry_name e \<mapsto> e_inode_sector e)) name = Some x" for name x
  proof (cases "name = entry_name e")
    case True
    then show ?thesis using dir_map_Some[OF ok', of name x] nu unfolding u at by auto
  next
    case False
    have "(\<exists>j. used_as B' j name \<and> e_inode_sector (entry_at B' j) = x) \<longleftrightarrow> (\<exists>j. used_as B j name \<and> e_inode_sector (entry_at B j) = x)"
      unfolding u at using False nk by metis
    then show ?thesis using False dir_map_Some[OF ok', of name x] dir_map_Some[OF ok, of name x] by simp
  qed
  then show "dir_map B' = (dir_map B)(entry_name e \<mapsto> e_inode_sector e)"
    by (intro ext) (metis option.exhaust)
qed

lemma dir_put_unused:
  assumes ok: "dir_ok B" and k: "used_as B k name" and e: "length (e_name e) = 15" "\<not> e_in_use e"
  defines "B' \<equiv> buf_put (20 * k) (entry_bytes e) B"
  shows "dir_ok B'" "dir_map B' = (dir_map B)(name := None)"
proof -
  have k1: "k < slots B" using k by (simp add: used_as_def)
  have u: "used_as B' j n \<longleftrightarrow> j \<noteq> k \<and> used_as B j n" for j n
    unfolding B'_def using used_as_put[OF k1 e(1)] e(2) by simp
  have at: "entry_at B' j = (if j = k then e else entry_at B j)" "slots B' = slots B" for j
    unfolding B'_def using entry_at_put[OF k1 e(1)] by simp_all
  have uniq: "used_as B j name \<longleftrightarrow> j = k" for j using ok k by (auto simp: dir_ok_def)
  have nk: "used_as B k n \<longleftrightarrow> n = name" for n using k by (auto simp: used_as_def)
  show ok': "dir_ok B'" unfolding dir_ok_def u at using ok e(2) by (auto simp: dir_ok_def split: if_splits)
  have "dir_map B' n = Some x \<longleftrightarrow> ((dir_map B)(name := None)) n = Some x" for n x
  proof (cases "n = name")
    case True
    then show ?thesis using dir_map_Some[OF ok', of n x] uniq unfolding u at by auto
  next
    case False
    have "(\<exists>j. used_as B' j n \<and> e_inode_sector (entry_at B' j) = x) \<longleftrightarrow> (\<exists>j. used_as B j n \<and> e_inode_sector (entry_at B j) = x)"
      unfolding u at using False nk by metis
    then show ?thesis using False dir_map_Some[OF ok', of n x] dir_map_Some[OF ok, of n x] by simp
  qed
  then show "dir_map B' = (dir_map B)(name := None)"
    by (intro ext) (metis option.exhaust)
qed

lemma dir_put_tail:
  assumes ok: "dir_ok B" and cs: "length cs \<le> length B - 20 * slots B"
  defines "B' \<equiv> buf_put (20 * slots B) cs B"
  shows "dir_ok B'" "dir_map B' = dir_map B"
proof -
  note t = entry_at_tail[OF refl times_div_less_eq_dividend cs, folded B'_def]
  have u: "used_as B' j n \<longleftrightarrow> used_as B j n" for j n
    unfolding used_as_def t(1) using t(2)[of j] by auto
  show "dir_ok B'" unfolding dir_ok_def u t(1) using ok t(2) by (auto simp: dir_ok_def)
  have "map (\<lambda>k. (entry_name (entry_at B' k), e_inode_sector (entry_at B' k))) (filter (\<lambda>k. e_in_use (entry_at B' k)) [0 ..< slots B]) =
     map (\<lambda>k. (entry_name (entry_at B k), e_inode_sector (entry_at B k))) (filter (\<lambda>k. e_in_use (entry_at B k)) [0 ..< slots B])"
    using t(2) by (intro map_cong filter_cong) auto
  then show "dir_map B' = dir_map B" by (simp add: dir_map_def t(1))
qed

text \<open>An entry is written as a whole or, behind the last slot, not as a whole.\<close>

lemma write_slot:
  assumes wf: "fs_inv F s" and i: "inodes s p = Some i" "i_deny_write_cnt i = 0" "inode_sectors i \<inter> map_sectors s = {}"
    and B: "B = inode_bytes (fs_device s) i" and k: "k \<le> slots B" and e: "length (e_name e) = 15"
  obtains n s' where "inode_write_at i (entry_bytes e) ENTRY_SIZE (20 * int k) s = Some (int n, s')"
    "n = 20 \<longleftrightarrow> k < slots B" "n \<le> length B - 20 * k" "fs_inv F s'" "only_wrote (inode_sectors i) s s'"
    "inode_bytes (fs_device s') i = buf_put (20 * k) (take n (entry_bytes e)) B"
proof -
  have r: "readable s p i" by (rule fs_inv_readable[OF wf i(1)])
  then have on: "inode_on (fs_device s) i" "block_wf (fs_device s)" "alloc_fails s = []" by (auto simp: readable_def)
  have "length B < 2147483648" using on(1) by (auto simp: B inode_on_def)
  moreover have "20 * slots B \<le> length B" by (rule times_div_less_eq_dividend)
  ultimately have "20 * k < 2147483648" using k by linarith
  then have o: "0 \<le> 20 * int k" "20 * int k < 2147483648" by auto
  have l: "nat 20 \<le> length (entry_bytes e)" using length_entry_bytes[OF e] by simp
  obtain n s' where w: "inode_write_at i (entry_bytes e) ENTRY_SIZE (20 * int k) s = Some (int n, s')"
    "alloc_fails s = [] \<longrightarrow> n = min (nat 20) (nat (inode_length i) - nat (20 * int k))" "only_wrote (inode_sectors i) s s'"
    "inode_bytes (fs_device s') i = buf_put (nat (20 * int k)) (take n (entry_bytes e)) (inode_bytes (fs_device s) i)"
    by (rule inode_write_at_bytes[OF on(1,2) o l i(2)])
  have n: "n = min 20 (length B - 20 * k)" using w(2) on(3) by (simp add: B nat_mult_distrib)
  show thesis
  proof (rule that[of n s'])
    show "n = 20 \<longleftrightarrow> k < slots B" unfolding slot_inside n by linarith
    show "n \<le> length B - 20 * k" using n by simp
    show "fs_inv F s'" by (rule fs_inv_wrote[OF wf w(3) i(3)])
  qed (use w in \<open>simp_all add: B nat_mult_distrib\<close>)
qed

lemma dir_add_result:
  assumes wf: "fs_inv F s" and i: "inodes s (dir_inode d) = Some i" "i_deny_write_cnt i = 0" "inode_sectors i \<inter> map_sectors s = {}"
    and B: "B = inode_bytes (fs_device s) i" and ok: "dir_ok B" and junk: "length junk = 20" and name: "0 \<notin> set name"
  shows "\<exists>r s'. dir_add junk d name x s = Some (r, s') \<and> fs_inv F s' \<and> only_wrote (inode_sectors i) s s' \<and>
     (r \<longleftrightarrow> name \<noteq> [] \<and> length name \<le> NAME_MAX \<and> dir_map B name = None \<and> (\<exists>k < slots B. \<not> e_in_use (entry_at B k))) \<and>
     dir_ok (inode_bytes (fs_device s') i) \<and>
     dir_map (inode_bytes (fs_device s') i) = (if r then (dir_map B)(name \<mapsto> x) else dir_map B)"
proof (cases "name = [] \<or> length name > NAME_MAX")
  case True
  with wf ok B show ?thesis by (intro exI[of _ False] exI[of _ s]) (auto simp: dir_add_def)
next
  case False
  have r: "readable s (dir_inode d) i" by (rule fs_inv_readable[OF wf i(1)])
  from r B ok show ?thesis
  proof (cases rule: lookup_result[where name = name])
    case (found k s')
    with False have "dir_add junk d name x s = Some (False, s')" by (simp add: dir_add_def)
    moreover have "fs_inv F s'" by (rule fs_inv_wrote[OF wf only_wrote_read[OF found(2), of "{}"]]) simp
    ultimately show ?thesis using found ok B only_read_inode(3)[OF found(2)] only_wrote_read[OF found(2)] False
      by (intro exI[of _ False] exI[of _ s']) auto
  next
    case (missing s1)
    have r1: "readable s1 (dir_inode d) i" "B = inode_bytes (fs_device s1) i"
      using readable_only_read[OF r missing(2)] only_read_inode(3)[OF missing(2)] B by auto
    obtain j e s2 where s2: "free_slot_loop (dir_inode d) 0 junk s1 = Some (20 * int j, e, s2)" "only_read s1 s2" "length e = 20"
      "j \<le> slots B" "\<forall>l < j. e_in_use (entry_at B l)" "j < slots B \<longrightarrow> \<not> e_in_use (entry_at B j)"
      using free_slot_result[OF r1, of 0 junk] junk by auto
    have r2: "only_read s s2" by (rule only_read_trans[OF missing(2) s2(2)])
    have wf2: "fs_inv F s2" by (rule fs_inv_wrote[OF wf only_wrote_read[OF r2, of "{}"]]) simp
    have B2: "B = inode_bytes (fs_device s2) i" and i2: "inodes s2 (dir_inode d) = Some i" "inode_sectors i \<inter> map_sectors s2 = {}"
      using B only_read_inode(3)[OF r2] i r2 map_sectors_wrote[OF only_wrote_read[OF r2]] by (auto simp: only_read_def)
    define ne where "ne = \<lparr>e_inode_sector = x, e_name = name_field name (e_name (entry_of e)), e_in_use = True\<rparr>"
    have "length (e_name (entry_of e)) = 15" using s2(3) by (simp add: entry_of_def NAME_MAX_def)
    then have ne: "length (e_name ne) = 15" by (simp add: ne_def length_name_field)
    have nn: "entry_name ne = name" "0 \<in> set (e_name ne)" "e_in_use ne" "e_inode_sector ne = x"
      using name_of_field[of name] False name by (simp_all add: ne_def entry_name_def)
    obtain n s3 where w: "inode_write_at i (entry_bytes ne) ENTRY_SIZE (20 * int j) s2 = Some (int n, s3)"
      "n = 20 \<longleftrightarrow> j < slots B" "n \<le> length B - 20 * j" "fs_inv F s3" "only_wrote (inode_sectors i) s2 s3"
      "inode_bytes (fs_device s3) i = buf_put (20 * j) (take n (entry_bytes ne)) B"
      by (rule write_slot[OF wf2 i2(1) i(2) i2(2) B2 s2(4) ne])
    have add: "dir_add junk d name x s = Some (j < slots B, s3)"
      using False missing(1) s2(1) i2(1) w(1,2) by (simp add: dir_add_def ne_def[symmetric] Let_def)
    have ow: "only_wrote (inode_sectors i) s s3"
      by (rule only_wrote_trans[OF only_wrote_read[OF r2] w(5)])
    have some: "(\<exists>k < slots B. \<not> e_in_use (entry_at B k)) \<longleftrightarrow> j < slots B"
      using s2(4,5,6) by (metis le_neq_implies_less order.strict_trans2)
    have "dir_ok (inode_bytes (fs_device s3) i) \<and> dir_map (inode_bytes (fs_device s3) i) = (if j < slots B then (dir_map B)(name \<mapsto> x) else dir_map B)"
    proof (cases "j < slots B")
      case True
      have "take n (entry_bytes ne) = entry_bytes ne" using True w(2) length_entry_bytes[OF ne] by simp
      with True dir_put_new[OF ok True _ ne nn(3,2)] s2(6) nn missing(4) w(6) show ?thesis by simp
    next
      case f: False
      then have "j = slots B" using s2(4) by simp
      with f dir_put_tail[OF ok, of "take n (entry_bytes ne)"] w(3,6) show ?thesis by simp
    qed
    with add w(4) ow some False missing(4) show ?thesis by (intro exI[of _ "j < slots B"] exI[of _ s3]) auto
  qed
qed

subsection \<open>Listing a directory\<close>

text \<open>The loop of \<open>fsutil_ls\<close> in filesys/fsutil.c; the names it prints are its result.\<close>

partial_function (option) ls_loop :: "dir \<Rightarrow> fs \<Rightarrow> (u8 list list \<times> dir \<times> fs) option" where
  "ls_loop dir s = do {
     (r, dir, s) \<leftarrow> dir_readdir dir s;
     case r of None \<Rightarrow> Some ([], dir, s)
     | Some name \<Rightarrow> do { (names, dir, s) \<leftarrow> ls_loop dir s; Some (name # names, dir, s) }
   }"

definition used_slots :: "u8 list \<Rightarrow> nat \<Rightarrow> nat list" where
  "used_slots B k = filter (\<lambda>j. e_in_use (entry_at B j)) [k ..< slots B]"

lemma used_slots_step:
  "k < slots B \<Longrightarrow> used_slots B k = (if e_in_use (entry_at B k) then k # used_slots B (Suc k) else used_slots B (Suc k))"
  by (simp add: used_slots_def upt_conv_Cons)

lemma readdir_result:
  assumes "readable s (dir_inode d) i" "B = inode_bytes (fs_device s) i" "dir_ok B" "k \<le> slots B" "dir_pos d = 20 * int k"
  shows "\<exists>s'. only_read s s' \<and> dir_readdir d s = (case used_slots B k of
      [] \<Rightarrow> Some (None, d\<lparr>dir_pos := 20 * int (slots B)\<rparr>, s')
    | j # _ \<Rightarrow> Some (Some (entry_name (entry_at B j)), d\<lparr>dir_pos := 20 * int (Suc j)\<rparr>, s'))"
  using assms
proof (induction "slots B - k" arbitrary: k s d)
  case (0 k s d)
  obtain s' where s': "inode_read_at i ENTRY_SIZE (20 * int k) s = Some (take 20 (drop (20 * k) B), s')" "only_read s s'"
    "k < slots B \<longleftrightarrow> length (take 20 (drop (20 * k) B)) = 20"
    by (rule read_slot[OF 0(2,3,5)])
  moreover have "inodes s (dir_inode d) = Some i" "k = slots B" using 0 by (simp_all add: readable_def)
  moreover have "d\<lparr>dir_pos := 20 * int k\<rparr> = d" using 0(6) by simp
  ultimately show ?case using 0(6) by (subst dir_readdir.simps) (auto simp: used_slots_def)
next
  case (Suc m k s d)
  have k: "k < slots B" using Suc by linarith
  obtain s' where s': "inode_read_at i ENTRY_SIZE (20 * int k) s = Some (take 20 (drop (20 * k) B), s')" "only_read s s'"
    "readable s' (dir_inode d) i" "B = inode_bytes (fs_device s') i"
    by (rule read_slot[OF Suc(3,4,6)])
  have i: "inodes s (dir_inode d) = Some i" using Suc by (simp add: readable_def)
  let ?d = "d\<lparr>dir_pos := 20 * int (Suc k)\<rparr>"
  have n: "name_of (e_name (entry_at B k)) = Some (entry_name (entry_at B k))" if "e_in_use (entry_at B k)"
    using Suc.prems(3) k that by (simp add: dir_ok_def name_of_def entry_name_def)
  have step: "dir_readdir d s = (if e_in_use (entry_at B k) then Some (Some (entry_name (entry_at B k)), ?d, s') else dir_readdir ?d s')"
  proof -
    have "20 * int k + 20 = 20 * int (Suc k)" by simp
    then show ?thesis
      using i s'(1) length_slot[OF k] n Suc.prems(5)
      by (subst dir_readdir.simps) (auto simp: entry_at_def[symmetric] Let_def simp del: of_nat_Suc)
  qed
  show ?case
  proof (cases "e_in_use (entry_at B k)")
    case True
    with step s'(2) used_slots_step[OF k] show ?thesis by auto
  next
    case False
    have "\<exists>s''. only_read s' s'' \<and> dir_readdir ?d s' = (case used_slots B (Suc k) of
        [] \<Rightarrow> Some (None, ?d\<lparr>dir_pos := 20 * int (slots B)\<rparr>, s'')
      | j # _ \<Rightarrow> Some (Some (entry_name (entry_at B j)), ?d\<lparr>dir_pos := 20 * int (Suc j)\<rparr>, s''))"
      by (rule Suc(1)) (use Suc(2,5) s' k in auto)
    with step False used_slots_step[OF k] only_read_trans[OF s'(2)] show ?thesis by (auto split: list.splits)
  qed
qed

lemma used_slots_Cons:
  "used_slots B k = j # js \<Longrightarrow> k \<le> j \<and> j < slots B \<and> used_slots B (Suc j) = js"
proof (induction "slots B - k" arbitrary: k)
  case (Suc m)
  then have k: "k < slots B" by linarith
  show ?case
  proof (cases "e_in_use (entry_at B k)")
    case False
    then have "Suc k \<le> j \<and> j < slots B \<and> used_slots B (Suc j) = js"
      using Suc(2,3) used_slots_step[OF k] by (intro Suc(1)) auto
    then show ?thesis by auto
  qed (use k Suc(3) used_slots_step[OF k] in auto)
qed (simp add: used_slots_def)

lemma ls_loop_result:
  assumes "readable s (dir_inode d) i" "B = inode_bytes (fs_device s) i" "dir_ok B" "k \<le> slots B" "dir_pos d = 20 * int k"
  shows "\<exists>d' s'. ls_loop d s = Some (map (\<lambda>j. entry_name (entry_at B j)) (used_slots B k), d', s') \<and> only_read s s' \<and>
     dir_inode d' = dir_inode d"
  using assms
proof (induction "used_slots B k" arbitrary: k s d)
  case Nil
  then show ?case using readdir_result[OF Nil(2-)] by (subst ls_loop.simps) auto
next
  case (Cons j js k s d)
  from readdir_result[OF Cons(3-)] Cons(2)[symmetric] obtain s' where
    s': "only_read s s'" "dir_readdir d s = Some (Some (entry_name (entry_at B j)), d\<lparr>dir_pos := 20 * int (Suc j)\<rparr>, s')" by auto
  have j: "k \<le> j" "j < slots B" "used_slots B (Suc j) = js" using used_slots_Cons[OF Cons(2)[symmetric]] by auto
  have "\<exists>d' s''. ls_loop (d\<lparr>dir_pos := 20 * int (Suc j)\<rparr>) s' = Some (map (\<lambda>j. entry_name (entry_at B j)) (used_slots B (Suc j)), d', s'') \<and>
     only_read s' s'' \<and> dir_inode d' = dir_inode (d\<lparr>dir_pos := 20 * int (Suc j)\<rparr>)"
    by (rule Cons(1)) (use j Cons(4,5) readable_only_read[OF Cons(3) s'(1)] only_read_inode(3)[OF s'(1)] in auto)
  then obtain d' s'' where IH: "ls_loop (d\<lparr>dir_pos := 20 * int (Suc j)\<rparr>) s' = Some (map (\<lambda>j. entry_name (entry_at B j)) js, d', s'')"
    "only_read s' s''" "dir_inode d' = dir_inode d" using j(3) by auto
  show ?case using s'(2) IH(1,3) only_read_trans[OF s'(1) IH(2)] Cons(2)[symmetric] by (subst ls_loop.simps) auto
qed

lemma used_names:
  assumes "dir_ok B"
  shows "distinct (map (\<lambda>j. entry_name (entry_at B j)) (used_slots B 0))"
    "set (map (\<lambda>j. entry_name (entry_at B j)) (used_slots B 0)) = dom (dir_map B)"
proof -
  show "distinct (map (\<lambda>j. entry_name (entry_at B j)) (used_slots B 0))"
    using assms unfolding distinct_map inj_on_def by (auto simp: used_slots_def dir_ok_def used_as_def)
  show "set (map (\<lambda>j. entry_name (entry_at B j)) (used_slots B 0)) = dom (dir_map B)"
    by (auto simp: used_slots_def dir_map_Some[OF assms] used_as_def)
qed

subsection \<open>Properties\<close>

text \<open>The second inode of the small device as an empty directory.\<close>

abbreviation demo_dir :: dir where
  "demo_dir \<equiv> \<lparr>dir_inode = 2, dir_pos = 0\<rparr>"

abbreviation demo_dir_inode :: inode where
  "demo_dir_inode \<equiv> demo_inode\<lparr>i_open_cnt := 2\<rparr>"

lemma demo_dir_empty:
  defines "B \<equiv> inode_bytes (fs_device demo_two_fs) demo_dir_inode"
  shows "inodes demo_two_fs (dir_inode demo_dir) = Some demo_dir_inode" "i_deny_write_cnt demo_dir_inode = 0"
    "inode_sectors demo_dir_inode \<inter> map_sectors demo_two_fs = {}" "dir_ok B" "dir_map B = Map.empty"
    "\<exists>k < slots B. \<not> e_in_use (entry_at B k)"
proof -
  show i: "inodes demo_two_fs (dir_inode demo_dir) = Some demo_dir_inode" "i_deny_write_cnt demo_dir_inode = 0"
    by (simp_all add: demo_two_fs_def demo_inode_def)
  have m: "map_sectors demo_two_fs = {2}" "inode_sectors demo_dir_inode = {4, 5}"
    by (auto simp: map_sectors_def demo_two_fs_def demo_map_fs_def inode_sectors_def demo_map_inode_def demo_inode_def inode_length_def sector_cnt_def)
  then show "inode_sectors demo_dir_inode \<inter> map_sectors demo_two_fs = {}" by simp
  have on: "inode_on (fs_device demo_two_fs) demo_dir_inode"
    using fs_inv_readable[OF demo_two_fs_wf i(1)] by (simp add: readable_def)
  have L: "nat (inode_length demo_dir_inode) = 1000" by (simp add: inode_length_def demo_inode_def)
  have z: "medium (fs_device demo_two_fs) y = replicate 512 0" if "unat y \<in> inode_sectors demo_dir_inode" for y
    using that m by (auto simp: demo_two_fs_def demo_map_fs_def)
  have B: "B = replicate 1000 0" unfolding B_def L[symmetric] by (rule inode_bytes_zero[OF on z])
  have free: "\<not> e_in_use (entry_at B k)" if "k < slots B" for k
    using slot_inside[of k B] that by (simp add: entry_at_def entry_of_def B)
  then show "dir_ok B" "dir_map B = Map.empty" by (auto simp: dir_ok_def used_as_def dir_map_def)
  have "0 < slots B" by (simp add: B)
  with free show "\<exists>k < slots B. \<not> e_in_use (entry_at B k)" by blast
qed

text \<open>C21: adding an entry to a directory succeeds if and only if the name is not empty, fits, is not in
  the directory yet and a slot is free. Then exactly the new name is added to the names in the
  directory, and a lookup of any name, old or new, finds its sector; otherwise the names stay as they
  are. No sector outside the data of the directory is written.\<close>

theorem dir_add_then_lookup:
  assumes "fs_wf s" "inodes s (dir_inode d) = Some i" "i_deny_write_cnt i = 0" "inode_sectors i \<inter> map_sectors s = {}"
    and "B = inode_bytes (fs_device s) i" "dir_ok B" "length junk = 20" "0 \<notin> set name"
  shows "\<exists>r s1. dir_add junk d name x s = Some (r, s1) \<and> fs_wf s1 \<and> only_wrote (inode_sectors i) s s1 \<and>
     (r \<longleftrightarrow> name \<noteq> [] \<and> length name \<le> NAME_MAX \<and> dir_map B name = None \<and> (\<exists>k < slots B. \<not> e_in_use (entry_at B k))) \<and>
     (\<forall>n. \<exists>e s2. lookup d n s1 = Some (e, s2) \<and>
        map_option (\<lambda>(e, ofs). e_inode_sector e) e = (if r \<and> n = name then Some x else dir_map B n))"
proof -
  from dir_add_result[OF assms] obtain r s1 where add: "dir_add junk d name x s = Some (r, s1)" "fs_wf s1"
    "only_wrote (inode_sectors i) s s1"
    "r \<longleftrightarrow> name \<noteq> [] \<and> length name \<le> NAME_MAX \<and> dir_map B name = None \<and> (\<exists>k < slots B. \<not> e_in_use (entry_at B k))"
    "dir_ok (inode_bytes (fs_device s1) i)" "dir_map (inode_bytes (fs_device s1) i) = (if r then (dir_map B)(name \<mapsto> x) else dir_map B)"
    by blast
  have "inodes s1 (dir_inode d) = Some i" using add(3) assms(2) by (simp add: only_wrote_def)
  then have r1: "readable s1 (dir_inode d) i" by (rule fs_inv_readable[OF add(2)])
  have "\<exists>e s2. lookup d n s1 = Some (e, s2) \<and>
     map_option (\<lambda>(e, ofs). e_inode_sector e) e = (if r \<and> n = name then Some x else dir_map B n)" for n
    by (cases rule: lookup_result[OF r1 refl add(5), of n]) (use add(6) in \<open>auto split: if_splits\<close>)
  with add show ?thesis by blast
qed

theorem dir_add_then_lookup_witness:
  "\<exists>r s1 e s2. dir_add (replicate 20 9) demo_dir [97, 98] 7 demo_two_fs = Some (r, s1) \<and>
     lookup demo_dir [97, 98] s1 = Some (e, s2) \<and> map_option (\<lambda>(e, ofs). e_inode_sector e) e = Some 7"
proof -
  let ?B = "inode_bytes (fs_device demo_two_fs) demo_dir_inode"
  obtain r s1 where r: "dir_add (replicate 20 9) demo_dir [97, 98] 7 demo_two_fs = Some (r, s1)"
    "r \<longleftrightarrow> dir_map ?B [97, 98] = None \<and> (\<exists>k < slots ?B. \<not> e_in_use (entry_at ?B k))"
    "\<forall>n. \<exists>e s2. lookup demo_dir n s1 = Some (e, s2) \<and>
        map_option (\<lambda>(e, ofs). e_inode_sector e) e = (if r \<and> n = [97, 98] then Some 7 else dir_map ?B n)"
    using dir_add_then_lookup[OF demo_two_fs_wf demo_dir_empty(1-3) refl demo_dir_empty(4), of "replicate 20 9" "[97, 98]" 7]
    by (auto simp: NAME_MAX_def)
  then have r using demo_dir_empty(5,6) by auto
  with r(1) spec[OF r(3), of "[97, 98]"] show ?thesis by auto
qed

text \<open>C22: listing a directory from its start ends, and it returns every name in the directory exactly
  once; the disk is only read.\<close>

theorem ls_all_names:
  assumes "fs_wf s" "inodes s (dir_inode d) = Some i" "dir_pos d = 0" "dir_ok (inode_bytes (fs_device s) i)"
  shows "\<exists>names d' s'. ls_loop d s = Some (names, d', s') \<and> distinct names \<and>
     set names = dom (dir_map (inode_bytes (fs_device s) i)) \<and> only_read s s'"
  using ls_loop_result[OF fs_inv_readable[OF assms(1,2)] refl assms(4), of 0] used_names[OF assms(4)] assms(3) by auto

theorem ls_all_names_witness:
  "\<exists>s d' s'. dir_add (replicate 20 9) demo_dir [97, 98] 7 demo_two_fs = Some (True, s) \<and> ls_loop demo_dir s = Some ([[97, 98]], d', s')"
proof -
  obtain s where s: "dir_add (replicate 20 9) demo_dir [97, 98] 7 demo_two_fs = Some (True, s)" "fs_wf s"
    "only_wrote (inode_sectors demo_dir_inode) demo_two_fs s" "dir_ok (inode_bytes (fs_device s) demo_dir_inode)"
    "dir_map (inode_bytes (fs_device s) demo_dir_inode) = [[97, 98] \<mapsto> 7]"
    using dir_add_result[OF demo_two_fs_wf demo_dir_empty(1-3) refl demo_dir_empty(4), of "replicate 20 9" "[97, 98]" 7]
      demo_dir_empty(5,6) by (auto simp: NAME_MAX_def)
  have i: "inodes s (dir_inode demo_dir) = Some demo_dir_inode" using s(3) demo_dir_empty(1) by (simp add: only_wrote_def)
  obtain names d' s' where n: "ls_loop demo_dir s = Some (names, d', s')" "distinct names" "set names = {[97, 98]}"
    using ls_all_names[OF s(2) i _ s(4)] s(5) by auto
  have "card (set names) = 1" using n(3) by simp
  then have "length names = 1" using distinct_card[OF n(2)] by simp
  with n(3) have "names = [[97, 98]]" by (cases names) auto
  with s(1) n(1) show ?thesis by auto
qed

end
