(* ===== verification/Filesys.thy ===== *)
theory Filesys
  imports Directory
begin

section \<open>The file system\<close>

text \<open>
  Models src/pintos/src/filesys/filesys.c: formatting and starting the file system, and creating,
  opening and removing files by name in the root directory.
\<close>

definition do_format :: "fs \<Rightarrow> fs option" where
  "do_format s = do {
     s \<leftarrow> free_map_create s;
     (ok, s) \<leftarrow> dir_create ROOT_DIR_SECTOR 16 s;
     ASSERT ok;
     free_map_close s
   }"

text \<open>The device with the file system role, if any, is an argument, as is the memory for the bits
  of the free map.\<close>

definition filesys_init :: "block option \<Rightarrow> u32 list \<Rightarrow> bool \<Rightarrow> fs \<Rightarrow> fs option" where
  "filesys_init role junk format s = do {
     dev \<leftarrow> role;
     let s = inode_init (s\<lparr>fs_device := dev\<rparr>);
     s \<leftarrow> free_map_init junk s;
     s \<leftarrow> (if format then do_format s else Some s);
     free_map_open s
   }"

definition filesys_done :: "fs \<Rightarrow> fs option" where
  "filesys_done s = free_map_close s"

definition filesys_create :: "u8 list \<Rightarrow> u8 list \<Rightarrow> int \<Rightarrow> fs \<Rightarrow> (bool \<times> fs) option" where
  "filesys_create junk name initial_size s = do {
     (dir, s) \<leftarrow> dir_open_root s;
     (success, inode_sector, s) \<leftarrow> (case dir of None \<Rightarrow> Some (False, 0, s)
       | Some d \<Rightarrow> do {
           (r, s) \<leftarrow> free_map_allocate 1 s;
           case r of None \<Rightarrow> Some (False, 0, s)
           | Some sec \<Rightarrow> do {
               (ok, s) \<leftarrow> inode_create sec initial_size s;
               (ok, s) \<leftarrow> (if ok then dir_add junk d name sec s else Some (False, s));
               Some (ok, sec, s)
             }
         });
     s \<leftarrow> (if \<not> success \<and> inode_sector \<noteq> 0 then free_map_release inode_sector 1 s else Some s);
     s \<leftarrow> dir_close dir s;
     Some (success, s)
   }"

definition filesys_open :: "u8 list \<Rightarrow> fs \<Rightarrow> (obj option \<times> fs) option" where
  "filesys_open name s = do {
     (dir, s) \<leftarrow> dir_open_root s;
     (inode, s) \<leftarrow> (case dir of None \<Rightarrow> Some (None, s) | Some d \<Rightarrow> dir_lookup d name s);
     s \<leftarrow> dir_close dir s;
     file_open inode s
   }"

definition filesys_remove :: "u8 list \<Rightarrow> fs \<Rightarrow> (bool \<times> fs) option" where
  "filesys_remove name s = do {
     (dir, s) \<leftarrow> dir_open_root s;
     (success, s) \<leftarrow> (case dir of None \<Rightarrow> Some (False, s) | Some d \<Rightarrow> dir_remove d name s);
     s \<leftarrow> dir_close dir s;
     Some (success, s)
   }"

end
