(* ===== verification/Volume.thy ===== *)
theory Volume
  imports Filesys
begin

section \<open>Volumes\<close>

text \<open>
  The well-formed states of the file system: the root directory and the files in it form a tree of
  inodes with disjoint extents. Every operation of filesys.c, and every operation on an open file,
  keeps this and changes the contents of the files only as it should.
\<close>

subsection \<open>The tree of inodes on the disk\<close>

text \<open>The inode that the sector \<open>x\<close> holds, and the table of the root directory.\<close>

definition disk_inode :: "fs \<Rightarrow> u32 \<Rightarrow> inode" where
  "disk_inode s x = inode_from x (inode_disk_of (medium (fs_device s) x))"

definition root_bytes :: "fs \<Rightarrow> u8 list" where
  "root_bytes s = inode_bytes (fs_device s) (disk_inode s ROOT_DIR_SECTOR)"

definition is_map_inode :: "fs \<Rightarrow> obj \<Rightarrow> bool" where
  "is_map_inode s p \<longleftrightarrow> (\<exists>m ml. free_map_file s = Some m \<and> files s m = Some ml \<and> f_inode ml = p)"

text \<open>An open inode is the one in sector \<open>x\<close> and has not been removed.\<close>

definition own_inode :: "fs \<Rightarrow> obj \<Rightarrow> inode \<Rightarrow> u32 \<Rightarrow> bool" where
  "own_inode s p i x \<longleftrightarrow> i_sector i = x \<and> i_data i = i_data (disk_inode s x) \<and> \<not> i_removed i \<and> \<not> is_map_inode s p"

definition tree_inode :: "fs \<Rightarrow> u32 \<Rightarrow> bool" where
  "tree_inode s x \<longleftrightarrow> inode_ok s (disk_inode s x) \<and>
     (\<forall>p i. inodes s p = Some i \<longrightarrow> own_inode s p i x \<or> inode_extent i \<inter> inode_extent (disk_inode s x) = {})"

text \<open>The sectors of the root directory and of the files \<open>M\<close> in it hold inodes with disjoint extents, of
  which no other open inode and not the free map have a part.\<close>

definition nodes :: "(u8 list \<rightharpoonup> u32) \<Rightarrow> u32 set" where
  "nodes M = insert ROOT_DIR_SECTOR (ran M)"

definition tree :: "fs \<Rightarrow> (u8 list \<rightharpoonup> u32) \<Rightarrow> bool" where
  "tree s M \<longleftrightarrow> fs_wf s \<and> ROOT_DIR_SECTOR \<notin> ran M \<and> inj_on M (dom M) \<and>
     (\<forall>x \<in> nodes M. tree_inode s x) \<and>
     (\<forall>x \<in> nodes M. \<forall>y \<in> nodes M. x \<noteq> y \<longrightarrow>
        inode_extent (disk_inode s x) \<inter> inode_extent (disk_inode s y) = {})"

definition volume :: "fs \<Rightarrow> bool" where
  "volume s \<longleftrightarrow> dir_ok (root_bytes s) \<and> tree s (dir_map (root_bytes s)) \<and> counts_ok s \<and>
     (\<forall>p i. inodes s p = Some i \<longrightarrow> i_sector i \<noteq> ROOT_DIR_SECTOR)"

text \<open>What the file system means to its users: the contents of every file by its name.\<close>

definition file_data :: "fs \<Rightarrow> u8 list \<rightharpoonup> u8 list" where
  "file_data s name = map_option (\<lambda>x. inode_bytes (fs_device s) (disk_inode s x)) (dir_map (root_bytes s) name)"

lemma disk_inode_simps [simp]:
  "i_sector (disk_inode s x) = x" "i_removed (disk_inode s x) = False" "i_deny_write_cnt (disk_inode s x) = 0" "i_open_cnt (disk_inode s x) = 1"
  by (simp_all add: disk_inode_def inode_from_def)

lemma same_i_data:
  assumes "i_data i = i_data j"
  shows "inode_length i = inode_length j" "inode_sectors i = inode_sectors j" "inode_bytes d i = inode_bytes d j"
    "inode_on d i = inode_on d j" "i_sector i = i_sector j \<Longrightarrow> inode_extent i = inode_extent j"
  using assms by (simp_all add: inode_length_def inode_sectors_def inode_bytes_def byte_at_def inode_on_def inode_extent_def fun_eq_iff)

lemma disk_inode_cong: "medium (fs_device s') x = medium (fs_device s) x \<Longrightarrow> disk_inode s' x = disk_inode s x"
  by (simp add: disk_inode_def)

lemma sector_in_extent [simp]: "unat x \<in> inode_extent (disk_inode s x)"
  by (simp add: inode_extent_def)

lemma sectors_in_extent: "inode_sectors i \<subseteq> inode_extent i"
  by (auto simp: inode_extent_def)

lemma inode_ok_disk:
  assumes "inode_ok s (disk_inode s x)" "disk_inode s' x = disk_inode s x" "blk_size (fs_device s') = blk_size (fs_device s)"
    "inode_extent (disk_inode s x) \<inter> free_sectors s' = {}"
  shows "inode_ok s' (disk_inode s' x)"
  using assms inode_on_cong[OF assms(3)] by (simp add: inode_ok_def)

lemma treeD:
  assumes "tree s M"
  shows "fs_wf s" "ROOT_DIR_SECTOR \<notin> ran M" "inj_on M (dom M)" "\<And>x. x \<in> nodes M \<Longrightarrow> tree_inode s x"
    "\<And>x. x \<in> nodes M \<Longrightarrow> inode_ok s (disk_inode s x)"
    "\<And>x y. x \<in> nodes M \<Longrightarrow> y \<in> nodes M \<Longrightarrow> x \<noteq> y \<Longrightarrow> inode_extent (disk_inode s x) \<inter> inode_extent (disk_inode s y) = {}"
    "\<And>x p i. x \<in> nodes M \<Longrightarrow> inodes s p = Some i \<Longrightarrow> own_inode s p i x \<or> inode_extent i \<inter> inode_extent (disk_inode s x) = {}"
  using assms unfolding tree_def tree_inode_def by blast+

lemma root_node [simp]: "ROOT_DIR_SECTOR \<in> nodes M"
  by (simp add: nodes_def)

lemma tree_frame:
  assumes t: "tree s M" and wf: "fs_wf s'" and size: "blk_size (fs_device s') = blk_size (fs_device s)"
    and med: "\<And>x. x \<in> nodes M \<Longrightarrow> medium (fs_device s') x = medium (fs_device s) x"
    and free: "\<And>x. x \<in> nodes M \<Longrightarrow> inode_extent (disk_inode s x) \<inter> free_sectors s' = {}"
    and op: "\<And>p i x. inodes s' p = Some i \<Longrightarrow> x \<in> nodes M \<Longrightarrow>
      own_inode s' p i x \<or> inode_extent i \<inter> inode_extent (disk_inode s x) = {}"
  shows "tree s' M"
proof -
  have d: "disk_inode s' x = disk_inode s x" if "x \<in> nodes M" for x
    using disk_inode_cong[OF med[OF that]] .
  have "tree_inode s' x" if x: "x \<in> nodes M" for x
  proof -
    from inode_ok_disk[OF treeD(5)[OF t x] d[OF x] size free[OF x]] op[OF _ x] d[OF x] show ?thesis by (simp add: tree_inode_def)
  qed
  moreover have "inode_extent (disk_inode s' x) \<inter> inode_extent (disk_inode s' y) = {}"
    if "x \<in> nodes M" "y \<in> nodes M" "x \<noteq> y" for x y
    using treeD(6)[OF t that] d[OF that(1)] d[OF that(2)] by simp
  ultimately show ?thesis using treeD(2,3)[OF t] wf by (simp add: tree_def)
qed

text \<open>The sectors of the free map lie outside the tree.\<close>

lemma map_not_in_tree:
  assumes "fs_inv F s" "tree_inode s x"
  shows "map_sectors s \<inter> inode_extent (disk_inode s x) = {}"
proof -
  obtain m ml j where m: "free_map_file s = Some m" "files s m = Some ml" "inodes s (f_inode ml) = Some j" "map_sectors s = inode_sectors j"
    using fs_invD(1)[OF assms(1)] by (auto simp: free_map_wf_def map_file_def map_sectors_def)
  then have "\<not> own_inode s (f_inode ml) j x" by (auto simp: own_inode_def is_map_inode_def)
  with assms(2) m(3) have "inode_extent j \<inter> inode_extent (disk_inode s x) = {}" by (auto simp: tree_inode_def)
  with m(4) sectors_in_extent[of j] show ?thesis by blast
qed

text \<open>Writing outside the inodes themselves, and changing the free map.\<close>

lemma tree_wrote:
  assumes t: "tree s M" and wf: "fs_wf s'" and w: "only_wrote S (s\<lparr>free_map := m\<rparr>) s'"
    and S: "\<And>x. x \<in> nodes M \<Longrightarrow> unat x \<notin> S"
    and free: "\<And>x. x \<in> nodes M \<Longrightarrow> inode_extent (disk_inode s x) \<inter> free_sectors s' = {}"
  shows "tree s' M"
proof -
  have e: "inodes s' = inodes s" "files s' = files s" "free_map_file s' = free_map_file s"
    "blk_size (fs_device s') = blk_size (fs_device s)" "\<And>y. unat y \<notin> S \<Longrightarrow> medium (fs_device s') y = medium (fs_device s) y"
    using w by (auto simp: only_wrote_def)
  have d: "disk_inode s' x = disk_inode s x" if "x \<in> nodes M" for x
    using disk_inode_cong[OF e(5)[OF S[OF that]]] .
  have "own_inode s' p i x \<or> inode_extent i \<inter> inode_extent (disk_inode s x) = {}"
    if "inodes s' p = Some i" "x \<in> nodes M" for p i x
    using treeD(7)[OF t that(2), of p i] that(1) e(1-3) d[OF that(2)] unfolding own_inode_def is_map_inode_def by simp
  with tree_frame[OF t wf e(4) e(5)[OF S] free] show ?thesis by blast
qed

lemma same_bytes:
  assumes "inode_ok s (disk_inode s x)" "disk_inode s' x = disk_inode s x"
    and "\<And>y. unat y \<in> inode_sectors (disk_inode s x) \<Longrightarrow> medium (fs_device s') y = medium (fs_device s) y"
  shows "inode_bytes (fs_device s') (disk_inode s' x) = inode_bytes (fs_device s) (disk_inode s x)"
  using inode_bytes_medium[of "fs_device s" "disk_inode s x" "fs_device s'"] assms by (simp add: inode_ok_def)

text \<open>A state in which all sectors of the tree are as before has the same files.\<close>

lemma same_tree_data:
  assumes t: "tree s (dir_map (root_bytes s))" and med: "\<And>x y. x \<in> nodes (dir_map (root_bytes s)) \<Longrightarrow>
      unat y \<in> inode_extent (disk_inode s x) \<Longrightarrow> medium (fs_device s') y = medium (fs_device s) y"
  shows "root_bytes s' = root_bytes s" "file_data s' = file_data s"
proof -
  have b: "inode_bytes (fs_device s') (disk_inode s' x) = inode_bytes (fs_device s) (disk_inode s x)"
    if x: "x \<in> nodes (dir_map (root_bytes s))" for x
  proof (rule same_bytes)
    show "inode_ok s (disk_inode s x)" by (rule treeD(5)[OF t x])
    show "disk_inode s' x = disk_inode s x" by (rule disk_inode_cong) (rule med[OF x], simp)
  qed (use med[OF x] sectors_in_extent in blast)
  then show r: "root_bytes s' = root_bytes s" by (simp add: root_bytes_def)
  show "file_data s' = file_data s"
  proof
    fix name
    show "file_data s' name = file_data s name"
      using b by (cases "dir_map (root_bytes s) name") (auto simp: file_data_def r nodes_def ran_def)
  qed
qed

subsection \<open>Opening and closing the root directory\<close>

lemma fresh_obj:
  assumes "fs_wf s"
  shows "inodes s (next_obj s) = None" "files s (next_obj s) = None" "files s f = Some fl \<Longrightarrow> f_inode fl \<noteq> next_obj s"
  using fs_invD(5)[OF assms, of "next_obj s"] fs_invD(5)[OF assms, of "f_inode fl"] fs_invD(7)[OF assms, of f fl]
    fs_invD(7)[OF assms, of "next_obj s"] by fastforce+

lemma counts_ok_more:
  assumes "counts_ok s" "files s' = files s" "\<And>q j. inodes s' q = Some j \<Longrightarrow> inodes s q = Some j \<or>
      (\<forall>f fl. files s f = Some fl \<longrightarrow> f_inode fl \<noteq> q) \<and> 0 \<le> i_open_cnt j \<and> i_deny_write_cnt j = 0"
  shows "counts_ok s'"
proof -
  have o: "openers s' = openers s" "deniers s' = deniers s" using assms(2) by (auto simp: openers_def deniers_def fun_eq_iff)
  have "int (card (openers s q)) \<le> i_open_cnt j \<and> i_deny_write_cnt j = int (card (deniers s q))" if "inodes s' q = Some j" for q j
  proof (cases "inodes s q = Some j")
    case False
    with assms(3)[OF that] have "openers s q = {}" "deniers s q = {}" "0 \<le> i_open_cnt j" "i_deny_write_cnt j = 0"
      by (auto simp: openers_def deniers_def)
    then show ?thesis by simp
  qed (use assms(1) in \<open>simp add: counts_ok_def\<close>)
  then show ?thesis using assms(1,2) by (simp add: counts_ok_def o)
qed

text \<open>Opening an inode of the tree that is not open.\<close>

lemma tree_closed:
  assumes t: "tree s M" and x: "x \<in> nodes M" and nopen: "\<And>p i. inodes s p = Some i \<Longrightarrow> i_sector i \<noteq> x"
  shows "closed_inode s x (i_data (disk_inode s x))" "inode_from x (i_data (disk_inode s x)) = disk_inode s x"
proof -
  show e: "inode_from x (i_data (disk_inode s x)) = disk_inode s x" by (simp add: disk_inode_def inode_from_def)
  have "inode_extent i \<inter> inode_extent (disk_inode s x) = {}" if "inodes s p = Some i" for p i
    using treeD(7)[OF t x that] nopen[OF that] by (auto simp: own_inode_def)
  with treeD(5)[OF t x] show "closed_inode s x (i_data (disk_inode s x))"
    unfolding closed_inode_def e by (simp add: disk_inode_def inode_from_def)
qed

lemma tree_open_new:
  assumes t: "tree s M" and c: "counts_ok s" and x: "x \<in> nodes M" and nopen: "\<And>p i. inodes s p = Some i \<Longrightarrow> i_sector i \<noteq> x"
  obtains s' where "inode_open x s = Some (Some (next_obj s), s')" "inodes s' = (inodes s)(next_obj s \<mapsto> disk_inode s x)"
    "files s' = files s" "next_obj s' = next_obj s + 1" "free_map s' = free_map s" "free_map_file s' = free_map_file s"
    "medium (fs_device s') = medium (fs_device s)" "blk_size (fs_device s') = blk_size (fs_device s)" "tree s' M" "counts_ok s'"
proof -
  note wf = treeD(1)[OF t]
  note cl = tree_closed[OF t x nopen]
  obtain s' where s': "inode_open x s = Some (Some (next_obj s), s')" "inodes s' = (inodes s)(next_obj s \<mapsto> disk_inode s x)"
    "files s' = files s" "next_obj s' = next_obj s + 1"
    "free_map s' = free_map s" "free_map_file s' = free_map_file s"
    "medium (fs_device s') = medium (fs_device s)" "blk_size (fs_device s') = blk_size (fs_device s)" "fs_wf s'"
    by (rule inode_open_new[OF wf cl(1)]) (simp_all add: cl(2))
  have map: "is_map_inode s' p = is_map_inode s p" for p using s' by (simp add: is_map_inode_def)
  have new: "\<not> is_map_inode s (next_obj s)" using fresh_obj(3)[OF wf] by (auto simp: is_map_inode_def)
  have d: "disk_inode s' y = disk_inode s y" for y using s' by (intro disk_inode_cong) simp
  have "own_inode s' p i y \<or> inode_extent i \<inter> inode_extent (disk_inode s y) = {}"
    if "inodes s' p = Some i" and y: "y \<in> nodes M" for p i y
  proof (cases "p = next_obj s")
    case True
    then have i: "i = disk_inode s x" using that s' by simp
    show ?thesis
    proof (cases "y = x")
      case True
      then show ?thesis using i new d \<open>p = next_obj s\<close> by (simp add: own_inode_def map)
    qed (use treeD(6)[OF t x y] i in auto)
  next
    case False
    then show ?thesis using treeD(7)[OF t y, of p i] that(1) s'(2) by (simp add: own_inode_def map d)
  qed
  then have "tree s' M"
    by (intro tree_frame[OF t s'(9,8)]) (use s' treeD(5)[OF t] in \<open>auto simp: inode_ok_def\<close>)
  moreover have "counts_ok s'"
    by (rule counts_ok_more[OF c s'(3)]) (use fresh_obj(3)[OF wf] s'(2) in \<open>auto split: if_splits\<close>)
  ultimately show thesis using s' by (intro that)
qed

lemma dir_open_ok: "fs_wf s \<Longrightarrow> dir_open (Some p) s = Some (Some \<lparr>dir_inode = p, dir_pos = 0\<rparr>, s)"
  using fs_invD(9)[of "{}" s] by (simp add: dir_open_def malloc_ok_def)

lemma open_root:
  assumes v: "volume s" and M: "M = dir_map (root_bytes s)"
  obtains s' where "dir_open_root s = Some (Some \<lparr>dir_inode = next_obj s, dir_pos = 0\<rparr>, s')"
    "inodes s' = (inodes s)(next_obj s \<mapsto> disk_inode s ROOT_DIR_SECTOR)"
    "files s' = files s" "next_obj s' = next_obj s + 1" "free_map s' = free_map s" "free_map_file s' = free_map_file s"
    "medium (fs_device s') = medium (fs_device s)" "blk_size (fs_device s') = blk_size (fs_device s)" "tree s' M" "counts_ok s'"
    "\<And>x. disk_inode s' x = disk_inode s x" "root_bytes s' = root_bytes s" "file_data s' = file_data s"
proof -
  have t: "tree s M" "counts_ok s" "\<And>p i. inodes s p = Some i \<Longrightarrow> i_sector i \<noteq> ROOT_DIR_SECTOR"
    using v M by (auto simp: volume_def)
  obtain s' where s': "inode_open ROOT_DIR_SECTOR s = Some (Some (next_obj s), s')" "inodes s' = (inodes s)(next_obj s \<mapsto> disk_inode s ROOT_DIR_SECTOR)"
    "files s' = files s" "next_obj s' = next_obj s + 1" "free_map s' = free_map s" "free_map_file s' = free_map_file s"
    "medium (fs_device s') = medium (fs_device s)" "blk_size (fs_device s') = blk_size (fs_device s)" "tree s' M" "counts_ok s'"
    by (rule tree_open_new[OF t(1,2) root_node t(3)])
  have "disk_inode s' x = disk_inode s x" for x using s' by (intro disk_inode_cong) simp
  moreover have "root_bytes s' = root_bytes s" "file_data s' = file_data s"
    using same_tree_data[of s s'] t(1) M s'(7) by simp_all
  ultimately show thesis using s' dir_open_ok[OF treeD(1)[OF s'(9)]]
    by (intro that[of s']) (auto simp: dir_open_root_def)
qed

lemma tree_close_last:
  assumes t: "tree s M" and c: "counts_ok s" and p: "inodes s p = Some i" "i_open_cnt i = 1"
    and nf: "\<And>f fl. files s f = Some fl \<Longrightarrow> f_inode fl \<noteq> p" and rem: "\<And>x. i_removed i \<Longrightarrow> x \<in> nodes M \<Longrightarrow> i_sector i \<noteq> x"
  obtains s' where "inode_close (Some p) s = Some s'" "inodes s' = (inodes s)(p := None)" "files s' = files s"
    "next_obj s' = next_obj s" "free_map_file s' = free_map_file s"
    "free_sectors s' = free_sectors s \<union> (if i_removed i then inode_extent i else {})"
    "\<And>x. unat x \<notin> map_sectors s \<Longrightarrow> medium (fs_device s') x = medium (fs_device s) x"
    "blk_size (fs_device s') = blk_size (fs_device s)" "tree s' M" "counts_ok s'"
proof -
  note wf = treeD(1)[OF t]
  obtain s' where s': "inode_close (Some p) s = Some s'" "fs_inv {} s'" "inodes s' = (inodes s)(p := None)"
    "files s' = files s" "next_obj s' = next_obj s" "free_map_file s' = free_map_file s"
    "free_sectors s' = free_sectors s \<union> (if i_removed i then inode_extent i else {})"
    "\<And>x. unat x \<notin> map_sectors s \<Longrightarrow> medium (fs_device s') x = medium (fs_device s) x"
    "blk_size (fs_device s') = blk_size (fs_device s)"
    by (rule inode_close_last[OF wf p]) (use nf in auto)
  have med: "medium (fs_device s') x = medium (fs_device s) x" if "x \<in> nodes M" for x
    using map_not_in_tree[OF wf treeD(4)[OF t that]] sector_in_extent[of x s] by (intro s'(8)) blast
  have map: "is_map_inode s' q = is_map_inode s q" for q using s' by (simp add: is_map_inode_def)
  have "inode_extent (disk_inode s x) \<inter> free_sectors s' = {}" if x: "x \<in> nodes M" for x
    using treeD(5)[OF t x] treeD(7)[OF t x p(1)] rem[OF _ x] s'(7) by (auto simp: inode_ok_def own_inode_def split: if_splits)
  moreover have "own_inode s' q j x \<or> inode_extent j \<inter> inode_extent (disk_inode s x) = {}"
    if "inodes s' q = Some j" "x \<in> nodes M" for q j x
    using treeD(7)[OF t that(2), of q j] that(1) s'(3) disk_inode_cong[OF med[OF that(2)]]
    by (auto simp: own_inode_def map split: if_splits)
  ultimately have "tree s' M" by (intro tree_frame[OF t s'(2,9) med]) auto
  moreover have "counts_ok s'" by (rule counts_ok_more[OF c s'(4)]) (use s'(3) in \<open>auto split: if_splits\<close>)
  ultimately show thesis using s' by (intro that[of s']) auto
qed

text \<open>Closing the root directory ends every operation.\<close>

lemma close_root:
  assumes t: "tree s (dir_map (root_bytes s))" and c: "counts_ok s" and ok: "dir_ok (root_bytes s)"
    and p: "inodes s p = Some i" "i_open_cnt i = 1" "i_sector i = ROOT_DIR_SECTOR" "\<not> i_removed i"
    and nf: "\<And>f fl. files s f = Some fl \<Longrightarrow> f_inode fl \<noteq> p"
  obtains s' where "dir_close (Some \<lparr>dir_inode = p, dir_pos = q\<rparr>) s = Some s'" "volume s'" "inodes s' = (inodes s)(p := None)" "files s' = files s"
    "next_obj s' = next_obj s" "free_map_file s' = free_map_file s" "free_sectors s' = free_sectors s" "root_bytes s' = root_bytes s"
    "file_data s' = file_data s" "\<And>x. unat x \<notin> map_sectors s \<Longrightarrow> medium (fs_device s') x = medium (fs_device s) x"
    "blk_size (fs_device s') = blk_size (fs_device s)"
proof -
  obtain s' where s': "inode_close (Some p) s = Some s'" "inodes s' = (inodes s)(p := None)" "files s' = files s"
    "next_obj s' = next_obj s" "free_map_file s' = free_map_file s"
    "free_sectors s' = free_sectors s \<union> (if i_removed i then inode_extent i else {})"
    "\<And>x. unat x \<notin> map_sectors s \<Longrightarrow> medium (fs_device s') x = medium (fs_device s) x"
    "blk_size (fs_device s') = blk_size (fs_device s)" "tree s' (dir_map (root_bytes s))" "counts_ok s'"
    by (rule tree_close_last[OF t c p(1,2) nf]) (use p(4) in auto)
  have "medium (fs_device s') y = medium (fs_device s) y"
    if "x \<in> nodes (dir_map (root_bytes s))" "unat y \<in> inode_extent (disk_inode s x)" for x y
    using map_not_in_tree[OF treeD(1)[OF t] treeD(4)[OF t that(1)]] that(2) by (intro s'(7)) blast
  note same = same_tree_data[OF t this]
  have "i_sector j \<noteq> ROOT_DIR_SECTOR" if j: "inodes s q = Some j" "q \<noteq> p" for q j
    using inode_sector_unique[OF treeD(1)[OF t] j(1) p(1)] j(2) p(3) by auto
  then have "volume s'" using s'(2,9,10) ok same by (auto simp: volume_def)
  with s' same p(4) show thesis by (intro that[of s']) (auto simp: dir_close_def)
qed

subsection \<open>Allocating sectors and creating inodes beside the tree\<close>

text \<open>A sector in use that is part of no open inode and not of the tree.\<close>

definition spare :: "fs \<Rightarrow> (u8 list \<rightharpoonup> u32) \<Rightarrow> u32 \<Rightarrow> bool" where
  "spare s M x \<longleftrightarrow> fresh_sector s x \<and> (\<forall>y \<in> nodes M. unat x \<notin> inode_extent (disk_inode s y))"

text \<open>What stays the same in these operations.\<close>

definition same_open :: "fs \<Rightarrow> fs \<Rightarrow> bool" where
  "same_open s s' \<longleftrightarrow> inodes s' = inodes s \<and> files s' = files s \<and> next_obj s' = next_obj s \<and>
     free_map_file s' = free_map_file s \<and> blk_size (fs_device s') = blk_size (fs_device s)"

lemma same_open_refl [simp]: "same_open s s"
  by (simp add: same_open_def)

lemma same_open_trans: "same_open s s1 \<Longrightarrow> same_open s1 s2 \<Longrightarrow> same_open s s2"
  by (simp add: same_open_def)

lemma same_open_map_sectors: "same_open s s' \<Longrightarrow> map_sectors s' = map_sectors s"
  unfolding same_open_def map_sectors_def by presburger

lemma same_open_wrote: "only_wrote S (s\<lparr>free_map := m\<rparr>) s' \<Longrightarrow> same_open s s'"
  by (simp add: same_open_def only_wrote_def)

lemma only_wrote_map: "only_wrote S s s' \<Longrightarrow> only_wrote S (s\<lparr>free_map := free_map s\<rparr>) s'"
  by simp

lemma node_not_map:
  assumes "tree s M" "x \<in> nodes M"
  shows "unat x \<notin> map_sectors s"
  using map_not_in_tree[OF treeD(1)[OF assms(1)] treeD(4)[OF assms]] sector_in_extent[of x s] by blast

lemma tree_same_bytes:
  assumes t: "tree s M" and x: "x \<in> nodes M" and med: "\<forall>y. unat y \<in> inode_extent (disk_inode s x) \<longrightarrow> medium (fs_device s') y = medium (fs_device s) y"
  shows "disk_inode s' x = disk_inode s x" "inode_bytes (fs_device s') (disk_inode s' x) = inode_bytes (fs_device s) (disk_inode s x)"
proof -
  show d: "disk_inode s' x = disk_inode s x" by (rule disk_inode_cong) (use med in simp)
  show "inode_bytes (fs_device s') (disk_inode s' x) = inode_bytes (fs_device s) (disk_inode s x)"
    by (rule same_bytes[OF treeD(5)[OF t x] d]) (use med sectors_in_extent in blast)
qed

lemma tree_map_changed:
  assumes t: "tree s M" and w: "only_wrote (map_sectors s) (s\<lparr>free_map := m\<rparr>) s'" and fm: "free_map_wf s'" "map_on_disk s'"
    and free: "\<And>p i. inodes s p = Some i \<Longrightarrow> inode_extent i \<inter> free_sectors s' = {}"
      "\<And>x. x \<in> nodes M \<Longrightarrow> inode_extent (disk_inode s x) \<inter> free_sectors s' = {}"
  shows "tree s' M" "same_open s s'" "\<And>x. x \<in> nodes M \<Longrightarrow> disk_inode s' x = disk_inode s x"
    "\<And>x. x \<in> nodes M \<Longrightarrow> inode_bytes (fs_device s') (disk_inode s' x) = inode_bytes (fs_device s) (disk_inode s x)"
proof -
  show "tree s' M"
    by (rule tree_wrote[OF t fs_inv_map_changed[OF treeD(1)[OF t] w fm free(1)] w node_not_map[OF t] free(2)])
  show "same_open s s'" by (rule same_open_wrote[OF w])
  fix x assume x: "x \<in> nodes M"
  have "\<forall>y. unat y \<in> inode_extent (disk_inode s x) \<longrightarrow> medium (fs_device s') y = medium (fs_device s) y"
    using map_not_in_tree[OF treeD(1)[OF t] treeD(4)[OF t x]] w by (auto simp: only_wrote_def)
  from tree_same_bytes[OF t x this] show "disk_inode s' x = disk_inode s x"
    "inode_bytes (fs_device s') (disk_inode s' x) = inode_bytes (fs_device s) (disk_inode s x)" .
qed

lemma alloc_sector:
  assumes t: "tree s M"
  obtains (got) x s' where "free_map_allocate 1 s = Some (Some x, s')" "tree s' M" "same_open s s'" "spare s' M x"
      "unat x \<in> free_sectors s" "free_sectors s' = free_sectors s - {unat x}"
      "\<And>y. y \<in> nodes M \<Longrightarrow> disk_inode s' y = disk_inode s y"
      "\<And>y. y \<in> nodes M \<Longrightarrow> inode_bytes (fs_device s') (disk_inode s' y) = inode_bytes (fs_device s) (disk_inode s y)"
  | (full) "free_map_allocate 1 s = Some (None, s)" "free_sectors s = {}"
proof -
  note D = fs_invD[OF treeD(1)[OF t]]
  show thesis
  proof (cases rule: free_map_allocate_sectors[OF D(1), of 1])
    case (2 x m s')
    have f: "unat x \<in> free_sectors s" "free_sectors s' = free_sectors s - {unat x}" using 2(2,3) by auto
    have n: "inode_extent i \<inter> free_sectors s = {}" if "inodes s p = Some i" for p i using D(5)[OF that] by (simp add: inode_ok_def)
    have nt: "inode_extent (disk_inode s y) \<inter> free_sectors s = {}" if "y \<in> nodes M" for y
      using treeD(5)[OF t that] by (simp add: inode_ok_def)
    have "inode_extent i \<inter> free_sectors s' = {}" if "inodes s p = Some i" for p i using n[OF that] f by blast
    moreover have "inode_extent (disk_inode s y) \<inter> free_sectors s' = {}" if "y \<in> nodes M" for y using nt[OF that] f by blast
    ultimately have r: "tree s' M" "same_open s s'" "\<And>x. x \<in> nodes M \<Longrightarrow> disk_inode s' x = disk_inode s x"
      "\<And>x. x \<in> nodes M \<Longrightarrow> inode_bytes (fs_device s') (disk_inode s' x) = inode_bytes (fs_device s) (disk_inode s x)"
      using tree_map_changed[OF t 2(6,4,5)] by auto
    have "spare s' M x"
      unfolding spare_def fresh_sector_def
    proof (intro conjI ballI allI impI)
      show "x < blk_size (fs_device s')" using 2(8) r(2) by (simp add: same_open_def word_less_nat_alt)
      show "unat x \<notin> free_sectors s'" using f by simp
      show "unat x \<notin> inode_extent i" if "inodes s' p = Some i" for p i using n[of p i] that r(2) f(1) by (auto simp: same_open_def)
      show "unat x \<notin> inode_extent (disk_inode s' y)" if "y \<in> nodes M" for y using nt[OF that] r(3)[OF that] f(1) by auto
    qed
    with 2(1) r f show thesis by (intro got[of x s']) auto
  next
    case 3
    have "free_sectors s = {}" using 3(2) by (metis One_nat_def Suc_eq_plus1 atLeastLessThanSuc atLeastLessThan_empty_iff2 empty_subsetI ex_in_conv insert_subset le_refl less_irrefl)
    with 3 show thesis by (intro full) auto
  qed simp
qed

lemma release_sector:
  assumes t: "tree s M" and x: "spare s M x"
  obtains s' where "free_map_release x 1 s = Some s'" "tree s' M" "same_open s s'"
      "free_sectors s' = insert (unat x) (free_sectors s)"
      "\<And>y. y \<in> nodes M \<Longrightarrow> disk_inode s' y = disk_inode s y"
      "\<And>y. y \<in> nodes M \<Longrightarrow> inode_bytes (fs_device s') (disk_inode s' y) = inode_bytes (fs_device s) (disk_inode s y)"
proof -
  note D = fs_invD[OF treeD(1)[OF t]]
  have b: "unat x + 1 \<le> unat (blk_size (fs_device s))" "{unat x ..< unat x + 1} \<inter> free_sectors s = {}"
    using x by (auto simp: spare_def fresh_sector_def word_less_nat_alt)
  obtain m s' where s': "free_map_release x (of_nat 1) s = Some s'" "free_sectors s' = free_sectors s \<union> {unat x ..< unat x + 1}"
    "free_map_wf s'" "map_on_disk s'" "only_wrote (map_sectors s) (s\<lparr>free_map := m\<rparr>) s'"
    by (rule free_map_release_sectors[OF D(1) _ b]) auto
  have "inode_extent i \<inter> free_sectors s' = {}" if "inodes s p = Some i" for p i
    using D(5)[OF that] x that s'(2) by (auto simp: inode_ok_def spare_def fresh_sector_def)
  moreover have "inode_extent (disk_inode s y) \<inter> free_sectors s' = {}" if "y \<in> nodes M" for y
    using treeD(5)[OF t that] x that s'(2) by (auto simp: inode_ok_def spare_def)
  ultimately show thesis using tree_map_changed[OF t s'(5,3,4)] s'(1,2) by (intro that[of s']) auto
qed

lemma tree_insert:
  assumes t: "tree s M" and M: "M name = None" and x: "tree_inode s x" "x \<notin> nodes M"
    and dis: "\<And>y. y \<in> nodes M \<Longrightarrow> inode_extent (disk_inode s x) \<inter> inode_extent (disk_inode s y) = {}"
  shows "tree s (M(name \<mapsto> x))"
proof -
  have r: "ran (M(name \<mapsto> x)) = insert x (ran M)" using M by simp
  then have n: "nodes (M(name \<mapsto> x)) = insert x (nodes M)" by (auto simp: nodes_def)
  have "inj_on (M(name \<mapsto> x)) (dom (M(name \<mapsto> x)))"
    using treeD(3)[OF t] M x(2) by (auto simp: inj_on_def nodes_def ran_def dom_def)
  moreover have "inode_extent (disk_inode s a) \<inter> inode_extent (disk_inode s b) = {}"
    if "a \<in> insert x (nodes M)" "b \<in> insert x (nodes M)" "a \<noteq> b" for a b
    using that treeD(6)[OF t, of a b] dis[of a] dis[of b] by (cases "a = x"; cases "b = x") (auto simp: Int_commute)
  ultimately show ?thesis
    using treeD(1,2,4)[OF t] x r unfolding tree_def n by (auto simp: nodes_def)
qed

text \<open>A new inode is outside the tree and can be entered under any name.\<close>

lemma tree_create:
  assumes t: "tree s M" and x: "spare s M x" and len: "0 \<le> len" "len \<le> 2147483136"
  defines "n \<equiv> sector_cnt (nat len)"
  obtains (created) s' where "inode_create x len s = Some (True, s')" "tree s' M" "same_open s s'" "spare s' M x"
      "\<And>name. M name = None \<Longrightarrow> tree s' (M(name \<mapsto> x))"
      "\<And>y. y \<in> nodes M \<Longrightarrow> disk_inode s' y = disk_inode s y"
      "\<And>y. y \<in> nodes M \<Longrightarrow> inode_bytes (fs_device s') (disk_inode s' y) = inode_bytes (fs_device s) (disk_inode s y)"
      "inode_bytes (fs_device s') (disk_inode s' x) = replicate (nat len) 0"
  | (full) "inode_create x len s = Some (False, s)" "\<not> (\<exists>k. {k ..< k + n} \<subseteq> free_sectors s)"
proof -
  note wf = treeD(1)[OF t]
  have fx: "fresh_sector s x" using x by (simp add: spare_def)
  show thesis
  proof (cases rule: inode_create_cases[OF wf fx len, folded n_def])
    case (1 start s')
    let ?R = "{unat start ..< unat start + n}"
    define d where "d = \<lparr>d_start = start, d_length = len, d_magic = INODE_MAGIC\<rparr>"
    have n: "n = sector_cnt (nat len)" by (simp add: n_def)
    have cl: "closed_inode s' x d"
      by (rule created_closed_inode[OF wf fx len d_def n 1(3,4)]) (use 1 d_def in auto)
    have dx: "disk_inode s' x = inode_from x d" using cl by (simp add: disk_inode_def closed_inode_def)
    have ext: "inode_extent (disk_inode s' x) = insert (unat x) ?R" "inode_sectors (disk_inode s' x) = ?R"
      by (simp_all add: dx inode_extent_def inode_sectors_def inode_from_def inode_length_def d_def n_def)
    have dis: "inode_extent (disk_inode s y) \<inter> insert (unat x) ?R = {}" if "y \<in> nodes M" for y
      using treeD(5)[OF t that] 1(3) x that by (auto simp: inode_ok_def spare_def)
    have med: "\<forall>z. unat z \<in> inode_extent (disk_inode s y) \<longrightarrow> medium (fs_device s') z = medium (fs_device s) z" if "y \<in> nodes M" for y
      using dis[OF that] map_not_in_tree[OF wf treeD(4)[OF t that]] by (auto intro!: 1(7))
    have same: "disk_inode s' y = disk_inode s y" "inode_bytes (fs_device s') (disk_inode s' y) = inode_bytes (fs_device s) (disk_inode s y)"
      if "y \<in> nodes M" for y
      using tree_same_bytes[OF t that med[OF that]] .
    have so: "same_open s s'" using 1 by (simp add: same_open_def)
    have t': "tree s' M"
    proof (rule tree_frame[OF t 1(2)])
      show "medium (fs_device s') y = medium (fs_device s) y" if "y \<in> nodes M" for y using med[OF that] by simp
      show "inode_extent (disk_inode s y) \<inter> free_sectors s' = {}" if "y \<in> nodes M" for y
        using treeD(5)[OF t that] 1(4) by (auto simp: inode_ok_def)
      show "own_inode s' p i y \<or> inode_extent i \<inter> inode_extent (disk_inode s y) = {}" if "inodes s' p = Some i" "y \<in> nodes M" for p i y
        using treeD(7)[OF t that(2), of p i] that(1) so same(1)[OF that(2)] that(2)
        by (auto simp: own_inode_def is_map_inode_def same_open_def)
    qed (use so in \<open>simp add: same_open_def\<close>)
    have tx: "tree_inode s' x" using cl by (auto simp: tree_inode_def dx closed_inode_def)
    have "spare s' M x" using x so 1(4) same(1) by (auto simp: spare_def fresh_sector_def same_open_def)
    moreover have "x \<notin> nodes M" using x by (auto simp: spare_def)
    then have "tree s' (M(name \<mapsto> x))" if "M name = None" for name
      by (rule tree_insert[OF t' that tx]) (use dis same(1) ext(1) in \<open>auto simp: Int_commute\<close>)
    moreover have "inode_bytes (fs_device s') (disk_inode s' x) = replicate (nat len) 0"
    proof -
      have "inode_on (fs_device s') (disk_inode s' x)" using tx by (simp add: tree_inode_def inode_ok_def)
      moreover have "medium (fs_device s') y = replicate 512 0" if "unat y \<in> inode_sectors (disk_inode s' x)" for y
        using that unfolding ext(2) by (rule 1(6))
      ultimately have "inode_bytes (fs_device s') (disk_inode s' x) = replicate (nat (inode_length (disk_inode s' x))) 0"
        by (rule inode_bytes_zero)
      then show ?thesis by (simp add: dx inode_from_def inode_length_def d_def)
    qed
    ultimately show thesis using 1(1) t' so same by (intro created[of s']) auto
  next
    case 2
    then show thesis by (intro full) auto
  qed
qed

subsection \<open>The root directory while it is open\<close>

definition root_open :: "fs \<Rightarrow> obj \<Rightarrow> bool" where
  "root_open s p \<longleftrightarrow> tree s (dir_map (root_bytes s)) \<and> dir_ok (root_bytes s) \<and> counts_ok s \<and>
     inodes s p = Some (disk_inode s ROOT_DIR_SECTOR) \<and> (\<forall>f fl. files s f = Some fl \<longrightarrow> f_inode fl \<noteq> p)"

lemma open_root_open:
  assumes "volume s"
  obtains s' where "dir_open_root s = Some (Some \<lparr>dir_inode = next_obj s, dir_pos = 0\<rparr>, s')" "root_open s' (next_obj s)"
    "inodes s' = (inodes s)(next_obj s \<mapsto> disk_inode s ROOT_DIR_SECTOR)" "files s' = files s" "next_obj s' = next_obj s + 1"
    "free_map s' = free_map s" "free_map_file s' = free_map_file s" "root_bytes s' = root_bytes s" "file_data s' = file_data s"
    "medium (fs_device s') = medium (fs_device s)"
proof -
  obtain s' where s': "dir_open_root s = Some (Some \<lparr>dir_inode = next_obj s, dir_pos = 0\<rparr>, s')"
    "inodes s' = (inodes s)(next_obj s \<mapsto> disk_inode s ROOT_DIR_SECTOR)"
    "files s' = files s" "next_obj s' = next_obj s + 1" "free_map s' = free_map s" "free_map_file s' = free_map_file s"
    "medium (fs_device s') = medium (fs_device s)" "blk_size (fs_device s') = blk_size (fs_device s)"
    "tree s' (dir_map (root_bytes s))" "counts_ok s'"
    "\<And>x. disk_inode s' x = disk_inode s x" "root_bytes s' = root_bytes s" "file_data s' = file_data s"
    by (rule open_root[OF assms refl]) blast
  have wf: "fs_wf s" "dir_ok (root_bytes s)" using assms treeD(1) by (auto simp: volume_def)
  have "root_open s' (next_obj s)"
    using s' wf fresh_obj(3)[OF wf(1)] by (auto simp: root_open_def)
  with s' show thesis by (intro that[of s']) auto
qed

lemma close_root_open:
  assumes "root_open s p"
  obtains s' where "dir_close (Some \<lparr>dir_inode = p, dir_pos = q\<rparr>) s = Some s'" "volume s'" "inodes s' = (inodes s)(p := None)" "files s' = files s"
    "next_obj s' = next_obj s" "free_map_file s' = free_map_file s" "free_sectors s' = free_sectors s" "root_bytes s' = root_bytes s"
    "file_data s' = file_data s" "\<And>x. unat x \<notin> map_sectors s \<Longrightarrow> medium (fs_device s') x = medium (fs_device s) x"
    "blk_size (fs_device s') = blk_size (fs_device s)"
proof -
  have a: "tree s (dir_map (root_bytes s))" "counts_ok s" "dir_ok (root_bytes s)" "inodes s p = Some (disk_inode s ROOT_DIR_SECTOR)"
    "\<And>f fl. files s f = Some fl \<Longrightarrow> f_inode fl \<noteq> p" using assms by (auto simp: root_open_def)
  show thesis by (rule close_root[OF a(1-4) disk_inode_simps(4,1) _ a(5), where q = q]) (use that in auto)
qed

lemma root_open_same:
  assumes ro: "root_open s p" and t: "tree s' (dir_map (root_bytes s))" and so: "same_open s s'"
    and d: "\<And>y. y \<in> nodes (dir_map (root_bytes s)) \<Longrightarrow> disk_inode s' y = disk_inode s y"
    and b: "\<And>y. y \<in> nodes (dir_map (root_bytes s)) \<Longrightarrow>
      inode_bytes (fs_device s') (disk_inode s' y) = inode_bytes (fs_device s) (disk_inode s y)"
  shows "root_open s' p" "root_bytes s' = root_bytes s" "file_data s' = file_data s"
proof -
  show r: "root_bytes s' = root_bytes s" using b[OF root_node] by (simp add: root_bytes_def)
  have "counts_ok s'" using ro so counts_ok_cong[of s' s] by (simp add: root_open_def same_open_def)
  with ro t so d r show "root_open s' p" by (simp add: root_open_def same_open_def)
  show "file_data s' = file_data s"
  proof
    fix name
    show "file_data s' name = file_data s name"
      using b by (cases "dir_map (root_bytes s) name") (auto simp: file_data_def r nodes_def ran_def)
  qed
qed

text \<open>Writing to the table of the directory leaves the tree as it is.\<close>

lemma root_written:
  assumes t: "tree s M" and w: "only_wrote (inode_sectors (disk_inode s ROOT_DIR_SECTOR)) s s'" and wf: "fs_wf s'"
  shows "tree s' M" "\<And>y. y \<in> nodes M \<Longrightarrow> disk_inode s' y = disk_inode s y"
    "\<And>y. y \<in> ran M \<Longrightarrow> inode_bytes (fs_device s') (disk_inode s' y) = inode_bytes (fs_device s) (disk_inode s y)"
    "root_bytes s' = inode_bytes (fs_device s') (disk_inode s ROOT_DIR_SECTOR)" "same_open s s'" "free_sectors s' = free_sectors s"
proof -
  let ?R = "inode_sectors (disk_inode s ROOT_DIR_SECTOR)"
  have dis: "inode_extent (disk_inode s y) \<inter> ?R = {}" if "y \<in> ran M" for y
    using treeD(6)[OF t, of y ROOT_DIR_SECTOR] treeD(2)[OF t] that sectors_in_extent[of "disk_inode s ROOT_DIR_SECTOR"]
    by (auto simp: nodes_def)
  have S: "unat y \<notin> ?R" if "y \<in> nodes M" for y
  proof (cases "y = ROOT_DIR_SECTOR")
    case True
    then show ?thesis using treeD(5)[OF t root_node] by (simp add: inode_ok_def)
  next
    case False
    then have "y \<in> ran M" using that by (simp add: nodes_def)
    from dis[OF this] sector_in_extent[of y s] show ?thesis by blast
  qed
  show fr: "free_sectors s' = free_sectors s" using w by (simp add: only_wrote_def)
  show "same_open s s'" using same_open_wrote[OF only_wrote_map[OF w]] .
  show "tree s' M"
    by (rule tree_wrote[OF t wf only_wrote_map[OF w] S]) (use treeD(5)[OF t] fr in \<open>auto simp: inode_ok_def\<close>)
  show d: "disk_inode s' y = disk_inode s y" if "y \<in> nodes M" for y
    using w S[OF that] by (intro disk_inode_cong) (simp add: only_wrote_def)
  show "inode_bytes (fs_device s') (disk_inode s' y) = inode_bytes (fs_device s) (disk_inode s y)" if "y \<in> ran M" for y
  proof -
    have n: "y \<in> nodes M" using that by (simp add: nodes_def)
    have "\<forall>z. unat z \<in> inode_extent (disk_inode s y) \<longrightarrow> medium (fs_device s') z = medium (fs_device s) z"
      using w dis[OF that] by (auto simp: only_wrote_def)
    from tree_same_bytes(2)[OF t n this] show ?thesis .
  qed
  show "root_bytes s' = inode_bytes (fs_device s') (disk_inode s ROOT_DIR_SECTOR)" using d[OF root_node] by (simp add: root_bytes_def)
qed

subsection \<open>Creating files\<close>

definition root_full :: "fs \<Rightarrow> bool" where
  "root_full s \<longleftrightarrow> (\<forall>k < slots (root_bytes s). e_in_use (entry_at (root_bytes s) k))"

lemma add_to_root:
  assumes ro: "root_open s p" and junk: "length junk = 20" and name: "0 \<notin> set name" and x: "spare s (dir_map (root_bytes s)) x"
    and tx: "dir_map (root_bytes s) name = None \<Longrightarrow> tree s ((dir_map (root_bytes s))(name \<mapsto> x))"
  obtains r s' where "dir_add junk \<lparr>dir_inode = p, dir_pos = 0\<rparr> name x s = Some (r, s')" "root_open s' p" "same_open s s'" "free_sectors s' = free_sectors s"
    "r \<longleftrightarrow> name \<noteq> [] \<and> length name \<le> NAME_MAX \<and> file_data s name = None \<and> \<not> root_full s"
    "file_data s' = (if r then (file_data s)(name \<mapsto> inode_bytes (fs_device s) (disk_inode s x)) else file_data s)"
    "\<not> r \<longrightarrow> spare s' (dir_map (root_bytes s')) x"
proof -
  let ?i = "disk_inode s ROOT_DIR_SECTOR" and ?M = "dir_map (root_bytes s)" and ?d = "\<lparr>dir_inode = p, dir_pos = 0\<rparr>"
  have t: "tree s ?M" "dir_ok (root_bytes s)" "inodes s (dir_inode ?d) = Some ?i" using ro by (auto simp: root_open_def)
  note wf = treeD(1)[OF t(1)]
  have "inode_sectors ?i \<inter> map_sectors s = {}"
    using map_not_in_tree[OF wf treeD(4)[OF t(1) root_node]] sectors_in_extent[of ?i] by blast
  from dir_add_result[OF wf t(3) disk_inode_simps(3) this root_bytes_def t(2) junk name] obtain r s' where
    a: "dir_add junk ?d name x s = Some (r, s')" "fs_wf s'" "only_wrote (inode_sectors ?i) s s'"
      "r \<longleftrightarrow> name \<noteq> [] \<and> length name \<le> NAME_MAX \<and> ?M name = None \<and> (\<exists>k < slots (root_bytes s). \<not> e_in_use (entry_at (root_bytes s) k))"
      "dir_ok (inode_bytes (fs_device s') ?i)" "dir_map (inode_bytes (fs_device s') ?i) = (if r then ?M(name \<mapsto> x) else ?M)"
    by blast
  let ?M' = "if r then ?M(name \<mapsto> x) else ?M"
  have tM: "tree s ?M'" using tx t(1) a(4) by simp
  note w = root_written[OF tM a(3,2)]
  have c: "counts_ok s'" using ro w(5) counts_ok_cong[of s' s] by (simp add: root_open_def same_open_def)
  have ro': "root_open s' p"
    using w(1,2,5)  a(5,6) w(4) c ro by (auto simp: root_open_def same_open_def)
  have "?M' n = Some y \<Longrightarrow> y \<in> ran ?M'" for n y by (rule ranI)
  then have fd: "file_data s' n = map_option (\<lambda>y. inode_bytes (fs_device s) (disk_inode s y)) (?M' n)" for n
    unfolding file_data_def w(4) a(6) using w(3) by (cases "?M' n") auto
  have e: "?M name = None \<longleftrightarrow> file_data s name = None" by (simp add: file_data_def)
  show thesis
  proof (rule that[of r s'])
    show "r \<longleftrightarrow> name \<noteq> [] \<and> length name \<le> NAME_MAX \<and> file_data s name = None \<and> \<not> root_full s"
      using a(4) e by (auto simp: root_full_def)
    show "file_data s' = (if r then (file_data s)(name \<mapsto> inode_bytes (fs_device s) (disk_inode s x)) else file_data s)"
      by (rule ext) (simp add: fd, simp add: file_data_def)
    show "\<not> r \<longrightarrow> spare s' (dir_map (root_bytes s')) x"
      using x w(2,5,6) a(6) w(4) by (auto simp: spare_def fresh_sector_def same_open_def)
  qed (use a ro' w(5,6) in auto)
qed

text \<open>Giving a sector back after a failure.\<close>

lemma undo_sector:
  assumes ro: "root_open s p" and x: "spare s (dir_map (root_bytes s)) x"
  obtains s' where "(if x \<noteq> 0 then free_map_release x 1 s else Some s) = Some s'" "root_open s' p" "same_open s s'"
    "file_data s' = file_data s" "root_bytes s' = root_bytes s"
    "free_sectors s' = (if x \<noteq> 0 then insert (unat x) (free_sectors s) else free_sectors s)"
proof (cases "x = 0")
  case True
  then show thesis using that[of s] ro by simp
next
  case False
  have t: "tree s (dir_map (root_bytes s))" using ro by (simp add: root_open_def)
  obtain s' where s': "free_map_release x 1 s = Some s'" "tree s' (dir_map (root_bytes s))" "same_open s s'"
      "free_sectors s' = insert (unat x) (free_sectors s)"
      "\<And>y. y \<in> nodes (dir_map (root_bytes s)) \<Longrightarrow> disk_inode s' y = disk_inode s y"
      "\<And>y. y \<in> nodes (dir_map (root_bytes s)) \<Longrightarrow> inode_bytes (fs_device s') (disk_inode s' y) = inode_bytes (fs_device s) (disk_inode s y)"
    by (rule release_sector[OF t x]) blast
  from root_open_same[OF ro s'(2,3,5,6)] s'(1,3,4) False show thesis by (intro that[of s']) auto
qed

lemma alloc_root:
  assumes ro: "root_open s p"
  obtains (got) x s' where "free_map_allocate 1 s = Some (Some x, s')" "root_open s' p" "same_open s s'"
      "spare s' (dir_map (root_bytes s')) x" "unat x \<in> free_sectors s" "free_sectors s' = free_sectors s - {unat x}"
      "root_bytes s' = root_bytes s" "file_data s' = file_data s"
  | (full) "free_map_allocate 1 s = Some (None, s)" "free_sectors s = {}"
proof -
  have t: "tree s (dir_map (root_bytes s))" using ro by (simp add: root_open_def)
  show thesis
  proof (cases rule: alloc_sector[OF t])
    case (1 x s')
    from root_open_same[OF ro 1(2,3,7,8)] 1(1,3,4,5,6) show thesis by (intro got[of x s']) auto
  qed (rule full)
qed

lemma create_root:
  assumes ro: "root_open s p" and x: "spare s (dir_map (root_bytes s)) x" and len: "0 \<le> len" "len \<le> 2147483136"
  obtains (created) s' where "inode_create x len s = Some (True, s')" "root_open s' p" "same_open s s'"
      "spare s' (dir_map (root_bytes s')) x" "dir_map (root_bytes s') name = None \<Longrightarrow> tree s' ((dir_map (root_bytes s'))(name \<mapsto> x))"
      "root_bytes s' = root_bytes s" "file_data s' = file_data s" "inode_bytes (fs_device s') (disk_inode s' x) = replicate (nat len) 0"
  | (full) "inode_create x len s = Some (False, s)" "\<not> (\<exists>k. {k ..< k + sector_cnt (nat len)} \<subseteq> free_sectors s)"
proof -
  have t: "tree s (dir_map (root_bytes s))" using ro by (simp add: root_open_def)
  show thesis
  proof (cases rule: tree_create[OF t x len])
    case (1 s')
    note s = root_open_same[OF ro 1(2,3,6,7)]
    show thesis by (rule created[of s']) (use 1 s in auto)
  qed (rule full)
qed

text \<open>A long enough run of free sectors leaves room for the data wherever the inode goes.\<close>

lemma run_after_one:
  assumes "{k ..< k + (2 * n + 1)} \<subseteq> A"
  shows "\<exists>k. {k ..< k + n} \<subseteq> A - {x :: nat}"
proof (cases "x < k + n")
  case True
  then have "{x + 1 ..< x + 1 + n} \<subseteq> A - {x} \<or> {k ..< k + n} \<subseteq> A - {x}" using assms
    by (cases "x < k") (auto simp: subset_iff)
  then show ?thesis by blast
next
  case False
  then have "{k ..< k + n} \<subseteq> A - {x}" using assms by (auto simp: subset_iff)
  then show ?thesis by blast
qed

lemma filesys_create_result:
  assumes v: "volume s" and junk: "length junk = 20" and name: "0 \<notin> set name" and len: "0 \<le> len" "len \<le> 2147483136"
  shows "\<exists>r s'. filesys_create junk name len s = Some (r, s') \<and> volume s' \<and> inodes s' = inodes s \<and> files s' = files s \<and>
     file_data s' = (if r then (file_data s)(name \<mapsto> replicate (nat len) 0) else file_data s) \<and>
     (r \<longrightarrow> name \<noteq> [] \<and> length name \<le> NAME_MAX \<and> file_data s name = None \<and> \<not> root_full s) \<and>
     (name \<noteq> [] \<and> length name \<le> NAME_MAX \<and> file_data s name = None \<and> \<not> root_full s \<and>
        (\<exists>k. {k ..< k + (2 * sector_cnt (nat len) + 1)} \<subseteq> free_sectors s) \<longrightarrow> r)"
    (is "\<exists>r s'. ?P r s'")
proof -
  let ?p = "next_obj s" and ?n = "sector_cnt (nat len)"
  let ?good = "name \<noteq> [] \<and> length name \<le> NAME_MAX \<and> file_data s name = None \<and> \<not> root_full s"
  obtain s1 where s1: "dir_open_root s = Some (Some \<lparr>dir_inode = ?p, dir_pos = 0\<rparr>, s1)" "root_open s1 ?p"
    "inodes s1 = (inodes s)(?p \<mapsto> disk_inode s ROOT_DIR_SECTOR)" "files s1 = files s"
    "free_map s1 = free_map s" "root_bytes s1 = root_bytes s" "file_data s1 = file_data s"
    by (rule open_root_open[OF v]) blast
  have new: "inodes s ?p = None" using fresh_obj(1) v treeD(1) by (auto simp: volume_def)
  have fin: "\<exists>s'. dir_close (Some \<lparr>dir_inode = ?p, dir_pos = 0\<rparr>) s2 = Some s' \<and> volume s' \<and> inodes s' = inodes s \<and> files s' = files s \<and>
      file_data s' = file_data s2" if r2: "root_open s2 ?p" "same_open s1 s2" for s2
  proof -
    obtain s' where "dir_close (Some \<lparr>dir_inode = ?p, dir_pos = 0\<rparr>) s2 = Some s'" "volume s'" "inodes s' = (inodes s2)(?p := None)"
      "files s' = files s2" "file_data s' = file_data s2" by (rule close_root_open[OF r2(1)]) blast
    then show ?thesis using r2(2) s1(3,4) new by (auto simp: same_open_def fun_upd_idem)
  qed
  have res: "filesys_create junk name len s = do { (success, x, s2) \<leftarrow> (do {
         (r, s) \<leftarrow> free_map_allocate 1 s1;
         case r of None \<Rightarrow> Some (False, 0, s)
         | Some sec \<Rightarrow> do {
             (ok, s) \<leftarrow> inode_create sec len s;
             (ok, s) \<leftarrow> (if ok then dir_add junk \<lparr>dir_inode = ?p, dir_pos = 0\<rparr> name sec s else Some (False, s));
             Some (ok, sec, s)
           } });
       s3 \<leftarrow> (if \<not> success \<and> x \<noteq> 0 then free_map_release x 1 s2 else Some s2);
       s' \<leftarrow> dir_close (Some \<lparr>dir_inode = ?p, dir_pos = 0\<rparr>) s3; Some (success, s') }"
    using s1(1) by (simp add: filesys_create_def)
  show ?thesis
  proof (cases rule: alloc_root[OF s1(2)])
    case 2
    from fin[OF s1(2) same_open_refl] obtain s' where "dir_close (Some \<lparr>dir_inode = ?p, dir_pos = 0\<rparr>) s1 = Some s'" "volume s'"
      "inodes s' = inodes s" "files s' = files s" "file_data s' = file_data s1" by blast
    moreover have "\<not> (\<exists>k. {k ..< k + (2 * ?n + 1)} \<subseteq> free_sectors s)" using 2 s1(5) by simp
    ultimately have "?P False s'" using 2 s1(7) res by auto
    then show ?thesis by blast
  next
    case (1 x s2)
    show ?thesis
    proof (cases rule: create_root[OF 1(2,4) len, where name = name])
      case full: 2
      obtain s3 where s3: "(if x \<noteq> 0 then free_map_release x 1 s2 else Some s2) = Some s3" "root_open s3 ?p" "same_open s2 s3"
        "file_data s3 = file_data s2" by (rule undo_sector[OF 1(2,4)]) blast
      from fin[OF s3(2) same_open_trans[OF 1(3) s3(3)]] obtain s' where c: "dir_close (Some \<lparr>dir_inode = ?p, dir_pos = 0\<rparr>) s3 = Some s'"
        "volume s'" "inodes s' = inodes s" "files s' = files s" "file_data s' = file_data s3" by blast
      have "\<not> (\<exists>k. {k ..< k + (2 * ?n + 1)} \<subseteq> free_sectors s)"
      proof
        assume "\<exists>k. {k ..< k + (2 * ?n + 1)} \<subseteq> free_sectors s"
        then have "\<exists>k. {k ..< k + ?n} \<subseteq> free_sectors s2" using 1(6) s1(5) run_after_one[of _ ?n "free_sectors s1" "unat x"] by auto
        with full(2) show False by blast
      qed
      then have "?P False s'" using 1(1,8) full(1) s3(1,4) c s1(7) res by auto
      then show ?thesis by blast
    next
      case made: (1 s3)
      obtain r s4 where s4: "dir_add junk \<lparr>dir_inode = ?p, dir_pos = 0\<rparr> name x s3 = Some (r, s4)" "root_open s4 ?p" "same_open s3 s4"
        "free_sectors s4 = free_sectors s3" "r \<longleftrightarrow> name \<noteq> [] \<and> length name \<le> NAME_MAX \<and> file_data s3 name = None \<and> \<not> root_full s3"
        "file_data s4 = (if r then (file_data s3)(name \<mapsto> inode_bytes (fs_device s3) (disk_inode s3 x)) else file_data s3)"
        "\<not> r \<longrightarrow> spare s4 (dir_map (root_bytes s4)) x"
        by (rule add_to_root[OF made(2) junk name made(4,5)])
      have so: "same_open s1 s4" by (rule same_open_trans[OF 1(3) same_open_trans[OF made(3) s4(3)]])
      have g: "r \<longleftrightarrow> ?good" using s4(5) made(6,7) 1(7,8) s1(6,7) by (simp add: root_full_def)
      obtain s5 where s5: "(if \<not> r \<and> x \<noteq> 0 then free_map_release x 1 s4 else Some s4) = Some s5" "root_open s5 ?p" "same_open s4 s5"
        "file_data s5 = file_data s4"
      proof (cases r)
        case False
        obtain s5 where "(if x \<noteq> 0 then free_map_release x 1 s4 else Some s4) = Some s5" "root_open s5 ?p" "same_open s4 s5"
          "file_data s5 = file_data s4" by (rule undo_sector[OF s4(2) mp[OF s4(7) False]]) blast
        with False that show thesis by simp
      qed (use s4(2) that in simp)
      from fin[OF s5(2) same_open_trans[OF so s5(3)]] obtain s' where c: "dir_close (Some \<lparr>dir_inode = ?p, dir_pos = 0\<rparr>) s5 = Some s'"
        "volume s'" "inodes s' = inodes s" "files s' = files s" "file_data s' = file_data s5" by blast
      have "filesys_create junk name len s = Some (r, s')" using 1(1) made(1) s4(1) s5(1) c(1) res by simp
      moreover have "file_data s' = (if r then (file_data s)(name \<mapsto> replicate (nat len) 0) else file_data s)"
        using c(5) s5(4) s4(6) made(7,8) 1(8) s1(7) by simp
      ultimately have "?P r s'" using c(2-4) g by simp
      then show ?thesis by blast
    qed
  qed
qed

subsection \<open>Opening and using files\<close>

text \<open>Counts, positions and flags may change as long as the inodes themselves stay.\<close>

lemma tree_same_data:
  assumes t: "tree s M" and wf: "fs_wf s'" and sd: "same_data s s'" and fr: "frees_removed s s'"
    and size: "blk_size (fs_device s') = blk_size (fs_device s)"
    and map: "\<And>p. is_map_inode s' p \<longleftrightarrow> is_map_inode s p"
    and med: "\<And>x. x \<in> nodes M \<Longrightarrow> medium (fs_device s') x = medium (fs_device s) x"
  shows "tree s' M"
proof (rule tree_frame[OF t wf size med])
  show "inode_extent (disk_inode s x) \<inter> free_sectors s' = {}" if x: "x \<in> nodes M" for x
  proof -
    have "inode_extent i \<inter> inode_extent (disk_inode s x) = {}" if "inodes s p = Some i" "i_removed i" for p i
      using treeD(7)[OF t x that(1)] that(2) by (auto simp: own_inode_def)
    then show ?thesis using treeD(5)[OF t x] fr unfolding frees_removed_def inode_ok_def by blast
  qed
  show "own_inode s' p i x \<or> inode_extent i \<inter> inode_extent (disk_inode s x) = {}" if pi: "inodes s' p = Some i" "x \<in> nodes M" for p i x
  proof -
    obtain k where k: "inodes s p = Some k" "i_data i = i_data k" "i_sector i = i_sector k" "i_removed i = i_removed k"
      using sd pi(1) unfolding same_data_def by blast
    then show ?thesis
      using treeD(7)[OF t pi(2) k(1)] same_i_data(5)[OF k(2,3)] map disk_inode_cong[OF med[OF pi(2)]] by (simp add: own_inode_def)
  qed
qed

text \<open>An open file is the file of that name.\<close>

definition opened_as :: "fs \<Rightarrow> obj \<Rightarrow> u8 list \<Rightarrow> bool" where
  "opened_as s f name \<longleftrightarrow> (\<exists>fl i. user_file s f fl \<and> inodes s (f_inode fl) = Some i \<and> dir_map (root_bytes s) name = Some (i_sector i))"

lemma opened_asD:
  assumes v: "volume s" and o: "opened_as s f name"
  obtains fl i where "user_file s f fl" "inodes s (f_inode fl) = Some i" "dir_map (root_bytes s) name = Some (i_sector i)"
    "i_data i = i_data (disk_inode s (i_sector i))" "i_sector i \<in> ran (dir_map (root_bytes s))"
    "file_data s name = Some (inode_bytes (fs_device s) i)"
proof -
  obtain fl i where fl: "user_file s f fl" "inodes s (f_inode fl) = Some i" "dir_map (root_bytes s) name = Some (i_sector i)"
    using o by (auto simp: opened_as_def)
  have t: "tree s (dir_map (root_bytes s))" using v by (simp add: volume_def)
  have x: "i_sector i \<in> ran (dir_map (root_bytes s))" using fl(3) by (rule ranI)
  then have "i_sector i \<in> nodes (dir_map (root_bytes s))" by (simp add: nodes_def)
  from treeD(7)[OF t this fl(2)] have own: "own_inode s (f_inode fl) i (i_sector i)" by (auto simp: inode_extent_def)
  then have "i_data i = i_data (disk_inode s (i_sector i))" by (simp add: own_inode_def)
  moreover from this have "file_data s name = Some (inode_bytes (fs_device s) i)"
    using fl(3) same_i_data(3)[of i "disk_inode s (i_sector i)"] by (simp add: file_data_def)
  ultimately show thesis using fl x by (intro that)
qed

text \<open>Reading an open file returns the data of the file of its name, from the position on.\<close>

lemma file_read_data:
  assumes v: "volume s" and o: "opened_as s f name" and fl: "files s f = Some fl"
  shows "\<exists>bs s'. file_read f sz s = Some (bs, s') \<and>
     (\<exists>B. file_data s name = Some B \<and> bs = take (nat sz) (drop (nat (f_pos fl)) B))"
proof -
  obtain i where i: "files s f = Some fl" "inodes s (f_inode fl) = Some i" "file_data s name = Some (inode_bytes (fs_device s) i)"
    using opened_asD[OF v o] fl by (metis option.inject user_file_def)
  have "fs_inv {} s" "counts_ok s" using v treeD(1) by (auto simp: volume_def)
  from file_read_ok[OF this i(1,2), of sz] i(3) show ?thesis by blast
qed

text \<open>Every operation on an open file keeps the volume, and only writing changes the data of a file: the
  one written to.\<close>

lemma is_map_inode_keeps:
  assumes "keeps g s s'" "fs_wf s"
  shows "is_map_inode s' p \<longleftrightarrow> is_map_inode s p"
proof -
  obtain m ml where m: "free_map_file s = Some m" "files s m = Some ml"
    using fs_invD(1)[OF assms(2)] by (auto simp: free_map_wf_def map_file_def)
  with assms(1) have "free_map_file s' = Some m" "files s' m = Some ml" by (auto simp: keeps_def)
  with m show ?thesis by (simp add: is_map_inode_def)
qed

lemma file_step_tree:
  assumes v: "volume s" and g: "file_step g s s'" "files s g = Some gl" "inodes s (f_inode gl) = Some j"
  shows "tree s' (dir_map (root_bytes s))" "counts_ok s'" "\<And>p i. inodes s' p = Some i \<Longrightarrow> i_sector i \<noteq> ROOT_DIR_SECTOR"
    "\<And>x. x \<in> nodes (dir_map (root_bytes s)) \<Longrightarrow> disk_inode s' x = disk_inode s x"
    "\<And>x. x \<in> nodes (dir_map (root_bytes s)) \<Longrightarrow> x \<noteq> i_sector j \<Longrightarrow>
       inode_bytes (fs_device s') (disk_inode s' x) = inode_bytes (fs_device s) (disk_inode s x)"
proof -
  let ?M = "dir_map (root_bytes s)"
  have t: "tree s ?M" "counts_ok s" using v by (auto simp: volume_def)
  note wf = treeD(1)[OF t(1)]
  have K: "keeps g s s'" by (rule file_step_keeps[OF g(1) wf t(2)])
  then have k: "fs_wf s'" "counts_ok s'" "same_data s s'" "frees_removed s s'" "blk_size (fs_device s') = blk_size (fs_device s)"
    by (simp_all add: keeps_def)
  have med: "medium (fs_device s') y = medium (fs_device s) y" if "unat y \<notin> map_sectors s" "unat y \<notin> inode_sectors j" for y
  proof -
    have "\<forall>gl i. files s g = Some gl \<and> inodes s (f_inode gl) = Some i \<and> deniers s (f_inode gl) = {} \<longrightarrow> unat y \<notin> inode_sectors i"
      using g(2,3) that(2) by simp
    with K that(1) show ?thesis unfolding keeps_def by blast
  qed
  have jx: "inode_extent j \<inter> inode_extent (disk_inode s x) = {} \<or> i_sector j = x \<and> inode_sectors j = inode_sectors (disk_inode s x)"
    if "x \<in> nodes ?M" for x
    using treeD(7)[OF t(1) that g(3)] same_i_data(2)[of j "disk_inode s x"] by (auto simp: own_inode_def)
  have "medium (fs_device s') x = medium (fs_device s) x" if x: "x \<in> nodes ?M" for x
  proof (rule med[OF node_not_map[OF t(1) x]])
    have "unat x \<notin> inode_sectors (disk_inode s x)" using treeD(5)[OF t(1) x] by (simp add: inode_ok_def)
    then show "unat x \<notin> inode_sectors j" using jx[OF x] sector_in_extent[of x s] sectors_in_extent[of j] by blast
  qed
  note m = this
  show "tree s' ?M" by (rule tree_same_data[OF t(1) k(1,3,4,5) is_map_inode_keeps[OF K wf] m])
  show "counts_ok s'" by (rule k(2))
  show "i_sector i \<noteq> ROOT_DIR_SECTOR" if "inodes s' p = Some i" for p i
    using k(3) that v unfolding same_data_def volume_def by metis
  show "disk_inode s' x = disk_inode s x" if "x \<in> nodes ?M" for x using disk_inode_cong[OF m[OF that]] .
  show "inode_bytes (fs_device s') (disk_inode s' x) = inode_bytes (fs_device s) (disk_inode s x)" if x: "x \<in> nodes ?M" "x \<noteq> i_sector j" for x
  proof -
    have "inode_extent j \<inter> inode_extent (disk_inode s x) = {}" using jx[OF x(1)] x(2) by blast
    then have "\<forall>z. unat z \<in> inode_extent (disk_inode s x) \<longrightarrow> medium (fs_device s') z = medium (fs_device s) z"
      using map_not_in_tree[OF wf treeD(4)[OF t(1) x(1)]] sectors_in_extent[of j] by (blast intro: med)
    from tree_same_bytes(2)[OF t(1) x(1) this] show ?thesis .
  qed
qed

lemma file_step_volume:
  assumes v: "volume s" and g: "file_step g s s'" "files s g = Some gl" "inodes s (f_inode gl) = Some j"
  shows "volume s'" "root_bytes s' = root_bytes s"
    "\<And>name. dir_map (root_bytes s) name \<noteq> Some (i_sector j) \<Longrightarrow> file_data s' name = file_data s name"
proof -
  note f = file_step_tree[OF assms]
  have "ROOT_DIR_SECTOR \<noteq> i_sector j" using v g(3) unfolding volume_def by metis
  from f(5)[OF root_node this] show r: "root_bytes s' = root_bytes s" by (simp add: root_bytes_def)
  show "volume s'" using f(1,2,3) v unfolding volume_def r by blast
  show "file_data s' name = file_data s name" if "dir_map (root_bytes s) name \<noteq> Some (i_sector j)" for name
    using that f(5) by (cases "dir_map (root_bytes s) name") (auto simp: file_data_def r nodes_def ran_def)
qed

text \<open>Writing through an open file changes the data of the file of its name, and of no other.\<close>

lemma file_write_data:
  assumes v: "volume s" and o: "opened_as s f name" and fl: "files s f = Some fl" and buf: "nat sz \<le> length buffer"
  shows "\<exists>n s' B. file_write f buffer sz s = Some (int n, s') \<and> volume s' \<and> file_data s name = Some B \<and>
     n = (if deniers s (f_inode fl) = {} then min (nat sz) (length B - nat (f_pos fl)) else 0) \<and>
     file_data s' = (file_data s)(name \<mapsto> buf_put (nat (f_pos fl)) (take n buffer) B)"
proof -
  obtain i where i: "user_file s f fl" "inodes s (f_inode fl) = Some i" "dir_map (root_bytes s) name = Some (i_sector i)"
    "i_data i = i_data (disk_inode s (i_sector i))" "i_sector i \<in> ran (dir_map (root_bytes s))"
    "file_data s name = Some (inode_bytes (fs_device s) i)"
    by (rule opened_asD[OF v o]) (use fl in \<open>auto simp: user_file_def\<close>)
  have t: "tree s (dir_map (root_bytes s))" "counts_ok s" using v by (auto simp: volume_def)
  obtain n s' where w: "file_write f buffer sz s = Some (int n, s')"
     "n = (if deniers s (f_inode fl) = {} then min (nat sz) (nat (inode_length i) - nat (f_pos fl)) else 0)"
     "inode_bytes (fs_device s') i = buf_put (nat (f_pos fl)) (take n buffer) (inode_bytes (fs_device s) i)"
    using file_write_ok[OF treeD(1)[OF t(1)] t(2) i(1,2) buf] by blast
  have st: "file_step f s s'" by (rule file_step.on_write[OF i(1) buf w(1)])
  note tr = file_step_tree[OF v st fl i(2)] and vo = file_step_volume[OF v st fl i(2)]
  have "file_data s' m = ((file_data s)(name \<mapsto> buf_put (nat (f_pos fl)) (take n buffer) (inode_bytes (fs_device s) i))) m" for m
  proof (cases "m = name")
    case True
    have "disk_inode s' (i_sector i) = disk_inode s (i_sector i)" by (rule tr(4)) (use i(5) in \<open>simp add: nodes_def\<close>)
    then have "inode_bytes (fs_device s') (disk_inode s' (i_sector i)) = inode_bytes (fs_device s') i"
      using i(4) by (intro same_i_data(3)) simp
    with True i(3) w(3) show ?thesis by (simp add: file_data_def vo(2))
  next
    case False
    have "dir_map (root_bytes s) m \<noteq> Some (i_sector i)"
      using treeD(3)[OF t(1)] i(3) False by (auto simp: inj_on_def dom_def)
    from vo(3)[OF this] False show ?thesis by simp
  qed
  then have "file_data s' = (file_data s)(name \<mapsto> buf_put (nat (f_pos fl)) (take n buffer) (inode_bytes (fs_device s) i))" by (rule ext)
  with w(1,2) vo(1) i(6) show ?thesis by (intro exI[of _ n] exI[of _ s'] exI[of _ "inode_bytes (fs_device s) i"]) simp
qed

subsection \<open>Opening and removing files by name\<close>

lemma is_map_inode_set_inode [simp]: "is_map_inode (set_inode q j s) p = is_map_inode s p"
  by (simp add: is_map_inode_def)

lemma disk_inode_set_inode [simp]: "disk_inode (set_inode q j s) x = disk_inode s x"
  by (simp add: disk_inode_def)

lemma tree_data_set_inode [simp]: "root_bytes (set_inode q j s) = root_bytes s" "file_data (set_inode q j s) = file_data s"
  by (auto simp: root_bytes_def file_data_def fun_eq_iff)

lemma tree_set_inode:
  assumes t: "tree s M" and q: "inodes s q = Some j" "i_data j' = i_data j" "i_sector j' = i_sector j"
    and rem: "i_removed j' \<noteq> i_removed j \<Longrightarrow> i_sector j \<notin> nodes M" and wf: "fs_wf (set_inode q j' s)"
  shows "tree (set_inode q j' s) M"
proof (rule tree_frame[OF t wf])
  show "own_inode (set_inode q j' s) p i x \<or> inode_extent i \<inter> inode_extent (disk_inode s x) = {}"
    if p: "inodes (set_inode q j' s) p = Some i" "x \<in> nodes M" for p i x
  proof (cases "p = q")
    case True
    then have "i = j'" using p by simp
    then show ?thesis using True treeD(7)[OF t p(2) q(1)] q(2,3) same_i_data(5)[OF q(2,3)] rem p(2) by (auto simp: own_inode_def)
  next
    case False
    then show ?thesis using treeD(7)[OF t p(2), of p i] p(1) by (simp add: own_inode_def)
  qed
qed (use treeD(5)[OF t] in \<open>auto simp: inode_ok_def\<close>)

lemma counts_ok_set_inode:
  assumes c: "counts_ok s" and q: "inodes s q = Some j" "i_deny_write_cnt j' = i_deny_write_cnt j" "int (card (openers s q)) \<le> i_open_cnt j'"
  shows "counts_ok (set_inode q j' s)"
  using assms by (auto simp: counts_ok_def)

lemma root_open_set_inode:
  assumes ro: "root_open s p" and q: "q \<noteq> p" "inodes s q = Some j" "i_data j' = i_data j" "i_sector j' = i_sector j"
    and rem: "i_removed j' \<noteq> i_removed j \<Longrightarrow> i_sector j \<notin> nodes (dir_map (root_bytes s))" and wf: "fs_wf (set_inode q j' s)"
    and c: "i_deny_write_cnt j' = i_deny_write_cnt j" "int (card (openers s q)) \<le> i_open_cnt j'"
  shows "root_open (set_inode q j' s) p"
  using ro tree_set_inode[OF _ q(2-4) rem wf] counts_ok_set_inode[OF _ q(2) c] q(1) by (simp add: root_open_def)

text \<open>Opening adds one to a count at most.\<close>

definition opens_grow :: "fs \<Rightarrow> fs \<Rightarrow> bool" where
  "opens_grow s s' \<longleftrightarrow> (\<forall>q j. inodes s' q = Some j \<longrightarrow> i_open_cnt j = 1 \<or> (\<exists>k. inodes s q = Some k \<and> i_open_cnt j \<le> i_open_cnt k + 1))"

lemma open_node:
  assumes ro: "root_open s p" and x: "x \<in> ran (dir_map (root_bytes s))"
    and cnt: "\<And>q j. inodes s q = Some j \<Longrightarrow> i_open_cnt j < 2147483647"
  obtains q j s' where "inode_open x s = Some (Some q, s')" "root_open s' p" "q \<noteq> p" "inodes s' q = Some j" "i_sector j = x"
    "i_data j = i_data (disk_inode s x)" "\<not> i_removed j" "\<not> is_map_inode s' q" "int (card (openers s' q)) < i_open_cnt j"
    "i_deny_write_cnt j < i_open_cnt j" "inodes s' p = inodes s p"
    "files s' = files s" "free_map_file s' = free_map_file s" "root_bytes s' = root_bytes s" "file_data s' = file_data s"
    "\<And>y. disk_inode s' y = disk_inode s y" "opens_grow s s'"
proof -
  let ?M = "dir_map (root_bytes s)"
  have t: "tree s ?M" "counts_ok s" and r: "inodes s p = Some (disk_inode s ROOT_DIR_SECTOR)" using ro by (auto simp: root_open_def)
  note wf = treeD(1)[OF t(1)]
  have xn: "x \<in> nodes ?M" using x by (simp add: nodes_def)
  have xr: "x \<noteq> ROOT_DIR_SECTOR" using x treeD(2)[OF t(1)] by auto
  show thesis
  proof (cases "\<exists>q j. inodes s q = Some j \<and> i_sector j = x")
    case True
    then obtain q j where q: "inodes s q = Some j" "i_sector j = x" by blast
    have own: "own_inode s q j x" using treeD(7)[OF t(1) xn q(1)] q(2) by (auto simp: inode_extent_def)
    have qp: "q \<noteq> p" using q r xr by auto
    let ?j = "j\<lparr>i_open_cnt := i_open_cnt j + 1\<rparr>"
    have op: "inode_open x s = Some (Some q, set_inode q ?j s)" "fs_wf (set_inode q ?j s)"
      using inode_open_again[OF wf q(1) cnt[OF q(1)]] inode_reopen_open[OF wf q(1) cnt[OF q(1)]] q(2) by simp_all
    have cj: "int (card (openers s q)) \<le> i_open_cnt j" "i_deny_write_cnt j \<le> i_open_cnt j"
      using t(2) q(1) fs_invD(5)[OF wf q(1)] by (auto simp: counts_ok_def inode_ok_def)
    have "root_open (set_inode q ?j s) p" by (rule root_open_set_inode[OF ro qp q(1) _ _ _ op(2)]) (use cj in auto)
    with op own qp cj q show thesis by (intro that[of q "set_inode q ?j s" ?j]) (auto simp: own_inode_def opens_grow_def)
  next
    case False
    obtain s' where s': "inode_open x s = Some (Some (next_obj s), s')" "inodes s' = (inodes s)(next_obj s \<mapsto> disk_inode s x)"
      "files s' = files s" "next_obj s' = next_obj s + 1" "free_map s' = free_map s" "free_map_file s' = free_map_file s"
      "medium (fs_device s') = medium (fs_device s)" "blk_size (fs_device s') = blk_size (fs_device s)" "tree s' ?M" "counts_ok s'"
      by (rule tree_open_new[OF t xn]) (use False in auto)
    have d: "disk_inode s' y = disk_inode s y" for y using s'(7) by (intro disk_inode_cong) simp
    have b: "root_bytes s' = root_bytes s" "file_data s' = file_data s" using same_tree_data[OF t(1), of s'] s'(7) by simp_all
    have np: "next_obj s \<noteq> p" using fresh_obj(1)[OF wf] r by auto
    have o: "openers s' (next_obj s) = {}" using fresh_obj(3)[OF wf] s'(3) by (auto simp: openers_def)
    have "\<not> is_map_inode s' (next_obj s)" using fresh_obj(3)[OF wf] s'(3,6) by (auto simp: is_map_inode_def)
    moreover have "root_open s' p" using ro s' d b np by (simp add: root_open_def)
    ultimately show thesis using s' np o d b by (intro that[of "next_obj s" s' "disk_inode s x"]) (auto simp: opens_grow_def)
  qed
qed

lemma lookup_root:
  assumes ro: "root_open s p" and M: "M = dir_map (root_bytes s)"
  obtains (found) k s' where "lookup \<lparr>dir_inode = p, dir_pos = 0\<rparr> name s = Some (Some (entry_at (root_bytes s) k, 20 * int k), s')"
      "only_read s s'" "used_as (root_bytes s) k name" "M name = Some (e_inode_sector (entry_at (root_bytes s) k))"
  | (missing) s' where "lookup \<lparr>dir_inode = p, dir_pos = 0\<rparr> name s = Some (None, s')" "only_read s s'" "M name = None"
proof -
  have wf: "fs_wf s" "inodes s p = Some (disk_inode s ROOT_DIR_SECTOR)" "dir_ok (root_bytes s)" using ro treeD(1) by (auto simp: root_open_def)
  have rd: "readable s (dir_inode \<lparr>dir_inode = p, dir_pos = 0\<rparr>) (disk_inode s ROOT_DIR_SECTOR)" using fs_inv_readable[OF wf(1,2)] by simp
  show thesis by (cases rule: lookup_result[OF rd root_bytes_def wf(3), of name]) (use that M in auto)
qed

lemma root_open_read:
  assumes ro: "root_open s p" and rd: "only_read s s'"
  shows "root_open s' p" "root_bytes s' = root_bytes s" "file_data s' = file_data s" "same_open s s'" "free_map s' = free_map s"
    "\<And>x. disk_inode s' x = disk_inode s x"
proof -
  have t: "tree s (dir_map (root_bytes s))" using ro by (simp add: root_open_def)
  have e: "medium (fs_device s') = medium (fs_device s)" using rd by (simp add: only_read_def)
  show so: "same_open s s'" and fm: "free_map s' = free_map s" using rd by (auto simp: same_open_def only_read_def)
  show d: "disk_inode s' x = disk_inode s x" for x using e by (intro disk_inode_cong) simp
  have wf: "fs_wf s'" by (rule fs_inv_wrote[OF treeD(1)[OF t] only_wrote_read[OF rd, of "{}"]]) simp
  have "tree s' (dir_map (root_bytes s))"
    by (rule tree_wrote[OF t wf only_wrote_map[OF only_wrote_read[OF rd, of "{}"]]]) (use treeD(5)[OF t] fm in \<open>auto simp: inode_ok_def\<close>)
  moreover have "inode_bytes (fs_device s') i = inode_bytes (fs_device s) i" for i using only_read_inode(3)[OF rd] by simp
  ultimately show "root_open s' p" "root_bytes s' = root_bytes s" "file_data s' = file_data s"
    using root_open_same[OF ro _ so d] d by auto
qed

text \<open>No inode has been opened so often that its count would overflow.\<close>

definition few_opens :: "fs \<Rightarrow> bool" where
  "few_opens s \<longleftrightarrow> (\<forall>q j. inodes s q = Some j \<longrightarrow> i_open_cnt j < 2147483647)"

lemma filesys_open_result:
  assumes v: "volume s" and fo: "few_opens s"
  shows "\<exists>f s'. filesys_open name s = Some (f, s') \<and> volume s' \<and> file_data s' = file_data s \<and> opens_grow s s' \<and>
     (case f of None \<Rightarrow> file_data s name = None
      | Some g \<Rightarrow> file_data s name \<noteq> None \<and> opened_as s' g name \<and> files s g = None \<and>
          (\<exists>fl. files s' = (files s)(g \<mapsto> fl) \<and> f_pos fl = 0 \<and> \<not> f_deny_write fl))"
    (is "\<exists>f s'. ?P f s'")
proof -
  have cnt: "i_open_cnt j < 2147483647" if "inodes s q = Some j" for q j using fo that by (auto simp: few_opens_def)
  let ?p = "next_obj s" and ?d = "\<lparr>dir_inode = next_obj s, dir_pos = 0\<rparr>"
  obtain s1 where s1: "dir_open_root s = Some (Some ?d, s1)" "root_open s1 ?p"
    "inodes s1 = (inodes s)(?p \<mapsto> disk_inode s ROOT_DIR_SECTOR)" "files s1 = files s" "next_obj s1 = next_obj s + 1"
    "root_bytes s1 = root_bytes s" "file_data s1 = file_data s"
    by (rule open_root_open[OF v]) blast
  have cnt1: "i_open_cnt j < 2147483647" if "inodes s1 q = Some j" for q j
    using that s1(3) cnt[of q j] by (auto split: if_splits)
  have res: "filesys_open name s = do { (r, s2) \<leftarrow> lookup ?d name s1;
       (inode, s3) \<leftarrow> (case r of Some (e, _) \<Rightarrow> inode_open (e_inode_sector e) s2 | None \<Rightarrow> Some (None, s2));
       s4 \<leftarrow> dir_close (Some ?d) s3; file_open inode s4 }"
    using s1(1) by (cases "lookup ?d name s1") (auto simp: filesys_open_def dir_lookup_def)
  show ?thesis
  proof (cases rule: lookup_root[OF s1(2) refl, where name = name])
    case (2 s2)
    note r2 = root_open_read[OF s1(2) 2(2)]
    obtain s' where s': "dir_close (Some ?d) s2 = Some s'" "volume s'" "file_data s' = file_data s2" "inodes s' = (inodes s2)(?p := None)"
      by (rule close_root_open[OF r2(1)]) blast
    have "malloc_ok s' = (True, s')" using fs_invD(9)[OF treeD(1)] s'(2) by (auto simp: volume_def malloc_ok_def)
    then have "filesys_open name s = Some (None, s')"
      using res 2(1) s'(1) by (simp add: file_open_def inode_close_def)
    moreover have "file_data s name = None" using 2(3) s1(6) by (simp add: file_data_def)
    moreover have "opens_grow s s'" using s'(4) r2(4) s1(3) by (auto simp: opens_grow_def same_open_def split: if_splits)
    ultimately have "?P None s'" using s' r2(3) s1(7) by simp
    then show ?thesis by blast
  next
    case (1 k s2)
    note r2 = root_open_read[OF s1(2) 1(2)]
    define x where "x = e_inode_sector (entry_at (root_bytes s1) k)"
    have x: "x \<in> ran (dir_map (root_bytes s2))" using 1(4) r2(2) unfolding x_def by (auto intro: ranI)
    have cnt2: "i_open_cnt j < 2147483647" if "inodes s2 q = Some j" for q j
      using that cnt1[of q j] r2(4) by (simp add: same_open_def)
    obtain q j s3 where s3: "inode_open x s2 = Some (Some q, s3)" "root_open s3 ?p" "q \<noteq> ?p" "inodes s3 q = Some j" "i_sector j = x"
      "i_data j = i_data (disk_inode s2 x)" "\<not> i_removed j" "\<not> is_map_inode s3 q" "int (card (openers s3 q)) < i_open_cnt j"
      "i_deny_write_cnt j < i_open_cnt j" "inodes s3 ?p = inodes s2 ?p"
      "files s3 = files s2" "free_map_file s3 = free_map_file s2" "root_bytes s3 = root_bytes s2" "file_data s3 = file_data s2"
      "opens_grow s2 s3"
      by (rule open_node[OF r2(1) x cnt2]) blast+
    obtain s4 where s4: "dir_close (Some ?d) s3 = Some s4" "volume s4" "inodes s4 = (inodes s3)(?p := None)" "files s4 = files s3"
      "next_obj s4 = next_obj s3" "free_map_file s4 = free_map_file s3" "root_bytes s4 = root_bytes s3" "file_data s4 = file_data s3"
      by (rule close_root_open[OF s3(2)]) blast
    have t4: "tree s4 (dir_map (root_bytes s4))" "counts_ok s4" using s4(2) by (auto simp: volume_def)
    have o4: "inodes s4 q = Some j" "int (card (openers s4 q)) < i_open_cnt j" "\<not> is_map_inode s4 q"
      using s3(3,4,8,9) s4(3,4,6) by (auto simp: openers_def is_map_inode_def)
    let ?fl = "\<lparr>f_inode = q, f_pos = 0, f_deny_write = False\<rparr>"
    obtain s5 where s5: "file_open (Some q) s4 = Some (Some (next_obj s4), s5)" "fs_wf s5" "counts_ok s5"
      "files s5 = (files s4)(next_obj s4 \<mapsto> ?fl)" "fs_device s5 = fs_device s4" "inodes s5 = inodes s4"
      "free_map s5 = free_map s4" "free_map_file s5 = free_map_file s4"
      using file_open_ok[OF treeD(1)[OF t4(1)] t4(2) o4(1,2)] by blast
    have mp: "is_map_inode s5 p' = is_map_inode s4 p'" for p'
      using s5(4,8) fresh_obj(2)[OF treeD(1)[OF t4(1)]] fs_invD(1)[OF treeD(1)[OF t4(1)]] by (auto simp: is_map_inode_def free_map_wf_def map_file_def)
    have t5: "tree s5 (dir_map (root_bytes s4))"
      by (rule tree_same_data[OF t4(1) s5(2) _ frees_removed_same[OF s5(7)] _ mp]) (use s5(5,6) in \<open>auto simp: same_data_def\<close>)
    have b5: "root_bytes s5 = root_bytes s4" "file_data s5 = file_data s4"
      using s5(5) by (auto simp: root_bytes_def file_data_def disk_inode_def fun_eq_iff)
    have "volume s5" using s4(2) t5 s5(3,6) b5 by (simp add: volume_def)
    moreover have "opened_as s5 (next_obj s4) name"
    proof -
      have "user_file s5 (next_obj s4) ?fl"
        using s5(4) mp[of q] o4(3) unfolding user_file_def is_map_inode_def by auto
      moreover have "dir_map (root_bytes s5) name = Some (i_sector j)" using 1(4) b5 s4(7) s3(5,14) r2(2) by (simp add: x_def)
      ultimately show ?thesis using o4(1) s5(6) by (auto simp: opened_as_def)
    qed
    moreover have f4: "files s4 = files s" using s4(4) s3(12) r2(4) s1(4) by (simp add: same_open_def)
    then have "files s (next_obj s4) = None" using fresh_obj(2)[OF treeD(1)[OF t4(1)]] by simp
    moreover have "file_data s name \<noteq> None" using 1(4) s1(6) by (simp add: file_data_def)
    moreover have "filesys_open name s = Some (Some (next_obj s4), s5)"
      using res 1(1) s3(1) s4(1) s5(1) by (simp add: x_def)
    moreover have "opens_grow s s5"
      using s3(16) s4(3) s5(6) r2(4) s1(3) by (fastforce simp: opens_grow_def same_open_def split: if_splits)
    ultimately have "?P (Some (next_obj s4)) s5" using s5(4) f4 b5(2) s4(8) s3(15) r2(3) s1(7) by auto
    then show ?thesis by blast
  qed
qed

lemma tree_delete:
  assumes t: "tree s M" and x: "M name = Some x"
  shows "tree s (M(name := None))" "x \<notin> nodes (M(name := None))" "nodes (M(name := None)) \<subseteq> nodes M"
proof -
  have r: "ran (M(name := None)) \<subseteq> ran M" "x \<notin> ran (M(name := None))"
    using treeD(3)[OF t] x by (auto simp: ran_def inj_on_def dom_def split: if_splits)
  then show n: "nodes (M(name := None)) \<subseteq> nodes M" by (auto simp: nodes_def)
  have "x \<in> ran M" using x by (rule ranI)
  then show "x \<notin> nodes (M(name := None))" using r(2) treeD(2)[OF t] by (auto simp: nodes_def)
  have "inj_on (M(name := None)) (dom (M(name := None)))" using treeD(3)[OF t] by (auto simp: inj_on_def dom_def)
  then show "tree s (M(name := None))" using t n r(1) unfolding tree_def by blast
qed

text \<open>Marking the entry of a name as not in use.\<close>

lemma clear_root_entry:
  assumes ro: "root_open s p" and k: "used_as (root_bytes s) k name" and M: "M = dir_map (root_bytes s)"
  obtains s' where "inode_write_at (disk_inode s ROOT_DIR_SECTOR) (entry_bytes ((entry_at (root_bytes s) k)\<lparr>e_in_use := False\<rparr>)) ENTRY_SIZE (20 * int k) s =
      Some (ENTRY_SIZE, s')" "root_open s' p" "same_open s s'" "free_map s' = free_map s" "dir_map (root_bytes s') = M(name := None)"
    "file_data s' = (file_data s)(name := None)"
    "\<And>y. unat y \<notin> inode_sectors (disk_inode s ROOT_DIR_SECTOR) \<Longrightarrow> medium (fs_device s') y = medium (fs_device s) y"
proof -
  let ?i = "disk_inode s ROOT_DIR_SECTOR" and ?B = "root_bytes s"
  let ?e = "(entry_at ?B k)\<lparr>e_in_use := False\<rparr>"
  have t: "tree s M" "dir_ok ?B" "inodes s p = Some ?i" "counts_ok s" using ro M by (auto simp: root_open_def)
  note wf = treeD(1)[OF t(1)]
  have ms: "inode_sectors ?i \<inter> map_sectors s = {}"
    using map_not_in_tree[OF wf treeD(4)[OF t(1) root_node]] sectors_in_extent[of ?i] by blast
  have k1: "k < slots ?B" using k by (simp add: used_as_def)
  have e: "length (e_name ?e) = 15" using length_e_name[OF k1] by simp
  obtain n s' where w: "inode_write_at ?i (entry_bytes ?e) ENTRY_SIZE (20 * int k) s = Some (int n, s')"
    "n = 20 \<longleftrightarrow> k < slots ?B" "fs_inv {} s'" "only_wrote (inode_sectors ?i) s s'"
    "inode_bytes (fs_device s') ?i = buf_put (20 * k) (take n (entry_bytes ?e)) ?B"
    by (rule write_slot[OF wf t(3) disk_inode_simps(3) ms root_bytes_def less_imp_le[OF k1] e])
  have n: "n = 20" "take n (entry_bytes ?e) = entry_bytes ?e" using w(2) k1 length_entry_bytes[OF e] by auto
  note put = dir_put_unused[OF t(2) k e]
  obtain x where x: "M name = Some x" using dir_map_Some[OF t(2)] k M by auto
  note rw = root_written[OF tree_delete(1)[OF t(1) x] w(4,3)]
  have B': "root_bytes s' = buf_put (20 * k) (entry_bytes ?e) ?B" using rw(4) w(5) n(2) by simp
  have M': "dir_map (root_bytes s') = M(name := None)" "dir_ok (root_bytes s')" using put unfolding B' M by auto
  have c: "counts_ok s'" using t(4) rw(5) counts_ok_cong[of s' s] by (simp add: same_open_def)
  have "root_open s' p" using ro rw(1,2,5) M' c by (simp add: root_open_def same_open_def)
  moreover have "file_data s' m = ((file_data s)(name := None)) m" for m
  proof (cases "(M(name := None)) m")
    case None
    then show ?thesis using M'(1) M by (auto simp: file_data_def)
  next
    case (Some a)
    then have "a \<in> ran (M(name := None))" by (rule ranI)
    from rw(3)[OF this] Some M'(1) M show ?thesis by (auto simp: file_data_def split: if_splits)
  qed
  then have "file_data s' = (file_data s)(name := None)" by (rule ext)
  ultimately show thesis using w n rw(5) M' by (intro that[of s']) (auto simp: only_wrote_def)
qed

text \<open>Removing and closing an inode that is not in the tree any more.\<close>

lemma close_removed:
  assumes ro: "root_open s p" and q: "q \<noteq> p" "inodes s q = Some j" "i_sector j \<notin> nodes (dir_map (root_bytes s))" "\<not> is_map_inode s q"
    and cnt: "int (card (openers s q)) < i_open_cnt j" "i_deny_write_cnt j < i_open_cnt j"
  obtains s' where "do { s \<leftarrow> inode_remove q s; inode_close (Some q) s } = Some s'" "root_open s' p" "files s' = files s"
    "free_map_file s' = free_map_file s" "file_data s' = file_data s" "root_bytes s' = root_bytes s"
    "inodes s' = (inodes s)(q := if i_open_cnt j = 1 then None else Some (j\<lparr>i_removed := True, i_open_cnt := i_open_cnt j - 1\<rparr>))"
    "free_sectors s' = free_sectors s \<union> (if i_open_cnt j = 1 then inode_extent j else {})"
    "\<And>x. unat x \<notin> map_sectors s \<Longrightarrow> medium (fs_device s') x = medium (fs_device s) x" "\<And>x. x \<in> nodes (dir_map (root_bytes s)) \<Longrightarrow> disk_inode s' x = disk_inode s x"
proof -
  let ?j = "j\<lparr>i_removed := True\<rparr>" and ?M = "dir_map (root_bytes s)"
  have t: "tree s ?M" "counts_ok s" using ro by (auto simp: root_open_def)
  note wf = treeD(1)[OF t(1)]
  define s1 where "s1 = set_inode q ?j s"
  have r: "inode_remove q s = Some s1" using q(2) by (simp add: inode_remove_def s1_def)
  have ok: "inode_ok s ?j" using fs_invD(5)[OF wf q(2)] by (simp add: inode_ok_def inode_on_def inode_length_def inode_sectors_def inode_extent_def)
  have wf1: "fs_wf s1" unfolding s1_def by (rule fs_inv_set_inode[OF wf q(2) ok]) (use q(4) in \<open>auto simp: is_map_inode_def\<close>)
  have ro1: "root_open s1 p" unfolding s1_def
    by (rule root_open_set_inode[OF ro q(1,2) _ _ _ wf1[unfolded s1_def]]) (use q(3) cnt in auto)
  have e1: "inodes s1 q = Some ?j" "openers s1 = openers s" "root_bytes s1 = root_bytes s" "file_data s1 = file_data s" "map_sectors s1 = map_sectors s"
    using map_sectors_set_inode[OF q(2), of ?j] by (simp_all add: s1_def)
  have ext: "inode_extent ?j = inode_extent j" by (simp add: inode_extent_def inode_sectors_def inode_length_def)
  show thesis
  proof (cases "i_open_cnt j = 1")
    case True
    then have "openers s q = {}" using cnt(1) finite_openers(1)[OF t(2), of q] by simp
    then have nf: "f_inode fl \<noteq> q" if "files s1 f = Some fl" for f fl using that by (auto simp: openers_def s1_def)
    have t1: "tree s1 ?M" "counts_ok s1" using ro1 e1 by (auto simp: root_open_def)
    obtain s' where s': "inode_close (Some q) s1 = Some s'" "inodes s' = (inodes s1)(q := None)" "files s' = files s1"
      "next_obj s' = next_obj s1" "free_map_file s' = free_map_file s1"
      "free_sectors s' = free_sectors s1 \<union> (if i_removed ?j then inode_extent ?j else {})"
      "\<And>x. unat x \<notin> map_sectors s1 \<Longrightarrow> medium (fs_device s') x = medium (fs_device s1) x"
      "blk_size (fs_device s') = blk_size (fs_device s1)" "tree s' ?M" "counts_ok s'"
      by (rule tree_close_last[OF t1 e1(1) _ nf]) (use True q(3) in auto)
    have med: "medium (fs_device s') y = medium (fs_device s) y" if "unat y \<notin> map_sectors s" for y
      using s'(7)[of y] that e1(5) by (simp add: s1_def)
    have "medium (fs_device s') y = medium (fs_device s) y" if "x \<in> nodes ?M" "unat y \<in> inode_extent (disk_inode s x)" for x y
      using map_not_in_tree[OF wf treeD(4)[OF t(1) that(1)]] that(2) by (intro med) blast
    note same = same_tree_data[OF t(1) this]
    have d: "disk_inode s' x = disk_inode s x" if "x \<in> nodes ?M" for x
      using node_not_map[OF t(1) that] by (intro disk_inode_cong med)
    have "root_open s' p"
      using ro s' same q(1) d[OF root_node] by (auto simp: root_open_def s1_def)
    with r s' same med True ext d show thesis by (intro that[of s']) (auto simp: s1_def)
  next
    case False
    have dl: "i_deny_write_cnt ?j < i_open_cnt ?j" "i_open_cnt ?j \<noteq> 1" using cnt(2) False by simp_all
    let ?j2 = "?j\<lparr>i_open_cnt := i_open_cnt ?j - 1\<rparr>"
    have c: "inode_close (Some q) s1 = Some (set_inode q ?j2 s1)" "fs_wf (set_inode q ?j2 s1)"
      using inode_close_shared[OF wf1 e1(1) dl] by auto
    have "root_open (set_inode q ?j2 s1) p"
      by (rule root_open_set_inode[OF ro1 q(1) e1(1) _ _ _ c(2)]) (use cnt e1(2) in auto)
    with r c(1) False e1 show thesis by (intro that[of "set_inode q ?j2 s1"]) (auto simp: s1_def)
  qed
qed

lemma filesys_remove_result:
  assumes v: "volume s" and fo: "few_opens s"
  shows "\<exists>r s'. filesys_remove name s = Some (r, s') \<and> volume s' \<and> files s' = files s \<and>
     (r \<longleftrightarrow> file_data s name \<noteq> None) \<and> file_data s' = (file_data s)(name := None)"
    (is "\<exists>r s'. ?P r s'")
proof -
  have cnt: "i_open_cnt j < 2147483647" if "inodes s q = Some j" for q j using fo that by (auto simp: few_opens_def)
  let ?p = "next_obj s" and ?d = "\<lparr>dir_inode = next_obj s, dir_pos = 0\<rparr>"
  obtain s1 where s1: "dir_open_root s = Some (Some ?d, s1)" "root_open s1 ?p"
    "inodes s1 = (inodes s)(?p \<mapsto> disk_inode s ROOT_DIR_SECTOR)" "files s1 = files s" "next_obj s1 = next_obj s + 1"
    "root_bytes s1 = root_bytes s" "file_data s1 = file_data s"
    by (rule open_root_open[OF v]) blast
  have res: "filesys_remove name s = do { (r, s2) \<leftarrow> dir_remove ?d name s1; s' \<leftarrow> dir_close (Some ?d) s2; Some (r, s') }"
    using s1(1) by (simp add: filesys_remove_def)
  show ?thesis
  proof (cases rule: lookup_root[OF s1(2) refl, where name = name])
    case (2 s2)
    note r2 = root_open_read[OF s1(2) 2(2)]
    obtain s' where s': "dir_close (Some ?d) s2 = Some s'" "volume s'" "files s' = files s2" "file_data s' = file_data s2"
      by (rule close_root_open[OF r2(1)]) blast
    have "filesys_remove name s = Some (False, s')" using res 2(1) s'(1) by (simp add: dir_remove_def)
    moreover have "file_data s name = None" using 2(3) s1(6) by (simp add: file_data_def)
    ultimately have "?P False s'" using s' r2(3,4) s1(4,7) by (simp add: same_open_def fun_upd_idem)
    then show ?thesis by blast
  next
    case (1 k s2)
    note r2 = root_open_read[OF s1(2) 1(2)]
    let ?e = "entry_at (root_bytes s1) k"
    define x where "x = e_inode_sector ?e"
    have M: "dir_map (root_bytes s2) name = Some x" using 1(4) r2(2) by (simp add: x_def)
    then have xr: "x \<in> ran (dir_map (root_bytes s2))" by (rule ranI)
    have cnt2: "i_open_cnt j < 2147483647" if "inodes s2 q = Some j" for q j
      using that cnt[of q j] s1(3) r2(4) by (auto simp: same_open_def split: if_splits)
    obtain q j s3 where s3: "inode_open x s2 = Some (Some q, s3)" "root_open s3 ?p" "q \<noteq> ?p" "inodes s3 q = Some j" "i_sector j = x"
      "\<not> is_map_inode s3 q" "int (card (openers s3 q)) < i_open_cnt j" "i_deny_write_cnt j < i_open_cnt j"
      "files s3 = files s2" "root_bytes s3 = root_bytes s2" "file_data s3 = file_data s2"
      by (rule open_node[OF r2(1) xr cnt2]) blast+
    have k3: "used_as (root_bytes s3) k name" using 1(3) s3(10) r2(2) by simp
    have i3: "inodes s3 ?p = Some (disk_inode s3 ROOT_DIR_SECTOR)" using s3(2) by (simp add: root_open_def)
    obtain s4 where s4: "inode_write_at (disk_inode s3 ROOT_DIR_SECTOR) (entry_bytes (?e\<lparr>e_in_use := False\<rparr>)) ENTRY_SIZE (20 * int k) s3 =
        Some (ENTRY_SIZE, s4)" "root_open s4 ?p" "same_open s3 s4" "dir_map (root_bytes s4) = (dir_map (root_bytes s3))(name := None)"
      "file_data s4 = (file_data s3)(name := None)"
      by (rule clear_root_entry[OF s3(2) k3 refl]) (use s3(10) r2(2) in auto)
    have t3: "tree s3 (dir_map (root_bytes s3))" using s3(2) by (simp add: root_open_def)
    have j4: "inodes s4 q = Some j" "openers s4 = openers s3" "is_map_inode s4 q = is_map_inode s3 q"
      using s3(4) s4(3) by (auto simp: same_open_def openers_def is_map_inode_def fun_eq_iff)
    have x4: "i_sector j \<notin> nodes (dir_map (root_bytes s4))"
      using tree_delete(2)[OF t3, of name x] M s3(5,10) s4(4) by simp
    obtain s5 where s5: "do { s \<leftarrow> inode_remove q s4; inode_close (Some q) s } = Some s5" "root_open s5 ?p" "files s5 = files s4"
      "file_data s5 = file_data s4"
      by (rule close_removed[OF s4(2) s3(3) j4(1) x4]) (use s3(6,7,8) j4(2,3) in auto)
    obtain s' where s': "dir_close (Some ?d) s5 = Some s'" "volume s'" "files s' = files s5" "file_data s' = file_data s5"
      by (rule close_root_open[OF s5(2)]) blast
    have "dir_remove ?d name s1 = Some (True, s5)"
      using 1(1) s3(1) i3 s4(1) s5(1) by (auto simp: dir_remove_def x_def bind_eq_Some_conv)
    then have "filesys_remove name s = Some (True, s')" using res s'(1) by simp
    moreover have "file_data s name \<noteq> None" using M s1(6) r2(2) by (simp add: file_data_def)
    moreover have "file_data s' = (file_data s)(name := None)" using s'(4) s5(4) s4(5) s3(11) r2(3) s1(7) by simp
    moreover have "files s' = files s" using s'(3) s5(3) s4(3) s3(9) r2(4) s1(4) by (simp add: same_open_def)
    ultimately have "?P True s'" using s'(2) by simp
    then show ?thesis by blast
  qed
qed

end
