(* ===== verification/Volume_Spec.thy ===== *)
theory Volume_Spec
  imports Volume
begin

section \<open>The file system as a map from names to contents\<close>

text \<open>
  An abstract file system, a map from names to byte strings, and the proof that sequences of calls of the
  functions of src/pintos/src/filesys on a well-formed volume act on the contents of the files as the same
  calls act on the map.
\<close>

text \<open>A call of the file system with its result, and what it does to the contents of the files.\<close>

datatype call =
  Create "u8 list" int bool
| Open "u8 list" "obj option"
| Remove "u8 list" bool
| Write "u8 list" nat "u8 list"
| Other

fun spec :: "call \<Rightarrow> (u8 list \<rightharpoonup> u8 list) \<Rightarrow> (u8 list \<rightharpoonup> u8 list) \<Rightarrow> bool" where
  "spec (Create name len r) D D' \<longleftrightarrow> D' = (if r then D(name \<mapsto> replicate (nat len) 0) else D) \<and>
     (r \<longrightarrow> name \<noteq> [] \<and> length name \<le> NAME_MAX \<and> D name = None)"
| "spec (Open name f) D D' \<longleftrightarrow> D' = D \<and> (f = None \<longleftrightarrow> D name = None)"
| "spec (Remove name r) D D' \<longleftrightarrow> D' = D(name := None) \<and> (r \<longleftrightarrow> D name \<noteq> None)"
| "spec (Write name pos bs) D D' \<longleftrightarrow> (\<exists>B. D name = Some B \<and> D' = D(name \<mapsto> buf_put pos bs B) \<and> length (buf_put pos bs B) = length B)"
| "spec Other D D' \<longleftrightarrow> D' = D"

text \<open>The calls as the kernel makes them: by name, and on files that are open. Operations on an open file
  other than writing, and all operations on a file that has been removed, are \<open>Other\<close>.\<close>

inductive do_call :: "call \<Rightarrow> fs \<Rightarrow> fs \<Rightarrow> bool" where
  create: "filesys_create junk name len s = Some (r, s') \<Longrightarrow> length junk = 20 \<Longrightarrow> 0 \<notin> set name \<Longrightarrow> 0 \<le> len \<Longrightarrow> len \<le> 2147483136 \<Longrightarrow>
     do_call (Create name len r) s s'"
| opens: "filesys_open name s = Some (f, s') \<Longrightarrow> few_opens s \<Longrightarrow> do_call (Open name f) s s'"
| remove: "filesys_remove name s = Some (r, s') \<Longrightarrow> few_opens s \<Longrightarrow> do_call (Remove name r) s s'"
| writes: "opened_as s f name \<Longrightarrow> files s f = Some fl \<Longrightarrow> nat sz \<le> length buffer \<Longrightarrow> file_write f buffer sz s = Some (n, s') \<Longrightarrow>
     do_call (Write name (nat (f_pos fl)) (take (nat n) buffer)) s s'"
| other: "user_file s f fl \<Longrightarrow> file_read f sz s = Some (bs, s') \<or> q < 2147483648 \<and> file_seek f q s = Some s' \<or> file_close (Some f) s = Some s' \<or>
     file_reopen f s = Some (h, s') \<or> file_deny_write f s = Some s' \<or> file_allow_write f s = Some s' \<Longrightarrow> do_call Other s s'"
| unnamed: "file_step f s s' \<Longrightarrow> \<nexists>name. opened_as s f name \<Longrightarrow> do_call Other s s'"

inductive calls :: "call list \<Rightarrow> fs \<Rightarrow> fs \<Rightarrow> bool" where
  no_calls: "calls [] s s"
| more_calls: "do_call c s s1 \<Longrightarrow> calls cs s1 s2 \<Longrightarrow> calls (c # cs) s s2"

inductive spec_calls :: "call list \<Rightarrow> (u8 list \<rightharpoonup> u8 list) \<Rightarrow> (u8 list \<rightharpoonup> u8 list) \<Rightarrow> bool" where
  no_calls: "spec_calls [] D D"
| more_calls: "spec c D D1 \<Longrightarrow> spec_calls cs D1 D2 \<Longrightarrow> spec_calls (c # cs) D D2"

inductive_simps spec_calls_simps: "spec_calls [] D D'" "spec_calls (c # cs) D D'"

lemma volume_wf: "volume s \<Longrightarrow> fs_wf s \<and> counts_ok s"
  using treeD(1) by (auto simp: volume_def)

lemma file_step_user: "file_step g s s' \<Longrightarrow> \<exists>gl. user_file s g gl"
  by (auto elim: file_step.cases)

text \<open>The operations that do not write leave everything but the free map as it is.\<close>

lemma other_medium:
  assumes wf: "fs_wf s" "counts_ok s" and f: "user_file s f fl"
    and op: "file_read f sz s = Some (bs, s') \<or> q < 2147483648 \<and> file_seek f q s = Some s' \<or> file_close (Some f) s = Some s' \<or>
     file_reopen f s = Some (h, s') \<or> file_deny_write f s = Some s' \<or> file_allow_write f s = Some s'"
  shows "file_step f s s'" "\<And>y. unat y \<notin> map_sectors s \<Longrightarrow> medium (fs_device s') y = medium (fs_device s) y"
proof -
  have fs: "files s f = Some fl" using f by (simp add: user_file_def)
  obtain i where i: "inodes s (f_inode fl) = Some i" by (rule user_file_inode[OF wf(1) fs])
  show "file_step f s s'" using op f by (auto intro: file_step.intros)
  fix y :: u32 assume y: "unat y \<notin> map_sectors s"
  from op consider "file_read f sz s = Some (bs, s')" | "q < 2147483648" "file_seek f q s = Some s'" | "file_close (Some f) s = Some s'"
    | "file_reopen f s = Some (h, s')" | "file_deny_write f s = Some s'" | "file_allow_write f s = Some s'" by blast
  then show "medium (fs_device s') y = medium (fs_device s) y"
  proof cases
    case 1
    then show ?thesis using file_read_ok[OF wf fs i, of sz] by auto
  next
    case 2
    then show ?thesis by (auto simp: file_seek_def fs split: if_splits)
  next
    case 3
    then show ?thesis using file_close_ok[OF wf f] y by auto
  next
    case 4
    have "i_open_cnt i < 2147483647"
      using 4 fs i fs_invD(5)[OF wf(1) i] by (auto simp: file_reopen_def inode_reopen_def i32_def inode_ok_def bind_eq_Some_conv split: if_splits)
    then show ?thesis using 4 file_reopen_ok[OF wf fs i] by auto
  next
    case 5
    then show ?thesis using file_deny_write_ok[OF wf f] by auto
  next
    case 6
    then show ?thesis using file_allow_write_ok[OF wf f] by auto
  qed
qed

lemma do_call_spec:
  assumes "do_call c s s'" "volume s"
  shows "volume s' \<and> spec c (file_data s) (file_data s')"
  using assms
proof (induction rule: do_call.induct)
  case (create junk name len s r s')
  obtain r2 s2 where c: "filesys_create junk name len s = Some (r2, s2)" "volume s2"
    "file_data s2 = (if r2 then (file_data s)(name \<mapsto> replicate (nat len) 0) else file_data s)"
    "r2 \<longrightarrow> name \<noteq> [] \<and> length name \<le> NAME_MAX \<and> file_data s name = None \<and> \<not> root_full s"
    using filesys_create_result[OF create(6,2-5)] by blast
  moreover have "r2 = r" "s2 = s'" using c(1) create(1) by auto
  ultimately show ?case by simp
next
  case (opens name s f s')
  obtain f2 s2 where o: "filesys_open name s = Some (f2, s2)" "volume s2" "file_data s2 = file_data s"
    "case f2 of None \<Rightarrow> file_data s name = None | Some g \<Rightarrow> file_data s name \<noteq> None \<and> opened_as s2 g name \<and> files s g = None \<and>
       (\<exists>fl. files s2 = (files s)(g \<mapsto> fl) \<and> f_pos fl = 0 \<and> \<not> f_deny_write fl)"
    using filesys_open_result[OF opens(3,2), of name] by blast
  moreover have "f2 = f" "s2 = s'" using o(1) opens(1) by auto
  ultimately show ?case by (cases f) simp_all
next
  case (remove name s r s')
  obtain r2 s2 where o: "filesys_remove name s = Some (r2, s2)" "volume s2" "r2 \<longleftrightarrow> file_data s name \<noteq> None"
    "file_data s2 = (file_data s)(name := None)"
    using filesys_remove_result[OF remove(3,2), of name] by blast
  moreover have "r2 = r" "s2 = s'" using o(1) remove(1) by auto
  ultimately show ?case by (simp add: fun_upd_def)
next
  case (writes s f name fl sz buffer n s')
  obtain m s1 B where w1: "file_write f buffer sz s = Some (int m, s1)" and w: "volume s1" "file_data s name = Some B"
     "m = (if deniers s (f_inode fl) = {} then min (nat sz) (length B - nat (f_pos fl)) else 0)"
     "file_data s1 = (file_data s)(name \<mapsto> buf_put (nat (f_pos fl)) (take m buffer) B)"
    using file_write_data[OF writes(5,1-3)] by blast
  have n: "n = int m" "s1 = s'" using w1 writes(4) by auto
  have "m \<le> length B - nat (f_pos fl)" unfolding w(3) by simp
  then have "take m buffer = [] \<or> nat (f_pos fl) + length (take m buffer) \<le> length B" by (cases "m = 0") auto
  then have "length (buf_put (nat (f_pos fl)) (take m buffer) B) = length B" by (auto simp: length_buf_put)
  with w(1,2,4) n show ?case by (simp add: fun_upd_def)
next
  case (other s f fl sz bs s' q h)
  have wf: "fs_wf s" "counts_ok s" using volume_wf[OF other(3)] by auto
  note m = other_medium[OF wf other(1,2)]
  have fs: "files s f = Some fl" using other(1) by (simp add: user_file_def)
  obtain i where i: "inodes s (f_inode fl) = Some i" by (rule user_file_inode[OF wf(1) fs])
  have t: "tree s (dir_map (root_bytes s))" using other(3) by (simp add: volume_def)
  have "medium (fs_device s') y = medium (fs_device s) y"
    if "x \<in> nodes (dir_map (root_bytes s))" "unat y \<in> inode_extent (disk_inode s x)" for x y
    using map_not_in_tree[OF wf(1) treeD(4)[OF t that(1)]] that(2) by (intro m(2)) blast
  note same = same_tree_data(2)[OF t this]
  have "file_data s' = file_data s" by (rule same)
  with file_step_volume(1)[OF other(3) m(1) fs i] show ?case by simp
next
  case (unnamed f s s')
  obtain fl where fl: "user_file s f fl" using file_step_user[OF unnamed(1)] by blast
  then have fs: "files s f = Some fl" by (simp add: user_file_def)
  have wf: "fs_wf s" using volume_wf[OF unnamed(3)] by blast
  obtain i where i: "inodes s (f_inode fl) = Some i" by (rule user_file_inode[OF wf fs])
  have "file_data s' name = file_data s name" for name
    by (rule file_step_volume(3)[OF unnamed(3,1) fs i]) (use unnamed(2) fl i in \<open>auto simp: opened_as_def\<close>)
  then have "file_data s' = file_data s" by (rule ext)
  with file_step_volume(1)[OF unnamed(3,1) fs i] show ?case by simp
qed

text \<open>C23: the file system implements a map from names to contents. Whatever sequence of calls is made on a
  well-formed volume - creating, opening and removing files by name, reading, writing, positioning,
  closing, reopening and protecting open files, of which some may have been removed - the volume stays
  well-formed, and the contents of all files change as the sequence of calls says: a new file is all
  zeros, a write changes its range of the file it is made to, removal deletes one name, and no call
  affects the contents of another file.\<close>

theorem filesys_simulates_spec:
  assumes "calls cs s s'" "volume s"
  shows "volume s' \<and> spec_calls cs (file_data s) (file_data s')"
  using assms
proof (induction rule: calls.induct)
  case (more_calls c s s1 cs s2)
  then show ?case using do_call_spec[OF more_calls(1,4)] by (auto intro: spec_calls.more_calls)
qed (auto intro: spec_calls.no_calls)

lemma filesys_create_succeeds:
  assumes "volume s" "length junk = 20" "0 \<notin> set name" "0 \<le> len" "len \<le> 2147483136" "name \<noteq> []" "length name \<le> NAME_MAX"
    "file_data s name = None" "\<not> root_full s" "{k ..< k + (2 * sector_cnt (nat len) + 1)} \<subseteq> free_sectors s"
  obtains s' where "filesys_create junk name len s = Some (True, s')" "volume s'" "inodes s' = inodes s" "files s' = files s"
    "file_data s' = (file_data s)(name \<mapsto> replicate (nat len) 0)"
proof -
  from filesys_create_result[OF assms(1-5)] obtain r s' where c: "filesys_create junk name len s = Some (r, s')" "volume s'"
    "inodes s' = inodes s" "files s' = files s"
    "file_data s' = (if r then (file_data s)(name \<mapsto> replicate (nat len) 0) else file_data s)"
    "name \<noteq> [] \<and> length name \<le> NAME_MAX \<and> file_data s name = None \<and> \<not> root_full s \<and>
        (\<exists>k. {k ..< k + (2 * sector_cnt (nat len) + 1)} \<subseteq> free_sectors s) \<longrightarrow> r" by blast
  have r using c(6) assms(6-10) by blast
  with c(1-5) show thesis by (intro that[of s']) simp_all
qed

text \<open>A small volume: the free map in sectors 0 and 2, the empty root directory in sectors 1 and 4.\<close>

definition demo_volume :: fs where
  "demo_volume = demo_map_fs\<lparr>fs_device := (fs_device demo_map_fs)\<lparr>medium := (medium (fs_device demo_map_fs))
     (1 := inode_disk_bytes \<lparr>d_start = 4, d_length = 320, d_magic = INODE_MAGIC\<rparr>)\<rparr>\<rparr>"

lemma zero_table:
  "dir_ok (replicate n 0)" "dir_map (replicate n 0) = Map.empty" "20 \<le> n \<Longrightarrow> \<exists>k < slots (replicate n 0 :: u8 list). \<not> e_in_use (entry_at (replicate n 0) k)"
proof -
  let ?B = "replicate n 0 :: u8 list"
  have free: "\<not> e_in_use (entry_at ?B k)" if "k < slots ?B" for k
    using slot_inside[of k ?B] that by (simp add: entry_at_def entry_of_def)
  then show "dir_ok ?B" "dir_map ?B = Map.empty" by (auto simp: dir_ok_def used_as_def dir_map_def)
  show "\<exists>k < slots ?B. \<not> e_in_use (entry_at ?B k)" if "20 \<le> n"
    by (rule exI[of _ 0]) (use that free[of 0] slot_inside[of 0 ?B] in simp)
qed

lemma demo_root: "disk_inode demo_volume ROOT_DIR_SECTOR = inode_from 1 \<lparr>d_start = 4, d_length = 320, d_magic = INODE_MAGIC\<rparr>"
  by (simp add: disk_inode_def demo_volume_def ROOT_DIR_SECTOR_def inode_disk_roundtrip)

lemma demo_volume_ok: "volume demo_volume" "few_opens demo_volume" "file_data demo_volume = Map.empty" "\<not> root_full demo_volume"
  "free_sectors demo_volume = {6 ..< 16}"
proof -
  let ?r = "disk_inode demo_volume ROOT_DIR_SECTOR"
  have i: "inodes demo_volume p = Some i \<longleftrightarrow> p = 0 \<and> i = demo_map_inode" for p i
    by (auto simp: demo_volume_def demo_map_fs_def)
  show fr: "free_sectors demo_volume = {6 ..< 16}" using demo_map_free by (simp add: demo_volume_def)
  have ms: "map_sectors demo_map_fs = {2}"
    by (auto simp: map_sectors_def demo_map_fs_def inode_sectors_def demo_map_inode_def inode_length_def sector_cnt_def)
  have "length (inode_disk_bytes d) = 512" for d by (rule length_inode_disk_bytes)
  then have "only_wrote {1} demo_map_fs demo_volume"
    unfolding only_wrote_def demo_volume_def by (auto simp: block_wf_def BLOCK_SECTOR_SIZE_def)
  then have wf: "fs_wf demo_volume" by (rule fs_inv_wrote[OF demo_map_fs_wf(1)]) (simp add: ms)
  have F: "files demo_volume = [1 \<mapsto> \<lparr>f_inode = 0, f_pos = 0, f_deny_write = False\<rparr>]" "free_map_file demo_volume = Some 1"
    by (simp_all add: demo_volume_def demo_map_fs_def)
  have "openers demo_volume 0 = {1}" "deniers demo_volume 0 = {}" by (auto simp: openers_def deniers_def F)
  then have c: "counts_ok demo_volume" unfolding counts_ok_def i using F by (simp add: demo_map_inode_def)
  have r: "inode_length ?r = 320" "inode_sectors ?r = {4}" "inode_extent ?r = {1, 4}"
    unfolding demo_root by (auto simp: inode_from_def inode_length_def inode_sectors_def inode_extent_def sector_cnt_def)
  have m: "inode_extent demo_map_inode = {0, 2}"
    by (auto simp: inode_extent_def inode_sectors_def demo_map_inode_def inode_length_def sector_cnt_def)
  have ok: "inode_ok demo_volume ?r"
  proof -
    have "blk_size (fs_device demo_volume) = 16" by (simp add: demo_volume_def demo_map_fs_def demo_device_def)
    moreover have "d_start (i_data ?r) = 4" by (simp add: demo_root inode_from_def)
    moreover have "unat ROOT_DIR_SECTOR = 1" "ROOT_DIR_SECTOR < 16" by (simp_all add: ROOT_DIR_SECTOR_def)
    ultimately show ?thesis by (auto simp: inode_ok_def inode_on_def r fr sector_cnt_def)
  qed
  have z: "root_bytes demo_volume = replicate (nat (inode_length ?r)) 0"
    unfolding root_bytes_def
    by (rule inode_bytes_zero) (use ok r in \<open>auto simp: inode_ok_def demo_volume_def demo_map_fs_def\<close>)
  then have z: "root_bytes demo_volume = replicate 320 0" using r by simp
  have M: "dir_map (root_bytes demo_volume) = Map.empty" "dir_ok (root_bytes demo_volume)" unfolding z by (rule zero_table)+
  have "tree_inode demo_volume ROOT_DIR_SECTOR" unfolding tree_inode_def i using ok by (auto simp: r m)
  then have "tree demo_volume Map.empty" using wf by (auto simp: tree_def nodes_def)
  then show "volume demo_volume" using M c by (auto simp: volume_def i demo_map_inode_def ROOT_DIR_SECTOR_def)
  show "few_opens demo_volume" by (auto simp: few_opens_def i demo_map_inode_def)
  show "file_data demo_volume = Map.empty" by (rule ext) (simp add: file_data_def M)
  show "\<not> root_full demo_volume" using zero_table(3)[of 320] unfolding root_full_def z by auto
qed

theorem filesys_simulates_spec_witness:
  "\<exists>s1 f s2. calls [Create [97] 100 True, Open [97] (Some f)] demo_volume s2 \<and> volume s2 \<and> file_data s2 = [[97] \<mapsto> replicate 100 0]"
proof -
  have "{6 ..< 6 + (2 * sector_cnt (nat 100) + 1)} \<subseteq> free_sectors demo_volume" by (simp add: demo_volume_ok(5) sector_cnt_def)
  from filesys_create_succeeds[OF demo_volume_ok(1) _ _ _ _ _ _ _ demo_volume_ok(4) this, of "replicate 20 0" "[97]"]
  obtain s1 where s1: "filesys_create (replicate 20 0) [97] 100 demo_volume = Some (True, s1)" "volume s1" "inodes s1 = inodes demo_volume"
    "file_data s1 = [[97] \<mapsto> replicate 100 0]" by (auto simp: demo_volume_ok(3) NAME_MAX_def)
  have fo: "few_opens s1" using demo_volume_ok(2) s1(3) by (simp add: few_opens_def)
  then obtain f s2 where o: "filesys_open [97] s1 = Some (f, s2)"
    using filesys_open_result[OF s1(2), of "[97]"] by auto
  have c: "calls [Create [97] 100 True, Open [97] f] demo_volume s2"
    by (rule calls.more_calls[OF do_call.create[OF s1(1)] calls.more_calls[OF do_call.opens[OF o fo] calls.no_calls]]) simp_all
  from filesys_simulates_spec[OF c demo_volume_ok(1)] have v: "volume s2"
    and sp: "spec_calls [Create [97] 100 True, Open [97] f] Map.empty (file_data s2)" by (simp_all add: demo_volume_ok(3))
  from sp have fd: "file_data s2 = [[97] \<mapsto> replicate 100 0]" "f \<noteq> None"
    by (simp_all add: spec_calls_simps)
  then obtain g where "f = Some g" by auto
  with c v fd(1) show ?thesis by blast
qed

text \<open>C24: creating a file succeeds if its name is valid and new, a slot of the root directory is free, and a
  run of free sectors is long enough; opening it then gives a file that reads as zeros from its start.
  If there is no file of a name, opening it gives none.\<close>

theorem filesys_create_open_read:
  assumes v: "volume s" "few_opens s" and name: "0 \<notin> set name" "name \<noteq> []" "length name \<le> NAME_MAX" "file_data s name = None"
    and room: "\<not> root_full s" "{k ..< k + (2 * sector_cnt (nat len) + 1)} \<subseteq> free_sectors s" and len: "0 \<le> len" "len \<le> 2147483136"
    and junk: "length junk = 20"
  shows "(\<exists>s1. filesys_open name s = Some (None, s1)) \<and>
    (\<exists>s1 f s2 s3. filesys_create junk name len s = Some (True, s1) \<and> filesys_open name s1 = Some (Some f, s2) \<and>
       file_read f len s2 = Some (replicate (nat len) 0, s3))"
proof -
  obtain f0 s0 where "filesys_open name s = Some (f0, s0)" "case f0 of None \<Rightarrow> True | Some g \<Rightarrow> file_data s name \<noteq> None"
    using filesys_open_result[OF v, of name] by (auto split: option.splits)
  then have none: "\<exists>s1. filesys_open name s = Some (None, s1)" using name(4) by (cases f0) auto
  obtain s1 where s1: "filesys_create junk name len s = Some (True, s1)" "volume s1" "inodes s1 = inodes s"
    "files s1 = files s" "file_data s1 = (file_data s)(name \<mapsto> replicate (nat len) 0)"
    by (rule filesys_create_succeeds[OF v(1) junk name(1) len name(2-4) room])
  have fo1: "few_opens s1" using v(2) s1(3) by (simp add: few_opens_def)
  obtain f s2 where s2: "filesys_open name s1 = Some (f, s2)" "volume s2" "file_data s2 = file_data s1"
    "case f of None \<Rightarrow> file_data s1 name = None
      | Some g \<Rightarrow> file_data s1 name \<noteq> None \<and> opened_as s2 g name \<and> files s1 g = None \<and>
          (\<exists>fl. files s2 = (files s1)(g \<mapsto> fl) \<and> f_pos fl = 0 \<and> \<not> f_deny_write fl)"
    using filesys_open_result[OF s1(2) fo1, of name] by blast
  then obtain g fl where g: "f = Some g" "opened_as s2 g name" "files s2 g = Some fl" "f_pos fl = 0"
    using s1(5) by (cases f) auto
  obtain bs s3 where "file_read g len s2 = Some (bs, s3)" "bs = take (nat len) (replicate (nat len) 0)"
    using file_read_data[OF s2(2) g(2,3), of len] s2(3) s1(5) g(4) by auto
  with none s1(1) s2(1) g(1) show ?thesis by auto
qed

theorem filesys_create_open_read_witness:
  "\<exists>s1 f s2 s3. filesys_create (replicate 20 7) [97, 98] 700 demo_volume = Some (True, s1) \<and> filesys_open [97, 98] s1 = Some (Some f, s2) \<and>
     file_read f 700 s2 = Some (replicate 700 0, s3)"
proof -
  have "{6 ..< 6 + (2 * sector_cnt (nat 700) + 1)} \<subseteq> free_sectors demo_volume" by (simp add: demo_volume_ok(5) sector_cnt_def)
  from filesys_create_open_read[OF demo_volume_ok(1,2) _ _ _ _ demo_volume_ok(4) this, of "[97, 98]" "replicate 20 7"] demo_volume_ok(3)
  show ?thesis by (auto simp: NAME_MAX_def)
qed

text \<open>C25: what is written through one open file is read through another file opened under the same name, at
  once or later: the data read is the old data with the bytes written put in at the position of the
  first file, as far as they fit.\<close>

theorem filesys_write_then_open_read:
  assumes v: "volume s" "few_opens s" and f: "opened_as s f name" "files s f = Some fl" "deniers s (f_inode fl) = {}"
    and buf: "nat sz \<le> length buffer" and D: "file_data s name = Some B" and off: "nat (f_pos fl) \<le> length B"
  shows "\<exists>n s1 g s2 bs s3. file_write f buffer sz s = Some (n, s1) \<and> filesys_open name s1 = Some (Some g, s2) \<and> g \<noteq> f \<and>
     file_read g (int (length B)) s2 = Some (bs, s3) \<and> n = int (min (nat sz) (length B - nat (f_pos fl))) \<and>
     bs = take (nat (f_pos fl)) B @ take (nat n) buffer @ drop (nat (f_pos fl) + nat n) B"
proof -
  obtain n s1 B1 where w0: "file_write f buffer sz s = Some (int n, s1)" "volume s1" "file_data s name = Some B1"
     "n = (if deniers s (f_inode fl) = {} then min (nat sz) (length B1 - nat (f_pos fl)) else 0)"
     "file_data s1 = (file_data s)(name \<mapsto> buf_put (nat (f_pos fl)) (take n buffer) B1)"
    using file_write_data[OF v(1) f(1,2) buf] by blast
  have "B1 = B" using w0(3) D by simp
  then have w: "file_write f buffer sz s = Some (int n, s1)" "volume s1" "n = min (nat sz) (length B - nat (f_pos fl))"
     "file_data s1 = (file_data s)(name \<mapsto> buf_put (nat (f_pos fl)) (take n buffer) B)"
    using w0(1,2,5) w0(4)[unfolded f(3)] by simp_all
  have ux: "user_file s f fl" using f(1,2) by (auto simp: opened_as_def user_file_def)
  have wf: "fs_wf s" "counts_ok s" using volume_wf[OF v(1)] by auto
  obtain i where i: "inodes s (f_inode fl) = Some i" by (rule user_file_inode[OF wf(1) f(2)])
  obtain m t where "file_write f buffer sz s = Some (int m, t)" "inodes t = inodes s" "files t = (files s)(f \<mapsto> fl\<lparr>f_pos := f_pos fl + int m\<rparr>)"
    using file_write_ok[OF wf ux i buf] by blast
  with w(1) have e: "inodes s1 = inodes s" "files s1 f \<noteq> None" by auto
  have fo1: "few_opens s1" using v(2) e(1) by (simp add: few_opens_def)
  obtain h s2 where s2: "filesys_open name s1 = Some (h, s2)" "volume s2" "file_data s2 = file_data s1"
    "case h of None \<Rightarrow> file_data s1 name = None
      | Some g \<Rightarrow> file_data s1 name \<noteq> None \<and> opened_as s2 g name \<and> files s1 g = None \<and>
          (\<exists>fl. files s2 = (files s1)(g \<mapsto> fl) \<and> f_pos fl = 0 \<and> \<not> f_deny_write fl)"
    using filesys_open_result[OF w(2) fo1, of name] by blast
  then obtain g gl where g: "h = Some g" "opened_as s2 g name" "files s2 g = Some gl" "f_pos gl = 0" "files s1 g = None"
    using w(4) by (cases h) auto
  then have gf: "g \<noteq> f" using e(2) by auto
  have n: "n \<le> length buffer" "nat (f_pos fl) + n \<le> length B" using buf off unfolding w(3) by auto
  then have l: "length (buf_put (nat (f_pos fl)) (take n buffer) B) = length B" by (simp add: length_buf_put)
  obtain bs s3 where rd: "file_read g (int (length B)) s2 = Some (bs, s3)" "bs = take (length B) (buf_put (nat (f_pos fl)) (take n buffer) B)"
    using file_read_data[OF s2(2) g(2,3), of "int (length B)"] s2(3) w(4) g(4) by auto
  have "bs = buf_put (nat (f_pos fl)) (take n buffer) B" unfolding rd(2) using l by simp
  then have "bs = take (nat (f_pos fl)) B @ take (nat (int n)) buffer @ drop (nat (f_pos fl) + nat (int n)) B"
    using n(1) by (simp add: buf_put_def)
  moreover have "int n = int (min (nat sz) (length B - nat (f_pos fl)))" by (simp only: w(3))
  ultimately show ?thesis using w(1) s2(1) rd(1) gf unfolding g(1) by blast
qed

theorem filesys_write_then_open_read_witness:
  "\<exists>s1 f s2 n s3 g s4 s5. filesys_create (replicate 20 7) [97] 3 demo_volume = Some (True, s1) \<and> filesys_open [97] s1 = Some (Some f, s2) \<and>
     file_write f [1, 2] 2 s2 = Some (n, s3) \<and> filesys_open [97] s3 = Some (Some g, s4) \<and> file_read g 3 s4 = Some ([1, 2, 0], s5)"
proof -
  have "{6 ..< 6 + (2 * sector_cnt (nat 3) + 1)} \<subseteq> free_sectors demo_volume" by (simp add: demo_volume_ok(5) sector_cnt_def)
  from filesys_create_succeeds[OF demo_volume_ok(1) _ _ _ _ _ _ _ demo_volume_ok(4) this, of "replicate 20 7" "[97]"]
  obtain s1 where s1: "filesys_create (replicate 20 7) [97] 3 demo_volume = Some (True, s1)" "volume s1" "inodes s1 = inodes demo_volume"
    "files s1 = files demo_volume" "file_data s1 = [[97] \<mapsto> replicate 3 0]" by (auto simp: demo_volume_ok(3) NAME_MAX_def)
  have fo: "few_opens s1" using demo_volume_ok(2) s1(3) by (simp add: few_opens_def)
  obtain h s2 where o: "filesys_open [97] s1 = Some (h, s2)" "volume s2" "file_data s2 = file_data s1" "opens_grow s1 s2"
    "case h of None \<Rightarrow> file_data s1 [97] = None
      | Some g \<Rightarrow> file_data s1 [97] \<noteq> None \<and> opened_as s2 g [97] \<and> files s1 g = None \<and>
          (\<exists>fl. files s2 = (files s1)(g \<mapsto> fl) \<and> f_pos fl = 0 \<and> \<not> f_deny_write fl)"
    using filesys_open_result[OF s1(2) fo, of "[97]"] by blast
  then obtain f fl where f: "h = Some f" "opened_as s2 f [97]" "files s2 = (files s1)(f \<mapsto> fl)" "f_pos fl = 0" "\<not> f_deny_write fl"
    using s1(5) by (cases h) auto
  have "deniers s2 (f_inode fl) = {}"
    using f(3,5) s1(4) by (auto simp: deniers_def demo_volume_def demo_map_fs_def split: if_splits)
  moreover have "few_opens s2"
  proof -
    have "i_open_cnt j \<le> 2" if "inodes s2 q = Some j" for q j
    proof -
      have "i_open_cnt j = 1 \<or> (\<exists>k. inodes s1 q = Some k \<and> i_open_cnt j \<le> i_open_cnt k + 1)"
        using o(4) that unfolding opens_grow_def by blast
      then show ?thesis using s1(3) by (auto simp: demo_volume_def demo_map_fs_def demo_map_inode_def split: if_splits)
    qed
    then show ?thesis by (fastforce simp: few_opens_def)
  qed
  ultimately have "\<exists>n s3 g s4 bs s5. file_write f [1, 2] 2 s2 = Some (n, s3) \<and> filesys_open [97] s3 = Some (Some g, s4) \<and> g \<noteq> f \<and>
     file_read g (int (length (replicate 3 0 :: u8 list))) s4 = Some (bs, s5) \<and> n = int (min (nat 2) (length (replicate 3 0 :: u8 list) - nat (f_pos fl))) \<and>
     bs = take (nat (f_pos fl)) (replicate 3 0) @ take (nat n) [1, 2] @ drop (nat (f_pos fl) + nat n) (replicate 3 0)"
    using o(2,3) f(2,3,4) s1(5) by (intro filesys_write_then_open_read) auto
  with s1(1) o(1) f(1,4) show ?thesis by (auto simp: numeral_eq_Suc)
qed

end
