(* ===== verification/Thread.thy ===== *)
theory Thread
  imports Vaddr "HOL-Library.Signed_Division"
begin

section \<open>Threads and the scheduler\<close>

text \<open>
  Models the scheduler of src/pintos/src/threads/thread.c, the interrupt flag of
  src/pintos/src/threads/interrupt.c, and the clock of src/pintos/src/devices/timer.c. A thread is
  named by the address of its page. The stack of a thread is represented by
  \<open>todo\<close>: the places in the kernel's code at which the thread still has to continue, innermost first.
  A function that may sleep pushes the place behind the call of \<^verbatim>\<open>schedule\<close> onto \<open>todo\<close>; the code at
  that place runs when the thread is scheduled again. User processes are no part of this state, so
  \<^verbatim>\<open>process_activate\<close> does nothing to it, and \<^verbatim>\<open>process_exit\<close> is an argument of \<open>thread_exit\<close>.
\<close>

subsection \<open>Data\<close>

datatype thread_status = THREAD_RUNNING | THREAD_READY | THREAD_BLOCKED | THREAD_DYING

text \<open>Locks, semaphores and condition variables are named by the object that contains them. The
  semaphore \<open>Waiter n\<close> is a local variable of one call of \<^verbatim>\<open>cond_wait\<close>.\<close>

datatype lock_id = Tid_lock | Child_lock u32 | Lock nat
datatype sema_id = Sema nat | Lock_sema lock_id | Waiter nat
datatype cond_id = Child_condition u32 | Cond nat

text \<open>A thread runs \<^verbatim>\<open>idle\<close>, with the semaphore its argument points to, or another function.\<close>

datatype thread_func = Idle nat | Func nat

datatype code =
  Sema_down_loop sema_id bool     \<comment> \<open>the loop of \<^verbatim>\<open>sema_down\<close>, with the old interrupt level\<close>
| Lock_acquired lock_id           \<comment> \<open>in \<^verbatim>\<open>lock_acquire\<close>, behind \<^verbatim>\<open>sema_down\<close>\<close>
| Do_sema_up sema_id              \<comment> \<open>in \<^verbatim>\<open>lock_release\<close> and \<^verbatim>\<open>idle\<close>, at the call of \<^verbatim>\<open>sema_up\<close>\<close>
| Do_sema_down sema_id            \<comment> \<open>in \<^verbatim>\<open>cond_wait\<close> and \<^verbatim>\<open>thread_start\<close>, at the call of \<^verbatim>\<open>sema_down\<close>\<close>
| Do_lock_acquire lock_id         \<comment> \<open>in \<^verbatim>\<open>cond_wait\<close>\<close>
| Yielded bool                    \<comment> \<open>in \<^verbatim>\<open>thread_yield\<close>, behind \<^verbatim>\<open>schedule\<close>\<close>
| Intr_return                     \<comment> \<open>the return from an interrupt\<close>
| Intr_enable                     \<comment> \<open>in \<^verbatim>\<open>thread_start\<close>\<close>
| Kernel_thread thread_func       \<comment> \<open>the start of a thread\<close>
| Idle_loop                       \<comment> \<open>the loop of \<^verbatim>\<open>idle\<close>\<close>
| Idle_wake                       \<comment> \<open>in \<^verbatim>\<open>idle\<close>, behind \<^verbatim>\<open>thread_block\<close>\<close>
| Tid_acquired u32                \<comment> \<open>in \<^verbatim>\<open>allocate_tid\<close>, behind \<^verbatim>\<open>lock_acquire\<close>\<close>
| Set_tid u32 int                 \<comment> \<open>where \<^verbatim>\<open>allocate_tid\<close> returns and the caller stores the identifier\<close>
| Create_rest u32 thread_func     \<comment> \<open>in \<^verbatim>\<open>thread_create\<close>, behind that\<close>
| Do_thread_unblock u32           \<comment> \<open>in \<^verbatim>\<open>thread_create\<close>, at the call of \<^verbatim>\<open>thread_unblock\<close>\<close>
| Cond_broadcast_loop cond_id lock_id \<comment> \<open>the loop of \<^verbatim>\<open>cond_broadcast\<close>\<close>
| Timer_sleep_loop int int        \<comment> \<open>the loop of \<^verbatim>\<open>timer_sleep\<close>\<close>

record kthread =
  tid :: int
  status :: thread_status
  t_name :: "u8 list"
  t_stack :: u32
  priority :: int
  next_fd :: int
  child_load :: int
  parent_tid :: int
  pagedir :: u32
  t_magic :: u32
  todo :: "code list"

record semaphore =
  sm_value :: u32
  sm_waiters :: "u32 list"

record kernel =
  threads :: "u32 \<rightharpoonup> kthread"
  running :: u32
  ready_list :: "u32 list"
  all_list :: "u32 list"
  idle_thread :: "u32 option"
  initial_thread :: u32
  next_tid :: int
  semas :: "sema_id \<rightharpoonup> semaphore"
  lock_holder :: "lock_id \<Rightarrow> u32 option"
  cond_waiters :: "cond_id \<Rightarrow> nat list"
  next_waiter :: nat
  intr_on :: bool
  in_external_intr :: bool
  yield_on_return :: bool
  ticks :: int
  thread_ticks :: u32
  idle_ticks :: int
  kernel_ticks :: int
  user_ticks :: int

definition THREAD_MAGIC :: u32 where "THREAD_MAGIC = 0xcd6abf4b"
definition TIME_SLICE :: u32 where "TIME_SLICE = 4"
definition TID_ERROR :: int where "TID_ERROR = -1"
definition PRI_MIN :: int where "PRI_MIN = 0"
definition PRI_DEFAULT :: int where "PRI_DEFAULT = 31"
definition PRI_MAX :: int where "PRI_MAX = 63"

text \<open>Assigning to members of a thread, and pushing onto the stack of the running one.\<close>

definition set_thread :: "u32 \<Rightarrow> (kthread \<Rightarrow> kthread) \<Rightarrow> kernel \<Rightarrow> kernel option" where
  "set_thread t f s = do { th \<leftarrow> threads s t; Some (s\<lparr>threads := (threads s)(t \<mapsto> f th)\<rparr>) }"

definition set_status :: "u32 \<Rightarrow> thread_status \<Rightarrow> kernel \<Rightarrow> kernel option" where
  "set_status t st s = set_thread t (\<lambda>th. th\<lparr>status := st\<rparr>) s"

definition push_todo :: "code \<Rightarrow> kernel \<Rightarrow> kernel option" where
  "push_todo c s = set_thread (running s) (\<lambda>th. th\<lparr>todo := c # todo th\<rparr>) s"

subsection \<open>Interrupt levels\<close>

definition intr_enable :: "kernel \<Rightarrow> kernel option" where
  "intr_enable s = do { ASSERT (\<not> in_external_intr s); Some (s\<lparr>intr_on := True\<rparr>) }"

definition intr_disable :: "kernel \<Rightarrow> kernel" where
  "intr_disable s = s\<lparr>intr_on := False\<rparr>"

definition intr_set_level :: "bool \<Rightarrow> kernel \<Rightarrow> kernel option" where
  "intr_set_level level s = (if level then intr_enable s else Some (intr_disable s))"

definition intr_yield_on_return :: "kernel \<Rightarrow> kernel option" where
  "intr_yield_on_return s = do { ASSERT (in_external_intr s); Some (s\<lparr>yield_on_return := True\<rparr>) }"

subsection \<open>Scheduling\<close>

definition is_thread :: "kernel \<Rightarrow> u32 \<Rightarrow> bool" where
  "is_thread s t \<longleftrightarrow> t \<noteq> 0 \<and> (case threads s t of None \<Rightarrow> False | Some th \<Rightarrow> t_magic th = THREAD_MAGIC)"

definition thread_current :: "kernel \<Rightarrow> u32 option" where
  "thread_current s = do {
     ASSERT (is_thread s (running s));
     th \<leftarrow> threads s (running s);
     ASSERT (status th = THREAD_RUNNING);
     Some (running s)
   }"

definition next_thread_to_run :: "kernel \<Rightarrow> u32 option \<times> kernel" where
  "next_thread_to_run s = (case ready_list s of [] \<Rightarrow> (idle_thread s, s) | t # ts \<Rightarrow> (Some t, s\<lparr>ready_list := ts\<rparr>))"

definition thread_schedule_tail :: "u32 option \<Rightarrow> kernel \<Rightarrow> kernel option" where
  "thread_schedule_tail prev s = do {
     ASSERT (\<not> intr_on s);
     s \<leftarrow> set_status (running s) THREAD_RUNNING s;
     let s = s\<lparr>thread_ticks := 0\<rparr>;
     case prev of None \<Rightarrow> Some s
     | Some p \<Rightarrow> do {
         th \<leftarrow> threads s p;
         if status th = THREAD_DYING \<and> p \<noteq> initial_thread s
         then do { ASSERT (p \<noteq> running s); Some (s\<lparr>threads := (threads s)(p := None)\<rparr>) }
         else Some s
       }
   }"

definition schedule :: "kernel \<Rightarrow> kernel option" where
  "schedule s = do {
     let cur = running s;
     let (next, s) = next_thread_to_run s;
     ASSERT (\<not> intr_on s);
     th \<leftarrow> threads s cur;
     ASSERT (status th \<noteq> THREAD_RUNNING);
     n \<leftarrow> next;
     ASSERT (is_thread s n);
     if cur \<noteq> n then thread_schedule_tail (Some cur) (s\<lparr>running := n\<rparr>)
     else thread_schedule_tail None s
   }"

definition thread_block :: "kernel \<Rightarrow> kernel option" where
  "thread_block s = do {
     ASSERT (\<not> in_external_intr s);
     ASSERT (\<not> intr_on s);
     t \<leftarrow> thread_current s;
     s \<leftarrow> set_status t THREAD_BLOCKED s;
     schedule s
   }"

definition thread_unblock :: "u32 \<Rightarrow> kernel \<Rightarrow> kernel option" where
  "thread_unblock t s = do {
     ASSERT (is_thread s t);
     let old_level = intr_on s;
     let s = intr_disable s;
     th \<leftarrow> threads s t;
     ASSERT (status th = THREAD_BLOCKED);
     s \<leftarrow> set_status t THREAD_READY (s\<lparr>ready_list := ready_list s @ [t]\<rparr>);
     intr_set_level old_level s
   }"

definition thread_exit :: "(kernel \<Rightarrow> kernel option) \<Rightarrow> kernel \<Rightarrow> kernel option" where
  "thread_exit process_exit s = do {
     ASSERT (\<not> in_external_intr s);
     s \<leftarrow> process_exit s;
     let s = intr_disable s;
     t \<leftarrow> thread_current s;
     s \<leftarrow> set_status t THREAD_DYING (s\<lparr>all_list := remove1 t (all_list s)\<rparr>);
     schedule s
   }"

definition thread_yield :: "kernel \<Rightarrow> kernel option" where
  "thread_yield s = do {
     cur \<leftarrow> thread_current s;
     ASSERT (\<not> in_external_intr s);
     let old_level = intr_on s;
     let s = intr_disable s;
     let s = (if idle_thread s \<noteq> Some cur then s\<lparr>ready_list := ready_list s @ [cur]\<rparr> else s);
     s \<leftarrow> set_status cur THREAD_READY s;
     s \<leftarrow> push_todo (Yielded old_level) s;
     schedule s
   }"

subsection \<open>Looking at threads\<close>

definition thread_name :: "kernel \<Rightarrow> u8 list option" where
  "thread_name s = do { t \<leftarrow> thread_current s; th \<leftarrow> threads s t; Some (t_name th) }"

definition thread_tid :: "kernel \<Rightarrow> int option" where
  "thread_tid s = do { t \<leftarrow> thread_current s; th \<leftarrow> threads s t; Some (tid th) }"

definition thread_foreach :: "(u32 \<Rightarrow> kernel \<Rightarrow> kernel option) \<Rightarrow> kernel \<Rightarrow> kernel option" where
  "thread_foreach func s = do { ASSERT (\<not> intr_on s); foreach func (all_list s) s }"

definition thread_set_priority :: "int \<Rightarrow> kernel \<Rightarrow> kernel option" where
  "thread_set_priority new_priority s = do {
     t \<leftarrow> thread_current s;
     set_thread t (\<lambda>th. th\<lparr>priority := new_priority\<rparr>) s
   }"

definition thread_get_priority :: "kernel \<Rightarrow> int option" where
  "thread_get_priority s = do { t \<leftarrow> thread_current s; th \<leftarrow> threads s t; Some (priority th) }"

text \<open>The loop runs from the tail of the list to its head.\<close>

fun find_tid :: "int \<Rightarrow> u32 list \<Rightarrow> kernel \<Rightarrow> u32 option option" where
  "find_tid i [] s = Some None"
| "find_tid i (t # ts) s = do {
     th \<leftarrow> threads s t;
     if tid th = i \<and> status th \<noteq> THREAD_DYING then Some (Some t) else find_tid i ts s
   }"

definition thread_get_by_id :: "int \<Rightarrow> kernel \<Rightarrow> u32 option option" where
  "thread_get_by_id i s = do { ASSERT (i \<noteq> TID_ERROR); find_tid i (rev (all_list s)) s }"

subsection \<open>The timer interrupt\<close>

definition thread_tick :: "kernel \<Rightarrow> kernel option" where
  "thread_tick s = do {
     t \<leftarrow> thread_current s;
     th \<leftarrow> threads s t;
     let s = (if idle_thread s = Some t then s\<lparr>idle_ticks := idle_ticks s + 1\<rparr>
              else if pagedir th \<noteq> 0 then s\<lparr>user_ticks := user_ticks s + 1\<rparr>
              else s\<lparr>kernel_ticks := kernel_ticks s + 1\<rparr>);
     let s = s\<lparr>thread_ticks := thread_ticks s + 1\<rparr>;
     if thread_ticks s \<ge> TIME_SLICE then intr_yield_on_return s else Some s
   }"

definition timer_interrupt :: "kernel \<Rightarrow> kernel option" where
  "timer_interrupt s = thread_tick (s\<lparr>ticks := ticks s + 1\<rparr>)"

text \<open>An external interrupt: the processor turns interrupts off and \<^verbatim>\<open>intr_handler\<close> calls the handler. The
  interrupted code continues, with interrupts on, when the interrupt returns.\<close>

definition intr_handler :: "(kernel \<Rightarrow> kernel option) \<Rightarrow> kernel \<Rightarrow> kernel option" where
  "intr_handler handler s = do {
     ASSERT (\<not> intr_on s);
     ASSERT (\<not> in_external_intr s);
     s \<leftarrow> handler (s\<lparr>in_external_intr := True, yield_on_return := False\<rparr>);
     ASSERT (\<not> intr_on s \<and> in_external_intr s);
     let s = s\<lparr>in_external_intr := False\<rparr>;
     if yield_on_return s then thread_yield s else Some s
   }"

definition external_interrupt :: "(kernel \<Rightarrow> kernel option) \<Rightarrow> kernel \<Rightarrow> kernel option" where
  "external_interrupt handler s = do {
     ASSERT (intr_on s);
     s \<leftarrow> push_todo Intr_return (s\<lparr>intr_on := False\<rparr>);
     intr_handler handler s
   }"

definition timer_ticks :: "kernel \<Rightarrow> int" where
  "timer_ticks s = ticks s"

definition timer_elapsed :: "int \<Rightarrow> kernel \<Rightarrow> int" where
  "timer_elapsed thn s = timer_ticks s - thn"

definition timer_sleep_loop :: "int \<Rightarrow> int \<Rightarrow> kernel \<Rightarrow> kernel option" where
  "timer_sleep_loop start n s =
     (if timer_elapsed start s < n then do { s \<leftarrow> push_todo (Timer_sleep_loop start n) s; thread_yield s } else Some s)"

definition timer_sleep :: "int \<Rightarrow> kernel \<Rightarrow> kernel option" where
  "timer_sleep n s = do {
     let start = timer_ticks s;
     ASSERT (intr_on s);
     timer_sleep_loop start n s
   }"

text \<open>Sleeping for \<open>num / denom\<close> seconds. A busy-wait loop does not change the state. 64-bit arithmetic must not
  overflow.\<close>

definition i64 :: "int \<Rightarrow> int option" where
  "i64 n = (if - (2 ^ 63) \<le> n \<and> n < 2 ^ 63 then Some n else None)"

definition TIMER_FREQ :: int where "TIMER_FREQ = 100"

definition real_time_delay :: "int \<Rightarrow> int \<Rightarrow> kernel \<Rightarrow> kernel option" where
  "real_time_delay num denom s = do { ASSERT (denom smod 1000 = 0); Some s }"

definition real_time_sleep :: "int \<Rightarrow> int \<Rightarrow> kernel \<Rightarrow> kernel option" where
  "real_time_sleep num denom s = do {
     p \<leftarrow> i64 (num * TIMER_FREQ);
     let n = p sdiv denom;
     ASSERT (intr_on s);
     if n > 0 then timer_sleep n s else real_time_delay num denom s
   }"

definition timer_msleep :: "int \<Rightarrow> kernel \<Rightarrow> kernel option" where
  "timer_msleep ms s = real_time_sleep ms 1000 s"

definition timer_usleep :: "int \<Rightarrow> kernel \<Rightarrow> kernel option" where
  "timer_usleep us s = real_time_sleep us (1000 * 1000) s"

definition timer_nsleep :: "int \<Rightarrow> kernel \<Rightarrow> kernel option" where
  "timer_nsleep ns s = real_time_sleep ns (1000 * 1000 * 1000) s"

end
