(* ===== verification/Synch.thy ===== *)
theory Synch
  imports Thread
begin

section \<open>Semaphores, locks and condition variables\<close>

text \<open>
  Models src/pintos/src/threads/synch.c, and the functions of thread.c that use it: creating
  threads, allocating their identifiers, and the idle thread. At the end, the steps the kernel can
  take: the running thread continues or calls one of these functions, or an interrupt arrives.
\<close>

definition set_sema :: "sema_id \<Rightarrow> semaphore \<Rightarrow> kernel \<Rightarrow> kernel" where
  "set_sema x sm s = s\<lparr>semas := (semas s)(x \<mapsto> sm)\<rparr>"

definition sema_init :: "sema_id \<Rightarrow> u32 \<Rightarrow> kernel \<Rightarrow> kernel" where
  "sema_init x v s = set_sema x \<lparr>sm_value = v, sm_waiters = []\<rparr> s"

definition sema_down_loop :: "sema_id \<Rightarrow> bool \<Rightarrow> kernel \<Rightarrow> kernel option" where
  "sema_down_loop x old_level s = do {
     sm \<leftarrow> semas s x;
     if sm_value sm = 0
     then do {
       t \<leftarrow> thread_current s;
       s \<leftarrow> push_todo (Sema_down_loop x old_level) (set_sema x (sm\<lparr>sm_waiters := sm_waiters sm @ [t]\<rparr>) s);
       thread_block s
     }
     else intr_set_level old_level (set_sema x (sm\<lparr>sm_value := sm_value sm - 1\<rparr>) s)
   }"

definition sema_down :: "sema_id \<Rightarrow> kernel \<Rightarrow> kernel option" where
  "sema_down x s = do {
     ASSERT (\<not> in_external_intr s);
     sema_down_loop x (intr_on s) (intr_disable s)
   }"

definition sema_try_down :: "sema_id \<Rightarrow> kernel \<Rightarrow> (bool \<times> kernel) option" where
  "sema_try_down x s = do {
     let old_level = intr_on s;
     let s = intr_disable s;
     sm \<leftarrow> semas s x;
     let success = (sm_value sm > 0);
     let s = (if success then set_sema x (sm\<lparr>sm_value := sm_value sm - 1\<rparr>) s else s);
     s \<leftarrow> intr_set_level old_level s;
     Some (success, s)
   }"

definition sema_up :: "sema_id \<Rightarrow> kernel \<Rightarrow> kernel option" where
  "sema_up x s = do {
     let old_level = intr_on s;
     let s = intr_disable s;
     sm \<leftarrow> semas s x;
     s \<leftarrow> (case sm_waiters sm of [] \<Rightarrow> Some s
           | t # ts \<Rightarrow> thread_unblock t (set_sema x (sm\<lparr>sm_waiters := ts\<rparr>) s));
     sm \<leftarrow> semas s x;
     intr_set_level old_level (set_sema x (sm\<lparr>sm_value := sm_value sm + 1\<rparr>) s)
   }"

subsection \<open>Locks\<close>

definition lock_init :: "lock_id \<Rightarrow> kernel \<Rightarrow> kernel" where
  "lock_init l s = sema_init (Lock_sema l) 1 (s\<lparr>lock_holder := (lock_holder s)(l := None)\<rparr>)"

definition lock_held_by_current_thread :: "lock_id \<Rightarrow> kernel \<Rightarrow> bool option" where
  "lock_held_by_current_thread l s = do { t \<leftarrow> thread_current s; Some (lock_holder s l = Some t) }"

definition lock_acquired :: "lock_id \<Rightarrow> kernel \<Rightarrow> kernel option" where
  "lock_acquired l s = do { t \<leftarrow> thread_current s; Some (s\<lparr>lock_holder := (lock_holder s)(l := Some t)\<rparr>) }"

definition lock_acquire :: "lock_id \<Rightarrow> kernel \<Rightarrow> kernel option" where
  "lock_acquire l s = do {
     ASSERT (\<not> in_external_intr s);
     held \<leftarrow> lock_held_by_current_thread l s;
     ASSERT (\<not> held);
     s \<leftarrow> push_todo (Lock_acquired l) s;
     sema_down (Lock_sema l) s
   }"

definition lock_try_acquire :: "lock_id \<Rightarrow> kernel \<Rightarrow> (bool \<times> kernel) option" where
  "lock_try_acquire l s = do {
     held \<leftarrow> lock_held_by_current_thread l s;
     ASSERT (\<not> held);
     (success, s) \<leftarrow> sema_try_down (Lock_sema l) s;
     s \<leftarrow> (if success then push_todo (Lock_acquired l) s else Some s);
     Some (success, s)
   }"

definition lock_release :: "lock_id \<Rightarrow> kernel \<Rightarrow> kernel option" where
  "lock_release l s = do {
     held \<leftarrow> lock_held_by_current_thread l s;
     ASSERT held;
     push_todo (Do_sema_up (Lock_sema l)) (s\<lparr>lock_holder := (lock_holder s)(l := None)\<rparr>)
   }"

subsection \<open>Condition variables\<close>

definition cond_init :: "cond_id \<Rightarrow> kernel \<Rightarrow> kernel" where
  "cond_init c s = s\<lparr>cond_waiters := (cond_waiters s)(c := [])\<rparr>"

definition cond_wait :: "cond_id \<Rightarrow> lock_id \<Rightarrow> kernel \<Rightarrow> kernel option" where
  "cond_wait c l s = do {
     ASSERT (\<not> in_external_intr s);
     held \<leftarrow> lock_held_by_current_thread l s;
     ASSERT held;
     let w = next_waiter s;
     let s = sema_init (Waiter w) 0 (s\<lparr>next_waiter := w + 1\<rparr>);
     let s = s\<lparr>cond_waiters := (cond_waiters s)(c := cond_waiters s c @ [w])\<rparr>;
     s \<leftarrow> push_todo (Do_lock_acquire l) s;
     s \<leftarrow> push_todo (Do_sema_down (Waiter w)) s;
     lock_release l s
   }"

definition cond_signal :: "cond_id \<Rightarrow> lock_id \<Rightarrow> kernel \<Rightarrow> kernel option" where
  "cond_signal c l s = do {
     ASSERT (\<not> in_external_intr s);
     held \<leftarrow> lock_held_by_current_thread l s;
     ASSERT held;
     case cond_waiters s c of [] \<Rightarrow> Some s
     | w # ws \<Rightarrow> sema_up (Waiter w) (s\<lparr>cond_waiters := (cond_waiters s)(c := ws)\<rparr>)
   }"

definition cond_broadcast :: "cond_id \<Rightarrow> lock_id \<Rightarrow> kernel \<Rightarrow> kernel option" where
  "cond_broadcast c l s =
     (if cond_waiters s c \<noteq> []
      then do { s \<leftarrow> push_todo (Cond_broadcast_loop c l) s; cond_signal c l s }
      else Some s)"

subsection \<open>Creating threads\<close>

definition init_thread :: "u32 \<Rightarrow> u8 list \<Rightarrow> int \<Rightarrow> kernel \<Rightarrow> kernel option" where
  "init_thread t name prio s = do {
     ASSERT (t \<noteq> 0);
     ASSERT (PRI_MIN \<le> prio \<and> prio \<le> PRI_MAX);
     let s = s\<lparr>threads := (threads s)(t \<mapsto> \<lparr>tid = 0, status = THREAD_BLOCKED, t_name = take 15 name, t_stack = t + PGSIZE,
       priority = prio, next_fd = 2, child_load = 0, parent_tid = 0, pagedir = 0, t_magic = THREAD_MAGIC, todo = []\<rparr>),
       all_list := all_list s @ [t]\<rparr>;
     Some (cond_init (Child_condition t) (lock_init (Child_lock t) s))
   }"

definition alloc_frame :: "u32 \<Rightarrow> u32 \<Rightarrow> kernel \<Rightarrow> kernel option" where
  "alloc_frame t n s = do {
     ASSERT (is_thread s t);
     ASSERT (n mod 4 = 0);
     set_thread t (\<lambda>th. th\<lparr>t_stack := t_stack th - n\<rparr>) s
   }"

text \<open>The identifier is taken from the counter once the lock is acquired. Identifiers are signed.\<close>

definition tid_acquired :: "u32 \<Rightarrow> kernel \<Rightarrow> kernel option" where
  "tid_acquired t s = do {
     n \<leftarrow> i32 (next_tid s + 1);
     s \<leftarrow> push_todo (Set_tid t (next_tid s)) (s\<lparr>next_tid := n\<rparr>);
     lock_release Tid_lock s
   }"

definition set_tid :: "u32 \<Rightarrow> int \<Rightarrow> kernel \<Rightarrow> kernel option" where
  "set_tid t i s = set_thread t (\<lambda>th. th\<lparr>tid := i\<rparr>) s"

definition allocate_tid :: "u32 \<Rightarrow> kernel \<Rightarrow> kernel option" where
  "allocate_tid t s = do { s \<leftarrow> push_todo (Tid_acquired t) s; lock_acquire Tid_lock s }"

text \<open>The frames for \<^verbatim>\<open>kernel_thread\<close>, \<^verbatim>\<open>switch_entry\<close> and \<^verbatim>\<open>switch_threads\<close> take 12, 4 and 28 bytes. They make the
  new thread start in \<^verbatim>\<open>kernel_thread\<close>.\<close>

definition create_rest :: "u32 \<Rightarrow> thread_func \<Rightarrow> kernel \<Rightarrow> kernel option" where
  "create_rest t f s = do {
     cur \<leftarrow> thread_current s;
     cth \<leftarrow> threads s cur;
     s \<leftarrow> set_thread t (\<lambda>th. th\<lparr>parent_tid := tid cth\<rparr>) s;
     let old_level = intr_on s;
     s \<leftarrow> alloc_frame t 12 (intr_disable s);
     s \<leftarrow> alloc_frame t 4 s;
     s \<leftarrow> alloc_frame t 28 s;
     s \<leftarrow> set_thread t (\<lambda>th. th\<lparr>todo := [Kernel_thread f]\<rparr>) s;
     s \<leftarrow> push_todo (Do_thread_unblock t) s;
     intr_set_level old_level s
   }"

text \<open>\<open>page\<close> is the result of \<^verbatim>\<open>palloc_get_page\<close>. The call returns \<open>TID_ERROR\<close> if it fails; otherwise the
  identifier of the thread, once the rest has been done.\<close>

definition thread_create :: "u32 option \<Rightarrow> u8 list \<Rightarrow> int \<Rightarrow> thread_func option \<Rightarrow> kernel \<Rightarrow> (int option \<times> kernel) option" where
  "thread_create page name prio function s = do {
     f \<leftarrow> function;
     case page of None \<Rightarrow> Some (Some TID_ERROR, s)
     | Some t \<Rightarrow> do {
         s \<leftarrow> init_thread t name prio s;
         s \<leftarrow> push_todo (Create_rest t f) s;
         s \<leftarrow> allocate_tid t s;
         Some (None, s)
       }
   }"

text \<open>The memory of the thread that runs main is not allocated; its address is \<open>t\<close>. The lock is free.\<close>

definition thread_init :: "u32 \<Rightarrow> kernel \<Rightarrow> kernel option" where
  "thread_init t s = do {
     ASSERT (\<not> intr_on s);
     let s = lock_init Tid_lock s;
     let s = s\<lparr>ready_list := [], all_list := [], initial_thread := t, running := t\<rparr>;
     s \<leftarrow> init_thread t [109, 97, 105, 110] PRI_DEFAULT s;
     s \<leftarrow> set_status t THREAD_RUNNING s;
     allocate_tid t s
   }"

definition thread_start :: "u32 option \<Rightarrow> nat \<Rightarrow> kernel \<Rightarrow> kernel option" where
  "thread_start page idle_started s = do {
     let s = sema_init (Sema idle_started) 0 s;
     s \<leftarrow> push_todo (Do_sema_down (Sema idle_started)) s;
     s \<leftarrow> push_todo Intr_enable s;
     (_, s) \<leftarrow> thread_create page [105, 100, 108, 101] PRI_MIN (Some (Idle idle_started)) s;
     Some s
   }"

definition idle_loop :: "kernel \<Rightarrow> kernel option" where
  "idle_loop s = do { s \<leftarrow> push_todo Idle_wake (intr_disable s); thread_block s }"

definition idle :: "nat \<Rightarrow> kernel \<Rightarrow> kernel option" where
  "idle idle_started s = do {
     t \<leftarrow> thread_current s;
     s \<leftarrow> push_todo Idle_loop (s\<lparr>idle_thread := Some t\<rparr>);
     push_todo (Do_sema_up (Sema idle_started)) s
   }"

text \<open>The function of any other thread consists of calls; the thread makes them itself.\<close>

definition kernel_thread :: "thread_func \<Rightarrow> kernel \<Rightarrow> kernel option" where
  "kernel_thread f s = do {
     s \<leftarrow> intr_enable s;
     case f of Idle x \<Rightarrow> idle x s | Func _ \<Rightarrow> Some s
   }"

subsection \<open>Steps of the kernel\<close>

text \<open>The running thread continues at the innermost place on its stack.\<close>

fun run_code :: "code \<Rightarrow> kernel \<Rightarrow> kernel option" where
  "run_code (Sema_down_loop x b) s = sema_down_loop x b s"
| "run_code (Lock_acquired l) s = lock_acquired l s"
| "run_code (Do_sema_up x) s = sema_up x s"
| "run_code (Do_sema_down x) s = sema_down x s"
| "run_code (Do_lock_acquire l) s = lock_acquire l s"
| "run_code (Yielded b) s = intr_set_level b s"
| "run_code Intr_return s = Some (s\<lparr>intr_on := True\<rparr>)"
| "run_code Intr_enable s = intr_enable s"
| "run_code (Kernel_thread f) s = kernel_thread f s"
| "run_code Idle_loop s = idle_loop s"
| "run_code Idle_wake s = push_todo Idle_loop (s\<lparr>intr_on := True\<rparr>)"
| "run_code (Tid_acquired t) s = tid_acquired t s"
| "run_code (Set_tid t i) s = set_tid t i s"
| "run_code (Create_rest t f) s = create_rest t f s"
| "run_code (Do_thread_unblock t) s = thread_unblock t s"
| "run_code (Cond_broadcast_loop c l) s = cond_broadcast c l s"
| "run_code (Timer_sleep_loop start n) s = timer_sleep_loop start n s"

definition continue :: "kernel \<Rightarrow> kernel option" where
  "continue s = do {
     th \<leftarrow> threads s (running s);
     case todo th of [] \<Rightarrow> None
     | c # cs \<Rightarrow> do {
         s \<leftarrow> set_thread (running s) (\<lambda>th. th\<lparr>todo := cs\<rparr>) s;
         run_code c s
       }
   }"

text \<open>The programs that use the kernel initialise a semaphore or a lock only while no thread uses it, and the
  page they get for a new thread is in no use.\<close>

definition sema_idle :: "sema_id \<Rightarrow> kernel \<Rightarrow> bool" where
  "sema_idle x s \<longleftrightarrow> (\<forall>sm. semas s x = Some sm \<longrightarrow> sm_waiters sm = []) \<and>
     (\<forall>th\<in>ran (threads s). \<forall>c\<in>set (todo th). c \<noteq> Do_sema_up x \<and> c \<noteq> Do_sema_down x \<and> (\<forall>b. c \<noteq> Sema_down_loop x b))"

definition lock_idle :: "lock_id \<Rightarrow> kernel \<Rightarrow> bool" where
  "lock_idle l s \<longleftrightarrow> lock_holder s l = None \<and> sema_idle (Lock_sema l) s \<and>
     (\<forall>th\<in>ran (threads s). Lock_acquired l \<notin> set (todo th))"

definition page_idle :: "u32 option \<Rightarrow> kernel \<Rightarrow> bool" where
  "page_idle page s \<longleftrightarrow> (\<forall>t. page = Some t \<longrightarrow> threads s t = None \<and> lock_idle (Child_lock t) s)"

text \<open>A thread that has nothing pending may make any of these calls. \<^verbatim>\<open>process_exit\<close> consists of calls that
  the thread makes before.\<close>

inductive call_step :: "kernel \<Rightarrow> kernel \<Rightarrow> bool" where
  sema_init: "sema_idle (Sema n) s \<Longrightarrow> call_step s (sema_init (Sema n) v s)"
| sema_down: "sema_down (Sema n) s = Some s' \<Longrightarrow> call_step s s'"
| sema_try_down: "sema_try_down (Sema n) s = Some (r, s') \<Longrightarrow> call_step s s'"
| sema_up: "sema_up (Sema n) s = Some s' \<Longrightarrow> call_step s s'"
| lock_init: "lock_idle l s \<Longrightarrow> call_step s (lock_init l s)"
| lock_acquire: "lock_acquire l s = Some s' \<Longrightarrow> call_step s s'"
| lock_try_acquire: "lock_try_acquire l s = Some (r, s') \<Longrightarrow> call_step s s'"
| lock_release: "lock_release l s = Some s' \<Longrightarrow> call_step s s'"
| cond_init: "call_step s (cond_init c s)"
| cond_wait: "cond_wait c l s = Some s' \<Longrightarrow> call_step s s'"
| cond_signal: "cond_signal c l s = Some s' \<Longrightarrow> call_step s s'"
| cond_broadcast: "cond_broadcast c l s = Some s' \<Longrightarrow> call_step s s'"
| thread_create: "thread_create page name prio (Some (Func n)) s = Some (r, s') \<Longrightarrow> page_idle page s \<Longrightarrow> call_step s s'"
| thread_yield: "thread_yield s = Some s' \<Longrightarrow> call_step s s'"
| thread_exit: "thread_exit Some s = Some s' \<Longrightarrow> call_step s s'"
| timer_sleep: "timer_sleep n s = Some s' \<Longrightarrow> call_step s s'"
| intr_set_level: "intr_set_level b s = Some s' \<Longrightarrow> call_step s s'"

text \<open>\<^verbatim>\<open>thread_start\<close> is called once, by the initial thread, before there are others.\<close>

inductive kstep :: "kernel \<Rightarrow> kernel \<Rightarrow> bool" where
  continues: "continue s = Some s' \<Longrightarrow> kstep s s'"
| calls: "threads s (running s) = Some th \<Longrightarrow> todo th = [] \<Longrightarrow> call_step s s' \<Longrightarrow> kstep s s'"
| starts: "threads s = [running s \<mapsto> th] \<Longrightarrow> todo th = [] \<Longrightarrow> thread_start page n s = Some s' \<Longrightarrow>
    sema_idle (Sema n) s \<Longrightarrow> page_idle page s \<Longrightarrow> kstep s s'"
| timer: "external_interrupt timer_interrupt s = Some s' \<Longrightarrow> kstep s s'"
| device: "external_interrupt (sema_up (Sema n)) s = Some s' \<Longrightarrow> kstep s s'"

text \<open>The kernel starts without threads and with interrupts off.\<close>

definition boot_kernel :: kernel where
  "boot_kernel = \<lparr>threads = Map.empty, running = 0, ready_list = [], all_list = [], idle_thread = None, initial_thread = 0,
     next_tid = 1, semas = Map.empty, lock_holder = (\<lambda>l. None), cond_waiters = (\<lambda>c. []), next_waiter = 0,
     intr_on = False, in_external_intr = False, yield_on_return = False, ticks = 0, thread_ticks = 0,
     idle_ticks = 0, kernel_ticks = 0, user_ticks = 0\<rparr>"

inductive reachable :: "kernel \<Rightarrow> bool" where
  init: "thread_init t boot_kernel = Some s \<Longrightarrow> reachable s"
| step: "reachable s \<Longrightarrow> kstep s s' \<Longrightarrow> reachable s'"

end
