(* ===== verification/Scheduler.thy ===== *)
theory Scheduler
  imports Synch
begin

section \<open>The invariant of the scheduler\<close>

text \<open>
  Which threads run, are ready and wait, and that the primitive changes of the kernel's state keep this
  consistent: changing the stack of the running thread, switching threads, giving up the processor,
  becoming ready, creating a thread. The operations themselves follow in the theory \<open>Kernel_Steps\<close>.
\<close>

subsection \<open>Counting the pending code of all threads\<close>

definition tally :: "(code \<Rightarrow> int) \<Rightarrow> kernel \<Rightarrow> int" where
  "tally w s = (\<Sum>t\<in>dom (threads s). \<Sum>c\<leftarrow>todo (the (threads s t)). w c)"

definition wsum :: "(code \<Rightarrow> int) \<Rightarrow> code list \<Rightarrow> int" where
  "wsum w cs = (\<Sum>c\<leftarrow>cs. w c)"

lemma wsum_simps [simp]: "wsum w [] = 0" "wsum w (c # cs) = w c + wsum w cs"
  by (simp_all add: wsum_def)

lemma tally_upd:
  assumes "finite (dom (threads s))" "threads s t = Some th"
  shows "tally w (s\<lparr>threads := (threads s)(t \<mapsto> th')\<rparr>) = tally w s - wsum w (todo th) + wsum w (todo th')"
proof -
  have d: "dom (threads s) = insert t (dom (threads s) - {t})"
    using assms(2) by auto
  have "tally w (s\<lparr>threads := (threads s)(t \<mapsto> th')\<rparr>) = wsum w (todo th') + (\<Sum>u\<in>dom (threads s) - {t}. wsum w (todo (the (threads s u))))"
    using assms(1) by (simp add: tally_def wsum_def sum.insert_remove)
  moreover have "tally w s = wsum w (todo th) + (\<Sum>u\<in>dom (threads s) - {t}. wsum w (todo (the (threads s u))))"
    unfolding tally_def wsum_def using assms by (subst d) (simp add: sum.insert_remove)
  ultimately show ?thesis by simp
qed

lemma tally_new:
  assumes "finite (dom (threads s))" "threads s t = None"
  shows "tally w (s\<lparr>threads := (threads s)(t \<mapsto> th')\<rparr>) = tally w s + wsum w (todo th')"
  using assms unfolding tally_def wsum_def 
  by (auto simp: domIff intro!: sum.cong)

lemma tally_del:
  assumes "finite (dom (threads s))" "threads s t = Some th" "todo th = []"
  shows "tally w (s\<lparr>threads := (threads s)(t := None)\<rparr>) = tally w s"
  using assms unfolding tally_def 
  by (auto simp: sum_diff1 intro!: sum.mono_neutral_cong_left)

lemma tally_cong: "threads s' = threads s \<Longrightarrow> tally w s' = tally w s"
  by (simp add: tally_def)

lemma tally_frame [simp]: "tally w (s\<lparr>lock_holder := h\<rparr>) = tally w s" "tally w (s\<lparr>semas := m\<rparr>) = tally w s"
  "tally w (s\<lparr>cond_waiters := q\<rparr>) = tally w s" "tally w (s\<lparr>next_waiter := n\<rparr>) = tally w s" "tally w (s\<lparr>intr_on := b\<rparr>) = tally w s"
  "tally w (s\<lparr>ready_list := ts\<rparr>) = tally w s" "tally w (s\<lparr>all_list := ts\<rparr>) = tally w s" "tally w (s\<lparr>next_tid := i\<rparr>) = tally w s"
  by (simp_all add: tally_def)

lemma tally_zero: "(\<And>t th c. threads s t = Some th \<Longrightarrow> c \<in> set (todo th) \<Longrightarrow> w c = 0) \<Longrightarrow> tally w s = 0"
  unfolding tally_def by (intro sum.neutral ballI) (auto simp: sum_list_nonneg_eq_0_iff cong: map_cong)

lemma tally_ge:
  assumes "finite (dom (threads s))" "threads s t = Some th" "\<forall>u th'. threads s u = Some th' \<longrightarrow> 0 \<le> wsum w (todo th')"
  shows "wsum w (todo th) \<le> tally w s"
  unfolding tally_def wsum_def [symmetric]
  using member_le_sum [of t "dom (threads s)" "\<lambda>t. wsum w (todo (the (threads s t)))"] assms
  by (auto simp: domIff)

lemma tally_nonneg:
  assumes "\<forall>u th'. threads s u = Some th' \<longrightarrow> 0 \<le> wsum w (todo th')"
  shows "0 \<le> tally w s"
  unfolding tally_def wsum_def [symmetric] using assms by (auto intro!: sum_nonneg)

lemma tally_two:
  assumes "finite (dom (threads s))" "threads s t = Some th" "threads s u = Some th'" "t \<noteq> u"
    "\<forall>u th'. threads s u = Some th' \<longrightarrow> 0 \<le> wsum w (todo th')"
  shows "wsum w (todo th) + wsum w (todo th') \<le> tally w s"
proof -
  let ?f = "\<lambda>t. wsum w (todo (the (threads s t)))"
  have "sum ?f {t, u} \<le> sum ?f (dom (threads s))"
    using assms by (intro sum_mono2) auto
  thus ?thesis using assms by (simp add: tally_def wsum_def)
qed

lemma wsum_nonneg: "(\<And>c. 0 \<le> w c) \<Longrightarrow> 0 \<le> wsum w cs"
  by (induction cs) simp_all

lemma wsum_ge: "(\<And>c. 0 \<le> w c) \<Longrightarrow> c \<in> set cs \<Longrightarrow> w c \<le> wsum w cs"
  by (induction cs) (auto simp: wsum_nonneg add_increasing add_increasing2)

subsection \<open>The invariant of the scheduler\<close>

text \<open>A thread that does not run continues at one of these places.\<close>

fun resume :: "code \<Rightarrow> bool" where
  "resume (Sema_down_loop x b) = True"
| "resume (Yielded b) = True"
| "resume Idle_wake = True"
| "resume (Kernel_thread f) = True"
| "resume _ = False"

definition resumes :: "code list \<Rightarrow> bool" where
  "resumes cs \<longleftrightarrow> cs \<noteq> [] \<and> resume (hd cs)"

fun stack_ok :: "code list \<Rightarrow> bool" where
  "stack_ok [] = True"
| "stack_ok (c # cs) = ((\<forall>d\<in>set cs. \<not> resume d) \<and> (\<forall>l. Do_sema_down (Lock_sema l) \<notin> set (c # cs)) \<and>
     (\<forall>l b. c = Sema_down_loop (Lock_sema l) b \<longrightarrow> (\<exists>cs'. cs = Lock_acquired l # cs')) \<and> (\<forall>f. c = Kernel_thread f \<longrightarrow> cs = []))"

definition waiters :: "kernel \<Rightarrow> sema_id \<Rightarrow> u32 list" where
  "waiters s x = (case semas s x of None \<Rightarrow> [] | Some sm \<Rightarrow> sm_waiters sm)"

definition idle_only :: "code list \<Rightarrow> bool" where
  "idle_only cs \<longleftrightarrow> Idle_loop \<in> set cs \<or> Idle_wake \<in> set cs"

lemma idle_only_simps [simp]: "\<not> idle_only []" "idle_only (c # cs) \<longleftrightarrow> c = Idle_loop \<or> c = Idle_wake \<or> idle_only cs"
  by (auto simp: idle_only_def)

definition thread_ok :: "kernel \<Rightarrow> u32 \<Rightarrow> kthread \<Rightarrow> bool" where
  "thread_ok s t th \<longleftrightarrow> t \<noteq> 0 \<and> t_magic th = THREAD_MAGIC \<and> stack_ok (todo th) \<and>
     (idle_only (todo th) \<longrightarrow> idle_thread s = Some t) \<and>
     (case status th of
        THREAD_RUNNING \<Rightarrow> t = running s \<and> (intr_on s \<longrightarrow> \<not> resumes (todo th))
      | THREAD_READY \<Rightarrow> (t \<in> set (ready_list s) \<or> idle_thread s = Some t) \<and> resumes (todo th)
      | THREAD_BLOCKED \<Rightarrow> (\<exists>x b cs. todo th = Sema_down_loop x b # cs \<and> t \<in> set (waiters s x))
          \<or> idle_thread s = Some t \<or> todo th = [] \<or> (\<exists>f. todo th = [Kernel_thread f])
      | THREAD_DYING \<Rightarrow> todo th = [] \<and> (t = initial_thread s \<or> t = running s))"

definition ready_ok :: "kernel \<Rightarrow> bool" where
  "ready_ok s \<longleftrightarrow> distinct (ready_list s) \<and>
     (\<forall>t\<in>set (ready_list s). idle_thread s \<noteq> Some t \<and> (\<exists>th. threads s t = Some th \<and> status th = THREAD_READY))"

definition waiters_ok :: "kernel \<Rightarrow> bool" where
  "waiters_ok s \<longleftrightarrow> (\<forall>x. distinct (waiters s x) \<and> (\<forall>t\<in>set (waiters s x).
     \<exists>th b cs. threads s t = Some th \<and> status th = THREAD_BLOCKED \<and> todo th = Sema_down_loop x b # cs))"

fun idle_code :: "code \<Rightarrow> bool" where
  "idle_code Idle_loop = True"
| "idle_code Idle_wake = True"
| "idle_code (Yielded b) = True"
| "idle_code Intr_return = True"
| "idle_code (Do_sema_up (Sema n)) = True"
| "idle_code _ = False"

definition idle_tail :: "code list \<Rightarrow> bool" where
  "idle_tail cs \<longleftrightarrow> cs \<noteq> [] \<and> (last cs = Idle_loop \<or> last cs = Idle_wake)"

definition idle_ok :: "kernel \<Rightarrow> bool" where
  "idle_ok s \<longleftrightarrow> (\<forall>i. idle_thread s = Some i \<longrightarrow>
     (\<exists>th. threads s i = Some th \<and> status th \<noteq> THREAD_DYING \<and> list_all idle_code (todo th) \<and>
       (status th \<noteq> THREAD_RUNNING \<longrightarrow> resumes (todo th) \<and> idle_tail (todo th))))"

text \<open>A thread under construction has one creator, and there is one idle thread.\<close>

fun create_ok :: "kernel \<Rightarrow> code \<Rightarrow> bool" where
  "create_ok s (Create_rest t f) = (\<exists>th. threads s t = Some th \<and> status th = THREAD_BLOCKED \<and> todo th = [])"
| "create_ok s (Do_thread_unblock t) = (\<exists>th f. threads s t = Some th \<and> status th = THREAD_BLOCKED \<and> todo th = [Kernel_thread f])"
| "create_ok s _ = True"

fun creates :: "u32 \<Rightarrow> code \<Rightarrow> int" where
  "creates t (Create_rest u f) = of_bool (t = u)"
| "creates t (Do_thread_unblock u) = of_bool (t = u)"
| "creates t _ = 0"

fun starts_idle :: "code \<Rightarrow> int" where
  "starts_idle (Create_rest t (Idle n)) = 1"
| "starts_idle (Kernel_thread (Idle n)) = 1"
| "starts_idle _ = 0"

definition idle_count :: "kernel \<Rightarrow> int" where
  "idle_count s = tally starts_idle s + of_bool (idle_thread s \<noteq> None)"

definition shape :: "kernel \<Rightarrow> bool" where
  "shape s \<longleftrightarrow> finite (dom (threads s)) \<and> (\<forall>t th. threads s t = Some th \<longrightarrow> thread_ok s t th) \<and>
     ready_ok s \<and> waiters_ok s \<and> idle_ok s \<and>
     (\<forall>t th. threads s t = Some th \<longrightarrow> list_all (create_ok s) (todo th)) \<and>
     (\<forall>t. tally (creates t) s \<le> 1) \<and> idle_count s \<le> 1"

text \<open>\<open>mid\<close> holds inside of a step, where the running thread has taken the innermost place from its stack.
  \<open>kinv\<close> holds between the steps.\<close>

definition mid :: "kernel \<Rightarrow> bool" where
  "mid s \<longleftrightarrow> shape s \<and> (\<exists>th. threads s (running s) = Some th \<and> status th = THREAD_RUNNING \<and> (\<forall>c\<in>set (todo th). \<not> resume c))"

definition krun :: "kernel \<Rightarrow> bool" where
  "krun s \<longleftrightarrow> shape s \<and> (\<exists>th. threads s (running s) = Some th \<and> status th = THREAD_RUNNING \<and>
     (idle_thread s = Some (running s) \<longrightarrow> idle_tail (todo th)))"

definition kinv :: "kernel \<Rightarrow> bool" where
  "kinv s \<longleftrightarrow> krun s \<and> \<not> in_external_intr s"

lemma mid_krun: "mid s \<Longrightarrow> idle_thread s \<noteq> Some (running s) \<Longrightarrow> krun s"
  by (auto simp: mid_def krun_def)

lemma idle_tail_Cons: "idle_tail cs \<Longrightarrow> idle_tail (c # cs)"
  by (simp add: idle_tail_def)

lemma creates_nonneg [simp]: "0 \<le> creates t c"
  by (cases "(t, c)" rule: creates.cases) auto

lemma starts_idle_nonneg [simp]: "0 \<le> starts_idle c"
  by (cases c rule: starts_idle.cases) auto

lemma stack_ok_push: "\<forall>c\<in>set cs. \<not> resume c \<Longrightarrow> stack_ok cs \<Longrightarrow>
    (\<forall>l. c \<noteq> Do_sema_down (Lock_sema l)) \<Longrightarrow> (\<forall>f. c \<noteq> Kernel_thread f) \<Longrightarrow> (\<forall>l b. c = Sema_down_loop (Lock_sema l) b \<longrightarrow> (\<exists>cs'. cs = Lock_acquired l # cs')) \<Longrightarrow>
    stack_ok (c # cs)"
  by (cases cs) auto

lemma stack_ok_tl: "stack_ok (c # cs) \<Longrightarrow> stack_ok cs \<and> (\<forall>c\<in>set cs. \<not> resume c)"
  by (cases cs) auto

lemma shapeD:
  assumes "shape s"
  shows "finite (dom (threads s))" "threads s t = Some th \<Longrightarrow> thread_ok s t th" "ready_ok s" "waiters_ok s" "idle_ok s"
    "threads s t = Some th \<Longrightarrow> c \<in> set (todo th) \<Longrightarrow> create_ok s c" "tally (creates t) s \<le> 1" "idle_count s \<le> 1"
  using assms by (auto simp: shape_def list_all_iff)

lemma shape_creator:
  assumes "shape s" "threads s t = Some th" "c \<in> set (todo th)" "creates u c = 1" "threads s t' = Some th'" "d \<in> set (todo th')" "creates u d = 1"
  shows "t' = t"
proof (rule ccontr)
  assume n: "t' \<noteq> t"
  have "wsum (creates u) (todo th) + wsum (creates u) (todo th') \<le> tally (creates u) s"
    by (rule tally_two [of s t th t' th']) (use assms n in \<open>auto simp: wsum_nonneg shapeD(1)\<close>)
  moreover have "1 \<le> wsum (creates u) (todo th)" "1 \<le> wsum (creates u) (todo th')"
    using wsum_ge [of "creates u" c "todo th"] wsum_ge [of "creates u" d "todo th'"] assms by auto
  ultimately show False using shapeD(7) [OF assms(1), of u] by linarith
qed

text \<open>Only these parts of the state matter.\<close>

lemma shape_cong:
  assumes "threads s' = threads s" "running s' = running s" "ready_list s' = ready_list s" "idle_thread s' = idle_thread s"
    "initial_thread s' = initial_thread s" "waiters s' = waiters s" "intr_on s' = intr_on s"
  shows "shape s' = shape s"
proof -
  have "create_ok s' c = create_ok s c" for c
    by (cases "(s, c)" rule: create_ok.cases) (auto simp: assms)
  hence c: "create_ok s' = create_ok s" by auto
  show ?thesis
    using assms by (simp add: shape_def thread_ok_def ready_ok_def waiters_ok_def idle_ok_def idle_count_def tally_cong [of s' s] c cong: thread_status.case_cong)
qed

lemma shape_intr_off: "shape s \<Longrightarrow> shape (s\<lparr>intr_on := False\<rparr>)"
proof -
  let ?s = "s\<lparr>intr_on := False\<rparr>"
  assume a: "shape s"
  have "create_ok ?s c = create_ok s c" for c
    by (cases "(s, c)" rule: create_ok.cases) auto
  hence c: "create_ok ?s = create_ok s" by auto
  have w: "waiters ?s = waiters s" by (auto simp: waiters_def)
  show ?thesis using a unfolding shape_def thread_ok_def ready_ok_def waiters_ok_def idle_ok_def idle_count_def c w
    by (auto simp: tally_cong [of ?s s] split: thread_status.splits)
qed

lemma create_ok_upd:
  assumes "create_ok s c" "threads s t = Some th" "status th \<noteq> THREAD_BLOCKED"
  shows "create_ok (s\<lparr>threads := (threads s)(t \<mapsto> th')\<rparr>) c"
  using assms by (cases "(s, c)" rule: create_ok.cases) auto

lemma waiters_threads [simp]: "waiters (s\<lparr>threads := ts\<rparr>) = waiters s"
  by (auto simp: waiters_def)

lemma thread_ok_threads [simp]: "thread_ok (s\<lparr>threads := ts\<rparr>) u th = thread_ok s u th"
  by (simp add: thread_ok_def cong: thread_status.case_cong)

text \<open>The running thread changes its stack.\<close>

lemma shape_todo:
  assumes sh: "shape s" and th: "threads s (running s) = Some th" "status th = THREAD_RUNNING" and io: "idle_only cs \<longrightarrow> idle_thread s = Some (running s)"
    and ok: "stack_ok cs" "intr_on s \<longrightarrow> \<not> resumes cs"
    "idle_thread s = Some (running s) \<longrightarrow> list_all idle_code cs" "list_all (create_ok s) cs"
    "\<forall>u. tally (creates u) s - wsum (creates u) (todo th) + wsum (creates u) cs \<le> 1"
    "idle_count s - wsum starts_idle (todo th) + wsum starts_idle cs \<le> 1"
  shows "shape (s\<lparr>threads := (threads s)(running s \<mapsto> th\<lparr>todo := cs\<rparr>)\<rparr>)" (is "shape ?s")
proof -
  note c = create_ok_upd [OF _ th(1), of _ "th\<lparr>todo := cs\<rparr>"]
  have "thread_ok ?s t th'" if "threads ?s t = Some th'" for t th'
  proof (cases "t = running s")
    case True
    thus ?thesis using that ok(1,2) io shapeD(2) [OF sh th(1)] th(2) unfolding thread_ok_threads by (auto simp: thread_ok_def)
  next
    case False
    thus ?thesis using that shapeD(2) [OF sh, of t th'] by simp
  qed
  moreover have "ready_ok ?s" using shapeD(3) [OF sh] th by (auto simp: ready_ok_def)
  moreover have "waiters_ok ?s" using shapeD(4) [OF sh] th by (fastforce simp: waiters_ok_def)
  moreover have "idle_ok ?s" using shapeD(5) [OF sh] th ok(3) by (auto simp: idle_ok_def)
  moreover have "list_all (create_ok ?s) (todo th')" if "threads ?s t = Some th'" for t th'
    using that ok(4) shapeD(6) [OF sh, of t th'] th c by (auto simp: list_all_iff split: if_splits)
  ultimately show ?thesis
    using ok(5,6) shapeD(1) [OF sh] th by (simp add: shape_def tally_upd idle_count_def)
qed

lemma midD: "mid s \<Longrightarrow> shape s"
  "mid s \<Longrightarrow> \<exists>th. threads s (running s) = Some th \<and> status th = THREAD_RUNNING \<and> (\<forall>c\<in>set (todo th). \<not> resume c)"
  by (auto simp: mid_def)

text \<open>Pushing a place at which only a running thread continues.\<close>

lemma push_mid:
  assumes m: "mid s" and p: "push_todo c s = Some s'" and c0: "c = Idle_loop \<longrightarrow> idle_thread s = Some (running s)"
    and c: "\<not> resume c" "\<forall>l. c \<noteq> Do_sema_down (Lock_sema l)"
    "idle_thread s = Some (running s) \<longrightarrow> idle_code c" "create_ok s c" "\<forall>u. creates u c \<noteq> 0 \<longrightarrow> tally (creates u) s = 0"
    "starts_idle c \<noteq> 0 \<longrightarrow> idle_count s = 0"
  shows "mid s'"
proof -
  obtain th where th: "threads s (running s) = Some th" "status th = THREAD_RUNNING" "\<forall>c\<in>set (todo th). \<not> resume c"
    using midD(2) [OF m] by blast
  have sh: "shape s" by (rule midD(1) [OF m])
  have s': "s' = s\<lparr>threads := (threads s)(running s \<mapsto> th\<lparr>todo := c # todo th\<rparr>)\<rparr>"
    using p th by (simp add: push_todo_def set_thread_def)
  have st: "stack_ok (c # todo th)"
    by (rule stack_ok_push) (use th(3) c(1,2) shapeD(2) [OF sh th(1)] in \<open>auto simp: thread_ok_def\<close>)
  have d: "creates u c \<le> 1 - tally (creates u) s" for u
    using c(5) shapeD(7) [OF sh, of u] by (cases "(u, c)" rule: creates.cases) auto
  have e: "starts_idle c \<le> 1 - idle_count s"
    using c(6) shapeD(8) [OF sh] by (cases c rule: starts_idle.cases) auto
  have "tally (creates u) s - wsum (creates u) (todo th) + wsum (creates u) (c # todo th) \<le> 1" for u
    using d [of u] by simp
  moreover have "idle_count s - wsum starts_idle (todo th) + wsum starts_idle (c # todo th) \<le> 1"
    using e by simp
  moreover have "idle_thread s = Some (running s) \<longrightarrow> list_all idle_code (c # todo th)" "list_all (create_ok s) (c # todo th)"
    using shapeD(5) [OF sh] th(1) shapeD(6) [OF sh th(1)] c by (auto simp: idle_ok_def list_all_iff)
  moreover have "\<not> resumes (c # todo th)" using c(1) by (simp add: resumes_def)
  moreover have "idle_only (c # todo th) \<longrightarrow> idle_thread s = Some (running s)"
    using c0 c(1) shapeD(2) [OF sh th(1)] by (auto simp: thread_ok_def)
  ultimately have "shape s'" unfolding s' using shape_todo [OF sh th(1,2) _ st] by blast
  thus ?thesis using th c(1) by (auto simp: mid_def s')
qed

text \<open>Taking the innermost place from the stack.\<close>

lemma pop_mid:
  assumes k: "kinv s" and th: "threads s (running s) = Some th" "todo th = c # cs"
    and s': "s' = s\<lparr>threads := (threads s)(running s \<mapsto> th\<lparr>todo := cs\<rparr>)\<rparr>"
  shows "mid s'" "create_ok s c \<Longrightarrow> create_ok s' c" "idle_count s' = idle_count s - starts_idle c"
    "tally w s' = tally w s - w c" "idle_thread s = Some (running s) \<longrightarrow> idle_code c" "create_ok s c" "resume c \<longrightarrow> \<not> intr_on s"
    "\<forall>l b. c = Sema_down_loop (Lock_sema l) b \<longrightarrow> (\<exists>cs'. cs = Lock_acquired l # cs')" "\<forall>l. c \<noteq> Do_sema_down (Lock_sema l)"
    "\<forall>f. c = Kernel_thread f \<longrightarrow> cs = []" "c = Idle_loop \<or> c = Idle_wake \<longrightarrow> idle_thread s = Some (running s)"
proof -
  have sh: "shape s" and r: "status th = THREAD_RUNNING" using k th by (auto simp: kinv_def krun_def)
  have io: "idle_only (c # cs) \<longrightarrow> idle_thread s = Some (running s)" using shapeD(2) [OF sh th(1)] th(2) by (auto simp: thread_ok_def)
  thus "c = Idle_loop \<or> c = Idle_wake \<longrightarrow> idle_thread s = Some (running s)" by auto
  have ok: "stack_ok (c # cs)" "intr_on s \<longrightarrow> \<not> resumes (c # cs)"
    using shapeD(2) [OF sh th(1)] th(2) r by (auto simp: thread_ok_def)
  show "tally w s' = tally w s - w c" for w
    unfolding s' using th by (simp add: tally_upd shapeD(1) [OF sh])
  hence t: "tally starts_idle s' = tally starts_idle s - starts_idle c" .
  show "idle_count s' = idle_count s - starts_idle c"
    using t by (simp add: idle_count_def s')
  have i: "idle_thread s = Some (running s) \<longrightarrow> list_all idle_code (c # cs)"
    using shapeD(5) [OF sh] th by (auto simp: idle_ok_def)
  thus "idle_thread s = Some (running s) \<longrightarrow> idle_code c" by simp
  have co: "list_all (create_ok s) (c # cs)" using shapeD(6) [OF sh th(1)] th(2) by (auto simp: list_all_iff)
  thus "create_ok s c" by simp
  show "create_ok s c \<Longrightarrow> create_ok s' c" unfolding s' by (rule create_ok_upd) (use th r in auto)
  show "resume c \<longrightarrow> \<not> intr_on s" using ok(2) by (auto simp: resumes_def)
  show "\<forall>l b. c = Sema_down_loop (Lock_sema l) b \<longrightarrow> (\<exists>cs'. cs = Lock_acquired l # cs')" "\<forall>l. c \<noteq> Do_sema_down (Lock_sema l)"
    "\<forall>f. c = Kernel_thread f \<longrightarrow> cs = []"
    using ok(1) by auto
  have "tally (creates u) s - wsum (creates u) (todo th) + wsum (creates u) cs \<le> 1" for u
    using shapeD(7) [OF sh, of u] creates_nonneg [of u c] unfolding th(2) wsum_simps by linarith
  moreover have "idle_count s - wsum starts_idle (todo th) + wsum starts_idle cs \<le> 1"
    using shapeD(8) [OF sh] starts_idle_nonneg [of c] unfolding th(2) wsum_simps by linarith
  moreover have "\<not> resumes cs" using stack_ok_tl [OF ok(1)] by (auto simp: resumes_def)
  ultimately have "shape s'" unfolding s'
    using shape_todo [OF sh th(1) r] stack_ok_tl [OF ok(1)] i co io by auto
  thus "mid s'" using stack_ok_tl [OF ok(1)] r by (auto simp: mid_def s')
qed

text \<open>What \<^verbatim>\<open>schedule\<close> does, and that it leads back to the invariant once the running thread has got another
  status.\<close>

lemma schedule_effect:
  assumes "schedule s = Some s'"
  shows "\<exists>n. \<not> intr_on s \<and> threads s n \<noteq> None \<and> running s' = n \<and>
    (ready_list s = [] \<and> idle_thread s = Some n \<and> ready_list s' = [] \<or> ready_list s = n # ready_list s') \<and>
    s' = s\<lparr>running := n, ready_list := ready_list s', thread_ticks := 0, threads := threads s'\<rparr> \<and>
    (\<exists>th c. threads s n = Some th \<and> threads s (running s) = Some c \<and> status c \<noteq> THREAD_RUNNING \<and>
       (if running s \<noteq> n \<and> status c = THREAD_DYING \<and> running s \<noteq> initial_thread s
        then threads s' = (threads s)(n \<mapsto> th\<lparr>status := THREAD_RUNNING\<rparr>, running s := None)
        else threads s' = (threads s)(n \<mapsto> th\<lparr>status := THREAD_RUNNING\<rparr>)))"
  using assms
  by (auto simp: schedule_def next_thread_to_run_def thread_schedule_tail_def set_status_def set_thread_def Let_def is_thread_def
      split: list.splits if_splits option.splits bind_splits)

definition off :: "kernel \<Rightarrow> bool" where
  "off s \<longleftrightarrow> shape s \<and> \<not> intr_on s \<and> (\<exists>th. threads s (running s) = Some th \<and> status th \<noteq> THREAD_RUNNING)"


lemma shape_not_idle:
  assumes "shape s" "threads s t = Some th" "status th = THREAD_BLOCKED" "todo th = [] \<or> (\<exists>c\<in>set (todo th). \<not> idle_code c)"
  shows "idle_thread s \<noteq> Some t"
  using shapeD(5) [OF assms(1)] assms(2-) by (auto simp: idle_ok_def list_all_iff resumes_def)

lemma create_ok_not_idle:
  assumes "shape s" "idle_thread s = Some i" "threads s i = Some th" "create_ok s c"
  shows "create_ok (s\<lparr>threads := (threads s)(i \<mapsto> th')\<rparr>) c"
  using assms shape_not_idle [OF assms(1,3)] by (cases "(s, c)" rule: create_ok.cases) auto

lemma create_ok_cong: "threads s' = threads s \<Longrightarrow> create_ok s' c = create_ok s c"
  by (cases "(s, c)" rule: create_ok.cases) auto

lemma next_status:
  assumes o: "off s" and n: "threads s n = Some th" "ready_list s = [] \<and> idle_thread s = Some n \<or> n \<in> set (ready_list s)"
  shows "status th = THREAD_READY \<or> status th = THREAD_BLOCKED \<and> idle_thread s = Some n"
proof -
  have sh: "shape s" using o by (simp add: off_def)
  have "n \<in> set (ready_list s) \<Longrightarrow> status th = THREAD_READY"
    using shapeD(3) [OF sh] n(1) by (auto simp: ready_ok_def)
  moreover have "status th \<noteq> THREAD_DYING" if "idle_thread s = Some n"
    using shapeD(5) [OF sh] n(1) that by (auto simp: idle_ok_def)
  moreover have "status th \<noteq> THREAD_RUNNING"
    using shapeD(2) [OF sh n(1)] o n(1) by (auto simp: off_def thread_ok_def)
  ultimately show ?thesis using n(2) by (cases "status th") auto
qed

definition dying :: "kernel \<Rightarrow> u32 \<Rightarrow> bool" where
  "dying s u \<longleftrightarrow> u = running s \<and> u \<noteq> initial_thread s \<and> (\<exists>th. threads s u = Some th \<and> status th = THREAD_DYING)"

definition switched :: "kernel \<Rightarrow> u32 \<Rightarrow> kthread \<Rightarrow> kernel \<Rightarrow> bool" where
  "switched s n th s' \<longleftrightarrow> off s \<and> threads s n = Some th \<and>
     (status th = THREAD_READY \<or> status th = THREAD_BLOCKED \<and> idle_thread s = Some n) \<and> running s' = n \<and>
     (ready_list s = [] \<and> idle_thread s = Some n \<and> ready_list s' = [] \<or> ready_list s = n # ready_list s') \<and>
     s' = s\<lparr>running := n, ready_list := ready_list s', thread_ticks := 0, threads := threads s'\<rparr> \<and>
     threads s' = (\<lambda>u. if u = n then Some (th\<lparr>status := THREAD_RUNNING\<rparr>) else if dying s u then None else threads s u)"

lemma schedule_switched:
  assumes o: "off s" and s: "schedule s = Some s'"
  shows "\<exists>n th. switched s n th s'"
proof -
  obtain n th c where n: "threads s n = Some th" "running s' = n"
    "ready_list s = [] \<and> idle_thread s = Some n \<and> ready_list s' = [] \<or> ready_list s = n # ready_list s'"
    and c: "threads s (running s) = Some c" "status c \<noteq> THREAD_RUNNING"
    and s': "s' = s\<lparr>running := n, ready_list := ready_list s', thread_ticks := 0, threads := threads s'\<rparr>"
    and t: "if running s \<noteq> n \<and> status c = THREAD_DYING \<and> running s \<noteq> initial_thread s
        then threads s' = (threads s)(n \<mapsto> th\<lparr>status := THREAD_RUNNING\<rparr>, running s := None)
        else threads s' = (threads s)(n \<mapsto> th\<lparr>status := THREAD_RUNNING\<rparr>)"
    using schedule_effect [OF s] by blast
  have st: "status th = THREAD_READY \<or> status th = THREAD_BLOCKED \<and> idle_thread s = Some n"
    by (rule next_status [OF o n(1)]) (use n(3) in auto)
  have "threads s' u = (if u = n then Some (th\<lparr>status := THREAD_RUNNING\<rparr>) else if dying s u then None else threads s u)" for u
    using t n(1) c(1) st by (auto simp: dying_def split: if_splits)
  thus ?thesis using o n st s' unfolding switched_def fun_eq_iff by blast
qed

lemma switched_threads: "switched s n th s' \<Longrightarrow>
    threads s' u = (if u = n then Some (th\<lparr>status := THREAD_RUNNING\<rparr>) else if dying s u then None else threads s u)"
  unfolding switched_def by metis

lemma switchedD:
  assumes "switched s n th s'"
  shows "off s" "shape s" "threads s n = Some th" "status th = THREAD_READY \<or> status th = THREAD_BLOCKED \<and> idle_thread s = Some n"
    "running s' = n" "ready_list s = [] \<and> idle_thread s = Some n \<and> ready_list s' = [] \<or> ready_list s = n # ready_list s'"
    "idle_thread s' = idle_thread s" "waiters s' = waiters s" "initial_thread s' = initial_thread s" "intr_on s' = intr_on s"
    "semas s' = semas s"
proof -
  have s': "s' = s\<lparr>running := n, ready_list := ready_list s', thread_ticks := 0, threads := threads s'\<rparr>"
    using assms unfolding switched_def by blast
  show "idle_thread s' = idle_thread s" "waiters s' = waiters s" "initial_thread s' = initial_thread s" "intr_on s' = intr_on s"
    "semas s' = semas s"
    by (subst s', simp add: waiters_def fun_eq_iff)+
  show "off s" "threads s n = Some th" "status th = THREAD_READY \<or> status th = THREAD_BLOCKED \<and> idle_thread s = Some n"
    "running s' = n" "ready_list s = [] \<and> idle_thread s = Some n \<and> ready_list s' = [] \<or> ready_list s = n # ready_list s'"
    using assms unfolding switched_def by blast+
  thus "shape s" by (simp add: off_def)
qed

lemma switched_tally:
  assumes sw: "switched s n th s'"
  shows "tally w s' = tally w s"
proof -
  note d = switchedD [OF sw]
  let ?s1 = "s\<lparr>threads := (threads s)(n \<mapsto> th\<lparr>status := THREAD_RUNNING\<rparr>)\<rparr>"
  have fin: "finite (dom (threads s))" by (rule shapeD(1) [OF d(2)])
  have 1: "tally w ?s1 = tally w s" by (simp add: tally_upd [OF fin d(3)])
  show ?thesis
  proof (cases "\<exists>u. u \<noteq> n \<and> dying s u")
    case True
    then obtain c where c: "running s \<noteq> n" "dying s (running s)" "threads s (running s) = Some c" "status c = THREAD_DYING"
      by (auto simp: dying_def)
    have "todo c = []" using shapeD(2) [OF d(2) c(3)] c(4) by (simp add: thread_ok_def)
    hence "tally w (?s1\<lparr>threads := (threads ?s1)(running s := None)\<rparr>) = tally w ?s1"
      by (intro tally_del) (use fin c in auto)
    moreover have "threads s' = (threads ?s1)(running s := None)"
      using c(1,2) by (auto simp: switched_threads [OF sw] fun_eq_iff dying_def)
    ultimately show ?thesis using 1 tally_cong [of s' "?s1\<lparr>threads := (threads ?s1)(running s := None)\<rparr>"] by simp
  next
    case False
    hence "threads s' = threads ?s1" by (auto simp: switched_threads [OF sw] fun_eq_iff)
    thus ?thesis using 1 tally_cong by metis
  qed
qed

lemma switched_ready:
  assumes sw: "switched s n th s'"
  shows "ready_ok s'"
proof -
  note d = switchedD [OF sw]
  have r: "ready_list s' = [] \<or> distinct (n # ready_list s')" using d(6) shapeD(3) [OF d(2)] by (auto simp: ready_ok_def)
  have "idle_thread s \<noteq> Some u \<and> (\<exists>th. threads s' u = Some th \<and> status th = THREAD_READY)" if u: "u \<in> set (ready_list s')" for u
  proof -
    have "u \<in> set (ready_list s)" using u d(6) by auto
    then obtain th' where "threads s u = Some th'" "status th' = THREAD_READY" "idle_thread s \<noteq> Some u"
      using shapeD(3) [OF d(2)] by (auto simp: ready_ok_def)
    moreover have "u \<noteq> n" using r u by auto
    ultimately show ?thesis by (auto simp: switched_threads [OF sw] dying_def)
  qed
  thus ?thesis using r d(7) by (auto simp: ready_ok_def)
qed

lemma switched_waiters:
  assumes sw: "switched s n th s'"
  shows "waiters_ok s'"
  unfolding waiters_ok_def switchedD(8) [OF sw]
proof (intro allI conjI ballI)
  note d = switchedD [OF sw]
  fix x u assume u: "u \<in> set (waiters s x)"
  then obtain th' b cs where u: "threads s u = Some th'" "status th' = THREAD_BLOCKED" "todo th' = Sema_down_loop x b # cs"
    using shapeD(4) [OF d(2)] unfolding waiters_ok_def by blast
  moreover have "u \<noteq> n" using d(3,4) u shape_not_idle [OF d(2) u(1)] by auto
  ultimately show "\<exists>th b cs. threads s' u = Some th \<and> status th = THREAD_BLOCKED \<and> todo th = Sema_down_loop x b # cs"
    by (auto simp: switched_threads [OF sw] dying_def)
qed (use shapeD(4) [OF switchedD(2) [OF sw]] in \<open>auto simp: waiters_ok_def\<close>)

lemma switched_thread_ok:
  assumes sw: "switched s n th s'" and u: "threads s' u = Some th'"
  shows "thread_ok s' u th'"
proof (cases "u = n")
  note d = switchedD [OF sw]
  case True
  thus ?thesis using u switched_threads [OF sw, of u] shapeD(2) [OF d(2,3)] d(1,5,7,10) by (auto simp: thread_ok_def off_def)
next
  note d = switchedD [OF sw]
  case False
  hence u': "threads s u = Some th'" "\<not> dying s u"
    using u switched_threads [OF sw, of u] by (auto split: if_splits)
  have "u \<in> set (ready_list s) \<Longrightarrow> u \<in> set (ready_list s')" using d(6) False by auto
  moreover have "status th' \<noteq> THREAD_RUNNING"
    using u'(1) d(1) shapeD(2) [OF d(2) u'(1)] by (auto simp: thread_ok_def off_def)
  ultimately show ?thesis using u' shapeD(2) [OF d(2) u'(1)] unfolding thread_ok_def d(7-10)
    by (auto simp: dying_def split: thread_status.splits)
qed

lemma schedule_shape:
  assumes o: "off s" and s: "schedule s = Some s'"
  shows "krun s'" "tally w s' = tally w s"
proof -
  obtain n th where sw: "switched s n th s'" using schedule_switched [OF o s] by blast
  note d = switchedD [OF sw] and t = switched_threads [OF sw]
  show "tally w s' = tally w s" by (rule switched_tally [OF sw])
  have co: "create_ok s' c" if "create_ok s c" for c
    using that d(3,4) shape_not_idle [OF d(2,3)] by (cases "(s, c)" rule: create_ok.cases) (auto simp: t dying_def)
  have "idle_ok s'" using shapeD(5) [OF d(2)] d(3,7) by (auto simp: idle_ok_def t dying_def)
  moreover have "list_all (create_ok s') (todo th')" if "threads s' u = Some th'" for u th'
    using that shapeD(6) [OF d(2), of u th'] shapeD(6) [OF d(2,3)] by (auto simp: list_all_iff t co split: if_splits)
  moreover have "finite (dom (threads s'))"
    by (rule finite_subset [of _ "insert n (dom (threads s))"]) (use shapeD(1) [OF d(2)] in \<open>auto simp: t split: if_splits\<close>)
  ultimately have "shape s'"
    using shapeD(7,8) [OF d(2)] switched_thread_ok [OF sw] switched_ready [OF sw] switched_waiters [OF sw]
    by (simp add: shape_def switched_tally [OF sw] idle_count_def d(7))
  moreover have "idle_thread s = Some n \<longrightarrow> idle_tail (todo th)"
    using shapeD(5) [OF d(2)] d(3,4) by (auto simp: idle_ok_def)
  ultimately show "krun s'" by (simp add: krun_def d(5,7) t)
qed

text \<open>The running thread gives up the processor.\<close>

lemma leave_off:
  assumes sh: "shape s" and th: "threads s (running s) = Some th" "status th = THREAD_RUNNING"
    and s': "threads s' = (threads s)(running s \<mapsto> th')" "running s' = running s" "initial_thread s' = initial_thread s"
      "idle_thread s' = idle_thread s" "\<not> intr_on s'"
    and up: "set (ready_list s) \<subseteq> set (ready_list s')" "\<And>x. set (waiters s x) \<subseteq> set (waiters s' x)"
    and ok: "thread_ok s' (running s) th'" "status th' \<noteq> THREAD_RUNNING" "ready_ok s'" "waiters_ok s'"
      "idle_thread s = Some (running s) \<longrightarrow> status th' \<noteq> THREAD_DYING \<and> list_all idle_code (todo th') \<and> resumes (todo th') \<and> idle_tail (todo th')"
      "set (todo th') \<subseteq> insert c (set (todo th))" "create_ok s c" "\<And>u. wsum (creates u) (todo th') = wsum (creates u) (todo th)"
      "wsum starts_idle (todo th') = wsum starts_idle (todo th)"
  shows "off s'"
proof -
  have co: "create_ok s' d" if "create_ok s d" for d
    using create_ok_upd [OF that th(1), of th'] th(2) create_ok_cong [of s' "s\<lparr>threads := (threads s)(running s \<mapsto> th')\<rparr>" d] s'(1) by simp
  have tal: "tally w s' = tally w s - wsum w (todo th) + wsum w (todo th')" for w
    using tally_upd [OF shapeD(1) [OF sh] th(1), of w th'] tally_cong [of s' "s\<lparr>threads := (threads s)(running s \<mapsto> th')\<rparr>" w] s'(1) by simp
  have "thread_ok s' u thu" if u: "threads s' u = Some thu" for u thu
  proof (cases "u = running s")
    case True
    thus ?thesis using u ok(1) s'(1) by simp
  next
    case False
    hence o: "thread_ok s u thu" using u shapeD(2) [OF sh, of u thu] s'(1) by simp
    have "u \<in> set (waiters s x) \<Longrightarrow> u \<in> set (waiters s' x)" for x using up(2) by blast
    thus ?thesis using o s'(2-) up(1) False unfolding thread_ok_def by (auto split: thread_status.splits)
  qed
  moreover have "idle_ok s'"
    using shapeD(5) [OF sh] ok(5) th(1) s'(1,4) by (auto simp: idle_ok_def)
  moreover have "list_all (create_ok s') (todo thu)" if u: "threads s' u = Some thu" for u thu
    using u ok(6,7) shapeD(6) [OF sh th(1)] shapeD(6) [OF sh, of u thu] s'(1) co by (auto simp: list_all_iff split: if_splits)
  ultimately have "shape s'"
    using ok(3,4,8,9) shapeD(1,7,8) [OF sh] s'(1,4) by (simp add: shape_def tal idle_count_def)
  thus ?thesis using s'(1,2,5) ok(2) by (simp add: off_def)
qed

lemma thread_current_running:
  "thread_current s = Some t \<Longrightarrow> t = running s \<and> (\<exists>th. threads s t = Some th \<and> status th = THREAD_RUNNING)"
  by (auto simp: thread_current_def split: bind_splits if_splits)

lemma run_waiters [simp]: "waiters (s\<lparr>running := r\<rparr>) = waiters s" "waiters (s\<lparr>ready_list := l\<rparr>) = waiters s"
  "waiters (s\<lparr>intr_on := b\<rparr>) = waiters s" "waiters (s\<lparr>all_list := l\<rparr>) = waiters s"
  by (auto simp: waiters_def)

lemma waiters_set_sema: "waiters (set_sema x sm s) = (waiters s)(x := sm_waiters sm)"
  by (auto simp: waiters_def set_sema_def)

lemma mid_not_waiting:
  assumes "mid s"
  shows "running s \<notin> set (ready_list s)" "running s \<notin> set (waiters s x)"
proof -
  obtain th where th: "threads s (running s) = Some th" "status th = THREAD_RUNNING" using midD(2) [OF assms] by blast
  show "running s \<notin> set (ready_list s)" using shapeD(3) [OF midD(1) [OF assms]] th by (auto simp: ready_ok_def)
  have "\<exists>th. threads s t = Some th \<and> status th = THREAD_BLOCKED" if "t \<in> set (waiters s x)" for t
    using shapeD(4) [OF midD(1) [OF assms]] that unfolding waiters_ok_def by blast
  thus "running s \<notin> set (waiters s x)" using th by fastforce
qed

text \<open>Blocking in \<^verbatim>\<open>sema_down\<close>.\<close>

lemma block_sema:
  assumes m: "mid s" and th: "threads s (running s) = Some th" and off: "\<not> intr_on s" and x: "semas s x = Some sm"
    and i: "idle_thread s \<noteq> Some (running s)" and l: "\<forall>l. x = Lock_sema l \<longrightarrow> (\<exists>cs. todo th = Lock_acquired l # cs)"
    and s': "s' = s\<lparr>semas := (semas s)(x \<mapsto> sm\<lparr>sm_waiters := sm_waiters sm @ [running s]\<rparr>),
      threads := (threads s)(running s \<mapsto> th\<lparr>todo := Sema_down_loop x b # todo th, status := THREAD_BLOCKED\<rparr>)\<rparr>"
  shows "off s'"
proof -
  have sh: "shape s" and r: "status th = THREAD_RUNNING" "\<forall>c\<in>set (todo th). \<not> resume c" using m th by (auto simp: mid_def)
  have w: "waiters s' = (waiters s)(x := waiters s x @ [running s])" using x by (auto simp: s' waiters_def)
  have st: "stack_ok (Sema_down_loop x b # todo th)"
    by (rule stack_ok_push) (use shapeD(2) [OF sh th] r l in \<open>auto simp: thread_ok_def\<close>)
  have wo: "waiters_ok s'"
    unfolding waiters_ok_def
  proof (intro allI conjI ballI)
    fix y show "distinct (waiters s' y)" using shapeD(4) [OF sh] mid_not_waiting(2) [OF m] by (auto simp: w waiters_ok_def)
    fix u assume "u \<in> set (waiters s' y)"
    hence "u = running s \<and> y = x \<or> u \<in> set (waiters s y)" by (auto simp: w split: if_splits)
    thus "\<exists>th b cs. threads s' u = Some th \<and> status th = THREAD_BLOCKED \<and> todo th = Sema_down_loop y b # cs"
      using shapeD(4) [OF sh] mid_not_waiting(2) [OF m] by (auto simp: s' waiters_ok_def)
  qed
  have ro: "ready_ok s'" using shapeD(3) [OF sh] mid_not_waiting(1) [OF m] by (auto simp: ready_ok_def s')
  have to: "thread_ok s' (running s) (th\<lparr>todo := Sema_down_loop x b # todo th, status := THREAD_BLOCKED\<rparr>)"
    using shapeD(2) [OF sh th] st w by (auto simp: thread_ok_def) (simp add: s')
  show ?thesis
    by (rule leave_off [OF sh th r(1) _ _ _ _ _ _ _ to _ ro wo, where c = "Sema_down_loop x b"])
       (use off i w in \<open>auto simp: s'\<close>)
qed

text \<open>The idle thread blocks.\<close>

lemma block_idle:
  assumes m: "mid s" and th: "threads s (running s) = Some th" and off: "\<not> intr_on s" and i: "idle_thread s = Some (running s)"
    "todo th = [] \<or> idle_tail (todo th)"
    and s': "s' = s\<lparr>threads := (threads s)(running s \<mapsto> th\<lparr>todo := Idle_wake # todo th, status := THREAD_BLOCKED\<rparr>)\<rparr>"
  shows "off s'"
proof -
  have sh: "shape s" and r: "status th = THREAD_RUNNING" "\<forall>c\<in>set (todo th). \<not> resume c" using m th by (auto simp: mid_def)
  have w: "waiters s' = waiters s" by (simp add: s')
  have st: "stack_ok (Idle_wake # todo th)"
    by (rule stack_ok_push) (use shapeD(2) [OF sh th] r in \<open>auto simp: thread_ok_def\<close>)
  have wo: "waiters_ok s'" using shapeD(4) [OF sh] mid_not_waiting(2) [OF m] unfolding waiters_ok_def w by (auto simp: s')
  have ro: "ready_ok s'" using shapeD(3) [OF sh] mid_not_waiting(1) [OF m] by (auto simp: ready_ok_def s')
  have to: "thread_ok s' (running s) (th\<lparr>todo := Idle_wake # todo th, status := THREAD_BLOCKED\<rparr>)"
    using shapeD(2) [OF sh th] st i by (auto simp: thread_ok_def s')
  show ?thesis
    by (rule leave_off [OF sh th r(1) _ _ _ _ _ _ _ to _ ro wo, where c = Idle_wake])
       (use off i shapeD(5) [OF sh] th in \<open>auto simp: s' idle_ok_def resumes_def idle_tail_def\<close>)
qed

text \<open>Yielding.\<close>

lemma yield_off:
  assumes m: "mid s" and th: "threads s (running s) = Some th" "idle_thread s = Some (running s) \<longrightarrow> idle_tail (todo th)"
    and s': "s' = s\<lparr>intr_on := False, ready_list := (if idle_thread s \<noteq> Some (running s) then ready_list s @ [running s] else ready_list s),
      threads := (threads s)(running s \<mapsto> th\<lparr>status := THREAD_READY, todo := Yielded b # todo th\<rparr>)\<rparr>"
  shows "off s'"
proof -
  have sh: "shape s" and r: "status th = THREAD_RUNNING" "\<forall>c\<in>set (todo th). \<not> resume c" using m th(1) by (auto simp: mid_def)
  have w: "waiters s' = waiters s" by (simp add: s')
  have st: "stack_ok (Yielded b # todo th)"
    by (rule stack_ok_push) (use shapeD(2) [OF sh th(1)] r in \<open>auto simp: thread_ok_def\<close>)
  have wo: "waiters_ok s'" using shapeD(4) [OF sh] mid_not_waiting(2) [OF m] unfolding waiters_ok_def w by (auto simp: s')
  have ro: "ready_ok s'" using shapeD(3) [OF sh] mid_not_waiting(1) [OF m] by (auto simp: ready_ok_def s')
  have to: "thread_ok s' (running s) (th\<lparr>status := THREAD_READY, todo := Yielded b # todo th\<rparr>)"
    using shapeD(2) [OF sh th(1)] st by (auto simp: thread_ok_def s' resumes_def)
  show ?thesis
    by (rule leave_off [OF sh th(1) r(1) _ _ _ _ _ _ _ to _ ro wo, where c = "Yielded b"])
       (use shapeD(5) [OF sh] th in \<open>auto simp: s' idle_ok_def resumes_def idle_tail_Cons\<close>)
qed

text \<open>Exiting.\<close>

lemma exit_off:
  assumes m: "mid s" and th: "threads s (running s) = Some th" "todo th = []" and i: "idle_thread s \<noteq> Some (running s)"
    and s': "s' = s\<lparr>intr_on := False, all_list := l, threads := (threads s)(running s \<mapsto> th\<lparr>status := THREAD_DYING\<rparr>)\<rparr>"
  shows "off s'"
proof -
  have sh: "shape s" and r: "status th = THREAD_RUNNING" using m th by (auto simp: mid_def)
  have w: "waiters s' = waiters s" by (simp add: s')
  have wo: "waiters_ok s'" using shapeD(4) [OF sh] mid_not_waiting(2) [OF m] unfolding waiters_ok_def w by (auto simp: s')
  have ro: "ready_ok s'" using shapeD(3) [OF sh] mid_not_waiting(1) [OF m] by (auto simp: ready_ok_def s')
  have to: "thread_ok s' (running s) (th\<lparr>status := THREAD_DYING\<rparr>)"
    using shapeD(2) [OF sh th(1)] th(2) by (auto simp: thread_ok_def s')
  show ?thesis
    by (rule leave_off [OF sh th(1) r _ _ _ _ _ _ _ to _ ro wo, where c = Intr_return]) (use i in \<open>auto simp: s'\<close>)
qed

lemma thread_ok_eq: "status th' = status th \<Longrightarrow> todo th' = todo th \<Longrightarrow> t_magic th' = t_magic th \<Longrightarrow> thread_ok s t th' = thread_ok s t th"
  by (simp add: thread_ok_def cong: thread_status.case_cong)

text \<open>A blocked thread becomes ready.\<close>

lemma shape_unblock:
  assumes sh: "shape s" and t: "threads s t = Some th" "status th = THREAD_BLOCKED" "resumes (todo th)" "idle_thread s \<noteq> Some t"
    and s': "threads s' = (threads s)(t \<mapsto> th\<lparr>status := THREAD_READY\<rparr>)" "ready_list s' = ready_list s @ [t]" "running s' = running s"
      "initial_thread s' = initial_thread s" "idle_thread s' = idle_thread s" "intr_on s' \<longrightarrow> intr_on s"
    and w: "\<forall>y. t \<notin> set (waiters s' y) \<and> set (waiters s' y) = set (waiters s y) - {t} \<and> distinct (waiters s' y)"
    and n: "\<forall>u thu c. threads s u = Some thu \<longrightarrow> c \<in> set (todo thu) \<longrightarrow> creates t c = 0"
  shows "shape s'"
proof -
  have co: "create_ok s' d" if "create_ok s d" "creates t d = 0" for d
    using that s'(1) by (cases "(s, d)" rule: create_ok.cases) auto
  have tal: "tally w s' = tally w s" for w
    using tally_upd [OF shapeD(1) [OF sh] t(1), of w "th\<lparr>status := THREAD_READY\<rparr>"]
      tally_cong [of s' "s\<lparr>threads := (threads s)(t \<mapsto> th\<lparr>status := THREAD_READY\<rparr>)\<rparr>" w] s'(1) by simp
  have "thread_ok s' u thu" if u: "threads s' u = Some thu" for u thu
  proof (cases "u = t")
    case True
    thus ?thesis using u shapeD(2) [OF sh t(1)] t(3) s'(1,2,5) by (auto simp: thread_ok_def)
  next
    case False
    hence o: "thread_ok s u thu" using u shapeD(2) [OF sh, of u thu] s'(1) by simp
    have "u \<in> set (waiters s x) \<Longrightarrow> u \<in> set (waiters s' x)" for x using w False by blast
    thus ?thesis using o s'(2-) False unfolding thread_ok_def by (auto split: thread_status.splits)
  qed
  moreover have "ready_ok s'" using shapeD(3) [OF sh] t s' by (auto simp: ready_ok_def)
  moreover have "waiters_ok s'" unfolding waiters_ok_def
  proof (intro allI conjI ballI)
    fix y u assume "u \<in> set (waiters s' y)"
    hence "u \<in> set (waiters s y)" "u \<noteq> t" using w by blast+
    thus "\<exists>th b cs. threads s' u = Some th \<and> status th = THREAD_BLOCKED \<and> todo th = Sema_down_loop y b # cs"
      using shapeD(4) [OF sh] s'(1) by (auto simp: waiters_ok_def)
  qed (use w in blast)
  moreover have "idle_ok s'" using shapeD(5) [OF sh] t(4) s'(1,5) by (auto simp: idle_ok_def)
  moreover have "list_all (create_ok s') (todo thu)" if u: "threads s' u = Some thu" for u thu
    using u shapeD(6) [OF sh t(1)] shapeD(6) [OF sh, of u thu] n t(1) s'(1) co by (auto simp: list_all_iff split: if_splits)
  ultimately show ?thesis using shapeD(1,7,8) [OF sh] s'(1,5) by (simp add: shape_def tal idle_count_def)
qed

lemma shape_no_creator:
  assumes sh: "shape s" and z: "tally (creates t) s = 0" and u: "threads s u = Some th" "c \<in> set (todo th)"
  shows "creates t c = 0"
proof -
  have "wsum (creates t) (todo th) \<le> tally (creates t) s"
    by (rule tally_ge [OF shapeD(1) [OF sh] u(1)]) (simp add: wsum_nonneg)
  moreover have "creates t c \<le> wsum (creates t) (todo th)" by (rule wsum_ge) (use u(2) in simp_all)
  ultimately show ?thesis using z creates_nonneg [of t c] by linarith
qed

text \<open>Members of a thread that the scheduler does not look at.\<close>

lemma shape_same:
  assumes sh: "shape s" and t: "threads s t = Some th" and f: "status th' = status th" "todo th' = todo th" "t_magic th' = t_magic th"
  shows "shape (s\<lparr>threads := (threads s)(t \<mapsto> th')\<rparr>)" (is "shape ?s")
proof -
  have co: "create_ok ?s d" if "create_ok s d" for d
    using that t f by (cases "(s, d)" rule: create_ok.cases) auto
  have "thread_ok ?s u thu" if u: "threads ?s u = Some thu" for u thu
    using u shapeD(2) [OF sh, of u thu] shapeD(2) [OF sh t] thread_ok_eq [OF f] by (auto split: if_splits)
  moreover have "ready_ok ?s" using shapeD(3) [OF sh] t f by (auto simp: ready_ok_def)
  moreover have "waiters_ok ?s" using shapeD(4) [OF sh] t f by (fastforce simp: waiters_ok_def)
  moreover have "idle_ok ?s" using shapeD(5) [OF sh] t f by (auto simp: idle_ok_def)
  moreover have "list_all (create_ok ?s) (todo thu)" if u: "threads ?s u = Some thu" for u thu
    using u shapeD(6) [OF sh t] shapeD(6) [OF sh, of u thu] f co by (auto simp: list_all_iff split: if_splits)
  ultimately show ?thesis using shapeD(1,7,8) [OF sh] t f by (simp add: shape_def tally_upd idle_count_def)
qed

text \<open>A new thread.\<close>

lemma shape_new:
  assumes sh: "shape s" and t: "threads s t = None" "t \<noteq> 0" and f: "status th = THREAD_BLOCKED" "todo th = []" "t_magic th = THREAD_MAGIC"
  shows "shape (s\<lparr>threads := (threads s)(t \<mapsto> th)\<rparr>)" (is "shape ?s")
proof -
  have co: "create_ok ?s d" if "create_ok s d" for d
    using that t by (cases "(s, d)" rule: create_ok.cases) auto
  have "thread_ok ?s u thu" if u: "threads ?s u = Some thu" for u thu
    using u shapeD(2) [OF sh, of u thu] f t(2) thread_ok_def [of s t th] by (auto split: if_splits)
  moreover have "ready_ok ?s" using shapeD(3) [OF sh] t f by (auto simp: ready_ok_def)
  moreover have "waiters_ok ?s" using shapeD(4) [OF sh] t f by (fastforce simp: waiters_ok_def)
  moreover have "idle_ok ?s" using shapeD(5) [OF sh] t f by (auto simp: idle_ok_def)
  moreover have "list_all (create_ok ?s) (todo thu)" if u: "threads ?s u = Some thu" for u thu
    using u shapeD(6) [OF sh, of u thu] f co by (auto simp: list_all_iff split: if_splits)
  ultimately show ?thesis using shapeD(1,7,8) [OF sh] t f by (simp add: shape_def tally_new idle_count_def)
qed

text \<open>Its stack is set up.\<close>

lemma shape_frames:
  assumes sh: "shape s" and t: "threads s t = Some th" "status th = THREAD_BLOCKED" "todo th = []" and z: "tally (creates t) s = 0"
    and i: "idle_count s + starts_idle (Kernel_thread f) \<le> 1"
    and f: "status th' = THREAD_BLOCKED" "todo th' = [Kernel_thread f]" "t_magic th' = t_magic th"
  shows "shape (s\<lparr>threads := (threads s)(t \<mapsto> th')\<rparr>)" (is "shape ?s")
proof -
  have co: "create_ok ?s d" if "create_ok s d" "creates t d = 0" for d
    using that t f by (cases "(s, d)" rule: create_ok.cases) auto
  have ni: "idle_thread s \<noteq> Some t" by (rule shape_not_idle [OF sh t(1)]) (use t in auto)
  have "thread_ok ?s u thu" if u: "threads ?s u = Some thu" for u thu
    using u shapeD(2) [OF sh, of u thu] shapeD(2) [OF sh t(1)] f t thread_ok_def [of s t th] thread_ok_def [of s t th'] by (auto split: if_splits)
  moreover have "ready_ok ?s" using shapeD(3) [OF sh] t f by (auto simp: ready_ok_def)
  moreover have "waiters_ok ?s" using shapeD(4) [OF sh] t f by (fastforce simp: waiters_ok_def)
  moreover have "idle_ok ?s" using shapeD(5) [OF sh] ni by (auto simp: idle_ok_def)
  moreover have "list_all (create_ok ?s) (todo thu)" if u: "threads ?s u = Some thu" for u thu
    using u shapeD(6) [OF sh, of u thu] f co shape_no_creator [OF sh z, of u thu] by (auto simp: list_all_iff split: if_splits)
  ultimately show ?thesis using shapeD(1,7) [OF sh] t f i by (simp add: shape_def tally_upd idle_count_def)
qed

text \<open>The new thread announces itself as the idle thread.\<close>

lemma mid_set_idle:
  assumes m: "mid s" and c: "idle_count s = 0" and th: "threads s (running s) = Some th" "todo th = []"
  shows "mid (s\<lparr>idle_thread := Some (running s)\<rparr>)" (is "mid ?s")
proof -
  have sh: "shape s" and r: "status th = THREAD_RUNNING" using m th by (auto simp: mid_def)
  have w: "waiters ?s = waiters s" by (auto simp: waiters_def)
  have n: "idle_thread s = None" "tally starts_idle s = 0"
  proof -
    have "0 \<le> tally starts_idle s" by (rule tally_nonneg) (simp add: wsum_nonneg)
    thus "idle_thread s = None" "tally starts_idle s = 0" using c by (auto simp: idle_count_def of_bool_def split: if_splits)
  qed
  have "thread_ok ?s u thu" if u: "threads ?s u = Some thu" for u thu
    using u shapeD(2) [OF sh, of u thu] n(1) unfolding thread_ok_def w by (auto split: thread_status.splits)
  moreover have "ready_ok ?s" using shapeD(3) [OF sh] mid_not_waiting(1) [OF m] by (auto simp: ready_ok_def)
  moreover have "waiters_ok ?s" using shapeD(4) [OF sh] by (simp add: waiters_ok_def w)
  moreover have "idle_ok ?s" using th r by (auto simp: idle_ok_def)
  moreover have "list_all (create_ok ?s) (todo thu)" if u: "threads ?s u = Some thu" for u thu
    using u shapeD(6) [OF sh, of u thu] create_ok_cong [of ?s s] by (auto simp: list_all_iff)
  ultimately have "shape ?s" using shapeD(1,7) [OF sh] n(2) by (simp add: shape_def tally_cong [of ?s s] idle_count_def)
  thus ?thesis using m by (auto simp: mid_def)
qed

text \<open>Parts of the kernel that do not matter.\<close>

lemma mid_cong:
  assumes "mid s" "threads s' = threads s" "running s' = running s" "ready_list s' = ready_list s" "idle_thread s' = idle_thread s"
    "initial_thread s' = initial_thread s" "waiters s' = waiters s" "intr_on s' = intr_on s"
  shows "mid s'"
  using assms shape_cong [OF assms(2-)] by (simp add: mid_def)

lemma mid_intr_on:
  assumes "mid s"
  shows "mid (s\<lparr>intr_on := b\<rparr>)" (is "mid ?s")
proof -
  have sh: "shape s" by (rule midD(1) [OF assms])
  have c: "create_ok ?s c = create_ok s c" for c by (rule create_ok_cong) simp
  have "thread_ok ?s u thu" if u: "threads ?s u = Some thu" for u thu
    using u shapeD(2) [OF sh, of u thu] assms hd_in_set [of "todo thu"] unfolding thread_ok_def mid_def
    by (auto simp: resumes_def split: thread_status.splits)
  hence "shape ?s" using shapeD [OF sh]
    by (simp add: shape_def ready_ok_def waiters_ok_def idle_ok_def idle_count_def tally_cong [of ?s s] c list_all_iff)
  thus ?thesis using assms by (auto simp: mid_def)
qed

end
