(* ===== verification/Kernel_Steps.thy ===== *)
theory Kernel_Steps
  imports Scheduler
begin

section \<open>The steps of the kernel keep the invariant\<close>

text \<open>
  Every operation of thread.c and synch.c keeps the invariant of the scheduler, one token per lock, and
  the account of the threads that a semaphore has woken. At the end, the invariant of every reachable state.
\<close>

subsection \<open>What the operations do\<close>

lemma intr_set_level_Some: "intr_set_level b s = Some s' \<longleftrightarrow> s' = s\<lparr>intr_on := b\<rparr> \<and> (b \<longrightarrow> \<not> in_external_intr s)"
  by (auto simp: intr_set_level_def intr_enable_def intr_disable_def)

lemma push_todo_Some: "push_todo c s = Some s' \<longleftrightarrow>
    (\<exists>th. threads s (running s) = Some th \<and> s' = s\<lparr>threads := (threads s)(running s \<mapsto> th\<lparr>todo := c # todo th\<rparr>)\<rparr>)"
  by (auto simp: push_todo_def set_thread_def split: bind_splits)

lemma thread_current_Some: "thread_current s = Some t \<longleftrightarrow>
    t = running s \<and> t \<noteq> 0 \<and> (\<exists>th. threads s t = Some th \<and> status th = THREAD_RUNNING \<and> t_magic th = THREAD_MAGIC)"
  by (auto simp: thread_current_def is_thread_def split: bind_splits if_splits option.splits)

lemma schedule_frame:
  assumes "schedule s = Some s'"
  shows "semas s' = semas s" "lock_holder s' = lock_holder s" "in_external_intr s' = in_external_intr s" "\<not> intr_on s'"
    "cond_waiters s' = cond_waiters s" "ticks s' = ticks s" "idle_thread s' = idle_thread s" "next_waiter s' = next_waiter s"
proof -
  obtain n where n: "\<not> intr_on s" and s': "s' = s\<lparr>running := n, ready_list := ready_list s', thread_ticks := 0, threads := threads s'\<rparr>"
    using schedule_effect [OF assms] by blast
  show "semas s' = semas s" "lock_holder s' = lock_holder s" "in_external_intr s' = in_external_intr s" "\<not> intr_on s'"
    "cond_waiters s' = cond_waiters s" "ticks s' = ticks s" "idle_thread s' = idle_thread s" "next_waiter s' = next_waiter s"
    by (subst s', simp add: n)+
qed

lemma sema_down_loop_effect:
  assumes m: "mid s" and off: "\<not> intr_on s" and i: "idle_thread s \<noteq> Some (running s)" and th: "threads s (running s) = Some th"
    and l: "\<forall>l. x = Lock_sema l \<longrightarrow> (\<exists>cs. todo th = Lock_acquired l # cs)" and r: "sema_down_loop x b s = Some s'"
  shows "krun s'" "in_external_intr s' = in_external_intr s" "lock_holder s' = lock_holder s"
    "\<exists>sm. semas s x = Some sm \<and> (if sm_value sm = 0
       then semas s' = (semas s)(x \<mapsto> sm\<lparr>sm_waiters := sm_waiters sm @ [running s]\<rparr>) \<and> (\<forall>w. tally w s' = tally w s + w (Sema_down_loop x b))
       else semas s' = (semas s)(x \<mapsto> sm\<lparr>sm_value := sm_value sm - 1\<rparr>) \<and> (\<forall>w. tally w s' = tally w s))"
    "next_waiter s' = next_waiter s"
proof -
  obtain sm where sm: "semas s x = Some sm" using r by (auto simp: sema_down_loop_def split: bind_splits)
  have fin: "finite (dom (threads s))" by (rule shapeD(1) [OF midD(1) [OF m]])
  have "krun s' \<and> in_external_intr s' = in_external_intr s \<and> lock_holder s' = lock_holder s \<and> (if sm_value sm = 0
       then semas s' = (semas s)(x \<mapsto> sm\<lparr>sm_waiters := sm_waiters sm @ [running s]\<rparr>) \<and> (\<forall>w. tally w s' = tally w s + w (Sema_down_loop x b))
       else semas s' = (semas s)(x \<mapsto> sm\<lparr>sm_value := sm_value sm - 1\<rparr>) \<and> (\<forall>w. tally w s' = tally w s)) \<and>
       next_waiter s' = next_waiter s"
  proof (cases "sm_value sm = 0")
    case True
    define s1 where "s1 = s\<lparr>semas := (semas s)(x \<mapsto> sm\<lparr>sm_waiters := sm_waiters sm @ [running s]\<rparr>),
      threads := (threads s)(running s \<mapsto> th\<lparr>todo := Sema_down_loop x b # todo th, status := THREAD_BLOCKED\<rparr>)\<rparr>"
    have sc: "schedule s1 = Some s'"
      using r True sm th by (auto simp: sema_down_loop_def thread_block_def thread_current_Some push_todo_Some set_sema_def set_status_def
          set_thread_def s1_def split: bind_splits if_splits)
    have o: "off s1" by (rule block_sema [OF m th off sm i l s1_def])
    have "tally w s1 = tally w (s\<lparr>threads := (threads s)(running s \<mapsto> th\<lparr>todo := Sema_down_loop x b # todo th, status := THREAD_BLOCKED\<rparr>)\<rparr>)" for w
      by (rule tally_cong) (simp add: s1_def)
    hence "tally w s1 = tally w s + w (Sema_down_loop x b)" for w by (simp add: tally_upd [OF fin th])
    thus ?thesis using schedule_shape [OF o sc] schedule_frame [OF sc] True by (simp add: s1_def)
  next
    case False
    hence s': "s' = s\<lparr>semas := (semas s)(x \<mapsto> sm\<lparr>sm_value := sm_value sm - 1\<rparr>), intr_on := b\<rparr>"
      using r sm by (auto simp: sema_down_loop_def intr_set_level_Some set_sema_def)
    have "mid (s\<lparr>semas := (semas s)(x \<mapsto> sm\<lparr>sm_value := sm_value sm - 1\<rparr>)\<rparr>)"
      by (rule mid_cong [OF m]) (use sm in \<open>auto simp: waiters_def\<close>)
    hence "mid s'" unfolding s' by (rule mid_intr_on)
    thus ?thesis using False i mid_krun [of s'] tally_cong [of s' s] by (simp add: s')
  qed
  thus "krun s'" "in_external_intr s' = in_external_intr s" "lock_holder s' = lock_holder s"
    "\<exists>sm. semas s x = Some sm \<and> (if sm_value sm = 0
       then semas s' = (semas s)(x \<mapsto> sm\<lparr>sm_waiters := sm_waiters sm @ [running s]\<rparr>) \<and> (\<forall>w. tally w s' = tally w s + w (Sema_down_loop x b))
       else semas s' = (semas s)(x \<mapsto> sm\<lparr>sm_value := sm_value sm - 1\<rparr>) \<and> (\<forall>w. tally w s' = tally w s))"
    "next_waiter s' = next_waiter s"
    using sm by blast+
qed

lemma thread_unblock_Some: "thread_unblock t s = Some s' \<longleftrightarrow> t \<noteq> 0 \<and> (\<exists>th. threads s t = Some th \<and> t_magic th = THREAD_MAGIC \<and>
    status th = THREAD_BLOCKED \<and> (intr_on s \<longrightarrow> \<not> in_external_intr s) \<and>
    s' = s\<lparr>ready_list := ready_list s @ [t], threads := (threads s)(t \<mapsto> th\<lparr>status := THREAD_READY\<rparr>)\<rparr>)"
  by (auto simp: thread_unblock_def is_thread_def intr_disable_def set_status_def set_thread_def intr_set_level_Some Let_def
      split: bind_splits if_splits option.splits)

lemma sema_up_Some:
  assumes "sema_up x s = Some s'"
  shows "\<exists>sm. semas s x = Some sm \<and> (case sm_waiters sm of
      [] \<Rightarrow> s' = s\<lparr>semas := (semas s)(x \<mapsto> sm\<lparr>sm_value := sm_value sm + 1\<rparr>)\<rparr>
    | t # ts \<Rightarrow> (\<exists>th. threads s t = Some th \<and> status th = THREAD_BLOCKED \<and>
        s' = s\<lparr>semas := (semas s)(x \<mapsto> \<lparr>sm_value = sm_value sm + 1, sm_waiters = ts\<rparr>), ready_list := ready_list s @ [t],
          threads := (threads s)(t \<mapsto> th\<lparr>status := THREAD_READY\<rparr>)\<rparr>))"
  using assms by (auto simp: sema_up_def intr_disable_def intr_set_level_Some thread_unblock_Some set_sema_def Let_def
      split: bind_splits list.splits intro!: kernel.equality ext)

lemma mid_unblock_waiter:
  assumes m: "mid s" and w: "waiters s x = t # ts" and t: "threads s t = Some th"
    and e: "threads s' = (threads s)(t \<mapsto> th\<lparr>status := THREAD_READY\<rparr>)" "ready_list s' = ready_list s @ [t]" "waiters s' = (waiters s)(x := ts)"
      "running s' = running s" "initial_thread s' = initial_thread s" "idle_thread s' = idle_thread s" "intr_on s' = intr_on s"
  shows "mid s'" "t \<noteq> running s" "tally v s' = tally v s"
proof -
  have sh: "shape s" by (rule midD(1) [OF m])
  have wo: "distinct (waiters s y) \<and> (\<forall>t\<in>set (waiters s y).
     \<exists>th b cs. threads s t = Some th \<and> status th = THREAD_BLOCKED \<and> todo th = Sema_down_loop y b # cs)" for y
    using shapeD(4) [OF sh] unfolding waiters_ok_def by blast
  obtain b cs where td: "todo th = Sema_down_loop x b # cs" and b: "status th = THREAD_BLOCKED"
    using wo [of x] w t by auto
  have uniq: "y = x" if "t \<in> set (waiters s y)" for y using wo [of y] that t td by fastforce
  have ni: "idle_thread s \<noteq> Some t" by (rule shape_not_idle [OF sh t b]) (simp add: td)
  have nc: "creates t c = 0" if "threads s u = Some thu" "c \<in> set (todo thu)" for u thu c
    using shapeD(6) [OF sh that] t td by (cases "(s, c)" rule: create_ok.cases) auto
  have wt: "t \<notin> set (waiters s' y) \<and> set (waiters s' y) = set (waiters s y) - {t} \<and> distinct (waiters s' y)" for y
  proof (cases "y = x")
    case True
    thus ?thesis using w wo [of x] by (auto simp: e)
  next
    case False
    thus ?thesis using uniq [of y] wo [of y] by (auto simp: e)
  qed
  have "shape s'"
    by (rule shape_unblock [OF sh t b _ ni e(1,2,4,5,6)]) (use nc td wt e(7) in \<open>auto simp: resumes_def\<close>)
  moreover show n: "t \<noteq> running s" using mid_not_waiting(2) [OF m, of x] w by auto
  ultimately show "mid s'" using m by (simp add: mid_def e)
  show "tally v s' = tally v s"
    using tally_upd [OF shapeD(1) [OF sh] t, of v "th\<lparr>status := THREAD_READY\<rparr>"]
      tally_cong [of s' "s\<lparr>threads := (threads s)(t \<mapsto> th\<lparr>status := THREAD_READY\<rparr>)\<rparr>" v] by (simp add: e(1))
qed

lemma sema_up_effect:
  assumes m: "mid s" and r: "sema_up x s = Some s'"
  shows "mid s'" "in_external_intr s' = in_external_intr s" "lock_holder s' = lock_holder s" "running s' = running s"
    "idle_thread s' = idle_thread s" "threads s' (running s) = threads s (running s)" "intr_on s' = intr_on s" "tally v s' = tally v s"
    "\<exists>sm. semas s x = Some sm \<and> semas s' = (semas s)(x \<mapsto> \<lparr>sm_value = sm_value sm + 1, sm_waiters = tl (sm_waiters sm)\<rparr>)"
    "yield_on_return s' = yield_on_return s" "next_waiter s' = next_waiter s"
proof -
  obtain sm where sm: "semas s x = Some sm" and s': "case sm_waiters sm of
      [] \<Rightarrow> s' = s\<lparr>semas := (semas s)(x \<mapsto> sm\<lparr>sm_value := sm_value sm + 1\<rparr>)\<rparr>
    | t # ts \<Rightarrow> (\<exists>th. threads s t = Some th \<and> status th = THREAD_BLOCKED \<and>
        s' = s\<lparr>semas := (semas s)(x \<mapsto> \<lparr>sm_value = sm_value sm + 1, sm_waiters = ts\<rparr>), ready_list := ready_list s @ [t],
          threads := (threads s)(t \<mapsto> th\<lparr>status := THREAD_READY\<rparr>)\<rparr>)"
    using sema_up_Some [OF r] by blast
  have "mid s' \<and> in_external_intr s' = in_external_intr s \<and> lock_holder s' = lock_holder s \<and> running s' = running s \<and>
    idle_thread s' = idle_thread s \<and> threads s' (running s) = threads s (running s) \<and> intr_on s' = intr_on s \<and> (\<forall>w. tally w s' = tally w s) \<and>
    semas s' = (semas s)(x \<mapsto> \<lparr>sm_value = sm_value sm + 1, sm_waiters = tl (sm_waiters sm)\<rparr>) \<and> yield_on_return s' = yield_on_return s \<and> next_waiter s' = next_waiter s"
  proof (cases "sm_waiters sm")
    case Nil
    hence e: "s' = s\<lparr>semas := (semas s)(x \<mapsto> sm\<lparr>sm_value := sm_value sm + 1\<rparr>)\<rparr>" using s' by simp
    have "mid s'" by (rule mid_cong [OF m]) (use sm in \<open>auto simp: e waiters_def\<close>)
    thus ?thesis using Nil tally_cong [of s' s] by (cases sm) (simp add: e)
  next
    case (Cons t ts)
    then obtain th where t: "threads s t = Some th"
      and e: "s' = s\<lparr>semas := (semas s)(x \<mapsto> \<lparr>sm_value = sm_value sm + 1, sm_waiters = ts\<rparr>), ready_list := ready_list s @ [t],
          threads := (threads s)(t \<mapsto> th\<lparr>status := THREAD_READY\<rparr>)\<rparr>" using s' by auto
    have w: "waiters s x = t # ts" using sm Cons by (simp add: waiters_def)
    have w': "waiters s' = (waiters s)(x := ts)" by (auto simp: e waiters_def)
    note u = mid_unblock_waiter [OF m w t _ _ w']
    have "mid s'" "t \<noteq> running s" "\<forall>v. tally v s' = tally v s" using u by (auto simp: e)
    thus ?thesis using Cons by (simp add: e)
  qed
  thus "mid s'" "in_external_intr s' = in_external_intr s" "lock_holder s' = lock_holder s" "running s' = running s"
    "idle_thread s' = idle_thread s" "threads s' (running s) = threads s (running s)" "intr_on s' = intr_on s" "tally v s' = tally v s"
    "\<exists>sm. semas s x = Some sm \<and> semas s' = (semas s)(x \<mapsto> \<lparr>sm_value = sm_value sm + 1, sm_waiters = tl (sm_waiters sm)\<rparr>)"
    "yield_on_return s' = yield_on_return s" "next_waiter s' = next_waiter s"
    using sm by blast+
qed

subsection \<open>Locks and semaphores\<close>

text \<open>Every lock is one token: it lies in the lock's semaphore, or a thread holds the lock, or a thread is about to
  record that it holds the lock, or is about to put the token back.\<close>

fun lock_code :: "lock_id \<Rightarrow> code \<Rightarrow> int" where
  "lock_code l (Lock_acquired k) = of_bool (l = k)"
| "lock_code l (Do_sema_up x) = of_bool (x = Lock_sema l)"
| "lock_code l (Do_sema_down x) = - of_bool (x = Lock_sema l)"
| "lock_code l (Sema_down_loop x b) = - of_bool (x = Lock_sema l)"
| "lock_code l _ = 0"

definition sval :: "kernel \<Rightarrow> sema_id \<Rightarrow> int" where
  "sval s x = (case semas s x of None \<Rightarrow> 0 | Some sm \<Rightarrow> uint (sm_value sm))"

definition tokens :: "lock_id \<Rightarrow> kernel \<Rightarrow> int" where
  "tokens l s = sval s (Lock_sema l) + of_bool (lock_holder s l \<noteq> None) + tally (lock_code l) s"

text \<open>While threads wait for a semaphore, at least as many of those that do not wait any more are still in the loop of
  \<^verbatim>\<open>sema_down\<close> as the semaphore's value says.\<close>

fun in_loop :: "sema_id \<Rightarrow> code \<Rightarrow> int" where
  "in_loop x (Sema_down_loop y b) = of_bool (x = y)"
| "in_loop x _ = 0"

text \<open>No thread uses a semaphore that was never initialised.\<close>

fun uses :: "sema_id \<Rightarrow> code \<Rightarrow> int" where
  "uses x (Sema_down_loop y b) = of_bool (x = y)"
| "uses x (Do_sema_up y) = of_bool (x = y)"
| "uses x (Do_sema_down y) = of_bool (x = y)"
| "uses x (Lock_acquired l) = of_bool (x = Lock_sema l)"
| "uses x (Kernel_thread (Idle n)) = of_bool (x = Sema n)"
| "uses x (Create_rest t (Idle n)) = of_bool (x = Sema n)"
| "uses x _ = 0"

lemma uses_nonneg [simp]: "0 \<le> uses x c"
  by (cases "(x, c)" rule: uses.cases) auto

definition uses_ok :: "code list \<Rightarrow> kernel \<Rightarrow> bool" where
  "uses_ok cs s \<longleftrightarrow> (\<forall>x. semas s x = None \<longrightarrow> tally (uses x) s = 0 \<and> wsum (uses x) cs = 0) \<and>
     (\<forall>l. lock_holder s l \<noteq> None \<longrightarrow> semas s (Lock_sema l) \<noteq> None)"

text \<open>The properties inside of a step, in which the running thread still has to do \<open>cs\<close>; and the semaphores of
  later calls of \<^verbatim>\<open>cond_wait\<close> do not exist yet.\<close>

definition acct :: "code list \<Rightarrow> kernel \<Rightarrow> bool" where
  "acct cs s \<longleftrightarrow> (\<forall>l. semas s (Lock_sema l) \<noteq> None \<longrightarrow> tokens l s = 1 - wsum (lock_code l) cs) \<and>
     (\<forall>x. waiters s x \<noteq> [] \<longrightarrow> sval s x + int (length (waiters s x)) \<le> tally (in_loop x) s + wsum (in_loop x) cs) \<and>
     (\<forall>n\<ge>next_waiter s. semas s (Waiter n) = None) \<and> uses_ok cs s"

lemma acct_mono:
  assumes "acct cs s" "\<forall>l. wsum (lock_code l) ds = wsum (lock_code l) cs" "\<forall>x. wsum (in_loop x) cs \<le> wsum (in_loop x) ds"
    "\<forall>x. semas s x = None \<longrightarrow> wsum (uses x) cs = 0 \<longrightarrow> wsum (uses x) ds = 0"
  shows "acct ds s"
proof -
  have "sval s x + int (length (waiters s x)) \<le> tally (in_loop x) s + wsum (in_loop x) ds" if "waiters s x \<noteq> []" for x
    using assms(1,3) that add_left_mono [of "wsum (in_loop x) cs" "wsum (in_loop x) ds" "tally (in_loop x) s"] order_trans
    unfolding acct_def by blast
  thus ?thesis using assms(1,2,4) by (simp add: acct_def uses_ok_def)
qed

lemma acct_cong:
  assumes "acct cs s" "semas s' = semas s" "lock_holder s' = lock_holder s" "\<And>w. tally w s' = tally w s" "next_waiter s' = next_waiter s"
  shows "acct cs s'"
  using assms by (simp add: acct_def uses_ok_def tokens_def sval_def waiters_def)

lemma acct_push:
  assumes "acct (c # cs) s" "push_todo c s = Some s'" "finite (dom (threads s))"
  shows "acct cs s'"
proof -
  have "tally w s' = tally w s + w c" for w
    using assms(2,3) by (auto simp: push_todo_Some tally_upd)
  moreover have "semas s' = semas s" "lock_holder s' = lock_holder s" "next_waiter s' = next_waiter s"
    using assms(2) by (auto simp: push_todo_Some)
  moreover have "uses x c = 0 \<and> wsum (uses x) cs = 0" if "semas s x = None" for x
  proof -
    have "uses x c + wsum (uses x) cs = 0" using assms(1) that by (simp add: acct_def uses_ok_def)
    thus ?thesis using uses_nonneg [of x c] wsum_nonneg [of "uses x" cs, OF uses_nonneg] by linarith
  qed
  ultimately show ?thesis using assms(1) by (simp add: acct_def uses_ok_def tokens_def sval_def waiters_def algebra_simps)
qed

lemma in_loop_nonneg [simp]: "0 \<le> in_loop x c"
  by (cases "(x, c)" rule: in_loop.cases) auto

lemma lock_code_nonneg: "\<not> resume c \<Longrightarrow> c \<noteq> Do_sema_down (Lock_sema l) \<Longrightarrow> 0 \<le> lock_code l c"
  by (cases "(l, c)" rule: lock_code.cases) auto

lemma wsum_nonneg_set: "(\<And>c. c \<in> set cs \<Longrightarrow> 0 \<le> w c) \<Longrightarrow> 0 \<le> wsum w cs"
  by (induction cs) simp_all

lemma wsum_ge_set: "(\<And>c. c \<in> set cs \<Longrightarrow> 0 \<le> w c) \<Longrightarrow> c \<in> set cs \<Longrightarrow> w c \<le> wsum w cs"
  by (induction cs) (auto simp: wsum_nonneg_set add_increasing add_increasing2)

lemma stack_ok_lock:
  assumes "stack_ok cs"
  shows "0 \<le> wsum (lock_code l) cs"
proof (cases cs)
  case (Cons c ds)
  have n: "0 \<le> wsum (lock_code l) es" if "set es \<subseteq> set ds" for es
    by (rule wsum_nonneg_set) (rule lock_code_nonneg, use assms Cons that in auto)
  show ?thesis
  proof (cases "\<exists>b. c = Sema_down_loop (Lock_sema l) b")
    case True
    then obtain es where "ds = Lock_acquired l # es" using assms Cons by auto
    moreover from this have "0 \<le> wsum (lock_code l) es" by (intro n) auto
    ultimately show ?thesis using True Cons by auto
  next
    case False
    hence "0 \<le> lock_code l c" using assms Cons by (cases "(l, c)" rule: lock_code.cases) auto
    thus ?thesis using n [of ds] Cons by simp
  qed
qed simp

lemma shape_lock: "shape s \<Longrightarrow> threads s u = Some th \<Longrightarrow> 0 \<le> wsum (lock_code l) (todo th)"
  using shapeD(2) [of s u th] by (auto intro: stack_ok_lock simp: thread_ok_def)

lemma tokens_bound:
  assumes "shape s"
  shows "sval s (Lock_sema l) + of_bool (lock_holder s l \<noteq> None) \<le> tokens l s" "0 \<le> sval s x"
    "threads s u = Some th \<Longrightarrow> wsum (lock_code l) (todo th) + of_bool (lock_holder s l \<noteq> None) \<le> tokens l s"
proof -
  have n: "0 \<le> tally (lock_code l) s" by (rule tally_nonneg) (use shape_lock [OF assms] in blast)
  show s: "0 \<le> sval s x" for x by (simp add: sval_def split: option.splits)
  show "sval s (Lock_sema l) + of_bool (lock_holder s l \<noteq> None) \<le> tokens l s" using n by (simp add: tokens_def)
  show "wsum (lock_code l) (todo th) + of_bool (lock_holder s l \<noteq> None) \<le> tokens l s" if "threads s u = Some th"
    using tally_ge [OF shapeD(1) [OF assms] that, of "lock_code l"] shape_lock [OF assms] s [of "Lock_sema l"]
    by (simp add: tokens_def add_increasing)
qed

text \<open>Those that wait are in the loop.\<close>

lemma waiters_loop:
  assumes sh: "shape s"
  shows "int (length (waiters s x)) \<le> tally (in_loop x) s"
proof -
  let ?f = "\<lambda>t. wsum (in_loop x) (todo (the (threads s t)))"
  have w: "t \<in> dom (threads s) \<and> 1 \<le> ?f t" if t: "t \<in> set (waiters s x)" for t
  proof -
    obtain th b cs where "threads s t = Some th" "todo th = Sema_down_loop x b # cs"
      using shapeD(4) [OF sh] t unfolding waiters_ok_def by blast
    thus ?thesis using wsum_nonneg [of "in_loop x" cs] by auto
  qed
  have "int (length (waiters s x)) = (\<Sum>t\<in>set (waiters s x). 1)"
    using shapeD(4) [OF sh] by (simp add: waiters_ok_def distinct_card)
  also have "\<dots> \<le> sum ?f (set (waiters s x))" by (rule sum_mono) (use w in blast)
  also have "\<dots> \<le> sum ?f (dom (threads s))"
    by (rule sum_mono2) (use w shapeD(1) [OF sh] in \<open>auto simp: wsum_nonneg\<close>)
  finally show ?thesis by (simp add: tally_def wsum_def)
qed

text \<open>The invariant between steps, and the one inside of a step.\<close>

definition kernel_ok :: "kernel \<Rightarrow> bool" where
  "kernel_ok s \<longleftrightarrow> kinv s \<and> acct [] s"

definition step_ok :: "code list \<Rightarrow> kernel \<Rightarrow> bool" where
  "step_ok cs s \<longleftrightarrow> mid s \<and> \<not> in_external_intr s \<and> acct cs s"

lemma step_okD: "step_ok cs s \<Longrightarrow> mid s" "step_ok cs s \<Longrightarrow> \<not> in_external_intr s" "step_ok cs s \<Longrightarrow> acct cs s"
  by (auto simp: step_ok_def)

lemma step_ok_kernel_ok: "step_ok [] s \<Longrightarrow> idle_thread s \<noteq> Some (running s) \<Longrightarrow> kernel_ok s"
  by (auto simp: step_ok_def kernel_ok_def kinv_def mid_krun)

lemma step_ok_mono: "step_ok cs s \<Longrightarrow> \<forall>l. wsum (lock_code l) ds = wsum (lock_code l) cs \<Longrightarrow>
    \<forall>x. wsum (in_loop x) cs \<le> wsum (in_loop x) ds \<Longrightarrow> \<forall>x. semas s x = None \<longrightarrow> wsum (uses x) cs = 0 \<longrightarrow> wsum (uses x) ds = 0 \<Longrightarrow> step_ok ds s"
  by (auto simp: step_ok_def intro: acct_mono)

lemma step_ok_cong:
  assumes "step_ok cs s" "threads s' = threads s" "running s' = running s" "ready_list s' = ready_list s" "idle_thread s' = idle_thread s"
    "initial_thread s' = initial_thread s" "semas s' = semas s" "lock_holder s' = lock_holder s" "in_external_intr s' = in_external_intr s"
    "next_waiter s' = next_waiter s"
  shows "step_ok cs s'"
proof -
  have "mid (s\<lparr>intr_on := intr_on s'\<rparr>)" by (rule mid_intr_on [OF step_okD(1) [OF assms(1)]])
  hence "mid s'" by (rule mid_cong) (simp_all add: assms waiters_def fun_eq_iff)
  moreover have "acct cs s'" by (rule acct_cong [OF step_okD(3) [OF assms(1)]]) (simp_all add: assms tally_cong [of s' s])
  ultimately show ?thesis using step_okD(2) [OF assms(1)] assms(9) by (simp add: step_ok_def)
qed

lemma step_ok_push:
  assumes "step_ok (c # cs) s" "push_todo c s = Some s'" "c = Idle_loop \<longrightarrow> idle_thread s = Some (running s)" "\<not> resume c" "\<forall>l. c \<noteq> Do_sema_down (Lock_sema l)"
    "idle_thread s = Some (running s) \<longrightarrow> idle_code c" "create_ok s c" "\<forall>u. creates u c \<noteq> 0 \<longrightarrow> tally (creates u) s = 0"
    "starts_idle c \<noteq> 0 \<longrightarrow> idle_count s = 0"
  shows "step_ok cs s'" "running s' = running s" "idle_thread s' = idle_thread s" "intr_on s' = intr_on s"
    "\<exists>th. threads s (running s) = Some th \<and> threads s' = (threads s)(running s \<mapsto> th\<lparr>todo := c # todo th\<rparr>)"
  using push_mid [OF step_okD(1) [OF assms(1)] assms(2-)] acct_push [OF step_okD(3) [OF assms(1)] assms(2)]
    shapeD(1) [OF midD(1) [OF step_okD(1) [OF assms(1)]]] step_okD(2) [OF assms(1)] assms(2)
  by (auto simp: step_ok_def push_todo_Some)

lemma sema_down_loop_ok:
  assumes s: "step_ok [Sema_down_loop x b] s" and off: "\<not> intr_on s" and i: "idle_thread s \<noteq> Some (running s)"
    and th: "threads s (running s) = Some th" and l: "\<forall>l. x = Lock_sema l \<longrightarrow> (\<exists>cs. todo th = Lock_acquired l # cs)"
    and r: "sema_down_loop x b s = Some s'"
  shows "kernel_ok s'" "lock_holder s' = lock_holder s"
proof -
  note e = sema_down_loop_effect [OF step_okD(1) [OF s] off i th l r]
  have sh: "shape s" by (rule midD(1) [OF step_okD(1) [OF s]])
  show "lock_holder s' = lock_holder s" by (rule e(3))
  have a: "acct [Sema_down_loop x b] s" by (rule step_okD(3) [OF s])
  obtain sm where sm: "semas s x = Some sm" and ef: "if sm_value sm = 0
       then semas s' = (semas s)(x \<mapsto> sm\<lparr>sm_waiters := sm_waiters sm @ [running s]\<rparr>) \<and> (\<forall>w. tally w s' = tally w s + w (Sema_down_loop x b))
       else semas s' = (semas s)(x \<mapsto> sm\<lparr>sm_value := sm_value sm - 1\<rparr>) \<and> (\<forall>w. tally w s' = tally w s)"
    using e(4) by blast
  have "acct [] s'"
  proof (cases "sm_value sm = 0")
    case True
    thus ?thesis using a ef sm e(3,5) waiters_loop [OF sh, of x] unfolding acct_def uses_ok_def tokens_def
      by (auto simp: sval_def waiters_def)
  next
    case False
    hence "1 \<le> uint (sm_value sm)" using uint_0_iff [of "sm_value sm"] uint_ge_0 [of "sm_value sm"] by linarith
    hence "uint (sm_value sm - 1) = uint (sm_value sm) - 1"
      using uint_word_ariths(2) [of "sm_value sm" 1] uint_lt2p [of "sm_value sm"] by simp
    hence v: "sval s' = (sval s)(x := sval s x - 1)" using sm ef False by (auto simp: sval_def fun_eq_iff)
    have w: "waiters s' = waiters s" using sm ef False by (auto simp: waiters_def fun_eq_iff)
    have n: "(semas s' y \<noteq> None) = (semas s y \<noteq> None)" for y using sm ef False by auto
    show ?thesis using a ef False e(3,5) sm unfolding acct_def uses_ok_def tokens_def n v w by (auto split: if_splits)
  qed
  thus "kernel_ok s'" using e(1,2) step_okD(2) [OF s] by (simp add: kernel_ok_def kinv_def)
qed

lemma sema_up_acct:
  assumes m: "mid s" and a: "acct [Do_sema_up x] s" and r: "sema_up x s = Some s'"
  shows "acct [] s'"
proof -
  note e = sema_up_effect [OF m r]
  obtain sm where sm: "semas s x = Some sm" and s': "semas s' = (semas s)(x \<mapsto> \<lparr>sm_value = sm_value sm + 1, sm_waiters = tl (sm_waiters sm)\<rparr>)"
    using e(9) by blast
  have le: "uint (sm_value sm + 1) \<le> uint (sm_value sm) + 1"
    using zmod_le_nonneg_dividend [of "uint (sm_value sm) + 1" "2 ^ 32"] uint_word_ariths(1) [of "sm_value sm" 1] by simp
  have "tokens l s' = 1" if "semas s' (Lock_sema l) \<noteq> None" for l
  proof (cases "x = Lock_sema l")
    case True
    have "tokens l s = 0" using a sm True by (simp add: acct_def)
    hence "sval s x = 0" using tokens_bound(1) [OF midD(1) [OF m], of l] tokens_bound(2) [OF midD(1) [OF m], of x] True
      by (auto simp: of_bool_def split: if_splits)
    hence "sm_value sm = 0" using sm by (simp add: sval_def uint_0_iff)
    thus ?thesis using \<open>tokens l s = 0\<close> sm s' True by (simp add: tokens_def sval_def e)
  next
    case False
    thus ?thesis using a that s' by (auto simp: acct_def tokens_def sval_def e)
  qed
  moreover have "sval s' y + int (length (waiters s' y)) \<le> tally (in_loop y) s'" if w: "waiters s' y \<noteq> []" for y
  proof (cases "y = x")
    case True
    then obtain t ts where "sm_waiters sm = t # ts" using w sm s' by (cases "sm_waiters sm") (auto simp: waiters_def)
    hence "waiters s x = t # waiters s' x" "sval s' x \<le> sval s x + 1" using sm s' le by (auto simp: waiters_def sval_def)
    moreover have "sval s x + int (length (waiters s x)) \<le> tally (in_loop x) s" if "waiters s x \<noteq> []"
      using a that by (simp add: acct_def)
    ultimately show ?thesis using True by (simp add: e)
  next
    case False
    hence "waiters s' y = waiters s y" "sval s' y = sval s y" using s' by (auto simp: waiters_def sval_def)
    thus ?thesis using a w by (simp add: acct_def e)
  qed
  moreover have "semas s' (Waiter n) = None" if "next_waiter s \<le> n" for n
    using a that s' sm by (auto simp: acct_def)
  moreover have "uses_ok [] s'" using a s' sm by (auto simp: acct_def uses_ok_def e)
  ultimately show ?thesis by (simp add: acct_def e(11))
qed

text \<open>\<open>step_by\<close>: the invariant inside of a step, for a thread other than the idle thread.\<close>

definition step_by :: "code list \<Rightarrow> kernel \<Rightarrow> bool" where
  "step_by cs s \<longleftrightarrow> step_ok cs s \<and> idle_thread s \<noteq> Some (running s)"

lemma step_by_done: "step_by [] s \<Longrightarrow> kernel_ok s"
  by (simp add: step_by_def step_ok_kernel_ok)

lemma step_by_mono: "step_by cs s \<Longrightarrow> \<forall>l. wsum (lock_code l) ds = wsum (lock_code l) cs \<Longrightarrow>
    \<forall>x. wsum (in_loop x) cs \<le> wsum (in_loop x) ds \<Longrightarrow> \<forall>x. semas s x = None \<longrightarrow> wsum (uses x) cs = 0 \<longrightarrow> wsum (uses x) ds = 0 \<Longrightarrow> step_by ds s"
  by (auto simp: step_by_def intro: step_ok_mono)

lemma step_by_cong:
  assumes "step_by cs s" "threads s' = threads s" "running s' = running s" "ready_list s' = ready_list s" "idle_thread s' = idle_thread s"
    "initial_thread s' = initial_thread s" "semas s' = semas s" "lock_holder s' = lock_holder s" "in_external_intr s' = in_external_intr s"
    "next_waiter s' = next_waiter s"
  shows "step_by cs s'"
  using step_ok_cong [OF _ assms(2-)] assms by (simp add: step_by_def)

lemma step_by_push:
  assumes "step_by (c # cs) s" "push_todo c s = Some s'" "c \<noteq> Idle_loop" "\<not> resume c" "\<forall>l. c \<noteq> Do_sema_down (Lock_sema l)"
    "create_ok s c" "\<forall>u. creates u c \<noteq> 0 \<longrightarrow> tally (creates u) s = 0" "starts_idle c \<noteq> 0 \<longrightarrow> idle_count s = 0"
  shows "step_by cs s'"
  using step_ok_push [of c cs s s'] assms by (auto simp: step_by_def)

lemma sema_exists: "sema_down x s = Some s' \<Longrightarrow> semas s x \<noteq> None" "sema_up x s = Some s' \<Longrightarrow> semas s x \<noteq> None"
  by (auto simp: sema_down_def sema_down_loop_def sema_up_def intr_disable_def Let_def split: bind_splits if_splits)

lemma sema_down_ok:
  assumes s: "step_by [Do_sema_down x] s" and th: "threads s (running s) = Some th"
    and l: "\<forall>l. x = Lock_sema l \<longrightarrow> (\<exists>cs. todo th = Lock_acquired l # cs)" and r: "sema_down x s = Some s'"
  shows "kernel_ok s'" "lock_holder s' = lock_holder s"
proof -
  have "step_by [Sema_down_loop x (intr_on s)] s" by (rule step_by_mono [OF s]) auto
  hence d: "step_by [Sema_down_loop x (intr_on s)] (intr_disable s)" by (rule step_by_cong) (auto simp: intr_disable_def)
  have r': "sema_down_loop x (intr_on s) (intr_disable s) = Some s'" using r by (simp add: sema_down_def split: if_splits)
  note e = sema_down_loop_ok [of x "intr_on s" "intr_disable s" th s', OF _ _ _ _ l r']
  show "kernel_ok s'" "lock_holder s' = lock_holder s" using e d th by (auto simp: intr_disable_def step_by_def)
qed

lemma sema_down_Sema_ok: "step_by [] s \<Longrightarrow> sema_down (Sema n) s = Some s' \<Longrightarrow> kernel_ok s'"
  "step_by [Do_sema_down (Sema n)] s \<Longrightarrow> sema_down (Sema n) s = Some s' \<Longrightarrow> kernel_ok s'"
  "step_by [Do_sema_down (Waiter n)] s \<Longrightarrow> sema_down (Waiter n) s = Some s' \<Longrightarrow> kernel_ok s'"
  "sema_down (Sema n) s = Some s' \<Longrightarrow> step_by [] s \<Longrightarrow> lock_holder s' = lock_holder s"
proof -
  show *: "step_by [Do_sema_down (Sema n)] s \<Longrightarrow> sema_down (Sema n) s = Some s' \<Longrightarrow> kernel_ok s'"
    "step_by [Do_sema_down (Waiter n)] s \<Longrightarrow> sema_down (Waiter n) s = Some s' \<Longrightarrow> kernel_ok s'"
    using sema_down_ok(1) [of _ s _ s'] by (auto simp: step_by_def step_ok_def mid_def)
  have m: "step_by [] s \<Longrightarrow> sema_down (Sema n) s = Some s' \<Longrightarrow> step_by [Do_sema_down (Sema n)] s"
    by (rule step_by_mono) (use sema_exists(1) [of "Sema n" s s'] in auto)
  show "step_by [] s \<Longrightarrow> sema_down (Sema n) s = Some s' \<Longrightarrow> kernel_ok s'" using m *(1) by blast
  show "sema_down (Sema n) s = Some s' \<Longrightarrow> step_by [] s \<Longrightarrow> lock_holder s' = lock_holder s"
    using m sema_down_ok(2) [of "Sema n" s _ s'] by (auto simp: step_by_def step_ok_def mid_def)
qed

lemma thread_current_step: "thread_current s = Some t \<Longrightarrow> t = running s"
  by (simp add: thread_current_Some)

lemma held_Some: "lock_held_by_current_thread l s = Some b \<Longrightarrow> b = (lock_holder s l = Some (running s))"
  by (auto simp: lock_held_by_current_thread_def thread_current_Some split: bind_splits)

lemma lock_acquire_ok:
  assumes s: "step_by [] s" and r: "lock_acquire l s = Some s'"
  shows "kernel_ok s'" "lock_holder s' = lock_holder s"
proof -
  obtain s1 where p: "push_todo (Lock_acquired l) s = Some s1" and d: "sema_down (Lock_sema l) s1 = Some s'"
    using r by (auto simp: lock_acquire_def split: bind_splits if_splits)
  have "semas s (Lock_sema l) \<noteq> None" using sema_exists(1) [OF d] p by (auto simp: push_todo_Some)
  hence "step_by [Lock_acquired l, Do_sema_down (Lock_sema l)] s" by (intro step_by_mono [OF s]) auto
  hence s1: "step_by [Do_sema_down (Lock_sema l)] s1" by (rule step_by_push [OF _ p]) auto
  obtain th where "threads s1 (running s1) = Some th" "\<exists>cs. todo th = Lock_acquired l # cs" "lock_holder s1 = lock_holder s"
    using p by (auto simp: push_todo_Some)
  thus "kernel_ok s'" "lock_holder s' = lock_holder s" using sema_down_ok [OF s1 _ _ d] by auto
qed

lemma lock_acquired_ok:
  assumes s: "step_by [Lock_acquired l] s" and r: "lock_acquired l s = Some s'"
  shows "kernel_ok s'" "semas s (Lock_sema l) \<noteq> None \<longrightarrow> lock_holder s l = None"
proof -
  have m: "mid s" "acct [Lock_acquired l] s" "\<not> in_external_intr s" using s by (auto simp: step_by_def step_ok_def)
  have s': "s' = s\<lparr>lock_holder := (lock_holder s)(l := Some (running s))\<rparr>"
    using r by (auto simp: lock_acquired_def thread_current_Some split: bind_splits)
  have z: "tokens l s = 0" if "semas s (Lock_sema l) \<noteq> None" using m(2) that by (simp add: acct_def)
  have h: "lock_holder s l = None" if "semas s (Lock_sema l) \<noteq> None"
    using z [OF that] tokens_bound(1) [OF midD(1) [OF m(1)], of l] tokens_bound(2) [OF midD(1) [OF m(1)], of "Lock_sema l"]
    by (auto simp: of_bool_def split: if_splits)
  thus "semas s (Lock_sema l) \<noteq> None \<longrightarrow> lock_holder s l = None" by blast
  have "tokens k s' = tokens k s + of_bool (k = l)" if "semas s (Lock_sema k) \<noteq> None" for k
    using that h by (auto simp: s' tokens_def sval_def tally_cong [of s' s])
  moreover have "uses_ok [] s'" using m(2) by (auto simp: acct_def uses_ok_def s')
  ultimately have "acct [] s'" using m(2) by (auto simp: acct_def s' sval_def waiters_def tally_cong [of s' s])
  moreover have "mid s'" by (rule mid_cong [OF m(1)]) (auto simp: s' waiters_def)
  ultimately have "step_by [] s'" using s by (simp add: step_by_def step_ok_def s')
  thus "kernel_ok s'" by (rule step_by_done)
qed

lemma lock_release_ok:
  assumes s: "step_by [] s" and r: "lock_release l s = Some s'"
  shows "step_by [] s'" "lock_holder s' = (lock_holder s)(l := None)" "lock_holder s l = Some (running s)"
proof -
  let ?s = "s\<lparr>lock_holder := (lock_holder s)(l := None)\<rparr>"
  show h: "lock_holder s l = Some (running s)" using r by (auto simp: lock_release_def split: bind_splits if_splits dest!: held_Some)
  have p: "push_todo (Do_sema_up (Lock_sema l)) ?s = Some s'" using r by (auto simp: lock_release_def split: bind_splits if_splits)
  thus "lock_holder s' = (lock_holder s)(l := None)" by (auto simp: push_todo_Some)
  have m: "mid s" "acct [] s" "\<not> in_external_intr s" using s by (auto simp: step_by_def step_ok_def)
  have "tokens k ?s = tokens k s - of_bool (k = l)" for k
    using h by (auto simp: tokens_def sval_def tally_cong [of ?s s])
  moreover have "uses_ok [Do_sema_up (Lock_sema l)] ?s" using m(2) h by (auto simp: acct_def uses_ok_def)
  ultimately have "acct [Do_sema_up (Lock_sema l)] ?s"
    using m(2) by (auto simp: acct_def sval_def waiters_def tally_cong [of ?s s])
  moreover have "mid ?s" by (rule mid_cong [OF m(1)]) (auto simp: waiters_def)
  ultimately have "step_by [Do_sema_up (Lock_sema l)] ?s" using s by (simp add: step_by_def step_ok_def)
  thus "step_by [] s'" by (rule step_by_push [OF _ p]) auto
qed

lemma sema_up_ok:
  assumes s: "step_ok [Do_sema_up x] s" and r: "sema_up x s = Some s'"
  shows "step_ok [] s'" "lock_holder s' = lock_holder s" "running s' = running s" "idle_thread s' = idle_thread s"
    "threads s' (running s) = threads s (running s)"
  using sema_up_effect [OF step_okD(1) [OF s] r] sema_up_acct [OF step_okD(1,3) [OF s] r] step_okD(2) [OF s] by (auto simp: step_ok_def)

lemma sema_up_by:
  assumes s: "step_by [] s" and r: "sema_up x s = Some s'" and x: "\<forall>l. x \<noteq> Lock_sema l"
  shows "step_by [] s'" "lock_holder s' = lock_holder s"
proof -
  have "step_ok [Do_sema_up x] s" by (rule step_ok_mono [of "[]"]) (use s x sema_exists(2) [OF r] in \<open>auto simp: step_by_def\<close>)
  thus "step_by [] s'" "lock_holder s' = lock_holder s" using sema_up_ok [OF _ r] s by (auto simp: step_by_def)
qed

lemma step_byD: "step_by cs s \<Longrightarrow> mid s" "step_by cs s \<Longrightarrow> \<not> in_external_intr s" "step_by cs s \<Longrightarrow> acct cs s"
  "step_by cs s \<Longrightarrow> idle_thread s \<noteq> Some (running s)" "step_by cs s \<Longrightarrow> shape s"
  by (auto simp: step_by_def step_ok_def mid_def)

lemma step_byI: "mid s \<Longrightarrow> \<not> in_external_intr s \<Longrightarrow> acct cs s \<Longrightarrow> idle_thread s \<noteq> Some (running s) \<Longrightarrow> step_by cs s"
  by (auto simp: step_by_def step_ok_def)

lemma sema_try_down_ok:
  assumes s: "step_by [] s" and r: "sema_try_down x s = Some (b, s')"
  shows "step_by (if b \<and> (\<exists>l. x = Lock_sema l) then [Do_sema_up x] else []) s'" "lock_holder s' = lock_holder s"
proof -
  note d = step_byD [OF s]
  obtain sm where sm: "semas s x = Some sm" and b: "b = (sm_value sm > 0)"
    and s': "s' = (if b then s\<lparr>semas := (semas s)(x \<mapsto> sm\<lparr>sm_value := sm_value sm - 1\<rparr>)\<rparr> else s)"
    using r by (auto simp: sema_try_down_def intr_disable_def intr_set_level_Some set_sema_def Let_def
        split: bind_splits if_splits intro!: kernel.equality)
  show "lock_holder s' = lock_holder s" by (simp add: s')
  show "step_by (if b \<and> (\<exists>l. x = Lock_sema l) then [Do_sema_up x] else []) s'"
  proof (cases b)
    case True
    hence "sm_value sm \<noteq> 0" using b by auto
    hence "1 \<le> uint (sm_value sm)" using uint_0_iff [of "sm_value sm"] uint_ge_0 [of "sm_value sm"] by linarith
    hence "uint (sm_value sm - 1) = uint (sm_value sm) - 1"
      using uint_word_ariths(2) [of "sm_value sm" 1] uint_lt2p [of "sm_value sm"] by simp
    hence v: "sval s' = (sval s)(x := sval s x - 1)" using sm True by (auto simp: sval_def fun_eq_iff s')
    have w: "waiters s' = waiters s" using sm True by (auto simp: waiters_def fun_eq_iff s')
    have n: "(semas s' y = None) = (semas s y = None)" for y using sm True by (auto simp: s')
    have t: "tokens l s' = tokens l s - of_bool (x = Lock_sema l)" for l
      unfolding tokens_def v using True by (auto simp: s')
    have "acct (if \<exists>l. x = Lock_sema l then [Do_sema_up x] else []) s'"
      using d(3) True sm unfolding acct_def uses_ok_def n w t v by (auto simp: s')
    moreover have "mid s'" by (rule mid_cong [OF d(1)]) (use True w in \<open>auto simp: s'\<close>)
    ultimately show ?thesis using d(2,4) True by (intro step_byI) (auto simp: s')
  next
    case False
    thus ?thesis using s by (simp add: s')
  qed
qed

lemma lock_try_acquire_ok:
  assumes s: "step_by [] s" and r: "lock_try_acquire l s = Some (b, s')"
  shows "step_by [] s'" "lock_holder s' = lock_holder s"
proof -
  obtain s1 where d: "sema_try_down (Lock_sema l) s = Some (b, s1)" and p: "if b then push_todo (Lock_acquired l) s1 = Some s' else s' = s1"
    using r by (auto simp: lock_try_acquire_def split: bind_splits if_splits)
  note e = sema_try_down_ok [OF s d]
  show "lock_holder s' = lock_holder s" using p e(2) by (auto simp: push_todo_Some split: if_splits)
  show "step_by [] s'"
  proof (cases b)
    case True
    have "step_by [Lock_acquired l] s1" by (rule step_by_mono [OF e(1)]) (use True in auto)
    thus ?thesis by (rule step_by_push) (use p True in auto)
  next
    case False
    thus ?thesis using e(1) p by simp
  qed
qed

lemma sema_init_ok:
  assumes s: "step_by [] s" and i: "waiters s x = []" and x: "\<forall>l. x \<noteq> Lock_sema l" "\<forall>n. x = Waiter n \<longrightarrow> n < next_waiter s"
  shows "step_by [] (sema_init x v s)"
proof -
  let ?s = "sema_init x v s"
  note d = step_byD [OF s]
  have w: "waiters ?s = waiters s" using i by (auto simp: sema_init_def waiters_set_sema)
  have n: "semas ?s (Lock_sema l) = semas s (Lock_sema l)" for l using x by (auto simp: sema_init_def set_sema_def)
  have v: "sval ?s y = (if y = x then uint v else sval s y)" for y by (simp add: sema_init_def set_sema_def sval_def)
  have f: "tally u ?s = tally u s" "lock_holder ?s = lock_holder s" "next_waiter ?s = next_waiter s" for u
    by (auto simp: sema_init_def set_sema_def)
  have "tokens l ?s = tokens l s" for l using x by (auto simp: tokens_def v f)
  moreover have "uses_ok [] ?s" using d(3) unfolding acct_def uses_ok_def f by (auto simp: sema_init_def set_sema_def)
  ultimately have "acct [] ?s" using d(3) i x(2) unfolding acct_def n w v f by (auto simp: sema_init_def set_sema_def)
  moreover have "mid ?s" by (rule mid_cong [OF d(1)]) (use w in \<open>auto simp: sema_init_def set_sema_def\<close>)
  ultimately show ?thesis using d(2,4) by (intro step_byI) (auto simp: sema_init_def set_sema_def)
qed

lemma lock_init_ok:
  assumes s: "step_by [] s" and i: "lock_idle l s"
  shows "step_by [] (lock_init l s)"
proof -
  let ?s = "lock_init l s"
  note d = step_byD [OF s]
  have i': "waiters s (Lock_sema l) = []" using i by (auto simp: lock_idle_def sema_idle_def waiters_def split: option.splits)
  have w: "waiters ?s = waiters s" using i' by (auto simp: lock_init_def sema_init_def waiters_def set_sema_def fun_eq_iff)
  have n: "semas ?s y = (if y = Lock_sema l then Some \<lparr>sm_value = 1, sm_waiters = []\<rparr> else semas s y)" for y
    by (auto simp: lock_init_def sema_init_def set_sema_def)
  hence v: "sval ?s y = (if y = Lock_sema l then 1 else sval s y)" for y by (simp add: sval_def)
  have f: "tally u ?s = tally u s" "lock_holder ?s = (lock_holder s)(l := None)" "next_waiter ?s = next_waiter s" for u
    by (auto simp: lock_init_def sema_init_def set_sema_def)
  have "tally (lock_code l) s = 0"
  proof (rule tally_zero)
    fix t th c assume "threads s t = Some th" "c \<in> set (todo th)"
    thus "lock_code l c = 0" using i by (cases "(l, c)" rule: lock_code.cases) (auto simp: lock_idle_def sema_idle_def ran_def)
  qed
  hence "tokens k ?s = (if k = l then 1 else tokens k s)" for k by (auto simp: tokens_def v f)
  moreover have "uses_ok [] ?s" using d(3) unfolding acct_def uses_ok_def f n by auto
  ultimately have "acct [] ?s" using d(3) i' unfolding acct_def n w v f by auto
  moreover have "mid ?s" by (rule mid_cong [OF d(1)]) (use w in \<open>auto simp: lock_init_def sema_init_def set_sema_def\<close>)
  ultimately show ?thesis using d(2,4) by (intro step_byI) (auto simp: lock_init_def sema_init_def set_sema_def)
qed

lemma cond_init_ok: "step_by cs s \<Longrightarrow> step_by cs (cond_init c s)" "lock_holder (cond_init c s) = lock_holder s"
  by (erule step_by_cong) (auto simp: cond_init_def)

lemma cond_wait_ok:
  assumes s: "step_by [] s" and r: "cond_wait c l s = Some s'"
  shows "step_by [] s'" "lock_holder s' = (lock_holder s)(l := None)" "lock_holder s l = Some (running s)"
proof -
  define s1 where "s1 = sema_init (Waiter (next_waiter s)) 0 (s\<lparr>next_waiter := next_waiter s + 1\<rparr>)"
  obtain s3 s4 where p: "push_todo (Do_lock_acquire l) (s1\<lparr>cond_waiters := (cond_waiters s1)(c := cond_waiters s1 c @ [next_waiter s])\<rparr>) = Some s3"
    "push_todo (Do_sema_down (Waiter (next_waiter s))) s3 = Some s4" "lock_release l s4 = Some s'"
    using r by (auto simp: cond_wait_def s1_def Let_def split: bind_splits if_splits)
  have a: "acct [] (s\<lparr>next_waiter := next_waiter s + 1\<rparr>)"
    using step_byD(3) [OF s] by (auto simp: acct_def uses_ok_def tokens_def sval_def waiters_def)
  have "mid (s\<lparr>next_waiter := next_waiter s + 1\<rparr>)" by (rule mid_cong [OF step_byD(1) [OF s]]) (auto simp: waiters_def)
  hence "step_by [] (s\<lparr>next_waiter := next_waiter s + 1\<rparr>)" using a step_byD [OF s] by (intro step_byI) auto
  moreover have "waiters s (Waiter (next_waiter s)) = []" using step_byD(3) [OF s] by (auto simp: acct_def waiters_def)
  ultimately have "step_by [] s1" unfolding s1_def by (intro sema_init_ok) (auto simp: waiters_def)
  hence "step_by [] (s1\<lparr>cond_waiters := (cond_waiters s1)(c := cond_waiters s1 c @ [next_waiter s])\<rparr>)" by (rule step_by_cong) auto
  hence "step_by [Do_lock_acquire l] (s1\<lparr>cond_waiters := (cond_waiters s1)(c := cond_waiters s1 c @ [next_waiter s])\<rparr>)"
    by (rule step_by_mono) auto
  hence "step_by [] s3" by (rule step_by_push [OF _ p(1)]) auto
  moreover have "semas s3 (Waiter (next_waiter s)) \<noteq> None" using p(1) by (auto simp: push_todo_Some s1_def sema_init_def set_sema_def)
  ultimately have "step_by [Do_sema_down (Waiter (next_waiter s))] s3" by (elim step_by_mono) auto
  hence s4: "step_by [] s4" by (rule step_by_push [OF _ p(2)]) auto
  have "lock_holder s4 = lock_holder s" "running s4 = running s"
    using p(1,2) by (auto simp: push_todo_Some s1_def sema_init_def set_sema_def)
  thus "step_by [] s'" "lock_holder s' = (lock_holder s)(l := None)" "lock_holder s l = Some (running s)"
    using lock_release_ok [OF s4 p(3)] by auto
qed

lemma cond_signal_ok:
  assumes s: "step_by [] s" and r: "cond_signal c l s = Some s'"
  shows "step_by [] s'" "lock_holder s' = lock_holder s"
proof -
  have "step_by [] s' \<and> lock_holder s' = lock_holder s"
  proof (cases "cond_waiters s c")
    case Nil
    thus ?thesis using s r by (auto simp: cond_signal_def split: bind_splits if_splits)
  next
    case (Cons w ws)
    hence u: "sema_up (Waiter w) (s\<lparr>cond_waiters := (cond_waiters s)(c := ws)\<rparr>) = Some s'"
      using r by (auto simp: cond_signal_def split: bind_splits if_splits)
    have "step_by [] (s\<lparr>cond_waiters := (cond_waiters s)(c := ws)\<rparr>)" by (rule step_by_cong [OF s]) auto
    thus ?thesis using sema_up_by [OF _ u] by auto
  qed
  thus "step_by [] s'" "lock_holder s' = lock_holder s" by auto
qed

lemma cond_broadcast_ok:
  assumes s: "step_by [] s" and r: "cond_broadcast c l s = Some s'"
  shows "step_by [] s'" "lock_holder s' = lock_holder s"
proof -
  have "step_by [] s' \<and> lock_holder s' = lock_holder s"
  proof (cases "cond_waiters s c = []")
    case False
    then obtain s1 where p: "push_todo (Cond_broadcast_loop c l) s = Some s1" "cond_signal c l s1 = Some s'"
      using r by (auto simp: cond_broadcast_def split: bind_splits)
    have "step_by [Cond_broadcast_loop c l] s" by (rule step_by_mono [OF s]) auto
    hence "step_by [] s1" by (rule step_by_push [OF _ p(1)]) auto
    thus ?thesis using cond_signal_ok [OF _ p(2)] p(1) by (auto simp: push_todo_Some)
  qed (use s r in \<open>auto simp: cond_broadcast_def\<close>)
  thus "step_by [] s'" "lock_holder s' = lock_holder s" by auto
qed

text \<open>Creating threads.\<close>

lemma no_creator:
  assumes "shape s" "threads s t = None"
  shows "tally (creates t) s = 0"
proof (rule tally_zero)
  fix u th c assume "threads s u = Some th" "c \<in> set (todo th)"
  hence "create_ok s c" by (rule shapeD(6) [OF assms(1)])
  thus "creates t c = 0" using assms(2) by (cases "(s, c)" rule: create_ok.cases) auto
qed

lemma init_thread_ok:
  assumes s: "step_by [] s" and n: "threads s t = None" "lock_idle (Child_lock t) s" and r: "init_thread t name prio s = Some s'"
  shows "step_by [] s'" "lock_holder s' = lock_holder s" "tally w s' = tally w s" "idle_thread s' = idle_thread s" "running s' = running s"
    "\<exists>th. threads s' = (threads s)(t \<mapsto> th) \<and> status th = THREAD_BLOCKED \<and> todo th = []"
proof -
  note d = step_byD [OF s]
  define th where "th = \<lparr>tid = 0, status = THREAD_BLOCKED, t_name = take 15 name, t_stack = t + PGSIZE, priority = prio,
    next_fd = 2, child_load = 0, parent_tid = 0, pagedir = 0, t_magic = THREAD_MAGIC, todo = []\<rparr>"
  define s1 where "s1 = s\<lparr>threads := (threads s)(t \<mapsto> th), all_list := all_list s @ [t]\<rparr>"
  have t: "t \<noteq> 0" and s': "s' = cond_init (Child_condition t) (lock_init (Child_lock t) s1)"
    using r by (auto simp: init_thread_def s1_def th_def Let_def split: if_splits)
  have tl: "tally w s1 = tally w s" for w
    using tally_new [OF shapeD(1) [OF d(5)] n(1), of w th] tally_cong [of s1 "s\<lparr>threads := (threads s)(t \<mapsto> th)\<rparr>" w]
    by (simp add: s1_def th_def)
  have "shape (s\<lparr>threads := (threads s)(t \<mapsto> th)\<rparr>)" by (rule shape_new [OF d(5) n(1) t]) (auto simp: th_def)
  moreover have "waiters s1 = waiters s" by (auto simp: s1_def waiters_def)
  ultimately have "shape s1" by (subst shape_cong) (auto simp: s1_def)
  moreover have "threads s1 (running s1) = threads s (running s)" using d(1) n(1) by (auto simp: s1_def mid_def)
  ultimately have m: "mid s1" using d(1) by (auto simp: mid_def)
  have "acct [] s1" by (rule acct_cong [OF d(3)]) (use tl in \<open>auto simp: s1_def\<close>)
  hence s1: "step_by [] s1" using m d(2,4) by (intro step_byI) (auto simp: s1_def)
  have "lock_idle (Child_lock t) s1"
    using n by (auto simp: lock_idle_def sema_idle_def s1_def ran_def th_def)
  hence "step_by [] (lock_init (Child_lock t) s1)" by (rule lock_init_ok [OF s1])
  thus "step_by [] s'" unfolding s' by (rule cond_init_ok)
  show "lock_holder s' = lock_holder s" using n(2) by (auto simp: s' cond_init_def lock_init_def sema_init_def set_sema_def s1_def lock_idle_def)
  show "tally w s' = tally w s" using tl by (simp add: s' cond_init_def lock_init_def sema_init_def set_sema_def)
  show "idle_thread s' = idle_thread s" "running s' = running s"
    by (auto simp: s' cond_init_def lock_init_def sema_init_def set_sema_def s1_def)
  show "\<exists>th. threads s' = (threads s)(t \<mapsto> th) \<and> status th = THREAD_BLOCKED \<and> todo th = []"
    by (rule exI [of _ th]) (simp add: s' cond_init_def lock_init_def sema_init_def set_sema_def s1_def th_def)
qed

lemma allocate_tid_ok:
  assumes s: "step_by [] s" and r: "allocate_tid t s = Some s'"
  shows "kernel_ok s'" "lock_holder s' = lock_holder s"
proof -
  obtain s1 where p: "push_todo (Tid_acquired t) s = Some s1" "lock_acquire Tid_lock s1 = Some s'"
    using r by (auto simp: allocate_tid_def split: bind_splits)
  have "step_by [Tid_acquired t] s" by (rule step_by_mono [OF s]) auto
  hence "step_by [] s1" by (rule step_by_push [OF _ p(1)]) auto
  thus "kernel_ok s'" "lock_holder s' = lock_holder s" using lock_acquire_ok [OF _ p(2)] p(1) by (auto simp: push_todo_Some)
qed

lemma thread_create_ok:
  assumes s: "step_by [] s" and n: "page_idle page s" and f: "starts_idle (Kernel_thread f) \<noteq> 0 \<longrightarrow> idle_count s = 0" "\<forall>n. f = Idle n \<longrightarrow> semas s (Sema n) \<noteq> None"
    and r: "thread_create page name prio (Some f) s = Some (v, s')"
  shows "kernel_ok s'" "lock_holder s' = lock_holder s"
proof -
  have "kernel_ok s' \<and> lock_holder s' = lock_holder s"
  proof (cases page)
    case None
    thus ?thesis using r step_by_done [OF s] by (simp add: thread_create_def)
  next
    case (Some t)
    obtain s1 s2 where p: "init_thread t name prio s = Some s1" "push_todo (Create_rest t f) s1 = Some s2" "allocate_tid t s2 = Some s'"
      using r Some by (auto simp: thread_create_def split: bind_splits)
    have nt: "threads s t = None" "lock_idle (Child_lock t) s" using n Some by (auto simp: page_idle_def)
    note i = init_thread_ok [OF s nt p(1)]
    have "\<forall>n. f = Idle n \<longrightarrow> semas s1 (Sema n) \<noteq> None"
      using f(2) p(1) by (auto simp: init_thread_def cond_init_def lock_init_def sema_init_def set_sema_def Let_def split: if_splits)
    hence "step_by [Create_rest t f] s1" by (intro step_by_mono [OF i(1)]) (cases f; auto)+
    moreover have "create_ok s1 (Create_rest t f)" using i(6) by auto
    moreover have "tally (creates t) s1 = 0" using no_creator [OF step_byD(5) [OF s] nt(1)] i(3) by simp
    moreover have "starts_idle (Create_rest t f) \<noteq> 0 \<longrightarrow> idle_count s1 = 0" using f(1) i(3,4) by (cases f) (auto simp: idle_count_def)
    ultimately have "step_by [] s2" by (intro step_by_push [OF _ p(2)]) auto
    thus ?thesis using allocate_tid_ok [OF _ p(3)] i(2) p(2) by (auto simp: push_todo_Some)
  qed
  thus "kernel_ok s'" "lock_holder s' = lock_holder s" by auto
qed

lemma tid_acquired_ok:
  assumes s: "step_by [] s" and r: "tid_acquired t s = Some s'"
  shows "step_by [] s'" "\<forall>l. lock_holder s' l = lock_holder s l \<or> lock_holder s l = Some (running s) \<and> lock_holder s' l = None"
proof -
  obtain n s1 where p: "push_todo (Set_tid t (next_tid s)) (s\<lparr>next_tid := n\<rparr>) = Some s1" "lock_release Tid_lock s1 = Some s'"
    using r by (auto simp: tid_acquired_def split: bind_splits)
  have "step_by [] (s\<lparr>next_tid := n\<rparr>)" by (rule step_by_cong [OF s]) auto
  hence "step_by [Set_tid t (next_tid s)] (s\<lparr>next_tid := n\<rparr>)" by (rule step_by_mono) auto
  hence s1: "step_by [] s1" by (rule step_by_push [OF _ p(1)]) auto
  show "step_by [] s'" by (rule lock_release_ok(1) [OF s1 p(2)])
  show "\<forall>l. lock_holder s' l = lock_holder s l \<or> lock_holder s l = Some (running s) \<and> lock_holder s' l = None"
    using lock_release_ok(2,3) [OF s1 p(2)] p(1) by (auto simp: push_todo_Some)
qed

lemma set_thread_ok:
  assumes s: "step_by cs s" and r: "set_thread t f s = Some s'" and f: "\<And>th. status (f th) = status th \<and> todo (f th) = todo th \<and> t_magic (f th) = t_magic th"
  shows "step_by cs s'" "lock_holder s' = lock_holder s" "running s' = running s" "idle_thread s' = idle_thread s" "intr_on s' = intr_on s"
    "\<exists>th. threads s t = Some th \<and> threads s' = (threads s)(t \<mapsto> f th)" "tally w s' = tally w s" "in_external_intr s' = in_external_intr s"
proof -
  note d = step_byD [OF s]
  obtain th where th: "threads s t = Some th" and s': "s' = s\<lparr>threads := (threads s)(t \<mapsto> f th)\<rparr>"
    using r by (auto simp: set_thread_def split: bind_splits)
  show tl: "tally w s' = tally w s" for w by (simp add: s' tally_upd [OF shapeD(1) [OF d(5)] th] f)
  have "shape s'" unfolding s' by (rule shape_same [OF d(5) th]) (use f in auto)
  hence "mid s'" using d(1) f [of th] th by (auto simp: mid_def s')
  moreover have "acct cs s'" by (rule acct_cong [OF d(3)]) (use tl in \<open>auto simp: s'\<close>)
  ultimately show "step_by cs s'" using d(2,4) by (intro step_byI) (auto simp: s')
qed (use r in \<open>auto simp: set_thread_def split: bind_splits\<close>)

lemma frames_ok:
  assumes s: "step_by [] s" and r: "set_thread t (\<lambda>th. th\<lparr>todo := [Kernel_thread f]\<rparr>) s = Some s'"
    and th: "threads s t = Some th" "status th = THREAD_BLOCKED" "todo th = []" and z: "tally (creates t) s = 0"
    and i: "idle_count s + starts_idle (Kernel_thread f) \<le> 1" "\<forall>n. f = Idle n \<longrightarrow> semas s (Sema n) \<noteq> None"
  shows "step_by [] s'" "tally (creates t) s' = 0"
proof -
  note d = step_byD [OF s]
  have s': "s' = s\<lparr>threads := (threads s)(t \<mapsto> th\<lparr>todo := [Kernel_thread f]\<rparr>)\<rparr>" using r th by (simp add: set_thread_def)
  have tl: "tally w s' = tally w s + w (Kernel_thread f)" for w by (simp add: s' tally_upd [OF shapeD(1) [OF d(5)] th(1)] th(3))
  have "shape s'" unfolding s' by (rule shape_frames [OF d(5) th z i(1)]) (auto simp: th)
  moreover have "t \<noteq> running s" using d(1) th by (auto simp: mid_def)
  ultimately have "mid s'" using d(1) by (auto simp: mid_def s')
  moreover have "uses_ok [] s'" using d(3) tl i(2) by (cases f) (auto simp: acct_def uses_ok_def s')
  hence "acct [] s'" using d(3) tl by (simp add: acct_def tokens_def sval_def waiters_def s')
  ultimately show "step_by [] s'" using d(2,4) by (intro step_byI) (auto simp: s')
  show "tally (creates t) s' = 0" using tl z by simp
qed

lemma create_rest_ok:
  assumes s: "step_by [] s" and th: "threads s t = Some th" "status th = THREAD_BLOCKED" "todo th = []" and z: "tally (creates t) s = 0"
    and i: "idle_count s + starts_idle (Kernel_thread f) \<le> 1" "\<forall>n. f = Idle n \<longrightarrow> semas s (Sema n) \<noteq> None"
    and r: "create_rest t f s = Some s'"
  shows "step_by [] s'" "lock_holder s' = lock_holder s"
proof -
  obtain i s1 s2 s3 s4 s5 s6 where p: "set_thread t (\<lambda>th. th\<lparr>parent_tid := i\<rparr>) s = Some s1" "alloc_frame t 12 (intr_disable s1) = Some s2"
    "alloc_frame t 4 s2 = Some s3" "alloc_frame t 28 s3 = Some s4" "set_thread t (\<lambda>th. th\<lparr>todo := [Kernel_thread f]\<rparr>) s4 = Some s5"
    "push_todo (Do_thread_unblock t) s5 = Some s6" "s' = s6\<lparr>intr_on := intr_on s1\<rparr>"
    using r by (auto simp: create_rest_def intr_set_level_Some Let_def split: bind_splits)
  have af: "set_thread t (\<lambda>th. th\<lparr>t_stack := t_stack th - n\<rparr>) u = Some v" if "alloc_frame t n u = Some v" for n u v
    using that by (auto simp: alloc_frame_def split: if_splits)
  note 1 = set_thread_ok [OF s p(1), simplified]
  have "step_by [] (intr_disable s1)" by (rule step_by_cong [OF 1(1)]) (auto simp: intr_disable_def)
  note 2 = set_thread_ok [OF this af [OF p(2)], simplified]
  note 3 = set_thread_ok [OF 2(1) af [OF p(3)], simplified]
  note 4 = set_thread_ok [OF 3(1) af [OF p(4)], simplified]
  obtain th4 where th4: "threads s4 t = Some th4" "status th4 = THREAD_BLOCKED" "todo th4 = []"
    using 1(6) 2(6) 3(6) 4(6) th by (auto simp: intr_disable_def)
  have tl: "tally w s4 = tally w s" for w using 1(7) 2(7) 3(7) 4(7) by (simp add: intr_disable_def)
  have ic: "idle_count s4 = idle_count s" using 1(4) 2(4) 3(4) 4(4) tl by (simp add: idle_count_def intr_disable_def)
  note 5 = frames_ok [OF 4(1) p(5) th4]
  have sm: "semas s4 = semas s"
    using p(1-4) by (auto simp: alloc_frame_def set_thread_def intr_disable_def split: bind_splits if_splits)
  have s5: "step_by [] s5" "tally (creates t) s5 = 0" using 5 z i tl ic sm by auto
  have "create_ok s5 (Do_thread_unblock t)" using p(5) th4 by (auto simp: set_thread_def)
  moreover have "step_by [Do_thread_unblock t] s5" by (rule step_by_mono [OF s5(1)]) auto
  ultimately have "step_by [] s6" using s5(2) by (intro step_by_push [OF _ p(6)]) auto
  thus "step_by [] s'" unfolding p(7) by (rule step_by_cong) auto
  show "lock_holder s' = lock_holder s"
    using 1(2) 2(2) 3(2) 4(2) p(5,6) by (auto simp: p(7) push_todo_Some set_thread_def intr_disable_def split: bind_splits)
qed

lemma unblock_new_ok:
  assumes s: "step_by [] s" and th: "threads s t = Some th" "status th = THREAD_BLOCKED" "todo th = [Kernel_thread f]" and z: "tally (creates t) s = 0"
    and r: "thread_unblock t s = Some s'"
  shows "step_by [] s'" "lock_holder s' = lock_holder s"
proof -
  note d = step_byD [OF s]
  have s': "s' = s\<lparr>ready_list := ready_list s @ [t], threads := (threads s)(t \<mapsto> th\<lparr>status := THREAD_READY\<rparr>)\<rparr>"
    using r th by (auto simp: thread_unblock_Some)
  have ni: "idle_thread s \<noteq> Some t" by (rule shape_not_idle [OF d(5) th(1,2)]) (simp add: th)
  have nw: "t \<notin> set (waiters s y)" for y using shapeD(4) [OF d(5)] th unfolding waiters_ok_def by fastforce
  have "distinct (waiters s y)" for y using shapeD(4) [OF d(5)] by (auto simp: waiters_ok_def)
  hence "shape s'"
    by (intro shape_unblock [OF d(5) th(1,2) _ ni]) (use nw th(3) shape_no_creator [OF d(5) z] in \<open>auto simp: s' resumes_def\<close>)
  moreover have "t \<noteq> running s" using d(1) th by (auto simp: mid_def)
  ultimately have "mid s'" using d(1) by (auto simp: mid_def s')
  moreover have "tally w s' = tally w s" for w
    using tally_upd [OF shapeD(1) [OF d(5)] th(1), of w "th\<lparr>status := THREAD_READY\<rparr>"]
      tally_cong [of s' "s\<lparr>threads := (threads s)(t \<mapsto> th\<lparr>status := THREAD_READY\<rparr>)\<rparr>" w] by (simp add: s')
  hence "acct [] s'" by (intro acct_cong [OF d(3)]) (auto simp: s')
  ultimately show "step_by [] s'" using d(2,4) by (intro step_byI) (auto simp: s')
  show "lock_holder s' = lock_holder s" by (simp add: s')
qed

text \<open>Yielding, exiting, sleeping.\<close>

lemma thread_yield_ok:
  assumes s: "step_ok [] s" and th: "threads s (running s) = Some th" "idle_thread s = Some (running s) \<longrightarrow> idle_tail (todo th)"
    and r: "thread_yield s = Some s'"
  shows "kernel_ok s'" "lock_holder s' = lock_holder s"
proof -
  define s1 where "s1 = s\<lparr>intr_on := False, ready_list := (if idle_thread s \<noteq> Some (running s) then ready_list s @ [running s] else ready_list s),
      threads := (threads s)(running s \<mapsto> th\<lparr>status := THREAD_READY, todo := Yielded (intr_on s) # todo th\<rparr>)\<rparr>"
  have sc: "schedule s1 = Some s'"
    using r th(1) by (auto simp: thread_yield_def thread_current_Some set_status_def set_thread_def push_todo_def intr_disable_def s1_def Let_def
        split: bind_splits if_splits)
  have o: "off s1" by (rule yield_off [OF step_okD(1) [OF s] th s1_def])
  have tl: "tally w s1 = tally w s + w (Yielded (intr_on s))" for w
    using tally_upd [OF shapeD(1) [OF midD(1) [OF step_okD(1) [OF s]]] th(1), of w "th\<lparr>status := THREAD_READY, todo := Yielded (intr_on s) # todo th\<rparr>"]
      tally_cong [of s1 "s\<lparr>threads := (threads s)(running s \<mapsto> th\<lparr>status := THREAD_READY, todo := Yielded (intr_on s) # todo th\<rparr>)\<rparr>" w]
    by (simp add: s1_def)
  have a1: "acct [] s1" using step_okD(3) [OF s] tl by (simp add: acct_def uses_ok_def tokens_def sval_def waiters_def s1_def)
  note e = schedule_shape [OF o sc] schedule_frame [OF sc]
  have "acct [] s'" by (rule acct_cong [OF a1]) (use e in auto)
  thus "kernel_ok s'" using e step_okD(2) [OF s] by (simp add: kernel_ok_def kinv_def s1_def)
  show "lock_holder s' = lock_holder s" using e by (simp add: s1_def)
qed

lemma thread_yield_by: "step_by [] s \<Longrightarrow> thread_yield s = Some s' \<Longrightarrow> kernel_ok s' \<and> lock_holder s' = lock_holder s"
  using thread_yield_ok [of s _ s'] by (auto simp: step_by_def step_ok_def mid_def)

lemma thread_exit_ok:
  assumes s: "step_by [] s" and th: "threads s (running s) = Some th" "todo th = []" and r: "thread_exit Some s = Some s'"
  shows "kernel_ok s'" "lock_holder s' = lock_holder s"
proof -
  note d = step_byD [OF s]
  define s1 where "s1 = s\<lparr>intr_on := False, all_list := remove1 (running s) (all_list s),
    threads := (threads s)(running s \<mapsto> th\<lparr>status := THREAD_DYING\<rparr>)\<rparr>"
  have sc: "schedule s1 = Some s'"
    using r th(1) by (auto simp: thread_exit_def thread_current_Some set_status_def set_thread_def intr_disable_def s1_def Let_def
        split: bind_splits if_splits)
  have o: "off s1" by (rule exit_off [OF d(1) th d(4) s1_def])
  have tl: "tally w s1 = tally w s" for w
    using tally_upd [OF shapeD(1) [OF d(5)] th(1), of w "th\<lparr>status := THREAD_DYING\<rparr>"]
      tally_cong [of s1 "s\<lparr>threads := (threads s)(running s \<mapsto> th\<lparr>status := THREAD_DYING\<rparr>)\<rparr>" w] by (simp add: s1_def)
  have a1: "acct [] s1" by (rule acct_cong [OF d(3)]) (use tl in \<open>auto simp: s1_def\<close>)
  note e = schedule_shape [OF o sc] schedule_frame [OF sc]
  have "acct [] s'" by (rule acct_cong [OF a1]) (use e in auto)
  thus "kernel_ok s'" using e d(2) by (simp add: kernel_ok_def kinv_def s1_def)
  show "lock_holder s' = lock_holder s" using e by (simp add: s1_def)
qed

lemma timer_sleep_loop_ok:
  assumes s: "step_by [] s" and r: "timer_sleep_loop start n s = Some s'"
  shows "kernel_ok s'" "lock_holder s' = lock_holder s"
proof -
  have "kernel_ok s' \<and> lock_holder s' = lock_holder s"
  proof (cases "timer_elapsed start s < n")
    case True
    then obtain s1 where p: "push_todo (Timer_sleep_loop start n) s = Some s1" "thread_yield s1 = Some s'"
      using r by (auto simp: timer_sleep_loop_def split: bind_splits)
    have "step_by [Timer_sleep_loop start n] s" by (rule step_by_mono [OF s]) auto
    hence "step_by [] s1" by (rule step_by_push [OF _ p(1)]) auto
    thus ?thesis using thread_yield_by [OF _ p(2)] p(1) by (auto simp: push_todo_Some)
  qed (use r step_by_done [OF s] in \<open>auto simp: timer_sleep_loop_def\<close>)
  thus "kernel_ok s'" "lock_holder s' = lock_holder s" by auto
qed

text \<open>The idle thread.\<close>

lemma idle_loop_ok:
  assumes s: "step_ok [] s" and i: "idle_thread s = Some (running s)" and th: "threads s (running s) = Some th" "todo th = [] \<or> idle_tail (todo th)"
    and r: "idle_loop s = Some s'"
  shows "kernel_ok s'" "lock_holder s' = lock_holder s"
proof -
  define s0 where "s0 = s\<lparr>intr_on := False\<rparr>"
  define s1 where "s1 = s0\<lparr>threads := (threads s0)(running s0 \<mapsto> th\<lparr>todo := Idle_wake # todo th, status := THREAD_BLOCKED\<rparr>)\<rparr>"
  have sc: "schedule s1 = Some s'"
    using r th(1) by (auto simp: idle_loop_def thread_block_def thread_current_Some set_status_def set_thread_def push_todo_def
        intr_disable_def s0_def s1_def Let_def split: bind_splits if_splits)
  have m: "mid s0" unfolding s0_def by (rule mid_intr_on [OF step_okD(1) [OF s]])
  have o: "off s1" by (rule block_idle [OF m _ _ _ th(2) s1_def]) (use th i in \<open>auto simp: s0_def\<close>)
  have tl: "tally w s1 = tally w s + w Idle_wake" for w
    using tally_upd [OF shapeD(1) [OF midD(1) [OF m]], of "running s0" th w "th\<lparr>todo := Idle_wake # todo th, status := THREAD_BLOCKED\<rparr>"] th(1)
    by (simp add: s1_def s0_def)
  have a1: "acct [] s1" using step_okD(3) [OF s] tl by (simp add: acct_def uses_ok_def tokens_def sval_def waiters_def s1_def s0_def)
  note e = schedule_shape [OF o sc] schedule_frame [OF sc]
  have "acct [] s'" by (rule acct_cong [OF a1]) (use e in auto)
  thus "kernel_ok s'" using e step_okD(2) [OF s] by (simp add: kernel_ok_def kinv_def s1_def s0_def)
  show "lock_holder s' = lock_holder s" using e by (simp add: s1_def s0_def)
qed

lemma step_ok_idle: "step_ok [] s \<Longrightarrow> threads s (running s) = Some th \<Longrightarrow> idle_tail (todo th) \<Longrightarrow> kernel_ok s"
  by (auto simp: step_ok_def kernel_ok_def kinv_def krun_def mid_def)

lemma idle_wake_ok:
  assumes s: "step_ok [] s" and i: "idle_thread s = Some (running s)" and th: "threads s (running s) = Some th" "todo th = [] \<or> idle_tail (todo th)"
    and r: "push_todo Idle_loop (s\<lparr>intr_on := True\<rparr>) = Some s'"
  shows "kernel_ok s'" "lock_holder s' = lock_holder s"
proof -
  have "step_ok [] (s\<lparr>intr_on := True\<rparr>)" by (rule step_ok_cong [OF s]) auto
  hence "step_ok [Idle_loop] (s\<lparr>intr_on := True\<rparr>)" by (rule step_ok_mono) auto
  note p = step_ok_push [OF this r]
  have "idle_tail (Idle_loop # todo th)" using th(2) by (auto simp: idle_tail_def)
  thus "kernel_ok s'" using step_ok_idle [OF p(1)] p(2,5) th(1) i by auto
  show "lock_holder s' = lock_holder s" using r by (auto simp: push_todo_Some)
qed

lemma idle_start_ok:
  assumes s: "step_ok [] s" and c: "idle_count s = 0" and th: "threads s (running s) = Some th" "todo th = []" and n: "semas s (Sema n) \<noteq> None" and r: "idle n s = Some s'"
  shows "kernel_ok s'" "lock_holder s' = lock_holder s"
proof -
  let ?s = "s\<lparr>idle_thread := Some (running s)\<rparr>"
  obtain s1 where p: "push_todo Idle_loop ?s = Some s1" "push_todo (Do_sema_up (Sema n)) s1 = Some s'"
    using r by (auto simp: idle_def thread_current_Some split: bind_splits)
  have "mid ?s" by (rule mid_set_idle [OF step_okD(1) [OF s] c th])
  moreover have "acct [] ?s" by (rule acct_cong [OF step_okD(3) [OF s]]) (auto simp: tally_def)
  ultimately have "step_ok [] ?s" using step_okD(2) [OF s] by (simp add: step_ok_def)
  hence "step_ok [Idle_loop] ?s" by (rule step_ok_mono) auto
  note 1 = step_ok_push [OF this p(1)]
  have "step_ok [Do_sema_up (Sema n)] s1" by (rule step_ok_mono [of "[]"]) (use 1(1) n p(1) in \<open>auto simp: push_todo_Some\<close>)
  note 2 = step_ok_push [OF this p(2)]
  have "step_ok [] s'" using 2(1) by simp
  moreover have "threads s' (running s') = Some (th\<lparr>todo := [Do_sema_up (Sema n), Idle_loop]\<rparr>)"
    using p th by (auto simp: push_todo_Some)
  ultimately show "kernel_ok s'" by (rule step_ok_idle) (simp add: idle_tail_def)
  show "lock_holder s' = lock_holder s" using p by (auto simp: push_todo_Some)
qed

lemma kernel_thread_ok:
  assumes s: "step_by [] s" and c: "starts_idle (Kernel_thread f) \<noteq> 0 \<longrightarrow> idle_count s = 0"
    and th: "threads s (running s) = Some th" "starts_idle (Kernel_thread f) \<noteq> 0 \<longrightarrow> todo th = []" and n: "\<forall>n. f = Idle n \<longrightarrow> semas s (Sema n) \<noteq> None" and r: "kernel_thread f s = Some s'"
  shows "kernel_ok s'" "lock_holder s' = lock_holder s"
proof -
  have e: "step_by [] (s\<lparr>intr_on := True\<rparr>)" by (rule step_by_cong [OF s]) auto
  have "kernel_ok s' \<and> lock_holder s' = lock_holder s"
  proof (cases f)
    case (Idle n)
    hence r': "idle n (s\<lparr>intr_on := True\<rparr>) = Some s'" using r by (auto simp: kernel_thread_def intr_enable_def split: if_splits)
    have "step_ok [] (s\<lparr>intr_on := True\<rparr>)" "idle_count (s\<lparr>intr_on := True\<rparr>) = 0" using e c Idle by (auto simp: step_by_def idle_count_def)
    thus ?thesis using idle_start_ok [OF _ _ _ _ _ r'] th n Idle by simp
  next
    case (Func n)
    thus ?thesis using r step_by_done [OF e] by (auto simp: kernel_thread_def intr_enable_def split: if_splits)
  qed
  thus "kernel_ok s'" "lock_holder s' = lock_holder s" by auto
qed

text \<open>How a step may change the holder of a lock: the running thread releases it, or it was free.\<close>

definition holders :: "kernel \<Rightarrow> kernel \<Rightarrow> bool" where
  "holders s s' \<longleftrightarrow> (\<forall>l t. lock_holder s l = Some t \<longrightarrow> lock_holder s' l = Some t \<or> t = running s \<and> lock_holder s' l = None)"

lemma holders_same: "lock_holder s' = lock_holder s \<Longrightarrow> holders s s'"
  by (simp add: holders_def)

lemma run_code_by:
  assumes s: "step_by [c] s" and r: "run_code c s = Some s'" and th: "threads s (running s) = Some th"
    and c: "create_ok s c" "\<forall>u. creates u c \<noteq> 0 \<longrightarrow> tally (creates u) s = 0" "idle_count s + starts_idle c \<le> 1"
      "resume c \<longrightarrow> \<not> intr_on s" "\<forall>l b. c = Sema_down_loop (Lock_sema l) b \<longrightarrow> (\<exists>cs. todo th = Lock_acquired l # cs)"
      "\<forall>l. c \<noteq> Do_sema_down (Lock_sema l)" "\<forall>f. c = Kernel_thread f \<longrightarrow> todo th = []" "c \<noteq> Idle_loop" "c \<noteq> Idle_wake"
  shows "kernel_ok s' \<and> holders s s'"
proof -
  note d = step_byD [OF s]
  have ic: "0 \<le> idle_count s"
    using tally_nonneg [of s starts_idle] by (simp add: idle_count_def wsum_nonneg)
  have z: "step_by [] s" if "\<forall>l. lock_code l c = 0" "\<forall>x. in_loop x c = 0"
    by (rule step_by_mono [OF s]) (use that in auto)
  have u: "uses x c = 0" if "semas s x = None" for x using d(3) that by (simp add: acct_def uses_ok_def)
  have on: "step_by [] (s\<lparr>intr_on := b\<rparr>)" if "step_by [] s" for b by (rule step_by_cong [OF that]) auto
  show ?thesis
  proof (cases c)
    case (Sema_down_loop x b)
    thus ?thesis using sema_down_loop_ok [of x b s th s'] s c(4,5) th r by (auto simp: step_by_def holders_same)
  next
    case (Lock_acquired l)
    thus ?thesis using lock_acquired_ok [of l s s'] s r u [of "Lock_sema l"] by (auto simp: holders_def lock_acquired_def thread_current_Some split: bind_splits if_splits)
  next
    case (Do_sema_up x)
    hence "step_ok [] s'" "lock_holder s' = lock_holder s" "running s' = running s" "idle_thread s' = idle_thread s"
      using sema_up_ok [of x s s'] s r by (auto simp: step_by_def)
    thus ?thesis using d(4) by (simp add: holders_same step_ok_kernel_ok)
  next
    case (Do_sema_down x)
    hence "\<forall>l. x \<noteq> Lock_sema l" using c(6) by auto
    thus ?thesis using sema_down_ok [of x s th s'] s r th Do_sema_down by (auto simp: holders_same)
  next
    case (Do_lock_acquire l)
    thus ?thesis using lock_acquire_ok [of s l s'] z r by (auto simp: holders_same)
  next
    case (Yielded b)
    thus ?thesis using on [OF z, of b] r by (auto simp: intr_set_level_Some holders_same step_by_done)
  next
    case Intr_return
    thus ?thesis using on [OF z, of True] r by (auto simp: holders_same step_by_done)
  next
    case Intr_enable
    thus ?thesis using on [OF z, of True] r by (auto simp: intr_enable_def holders_same step_by_done split: if_splits)
  next
    case (Kernel_thread f)
    moreover from this have "\<forall>n. f = Idle n \<longrightarrow> semas s (Sema n) \<noteq> None" using u by fastforce
    ultimately show ?thesis using kernel_thread_ok [of s f th s'] z c(3,7) ic th r by (cases f) (auto simp: holders_same)
  next
    case (Tid_acquired t)
    hence "step_by [] s'" "\<forall>l. lock_holder s' l = lock_holder s l \<or> lock_holder s l = Some (running s) \<and> lock_holder s' l = None"
      using tid_acquired_ok [of s t s'] z r by auto
    thus ?thesis unfolding holders_def by (metis option.inject step_by_done)
  next
    case (Set_tid t i)
    thus ?thesis using set_thread_ok [of "[]" s t "\<lambda>th. th\<lparr>tid := i\<rparr>" s'] z r by (auto simp: set_tid_def holders_same step_by_done)
  next
    case (Create_rest t f)
    moreover have "starts_idle (Kernel_thread f) = starts_idle (Create_rest t f)" by (cases f) auto
    moreover have "\<forall>n. f = Idle n \<longrightarrow> semas s (Sema n) \<noteq> None" using u Create_rest by fastforce
    ultimately show ?thesis using create_rest_ok [of s t _ f s'] z c(1,2,3) r by (auto simp: holders_same step_by_done)
  next
    case (Do_thread_unblock t)
    thus ?thesis using unblock_new_ok [of s t _ _ s'] z c(1,2) r by (auto simp: holders_same step_by_done)
  next
    case (Cond_broadcast_loop q l)
    thus ?thesis using cond_broadcast_ok [of s q l s'] z r by (auto simp: holders_same step_by_done)
  next
    case (Timer_sleep_loop start n)
    thus ?thesis using timer_sleep_loop_ok [of s start n s'] z r by (auto simp: holders_same)
  qed (use c(8,9) in auto)
qed

lemma run_code_idle:
  assumes s: "step_ok [c] s" and r: "run_code c s = Some s'" and th: "threads s (running s) = Some th"
    and i: "idle_thread s = Some (running s)" "idle_code c" "todo th = [] \<and> (c = Idle_loop \<or> c = Idle_wake) \<or> idle_tail (todo th)"
  shows "kernel_ok s' \<and> holders s s'"
proof -
  have z: "step_ok [] s" if "\<forall>l. lock_code l c = 0" "\<forall>x. in_loop x c = 0"
    by (rule step_ok_mono [OF s]) (use that in auto)
  have on: "step_ok [] (s\<lparr>intr_on := b\<rparr>)" if "step_ok [] s" for b by (rule step_ok_cong [OF that]) auto
  have it: "kernel_ok u" if "step_ok [] u" "running u = running s" "threads u (running s) = threads s (running s)" "idle_tail (todo th)" for u
    by (rule step_ok_idle [OF that(1)]) (use that th in auto)
  show ?thesis
  proof (cases c rule: idle_code.cases)
    case 1
    thus ?thesis using idle_loop_ok [of s th s'] z i th r by (auto simp: holders_same)
  next
    case 2
    thus ?thesis using idle_wake_ok [of s th s'] z i th r by (auto simp: holders_same)
  next
    case (3 b)
    thus ?thesis using it [OF on [OF z, of b]] i(3) r by (auto simp: intr_set_level_Some holders_same)
  next
    case 4
    thus ?thesis using it [OF on [OF z, of True]] i(3) r by (auto simp: holders_same)
  next
    case (5 n)
    hence "step_ok [] s'" "lock_holder s' = lock_holder s" "running s' = running s" "threads s' (running s) = threads s (running s)"
      using sema_up_ok [of "Sema n" s s'] s r by auto
    thus ?thesis using it i(3) 5 by (auto simp: holders_same)
  qed (use i(2) in auto)
qed

lemma continue_ok:
  assumes k: "kernel_ok s" and r: "continue s = Some s'"
  shows "kernel_ok s'" "holders s s'"
proof -
  have ki: "kinv s" "acct [] s" using k by (auto simp: kernel_ok_def)
  obtain th c cs where th: "threads s (running s) = Some th" "todo th = c # cs"
    and r': "run_code c (s\<lparr>threads := (threads s)(running s \<mapsto> th\<lparr>todo := cs\<rparr>)\<rparr>) = Some s'"
    using r by (auto simp: continue_def set_thread_def split: bind_splits list.splits)
  define s1 where "s1 = s\<lparr>threads := (threads s)(running s \<mapsto> th\<lparr>todo := cs\<rparr>)\<rparr>"
  note p = pop_mid [OF ki(1) th s1_def]
  have "tokens l s1 = tokens l s - lock_code l c" for l using p(4) [of "lock_code l"] by (simp add: tokens_def sval_def s1_def)
  moreover have "uses_ok [c] s1"
  proof -
    have "0 \<le> tally (uses x) s1" for x by (rule tally_nonneg) (simp add: wsum_nonneg)
    moreover have "tally (uses x) s = 0" if "semas s x = None" for x using ki(2) that by (simp add: acct_def uses_ok_def)
    ultimately have "tally (uses x) s1 = 0 \<and> uses x c = 0" if "semas s x = None" for x
      using p(4) [of "uses x"] that uses_nonneg [of x c] by (metis add.inverse_neutral diff_0 neg_0_le_iff_le order_antisym)
    thus ?thesis using ki(2) by (simp add: acct_def uses_ok_def s1_def)
  qed
  ultimately have a: "acct [c] s1" using ki(2) p(4) by (simp add: acct_def sval_def waiters_def s1_def)
  hence s1: "step_ok [c] s1" using p(1) ki(1) by (simp add: step_ok_def kinv_def s1_def)
  have th1: "threads s1 (running s1) = Some (th\<lparr>todo := cs\<rparr>)" by (simp add: s1_def)
  have "kernel_ok s' \<and> holders s1 s'"
  proof (cases "idle_thread s = Some (running s)")
    case True
    have "idle_tail (c # cs)" using ki(1) th True by (auto simp: kinv_def krun_def)
    hence "cs = [] \<and> (c = Idle_loop \<or> c = Idle_wake) \<or> idle_tail cs" by (auto simp: idle_tail_def split: if_splits)
    thus ?thesis using run_code_idle [OF s1 _ th1] r' p(5) True by (auto simp: s1_def)
  next
    case False
    hence s1': "step_by [c] s1" using s1 by (simp add: step_by_def s1_def)
    have sh: "shape s" using ki(1) by (simp add: kinv_def krun_def)
    have n: "creates u c \<noteq> 0 \<longrightarrow> tally (creates u) s1 = 0" for u
    proof -
      have "0 \<le> tally (creates u) s1" by (rule tally_nonneg) (simp add: wsum_nonneg)
      thus ?thesis using p(4) [of "creates u"] shapeD(7) [OF sh, of u] creates_nonneg [of u c] by linarith
    qed
    have "idle_count s1 + starts_idle c \<le> 1" using p(3) shapeD(8) [OF sh] by simp
    moreover have "c \<noteq> Idle_loop" "c \<noteq> Idle_wake" using p(11) False by auto
    ultimately show ?thesis using run_code_by [OF s1' _ th1] r' p(2,6-10) n by (simp add: s1_def)
  qed
  thus "kernel_ok s'" "holders s s'" by (auto simp: holders_def s1_def)
qed


text \<open>Calls.\<close>

lemma call_step_ok:
  assumes c: "call_step s s'" and k: "kernel_ok s" and th: "threads s (running s) = Some th" "todo th = []"
  shows "kernel_ok s'" "holders s s'"
proof -
  have i: "idle_thread s \<noteq> Some (running s)" using k th by (auto simp: kernel_ok_def kinv_def krun_def idle_tail_def)
  have s: "step_by [] s"
    using k th i by (auto simp: step_by_def step_ok_def kernel_ok_def kinv_def krun_def mid_def)
  have rel: "holders s u" if "lock_holder u = (lock_holder s)(l := None)" "lock_holder s l = Some (running s)" for u l
    using that by (auto simp: holders_def)
  have "kernel_ok s' \<and> holders s s'"
    using c
  proof cases
    case (sema_init n v)
    hence "waiters s (Sema n) = []" by (auto simp: sema_idle_def waiters_def split: option.splits)
    hence "step_by [] s'" unfolding sema_init(1) by (intro sema_init_ok [OF s]) auto
    thus ?thesis by (simp add: sema_init(1) step_by_done holders_def Synch.sema_init_def set_sema_def)
  next
    case (sema_down n)
    thus ?thesis using sema_down_Sema_ok(1,4) s by (auto simp: holders_same)
  next
    case (sema_try_down n r)
    thus ?thesis using sema_try_down_ok [OF s sema_try_down] by (auto simp: holders_same step_by_done)
  next
    case (sema_up n)
    thus ?thesis using sema_up_by [OF s sema_up] by (auto simp: holders_same step_by_done)
  next
    case (lock_init l)
    have "step_by [] s'" unfolding lock_init(1) by (rule lock_init_ok [OF s lock_init(2)])
    thus ?thesis using lock_init(2)
      by (auto simp: lock_init(1) step_by_done holders_def Synch.lock_init_def Synch.sema_init_def set_sema_def lock_idle_def)
  next
    case (lock_acquire l)
    thus ?thesis using lock_acquire_ok [OF s lock_acquire] by (auto simp: holders_same)
  next
    case (lock_try_acquire l r)
    thus ?thesis using lock_try_acquire_ok [OF s lock_try_acquire] by (auto simp: holders_same step_by_done)
  next
    case (lock_release l)
    thus ?thesis using lock_release_ok [OF s lock_release] rel by (auto simp: step_by_done)
  next
    case (cond_init q)
    thus ?thesis using cond_init_ok(1) [of "[]" s q] cond_init_ok(2) [of q s] s by (auto simp: holders_same step_by_done)
  next
    case (cond_wait q l)
    thus ?thesis using cond_wait_ok [OF s cond_wait] rel by (auto simp: step_by_done)
  next
    case (cond_signal q l)
    thus ?thesis using cond_signal_ok [OF s cond_signal] by (auto simp: holders_same step_by_done)
  next
    case (cond_broadcast q l)
    thus ?thesis using cond_broadcast_ok [OF s cond_broadcast] by (auto simp: holders_same step_by_done)
  next
    case (thread_create page name prio n r)
    thus ?thesis using thread_create_ok [OF s thread_create(2) _ _ thread_create(1)] by (auto simp: holders_same)
  next
    case thread_yield
    thus ?thesis using thread_yield_by [OF s thread_yield] by (auto simp: holders_same)
  next
    case thread_exit
    thus ?thesis using thread_exit_ok [OF s th thread_exit] by (auto simp: holders_same)
  next
    case (timer_sleep n)
    thus ?thesis using timer_sleep_loop_ok [OF s, of "timer_ticks s" n s'] by (auto simp: holders_same timer_sleep_def split: if_splits)
  next
    case (intr_set_level b)
    hence e: "s' = s\<lparr>intr_on := b\<rparr>" by (simp add: intr_set_level_Some)
    have "step_by [] s'" by (rule step_by_cong [OF s]) (auto simp: e)
    thus ?thesis by (simp add: e holders_def step_by_done)
  qed
  thus "kernel_ok s'" "holders s s'" by auto
qed

lemma thread_start_ok:
  assumes k: "kernel_ok s" and th: "threads s = [running s \<mapsto> th]" "todo th = []" and r: "thread_start page n s = Some s'"
    and i: "sema_idle (Sema n) s" "page_idle page s"
  shows "kernel_ok s'" "lock_holder s' = lock_holder s"
proof -
  have ni: "idle_thread s = None" using k th by (cases "idle_thread s") (auto simp: kernel_ok_def kinv_def krun_def shape_def idle_ok_def idle_tail_def split: if_splits)
  have s: "step_by [] s"
    using k th ni by (auto simp: step_by_def step_ok_def kernel_ok_def kinv_def krun_def mid_def)
  define s1 where "s1 = sema_init (Sema n) 0 s"
  obtain s2 s3 v where p: "push_todo (Do_sema_down (Sema n)) s1 = Some s2" "push_todo Intr_enable s2 = Some s3"
    "thread_create page [105, 100, 108, 101] PRI_MIN (Some (Idle n)) s3 = Some (v, s')"
    using r by (auto simp: thread_start_def s1_def Let_def split: bind_splits)
  have "waiters s (Sema n) = []" using i(1) by (auto simp: sema_idle_def waiters_def split: option.splits)
  hence "step_by [] s1" unfolding s1_def by (intro sema_init_ok [OF s]) auto
  hence "step_by [Do_sema_down (Sema n)] s1" by (rule step_by_mono) (auto simp: s1_def sema_init_def set_sema_def)
  hence "step_by [] s2" by (rule step_by_push [OF _ p(1)]) auto
  hence "step_by [Intr_enable] s2" by (rule step_by_mono) auto
  hence s3: "step_by [] s3" by (rule step_by_push [OF _ p(2)]) auto
  have e: "threads s3 = [running s \<mapsto> th\<lparr>todo := [Intr_enable, Do_sema_down (Sema n)]\<rparr>]" "idle_thread s3 = None" "lock_holder s3 = lock_holder s"
    "semas s3 = (semas s)(Sema n \<mapsto> \<lparr>sm_value = 0, sm_waiters = []\<rparr>)"
    using p(1,2) th ni by (auto simp: push_todo_Some s1_def sema_init_def set_sema_def)
  have "idle_count s3 = 0" by (simp add: idle_count_def tally_def e)
  moreover have "page_idle page s3"
    using i(2) e th by (auto simp: page_idle_def lock_idle_def sema_idle_def)
  ultimately show "kernel_ok s'" "lock_holder s' = lock_holder s" using thread_create_ok [OF s3 _ _ _ p(3)] e(3,4) by auto
qed

text \<open>Interrupts. They arrive only when the running thread is not about to resume.\<close>

lemma kernel_ok_intr_on:
  assumes k: "kernel_ok s" and i: "intr_on s"
  shows "step_ok [] s"
proof -
  obtain th where th: "threads s (running s) = Some th" "status th = THREAD_RUNNING" and sh: "shape s"
    using k by (auto simp: kernel_ok_def kinv_def krun_def)
  have "\<not> resumes (todo th)" "stack_ok (todo th)" using shapeD(2) [OF sh th(1)] th(2) i by (auto simp: thread_ok_def)
  hence "\<forall>c\<in>set (todo th). \<not> resume c" by (cases "todo th") (auto simp: resumes_def)
  thus ?thesis using k th sh by (auto simp: step_ok_def mid_def kernel_ok_def kinv_def)
qed

definition handler_ok :: "(kernel \<Rightarrow> kernel option) \<Rightarrow> bool" where
  "handler_ok h \<longleftrightarrow> (\<forall>s s'. mid s \<longrightarrow> acct [] s \<longrightarrow> h s = Some s' \<longrightarrow> mid s' \<and> acct [] s' \<and> running s' = running s \<and>
     idle_thread s' = idle_thread s \<and> threads s' (running s) = threads s (running s) \<and> lock_holder s' = lock_holder s)"

lemma external_interrupt_ok:
  assumes h: "handler_ok h" and k: "kernel_ok s" and r: "external_interrupt h s = Some s'"
  shows "kernel_ok s'" "lock_holder s' = lock_holder s"
proof -
  obtain s1 s2 where i: "intr_on s" and p: "push_todo Intr_return (s\<lparr>intr_on := False\<rparr>) = Some s1"
    and q: "h (s1\<lparr>in_external_intr := True, yield_on_return := False\<rparr>) = Some s2"
    and r': "(if yield_on_return s2 then thread_yield (s2\<lparr>in_external_intr := False\<rparr>) else Some (s2\<lparr>in_external_intr := False\<rparr>)) = Some s'"
    using r by (auto simp: external_interrupt_def intr_handler_def Let_def split: bind_splits if_splits)
  let ?h = "s1\<lparr>in_external_intr := True, yield_on_return := False\<rparr>"
  obtain th where th: "threads s (running s) = Some th" "idle_thread s = Some (running s) \<longrightarrow> idle_tail (todo th)"
    using k by (auto simp: kernel_ok_def kinv_def krun_def)
  have "step_ok [] (s\<lparr>intr_on := False\<rparr>)" by (rule step_ok_cong [OF kernel_ok_intr_on [OF k i]]) auto
  hence "step_ok [Intr_return] (s\<lparr>intr_on := False\<rparr>)" by (rule step_ok_mono) auto
  note s1 = step_ok_push [OF this p]
  have m: "mid s1" "acct [] s1" using s1(1) by (auto simp: step_ok_def)
  have "mid ?h" by (rule mid_cong [OF m(1)]) (auto simp: waiters_def)
  moreover have "acct [] ?h" by (rule acct_cong [OF m(2)]) (auto simp: tally_def)
  ultimately have e: "mid s2 \<and> acct [] s2 \<and> running s2 = running ?h \<and> idle_thread s2 = idle_thread ?h \<and>
      threads s2 (running ?h) = threads ?h (running ?h) \<and> lock_holder s2 = lock_holder ?h"
    using h q unfolding handler_ok_def by blast
  have s2: "mid s2" "acct [] s2" "running s2 = running s" "idle_thread s2 = idle_thread s"
    "threads s2 (running s) = Some (th\<lparr>todo := Intr_return # todo th\<rparr>)" "lock_holder s2 = lock_holder s"
    using e p th(1) by (auto simp: push_todo_Some)
  define s3 where "s3 = s2\<lparr>in_external_intr := False\<rparr>"
  have "mid s3" unfolding s3_def by (rule mid_cong [OF s2(1)]) (auto simp: waiters_def)
  moreover have "acct [] s3" unfolding s3_def by (rule acct_cong [OF s2(2)]) (auto simp: tally_def)
  ultimately have s3: "step_ok [] s3" by (simp add: step_ok_def s3_def)
  have t3: "threads s3 (running s3) = Some (th\<lparr>todo := Intr_return # todo th\<rparr>)" using s2 by (simp add: s3_def)
  have it: "idle_thread s3 = Some (running s3) \<longrightarrow> idle_tail (todo (th\<lparr>todo := Intr_return # todo th\<rparr>))"
    using th(2) s2(3,4) by (auto simp: s3_def idle_tail_Cons)
  have "kernel_ok s3" using s3 step_ok_kernel_ok [OF s3] step_ok_idle [OF s3 t3] it by blast
  thus "kernel_ok s'" "lock_holder s' = lock_holder s"
    using r' thread_yield_ok [OF s3 t3 it] s2(6) by (auto simp: s3_def split: if_splits)
qed

lemma handler_ok_timer: "handler_ok timer_interrupt"
  unfolding handler_ok_def
proof (intro allI impI)
  fix s s' assume a: "mid s" "acct [] s" "timer_interrupt s = Some s'"
  have e: "threads s' = threads s" "running s' = running s" "ready_list s' = ready_list s" "idle_thread s' = idle_thread s"
    "initial_thread s' = initial_thread s" "semas s' = semas s" "intr_on s' = intr_on s" "lock_holder s' = lock_holder s" "next_waiter s' = next_waiter s"
    using a(3) by (auto simp: timer_interrupt_def thread_tick_def intr_yield_on_return_def Let_def split: bind_splits if_splits)
  have "mid s'" by (rule mid_cong [OF a(1)]) (auto simp: e waiters_def fun_eq_iff)
  moreover have "acct [] s'" by (rule acct_cong [OF a(2)]) (auto simp: e tally_def)
  ultimately show "mid s' \<and> acct [] s' \<and> running s' = running s \<and> idle_thread s' = idle_thread s \<and>
      threads s' (running s) = threads s (running s) \<and> lock_holder s' = lock_holder s" by (simp add: e)
qed

lemma handler_ok_device: "handler_ok (sema_up (Sema n))"
  unfolding handler_ok_def
proof (intro allI impI)
  fix s s' assume a: "mid s" "acct [] s" "sema_up (Sema n) s = Some s'"
  have "acct [Do_sema_up (Sema n)] s" by (rule acct_mono [OF a(2)]) (use sema_exists(2) [OF a(3)] in auto)
  thus "mid s' \<and> acct [] s' \<and> running s' = running s \<and> idle_thread s' = idle_thread s \<and>
      threads s' (running s) = threads s (running s) \<and> lock_holder s' = lock_holder s"
    using sema_up_effect [OF a(1,3)] sema_up_acct [OF a(1) _ a(3)] by auto
qed

theorem kstep_ok:
  assumes "kstep s s'" "kernel_ok s"
  shows "kernel_ok s' \<and> holders s s'"
  using assms(1)
proof cases
  case continues
  thus ?thesis using continue_ok [OF assms(2)] by blast
next
  case (calls th)
  thus ?thesis using call_step_ok [OF calls(3) assms(2) calls(1,2)] by blast
next
  case (starts th page n)
  thus ?thesis using thread_start_ok [OF assms(2) starts] holders_same by blast
next
  case timer
  thus ?thesis using external_interrupt_ok [OF handler_ok_timer assms(2)] holders_same by blast
next
  case (device n)
  thus ?thesis using external_interrupt_ok [OF handler_ok_device assms(2)] holders_same by blast
qed

text \<open>The state in which \<^verbatim>\<open>thread_init\<close> calls \<^verbatim>\<open>allocate_tid\<close>.\<close>

definition boot_thread :: kthread where
  "boot_thread = \<lparr>tid = 0, status = THREAD_RUNNING, t_name = [109, 97, 105, 110], t_stack = 0, priority = 31,
    next_fd = 2, child_load = 0, parent_tid = 0, pagedir = 0, t_magic = THREAD_MAGIC, todo = []\<rparr>"

lemma thread_init_tid:
  assumes r: "thread_init t boot_kernel = Some s"
  shows "\<exists>s1. allocate_tid t s1 = Some s \<and> t \<noteq> 0 \<and> threads s1 = [t \<mapsto> boot_thread\<lparr>t_stack := t + PGSIZE\<rparr>] \<and> running s1 = t \<and>
    ready_list s1 = [] \<and> idle_thread s1 = None \<and> lock_holder s1 = (\<lambda>l. None) \<and> \<not> in_external_intr s1 \<and>
    semas s1 = [Lock_sema Tid_lock \<mapsto> \<lparr>sm_value = 1, sm_waiters = []\<rparr>, Lock_sema (Child_lock t) \<mapsto> \<lparr>sm_value = 1, sm_waiters = []\<rparr>]"
proof -
  have t: "t \<noteq> 0" using r by (auto simp: thread_init_def init_thread_def Let_def split: bind_splits if_splits)
  have e: "(\<lambda>a. if a = l then None else None) = (\<lambda>a. None)" for l :: lock_id by auto
  show ?thesis using r t
    by (simp add: thread_init_def boot_kernel_def lock_init_def sema_init_def set_sema_def init_thread_def set_status_def
        set_thread_def cond_init_def PRI_MIN_def PRI_DEFAULT_def PRI_MAX_def Let_def)
       (intro exI conjI, assumption, simp_all add: boot_thread_def fun_eq_iff)
qed

lemma thread_init_ok:
  assumes r: "thread_init t boot_kernel = Some s"
  shows "kernel_ok s"
proof -
  obtain s1 where a: "allocate_tid t s1 = Some s" and t: "t \<noteq> 0" and s1: "threads s1 = [t \<mapsto> boot_thread\<lparr>t_stack := t + PGSIZE\<rparr>]"
    "running s1 = t" "ready_list s1 = []" "idle_thread s1 = None" "lock_holder s1 = (\<lambda>l. None)" "\<not> in_external_intr s1"
    "semas s1 = [Lock_sema Tid_lock \<mapsto> \<lparr>sm_value = 1, sm_waiters = []\<rparr>, Lock_sema (Child_lock t) \<mapsto> \<lparr>sm_value = 1, sm_waiters = []\<rparr>]"
    using thread_init_tid [OF r] by blast
  obtain th where th: "threads s1 = [t \<mapsto> th]" "status th = THREAD_RUNNING" "todo th = []" "t_magic th = THREAD_MAGIC"
    using s1(1) by (auto simp: boot_thread_def)
  have w: "waiters s1 x = []" for x by (simp add: waiters_def s1(7))
  have z: "tally w s1 = 0" for w by (simp add: tally_def th)
  have "thread_ok s1 t th" using t by (simp add: thread_ok_def th s1(2) resumes_def)
  hence "shape s1"
    using s1(2-4) by (simp add: shape_def ready_ok_def waiters_ok_def idle_ok_def idle_count_def th w z)
  hence m: "mid s1" by (simp add: mid_def th s1(2))
  have "acct [] s1" by (simp add: acct_def uses_ok_def tokens_def sval_def w z s1(5,7))
  hence "step_by [] s1" using m s1(4,6) by (simp add: step_by_def step_ok_def)
  thus ?thesis using allocate_tid_ok(1) [OF _ a] by blast
qed

theorem reachable_ok: "reachable s \<Longrightarrow> kernel_ok s"
  by (induction rule: reachable.induct) (auto simp: thread_init_ok kstep_ok)

end
