(* ===== verification/Kernel_Safety.thy ===== *)
theory Kernel_Safety
  imports Kernel_Steps
begin

section \<open>Scheduling and mutual exclusion\<close>

text \<open>
  What the invariant of the theory \<open>Kernel_Steps\<close> means for the states the kernel can reach: the states of the
  threads and the lists they are on agree, a lock has one holder, and a wake-up is never lost. Concrete
  runs of the kernel are given by lists of actions.
\<close>

subsection \<open>Concrete runs\<close>

datatype action = Go | Init nat u32 | Create u32 | Yield | Down nat | Up nat | Tick

definition no_todo :: "kernel \<Rightarrow> bool" where
  "no_todo s \<longleftrightarrow> (case threads s (running s) of None \<Rightarrow> False | Some th \<Rightarrow> todo th = [])"

fun act :: "action \<Rightarrow> kernel \<Rightarrow> kernel option" where
  "act Go s = continue s"
| "act (Init n v) s = (if no_todo s \<and> semas s (Sema n) = None then Some (sema_init (Sema n) v s) else None)"
| "act (Create t) s = (if no_todo s \<and> threads s t = None \<and> semas s (Lock_sema (Child_lock t)) = None
     then map_option snd (thread_create (Some t) [] PRI_DEFAULT (Some (Func 0)) s) else None)"
| "act Yield s = (if no_todo s then thread_yield s else None)"
| "act (Down n) s = (if no_todo s then sema_down (Sema n) s else None)"
| "act (Up n) s = (if no_todo s then sema_up (Sema n) s else None)"
| "act Tick s = external_interrupt timer_interrupt s"

fun acts :: "action list \<Rightarrow> kernel \<Rightarrow> kernel option" where
  "acts [] s = Some s"
| "acts (a # as) s = do { s \<leftarrow> act a s; acts as s }"

lemma unused_sema:
  assumes "kernel_ok s" "semas s x = None"
  shows "sema_idle x s" "threads s t = Some th \<Longrightarrow> c \<in> set (todo th) \<Longrightarrow> uses x c = 0"
proof -
  have sh: "shape s" and u: "tally (uses x) s = 0" using assms by (auto simp: kernel_ok_def kinv_def krun_def acct_def uses_ok_def)
  show *: "uses x c = 0" if "threads s t = Some th" "c \<in> set (todo th)" for t th c
  proof -
    have "wsum (uses x) (todo th) \<le> 0" using tally_ge [OF shapeD(1) [OF sh] that(1), of "uses x"] u by (simp add: wsum_nonneg)
    moreover have "uses x c \<le> wsum (uses x) (todo th)" by (rule wsum_ge) (use that in simp_all)
    ultimately show ?thesis using uses_nonneg [of x c] by linarith
  qed
  have "c \<noteq> Do_sema_up x \<and> c \<noteq> Do_sema_down x \<and> (\<forall>b. c \<noteq> Sema_down_loop x b)" if "threads s t = Some th" "c \<in> set (todo th)" for t th c
    using * [OF that] by auto
  thus "sema_idle x s" using assms(2) by (auto simp: sema_idle_def ran_def)
qed

lemma unused_page:
  assumes "kernel_ok s" "threads s t = None" "semas s (Lock_sema (Child_lock t)) = None"
  shows "page_idle (Some t) s"
proof -
  have "lock_holder s (Child_lock t) = None" using assms(1,3) by (auto simp: kernel_ok_def acct_def uses_ok_def)
  moreover have "Lock_acquired (Child_lock t) \<notin> set (todo th)" if "threads s u = Some th" for u th
    using unused_sema(2) [OF assms(1,3) that, of "Lock_acquired (Child_lock t)"] by auto
  ultimately show ?thesis using unused_sema(1) [OF assms(1,3)] assms(2) by (auto simp: page_idle_def lock_idle_def ran_def)
qed

lemma act_kstep:
  assumes k: "kernel_ok s" and r: "act a s = Some s'"
  shows "kstep s s'"
proof -
  have call: "kstep s s'" if "no_todo s" "call_step s s'"
    using that kstep.calls by (auto simp: no_todo_def split: option.splits)
  show ?thesis
  proof (cases a)
    case (Create t)
    hence "call_step s s'" using r unused_page [OF k, of t] by (auto split: if_splits intro: call_step.thread_create)
    thus ?thesis using call Create r by (auto split: if_splits)
  qed (use r call unused_sema(1) [OF k] in \<open>auto split: if_splits intro: kstep.intros call_step.intros\<close>)
qed

lemma reachable_acts: "reachable s \<Longrightarrow> acts as s = Some s' \<Longrightarrow> reachable s'"
proof (induction as arbitrary: s)
  case (Cons a as)
  then obtain s1 where "act a s = Some s1" "acts as s1 = Some s'" by (auto split: bind_splits)
  thus ?case using Cons.IH Cons.prems(1) act_kstep reachable_ok reachable.step by blast
qed simp

definition boot :: "action list \<Rightarrow> kernel option" where
  "boot as = do { s \<leftarrow> thread_init 4096 boot_kernel; acts as s }"

lemma reachable_boot: "boot as = Some s \<Longrightarrow> reachable s"
  by (auto simp: boot_def split: bind_splits intro: reachable_acts reachable.init)

text \<open>Two threads wait for a semaphore when the main thread ups it.\<close>

definition two_wait :: "action list" where
  "two_wait = replicate 4 Go @ [Init 0 0, Create 8192] @ replicate 6 Go @ [Create 12288] @ replicate 6 Go @
     [Yield, Go, Down 0, Go, Down 0, Go, Up 0]"

lemma two_wait_demo:
  "(case boot two_wait of None \<Rightarrow> False | Some s \<Rightarrow> running s = 4096 \<and> ready_list s = [8192] \<and>
     semas s (Sema 0) = Some \<lparr>sm_value = 1, sm_waiters = [12288]\<rparr>)"
  by code_simp

lemma two_wait_run:
  "\<exists>s. boot two_wait = Some s \<and> running s = 4096 \<and> ready_list s = [8192] \<and>
     semas s (Sema 0) = Some \<lparr>sm_value = 1, sm_waiters = [12288]\<rparr>"
  using two_wait_demo by (auto split: option.splits)

subsection \<open>The states of the threads\<close>

lemma kernel_ok_ready:
  assumes "kernel_ok s"
  shows "set (ready_list s) = {t. \<exists>th. threads s t = Some th \<and> status th = THREAD_READY \<and> idle_thread s \<noteq> Some t}"
proof -
  have sh: "shape s" using assms by (auto simp: kernel_ok_def kinv_def krun_def)
  have "t \<in> set (ready_list s)" if "threads s t = Some th" "status th = THREAD_READY" "idle_thread s \<noteq> Some t" for t th
    using shapeD(2) [OF sh that(1)] that by (auto simp: thread_ok_def)
  thus ?thesis using shapeD(3) [OF sh] by (auto simp: ready_ok_def)
qed

lemma kernel_ok_blocked:
  assumes k: "kernel_ok s" and t: "threads s t = Some th" "status th = THREAD_BLOCKED"
  shows "(\<exists>!x. t \<in> set (waiters s x)) \<or> idle_thread s = Some t \<or> todo th = [] \<or> (\<exists>f. todo th = [Kernel_thread f])"
proof -
  have sh: "shape s" using k by (auto simp: kernel_ok_def kinv_def krun_def)
  have u: "\<exists>b cs. todo th = Sema_down_loop x b # cs" if "t \<in> set (waiters s x)" for x
    using shapeD(4) [OF sh] that t(1) by (fastforce simp: waiters_ok_def)
  have "\<exists>!x. t \<in> set (waiters s x)" if "t \<in> set (waiters s x)" for x
  proof (rule ex1I [of _ x])
    fix y assume "t \<in> set (waiters s y)"
    thus "y = x" using u [OF that] u [of y] by auto
  qed (rule that)
  thus ?thesis using shapeD(2) [OF sh t(1)] t(2) by (auto simp: thread_ok_def)
qed

text \<open>C27: In every state the kernel can reach, exactly one thread has the status running, and it is the one on the
  processor. The ready list has no duplicates and consists of the ready threads except the idle
  thread. A blocked thread is in the wait list of exactly one semaphore, unless it is the idle thread or
  it has not started yet, and only the initial thread is ever left dying.\<close>

theorem scheduler_invariant:
  assumes "reachable s"
  shows "(\<exists>th. threads s (running s) = Some th \<and> status th = THREAD_RUNNING) \<and>
    (\<forall>t th. threads s t = Some th \<longrightarrow> status th = THREAD_RUNNING \<longrightarrow> t = running s) \<and> distinct (ready_list s) \<and>
    set (ready_list s) = {t. \<exists>th. threads s t = Some th \<and> status th = THREAD_READY \<and> idle_thread s \<noteq> Some t} \<and>
    (\<forall>t th. threads s t = Some th \<longrightarrow> status th = THREAD_BLOCKED \<longrightarrow>
      (\<exists>!x. t \<in> set (waiters s x)) \<or> idle_thread s = Some t \<or> todo th = [] \<or> (\<exists>f. todo th = [Kernel_thread f])) \<and>
    (\<forall>t th. threads s t = Some th \<longrightarrow> status th = THREAD_DYING \<longrightarrow> t = initial_thread s)"
proof -
  have k: "kernel_ok s" by (rule reachable_ok [OF assms])
  hence sh: "shape s" and r: "\<exists>th. threads s (running s) = Some th \<and> status th = THREAD_RUNNING"
    by (auto simp: kernel_ok_def kinv_def krun_def)
  have "t = running s" if "threads s t = Some th" "status th = THREAD_RUNNING" for t th
    using shapeD(2) [OF sh that(1)] that(2) by (auto simp: thread_ok_def)
  moreover have "distinct (ready_list s)" using shapeD(3) [OF sh] by (simp add: ready_ok_def)
  moreover have "t = initial_thread s" if "threads s t = Some th" "status th = THREAD_DYING" for t th
    using shapeD(2) [OF sh that(1)] that r by (auto simp: thread_ok_def)
  ultimately show ?thesis using r kernel_ok_ready [OF k] kernel_ok_blocked [OF k] by blast
qed

theorem scheduler_invariant_witness:
  "\<exists>s. boot two_wait = Some s \<and> ready_list s = [8192] \<and>
     {t. \<exists>th. threads s t = Some th \<and> status th = THREAD_READY \<and> idle_thread s \<noteq> Some t} = {8192}"
proof -
  obtain s where s: "boot two_wait = Some s" "ready_list s = [8192]" using two_wait_run by blast
  show ?thesis using scheduler_invariant [OF reachable_boot [OF s(1)]] s by auto
qed

subsection \<open>Mutual exclusion\<close>

text \<open>C26: While a thread holds a lock, no step of the kernel makes another thread its holder: in the next state the thread still
  holds it, or it was the running thread and has released it.\<close>

theorem lock_mutual_exclusion:
  assumes "reachable s" "kstep s s'" "lock_holder s l = Some t"
  shows "lock_holder s' l = Some t \<or> t = running s \<and> lock_holder s' l = None"
  using kstep_ok [OF assms(2) reachable_ok [OF assms(1)]] assms(3) by (auto simp: holders_def)

lemma tid_lock_run:
  "\<exists>s s'. boot [Go] = Some s \<and> continue s = Some s' \<and> lock_holder s Tid_lock = Some 4096 \<and> running s = 4096 \<and> lock_holder s' Tid_lock = None"
proof -
  have "(case boot [Go] of None \<Rightarrow> False | Some s \<Rightarrow> (case continue s of None \<Rightarrow> False | Some s' \<Rightarrow>
      lock_holder s Tid_lock = Some 4096 \<and> running s = 4096 \<and> lock_holder s' Tid_lock = None))" by code_simp
  thus ?thesis by (auto split: option.splits)
qed

theorem lock_mutual_exclusion_witness:
  "\<exists>s s'. reachable s \<and> kstep s s' \<and> lock_holder s Tid_lock = Some 4096 \<and> running s = 4096 \<and> lock_holder s' Tid_lock = None"
proof -
  obtain s s' where s: "boot [Go] = Some s" "continue s = Some s'" "lock_holder s Tid_lock = Some 4096" "lock_holder s' Tid_lock = None"
    using tid_lock_run by blast
  note r = reachable_boot [OF s(1)] kstep.continues [OF s(2)]
  show ?thesis using lock_mutual_exclusion [OF r s(3)] r s by auto
qed

subsection \<open>Wake-ups\<close>

lemma loop_at_head:
  assumes "stack_ok cs"
  shows "wsum (in_loop x) cs \<le> 1" "0 < wsum (in_loop x) cs \<Longrightarrow> \<exists>b ds. cs = Sema_down_loop x b # ds"
proof -
  have z: "wsum (in_loop x) ds = 0" if "\<forall>d\<in>set ds. \<not> resume d" for ds
    using that
  proof (induction ds)
    case (Cons d ds)
    thus ?case by (cases "(x, d)" rule: in_loop.cases) auto
  qed simp
  have "wsum (in_loop x) cs \<le> 1 \<and> (0 < wsum (in_loop x) cs \<longrightarrow> (\<exists>b ds. cs = Sema_down_loop x b # ds))"
  proof (cases cs)
    case (Cons c ds)
    thus ?thesis using assms z [of ds] by (cases "(x, c)" rule: in_loop.cases) auto
  qed simp
  thus "wsum (in_loop x) cs \<le> 1" "0 < wsum (in_loop x) cs \<Longrightarrow> \<exists>b ds. cs = Sema_down_loop x b # ds" by auto
qed

lemma woken_exists:
  assumes sh: "shape s" and l: "int (length (waiters s x)) < tally (in_loop x) s"
  shows "\<exists>t th. threads s t = Some th \<and> t \<notin> set (waiters s x) \<and> 0 < wsum (in_loop x) (todo th)"
proof (rule ccontr)
  assume n: "\<not> ?thesis"
  let ?f = "\<lambda>t. wsum (in_loop x) (todo (the (threads s t)))"
  have st: "stack_ok (todo th)" if "threads s t = Some th" for t th using shapeD(2) [OF sh that] by (simp add: thread_ok_def)
  have "tally (in_loop x) s = sum ?f (dom (threads s))" by (simp add: tally_def wsum_def)
  also have "\<dots> = sum ?f (set (waiters s x) \<inter> dom (threads s))"
  proof (rule sum.mono_neutral_right)
    show "\<forall>t\<in>dom (threads s) - set (waiters s x) \<inter> dom (threads s). ?f t = 0"
    proof
      fix t assume "t \<in> dom (threads s) - set (waiters s x) \<inter> dom (threads s)"
      then obtain th where "threads s t = Some th" "t \<notin> set (waiters s x)" by auto
      thus "?f t = 0" using n wsum_nonneg [of "in_loop x" "todo th"] by fastforce
    qed
  qed (use shapeD(1) [OF sh] in auto)
  also have "\<dots> \<le> (\<Sum>t\<in>set (waiters s x) \<inter> dom (threads s). 1)"
    by (rule sum_mono) (use loop_at_head(1) st in fastforce)
  also have "\<dots> \<le> int (card (set (waiters s x)))" by (simp add: card_mono)
  also have "\<dots> \<le> int (length (waiters s x))" by (simp add: card_length)
  finally show False using l by simp
qed

text \<open>C28: No wake-up is lost: if a semaphore's value is positive although threads wait for it, then a thread that has been woken, and
  is about to look at the semaphore again, runs or is ready.\<close>

theorem no_lost_wakeup:
  assumes "reachable s" "semas s x = Some sm" "sm_value sm \<noteq> 0" "sm_waiters sm \<noteq> []"
  shows "\<exists>t th b cs. threads s t = Some th \<and> todo th = Sema_down_loop x b # cs \<and> t \<notin> set (sm_waiters sm) \<and>
    (t = running s \<or> t \<in> set (ready_list s))"
proof -
  have k: "kernel_ok s" by (rule reachable_ok [OF assms(1)])
  hence sh: "shape s" and a: "acct [] s" by (auto simp: kernel_ok_def kinv_def krun_def)
  have w: "waiters s x = sm_waiters sm" using assms(2) by (simp add: waiters_def)
  have "0 < uint (sm_value sm)" using assms(3) uint_0_iff [of "sm_value sm"] uint_ge_0 [of "sm_value sm"] by linarith
  moreover have "sval s x + int (length (waiters s x)) \<le> tally (in_loop x) s" using a assms(4) unfolding w [symmetric] by (simp add: acct_def)
  ultimately have "int (length (waiters s x)) < tally (in_loop x) s" using assms(2) by (simp add: sval_def)
  then obtain t th where t: "threads s t = Some th" "t \<notin> set (waiters s x)" "0 < wsum (in_loop x) (todo th)"
    using woken_exists [OF sh] by blast
  have o: "thread_ok s t th" by (rule shapeD(2) [OF sh t(1)])
  then obtain b cs where td: "todo th = Sema_down_loop x b # cs" using loop_at_head(2) [OF _ t(3)] by (auto simp: thread_ok_def)
  have "idle_thread s \<noteq> Some t" using shapeD(5) [OF sh] t(1) td by (auto simp: idle_ok_def)
  hence "t = running s \<or> t \<in> set (ready_list s)" using o td t(2) by (auto simp: thread_ok_def split: thread_status.splits)
  thus ?thesis using t(1,2) td w by auto
qed

theorem no_lost_wakeup_witness:
  "\<exists>s t. boot two_wait = Some s \<and> semas s (Sema 0) = Some \<lparr>sm_value = 1, sm_waiters = [12288]\<rparr> \<and>
     t \<in> {4096, 8192} \<and> (\<exists>th b cs. threads s t = Some th \<and> todo th = Sema_down_loop (Sema 0) b # cs)"
proof -
  obtain s where s: "boot two_wait = Some s" "running s = 4096" "ready_list s = [8192]"
    "semas s (Sema 0) = Some \<lparr>sm_value = 1, sm_waiters = [12288]\<rparr>" using two_wait_run by blast
  show ?thesis using no_lost_wakeup [OF reachable_boot [OF s(1)] s(4)] s by fastforce
qed

subsection \<open>Preemption\<close>

text \<open>C29: A timer interrupt that ends the time slice of a thread other than the idle thread puts it at the end of the ready list, and the thread
  at the front of the list runs.\<close>

theorem timer_round_robin:
  assumes "external_interrupt timer_interrupt s = Some s'" "idle_thread s \<noteq> Some (running s)"
    "thread_ticks s + 1 \<ge> TIME_SLICE" "ready_list s = t # ts"
  shows "running s' = t \<and> ready_list s' = ts @ [running s] \<and> thread_ticks s' = 0 \<and> ticks s' = ticks s + 1"
  using assms
  by (auto simp: external_interrupt_def intr_handler_def timer_interrupt_def thread_tick_def intr_yield_on_return_def push_todo_Some
      thread_yield_def thread_current_Some set_status_def set_thread_def push_todo_def schedule_def next_thread_to_run_def
      thread_schedule_tail_def intr_disable_def Let_def split: bind_splits if_splits option.splits)

definition slice_end :: "action list" where
  "slice_end = replicate 4 Go @ [Create 8192] @ replicate 6 Go @ [Yield, Go, Tick, Go, Tick, Go, Tick, Go]"

theorem timer_round_robin_witness:
  "\<exists>s s'. boot slice_end = Some s \<and> running s = 8192 \<and> external_interrupt timer_interrupt s = Some s' \<and> running s' = 4096 \<and>
     ready_list s' = [8192]"
proof -
  have "(case boot slice_end of None \<Rightarrow> False | Some s \<Rightarrow> running s = 8192 \<and> ready_list s = [4096] \<and> idle_thread s = None \<and>
      thread_ticks s = 3 \<and> external_interrupt timer_interrupt s \<noteq> None)" by code_simp
  then obtain s s' where s: "boot slice_end = Some s" "running s = 8192" "ready_list s = [4096]" "idle_thread s = None" "thread_ticks s = 3"
    "external_interrupt timer_interrupt s = Some s'" by (auto split: option.splits)
  show ?thesis using timer_round_robin [OF s(6) _ _ s(3)] s by (simp add: TIME_SLICE_def)
qed

end
