(* ===== verification/Vm.thy ===== *)
theory Vm
  imports Pagedir Swap File Hash_Table
begin

section \<open>Frames, the supplemental page table and page faults\<close>

text \<open>
  Models src/pintos/src/vm/frame.c, src/pintos/src/vm/page.c and the page fault handler of
  src/pintos/src/userprog/exception.c, on top of the page tables (theory \<open>Pagedir\<close>), the file system
  (theory \<open>File\<close>), the swap table (theory \<open>Swap\<close>) and the hash tables (theory \<open>Hash_Table\<close>).

  \<^item> The state is that of one running process, the frame table, and the page directories of all threads by
    thread identifier. The functions run under the frame table's lock or in one process, so each is one
    step.
  \<^item> A call of \<^verbatim>\<open>malloc\<close> takes the next element of \<open>mallocs\<close>: the address (0 if it fails), and the word that
    happens to lie at the place of the member \<^verbatim>\<open>page_ptr\<close>, which the code does not initialise.
  \<^item> An entry of the supplemental page table is identified by its user address, which is the key of the
    table. Writing to a member of an entry changes the element in the table.
\<close>

unbundle bit_operations_syntax

subsection \<open>Data\<close>

record frame_table_entry =
  fte_addr :: u32
  frame_ptr :: u32
  page_ptr :: u32
  owner_thread_tid :: int

definition SPE_SWAP :: u32 where "SPE_SWAP = 1"
definition SPE_FILE :: u32 where "SPE_FILE = 2"
definition SPE_MMF :: u32 where "SPE_MMF = 4"

definition STACK_SIZE :: u32 where "STACK_SIZE = 8 * push_bit 20 1"

text \<open>The members of the union that both views share are at the same place.\<close>

record sup_page_entry =
  user_vaddr :: u32
  spe_type :: u32
  spe_file :: obj
  spe_offset :: int
  spe_read_bytes :: u32
  spe_zero_bytes :: u32
  spe_writable :: bool
  loaded :: bool
  swap_slot_idx :: u32
  swap_writable :: bool

record vm =
  vm_mmu :: mmu
  vm_fs :: fs
  vm_swap :: swap
  frame_table :: "frame_table_entry list"
  pagedirs :: "int \<rightharpoonup> u32"
  cur_tid :: int
  cur_pagedir :: u32
  suppl_page_table :: "sup_page_entry hash_table"
  mallocs :: "(u32 \<times> u32) list"
  page_fault_cnt :: int

definition vm_ram :: "vm \<Rightarrow> ram" where
  "vm_ram s = ram (mem (vm_mmu s))"

definition set_vm_ram :: "ram \<Rightarrow> vm \<Rightarrow> vm" where
  "set_vm_ram m s = s\<lparr>vm_mmu := set_ram m (vm_mmu s)\<rparr>"

definition vm_malloc :: "vm \<Rightarrow> (u32 \<times> u32) \<times> vm" where
  "vm_malloc s = (case mallocs s of [] \<Rightarrow> ((0, 0), s) | r # rs \<Rightarrow> (r, s\<lparr>mallocs := rs\<rparr>))"

subsection \<open>The frame table\<close>

definition vm_frame_table_init :: "vm \<Rightarrow> vm" where
  "vm_frame_table_init s = s\<lparr>frame_table := []\<rparr>"

definition vm_free_frame :: "u32 \<Rightarrow> vm \<Rightarrow> vm option" where
  "vm_free_frame frame s = do {
     let s = (case find (\<lambda>e. frame_ptr e = frame) (frame_table s) of
                None \<Rightarrow> s
              | Some e \<Rightarrow> s\<lparr>frame_table := remove1 e (frame_table s)\<rparr>);
     m \<leftarrow> palloc_free_page frame (mem (vm_mmu s));
     Some (s\<lparr>vm_mmu := (vm_mmu s)\<lparr>mem := m\<rparr>\<rparr>)
   }"

definition add_frame_table_entry :: "u32 \<Rightarrow> vm \<Rightarrow> vm option" where
  "add_frame_table_entry new_frame_ptr s = do {
     let ((addr, junk), s) = vm_malloc s;
     ASSERT (addr \<noteq> 0);
     Some (s\<lparr>frame_table := frame_table s @
       [\<lparr>fte_addr = addr, frame_ptr = new_frame_ptr, page_ptr = junk, owner_thread_tid = cur_tid s\<rparr>]\<rparr>)
   }"

text \<open>The loop over the frame table. The owner of a frame may have exited; then there is no thread to look at.\<close>

fun clear_loop :: "frame_table_entry list \<Rightarrow> vm \<Rightarrow> (frame_table_entry option \<times> vm) option" where
  "clear_loop [] s = Some (None, s)"
| "clear_loop (e # es) s = do {
     pd \<leftarrow> pagedirs s (owner_thread_tid e);
     accessed \<leftarrow> pagedir_is_accessed pd (page_ptr e) (vm_mmu s);
     if \<not> accessed
     then Some (Some e, s\<lparr>frame_table := remove1 e (frame_table s) @ [e]\<rparr>)
     else do {
       m \<leftarrow> pagedir_set_accessed pd (page_ptr e) False (vm_mmu s);
       clear_loop es (s\<lparr>vm_mmu := m\<rparr>)
     }
   }"

definition next_frame_table_entry_to_clear :: "vm \<Rightarrow> (frame_table_entry \<times> vm) option" where
  "next_frame_table_entry_to_clear s = do {
     (r, s) \<leftarrow> clear_loop (frame_table s) s;
     case r of
       Some e \<Rightarrow> Some (e, s)
     | None \<Rightarrow> (case frame_table s of [] \<Rightarrow> None | e # _ \<Rightarrow> Some (e, s))
   }"

definition save_evicted_page :: "frame_table_entry \<Rightarrow> vm \<Rightarrow> vm" where
  "save_evicted_page e s = s"

text \<open>The pointer it returns is that of the entry.\<close>

definition evict_page_from_frame :: "vm \<Rightarrow> (u32 \<times> vm) option" where
  "evict_page_from_frame s = do {
     (e, s) \<leftarrow> next_frame_table_entry_to_clear s;
     let s = save_evicted_page e s;
     let e' = e\<lparr>owner_thread_tid := cur_tid s, page_ptr := 0\<rparr>;
     Some (fte_addr e, s\<lparr>frame_table := map (\<lambda>x. if fte_addr x = fte_addr e then e' else x) (frame_table s)\<rparr>)
   }"

definition vm_get_frame :: "u32 \<Rightarrow> vm \<Rightarrow> (u32 \<times> vm) option" where
  "vm_get_frame flags s = do {
     (new_frame_ptr, s) \<leftarrow>
       (if flags AND PAL_USER \<noteq> 0
        then do { (p, m) \<leftarrow> palloc_get_page flags (mem (vm_mmu s)); Some (p, s\<lparr>vm_mmu := (vm_mmu s)\<lparr>mem := m\<rparr>\<rparr>) }
        else Some (0, s));
     if new_frame_ptr \<noteq> 0
     then do { s \<leftarrow> add_frame_table_entry new_frame_ptr s; Some (new_frame_ptr, s) }
     else evict_page_from_frame s
   }"

subsection \<open>The supplemental page table\<close>

definition suppl_pt_hash :: "sup_page_entry \<Rightarrow> u32" where
  "suppl_pt_hash e = the (hash_bytes (u32_bytes (user_vaddr e)) 4)"

text \<open>The difference of two pointers is a signed number.\<close>

definition suppl_pt_less :: "sup_page_entry \<Rightarrow> sup_page_entry \<Rightarrow> bool" where
  "suppl_pt_less a b \<longleftrightarrow> sint (user_vaddr a - user_vaddr b) < 0"

text \<open>The element to look for; only its address is initialised.\<close>

definition spe_probe :: "u32 \<Rightarrow> sup_page_entry" where
  "spe_probe va = \<lparr>user_vaddr = va, spe_type = 0, spe_file = 0, spe_offset = 0, spe_read_bytes = 0, spe_zero_bytes = 0,
     spe_writable = False, loaded = False, swap_slot_idx = 0, swap_writable = False\<rparr>"

definition get_spe :: "sup_page_entry hash_table \<Rightarrow> u32 \<Rightarrow> sup_page_entry option option" where
  "get_spe h va = hash_find h (spe_probe va)"

definition set_spe :: "u32 \<Rightarrow> (sup_page_entry \<Rightarrow> sup_page_entry) \<Rightarrow> vm \<Rightarrow> vm" where
  "set_spe va f s = s\<lparr>suppl_page_table := (suppl_page_table s)\<lparr>h_buckets :=
     map (map (\<lambda>e. if user_vaddr e = va then f e else e)) (h_buckets (suppl_page_table s))\<rparr>\<rparr>"

text \<open>Reading part of a file into memory; the amount is a signed number for the file system.\<close>

definition read_into :: "obj \<Rightarrow> u32 \<Rightarrow> u32 \<Rightarrow> vm \<Rightarrow> (int \<times> vm) option" where
  "read_into f a n s = do {
     (bs, t) \<leftarrow> file_read f (sint n) (vm_fs s);
     Some (int (length bs), set_vm_ram (write_bytes a bs (vm_ram s)) (s\<lparr>vm_fs := t\<rparr>))
   }"

definition seek_in :: "obj \<Rightarrow> int \<Rightarrow> vm \<Rightarrow> vm option" where
  "seek_in f pos s = do { t \<leftarrow> file_seek f pos (vm_fs s); Some (s\<lparr>vm_fs := t\<rparr>) }"

definition map_page :: "u32 \<Rightarrow> u32 \<Rightarrow> bool \<Rightarrow> vm \<Rightarrow> (bool \<times> vm) option" where
  "map_page upage kpage w s = do {
     (ok, m) \<leftarrow> pagedir_set_page (cur_pagedir s) upage kpage w (vm_mmu s);
     Some (ok, s\<lparr>vm_mmu := m\<rparr>)
   }"

definition load_file_page :: "sup_page_entry \<Rightarrow> vm \<Rightarrow> (bool \<times> vm) option" where
  "load_file_page spe s = do {
     s \<leftarrow> seek_in (spe_file spe) (spe_offset spe) s;
     (page, s) \<leftarrow> vm_get_frame PAL_USER s;
     if page = 0 then Some (False, s)
     else do {
       (n, s) \<leftarrow> read_into (spe_file spe) page (spe_read_bytes spe) s;
       if n \<noteq> sint (spe_read_bytes spe) then do { s \<leftarrow> vm_free_frame page s; Some (False, s) }
       else do {
         let s = set_vm_ram (memset (page + spe_read_bytes spe) 0 (spe_zero_bytes spe) (vm_ram s)) s;
         (ok, s) \<leftarrow> map_page (user_vaddr spe) page (spe_writable spe) s;
         if \<not> ok then do { s \<leftarrow> vm_free_frame page s; Some (False, s) }
         else Some (True, set_spe (user_vaddr spe) (\<lambda>e. e\<lparr>loaded := True\<rparr>) s)
       }
     }
   }"

definition load_page_mmf :: "sup_page_entry \<Rightarrow> vm \<Rightarrow> (bool \<times> vm) option" where
  "load_page_mmf spte s = do {
     s \<leftarrow> seek_in (spe_file spte) (spe_offset spte) s;
     (kpage, s) \<leftarrow> vm_get_frame PAL_USER s;
     if kpage = 0 then Some (False, s)
     else do {
       (n, s) \<leftarrow> read_into (spe_file spte) kpage (spe_read_bytes spte) s;
       if n \<noteq> sint (spe_read_bytes spte) then do { s \<leftarrow> vm_free_frame kpage s; Some (False, s) }
       else do {
         let s = set_vm_ram (memset (kpage + spe_read_bytes spte) 0 (PGSIZE - spe_read_bytes spte) (vm_ram s)) s;
         (ok, s) \<leftarrow> map_page (user_vaddr spte) kpage True s;
         if \<not> ok then do { s \<leftarrow> vm_free_frame kpage s; Some (False, s) }
         else Some (True, set_spe (user_vaddr spte)
           (\<lambda>e. e\<lparr>loaded := True, spe_type := (if spe_type e AND SPE_SWAP \<noteq> 0 then SPE_MMF else spe_type e)\<rparr>) s)
       }
     }
   }"

text \<open>\<^verbatim>\<open>vm_swap_in\<close> writes to the user address, which has just been mapped to the frame. If the page is mapped
  read-only the write faults. \<open>mem_ok\<close> is whether the \<^verbatim>\<open>malloc\<close> of a possible rehash succeeds.\<close>

definition load_page_swap :: "bool \<Rightarrow> sup_page_entry \<Rightarrow> vm \<Rightarrow> (bool \<times> vm) option" where
  "load_page_swap mem_ok spte s = do {
     (kpage, s) \<leftarrow> vm_get_frame PAL_USER s;
     if kpage = 0 then Some (False, s)
     else do {
       (ok, s) \<leftarrow> map_page (user_vaddr spte) kpage (swap_writable spte) s;
       if \<not> ok then do { s \<leftarrow> vm_free_frame kpage s; Some (False, s) }
       else do {
         ASSERT (swap_writable spte);
         (bs, sw) \<leftarrow> vm_swap_in (swap_slot_idx spte) (read_bytes kpage (unat PGSIZE) (vm_ram s)) (vm_swap s);
         let s = set_vm_ram (write_bytes kpage bs (vm_ram s)) (s\<lparr>vm_swap := sw\<rparr>);
         s \<leftarrow> (if spe_type spte = SPE_SWAP
               then do { (_, h) \<leftarrow> hash_delete mem_ok (suppl_page_table s) spte; Some (s\<lparr>suppl_page_table := h\<rparr>) }
               else Some s);
         Some (True, if spe_type spte = SPE_FILE OR SPE_SWAP
                     then set_spe (user_vaddr spte) (\<lambda>e. e\<lparr>spe_type := SPE_FILE, loaded := True\<rparr>) s
                     else s)
       }
     }
   }"

definition load_page :: "bool \<Rightarrow> sup_page_entry \<Rightarrow> vm \<Rightarrow> (bool \<times> vm) option" where
  "load_page mem_ok spe s =
     (if spe_type spe = SPE_FILE then load_file_page spe s
      else if spe_type spe = SPE_MMF \<or> spe_type spe = SPE_MMF OR SPE_SWAP then load_page_mmf spe s
      else if spe_type spe = SPE_FILE OR SPE_SWAP \<or> spe_type spe = SPE_SWAP then load_page_swap mem_ok spe s
      else Some (False, s))"

definition grow_stack :: "u32 \<Rightarrow> vm \<Rightarrow> vm option" where
  "grow_stack uvaddr s = do {
     (spage, s) \<leftarrow> vm_get_frame (PAL_USER OR PAL_ZERO) s;
     if spage = 0 then Some s
     else do {
       (ok, s) \<leftarrow> map_page (pg_round_down uvaddr) spage True s;
       if \<not> ok then vm_free_frame spage s else Some s
     }
   }"

definition suppl_pt_insert_mmf :: "bool \<Rightarrow> obj \<Rightarrow> int \<Rightarrow> u32 \<Rightarrow> u32 \<Rightarrow> vm \<Rightarrow> (bool \<times> vm) option" where
  "suppl_pt_insert_mmf mem_ok f ofs upage n s = do {
     let ((addr, _), s) = vm_malloc s;
     if addr = 0 then Some (False, s)
     else do {
       (old, h) \<leftarrow> hash_insert mem_ok (suppl_page_table s)
         ((spe_probe upage)\<lparr>spe_type := SPE_MMF, spe_file := f, spe_offset := ofs, spe_read_bytes := n\<rparr>);
       Some (old = None, s\<lparr>suppl_page_table := h\<rparr>)
     }
   }"

text \<open>\<^verbatim>\<open>free_sp\<close> frees the entries of the table; the result is the list of the entries that were freed.\<close>

definition free_sp_entry :: "sup_page_entry \<Rightarrow> sup_page_entry list \<Rightarrow> sup_page_entry list option" where
  "free_sp_entry e freed = Some (freed @ [e])"

definition free_sp :: "sup_page_entry hash_table \<Rightarrow> sup_page_entry list option" where
  "free_sp h = hash_destroy (Some free_sp_entry) h []"

subsection \<open>Page faults\<close>

definition PF_P :: u32 where "PF_P = 1"
definition SEL_KCSEG :: "16 word" where "SEL_KCSEG = 0x08"
definition SEL_UCSEG :: "16 word" where "SEL_UCSEG = 0x1b"

record intr_frame =
  error_code :: u32
  f_esp :: u32
  f_cs :: "16 word"

text \<open>How the handler of an exception ends: it calls \<^verbatim>\<open>exit\<close> with a status, or \<^verbatim>\<open>thread_exit\<close> in \<^verbatim>\<open>kill\<close>.
  Neither returns. \<^verbatim>\<open>kill\<close> panics if the fault happened in the kernel.\<close>

datatype fault_end = Exit int | Killed

definition kill :: "intr_frame \<Rightarrow> vm \<Rightarrow> (fault_end \<times> vm) option" where
  "kill f s = (if f_cs f = SEL_UCSEG then Some (Killed, s) else if f_cs f = SEL_KCSEG then None else Some (Killed, s))"

text \<open>The difference of pointers is signed, and so is the comparison with the size of the stack.\<close>

definition page_fault :: "bool \<Rightarrow> u32 \<Rightarrow> intr_frame \<Rightarrow> vm \<Rightarrow> (fault_end \<times> vm) option" where
  "page_fault mem_ok fault_addr f s = do {
     let s = s\<lparr>page_fault_cnt := page_fault_cnt s + 1\<rparr>;
     let not_present = (error_code f AND PF_P = 0);
     if \<not> not_present then Some (Exit (-1), s)
     else if fault_addr = 0 \<or> \<not> not_present \<or> \<not> is_user_vaddr fault_addr then Some (Exit (-1), s)
     else do {
       found \<leftarrow> get_spe (suppl_page_table s) (pg_round_down fault_addr);
       case found of
         Some spe \<Rightarrow>
           if \<not> loaded spe then do { (_, s) \<leftarrow> load_page mem_ok spe s; kill f s }
           else do {
             p \<leftarrow> pagedir_get_page (cur_pagedir s) fault_addr (vm_mmu s);
             if p = 0 then Some (Exit (-1), s) else kill f s
           }
       | None \<Rightarrow>
           if fault_addr \<ge> f_esp f - 32 \<and> sint (PHYS_BASE - pg_round_down fault_addr) \<le> sint STACK_SIZE
           then do { s \<leftarrow> grow_stack fault_addr s; kill f s }
           else do {
             p \<leftarrow> pagedir_get_page (cur_pagedir s) fault_addr (vm_mmu s);
             if p = 0 then Some (Exit (-1), s) else kill f s
           }
     }
   }"

subsection \<open>The keys of the supplemental page table\<close>

lemma sint_minus_neg: "0 \<le> sint x \<Longrightarrow> 0 \<le> sint (- x) \<Longrightarrow> x = 0" for x :: u32
proof -
  assume x: "0 \<le> sint x" "0 \<le> sint (- x)"
  have "sint x < 2 ^ 31" using sint_lt[of x] by simp
  then have "sint (- x) = - sint x"
    using x(1) by (simp add: sint_word_ariths signed_take_bit_int_eq_self)
  then have "sint x = sint (0 :: u32)" using x by simp
  then show "x = 0" by (rule signed_word_eqI)
qed

interpretation spt: hash_keys suppl_pt_hash suppl_pt_less user_vaddr
proof
  fix a b :: sup_page_entry
  have "- (user_vaddr a - user_vaddr b) = user_vaddr b - user_vaddr a" by simp
  then show "\<not> suppl_pt_less a b \<and> \<not> suppl_pt_less b a \<longleftrightarrow> user_vaddr a = user_vaddr b"
    using sint_minus_neg[of "user_vaddr a - user_vaddr b"] by (auto simp: suppl_pt_less_def)
  show "user_vaddr a = user_vaddr b \<Longrightarrow> suppl_pt_hash a = suppl_pt_hash b" by (simp add: suppl_pt_hash_def)
qed

abbreviation spt_inv :: "sup_page_entry hash_table \<Rightarrow> bool" where
  "spt_inv \<equiv> hash_inv suppl_pt_hash suppl_pt_less user_vaddr"

lemma get_spe_table: "spt_inv h \<Longrightarrow> get_spe h va = Some (table user_vaddr h va)"
  using spt.hash_find_table[of h "spe_probe va"] by (simp add: get_spe_def spe_probe_def)

text \<open>C35: a supplemental page table is a map from user addresses to entries. From its initialisation on, any
  sequence of insertions, replacements, searches and deletions, whether or not there is memory for the table to
  grow, runs to its end and returns what the same operations on a map return. Afterwards \<open>get_spe\<close> finds for
  every address the entry that the map has, the size of the table is the number of addresses of the map, and going
  through the table meets each entry exactly once.\<close>

theorem suppl_page_table_is_map:
  assumes "length bs = 4" "length xs < 2 ^ 32"
  defines "m \<equiv> snd (map_run user_vaddr xs Map.empty)"
  shows "\<exists>h0 h es. hash_init (Some bs) suppl_pt_hash suppl_pt_less = Some (Some h0) \<and>
    hash_run xs h0 = Some (fst (map_run user_vaddr xs Map.empty), h) \<and> (\<forall>va. get_spe h va = Some (m va)) \<and>
    unat (hash_size h) = card (dom m) \<and> hash_collect h (hash_first h) [] = Some es \<and> distinct es \<and> set es = ran m"
proof -
  obtain h0 h es where "hash_init (Some bs) suppl_pt_hash suppl_pt_less = Some (Some h0)"
    "hash_run xs h0 = Some (fst (map_run user_vaddr xs Map.empty), h)" "spt_inv h" "table user_vaddr h = m"
    "unat (hash_size h) = card (dom (table user_vaddr h))" "hash_collect h (hash_first h) [] = Some es" "distinct es"
    "set es = ran (table user_vaddr h)"
    using spt.hash_session[OF assms(1,2)] unfolding m_def by metis
  then show ?thesis using get_spe_table[of h] by auto
qed

theorem suppl_page_table_is_map_witness:
  "\<exists>h0 h. hash_init (Some [[], [], [], []]) suppl_pt_hash suppl_pt_less = Some (Some h0) \<and>
    hash_run [(True, Insert (spe_probe 4096)), (False, Insert (spe_probe 8192)), (True, Delete (spe_probe 4096))] h0 =
      Some ([None, None, Some (spe_probe 4096)], h) \<and>
    get_spe h 8192 = Some (Some (spe_probe 8192)) \<and> get_spe h 4096 = Some None"
  using suppl_page_table_is_map[of "[[], [], [], []]"
      "[(True, Insert (spe_probe 4096)), (False, Insert (spe_probe 8192)), (True, Delete (spe_probe 4096))]"]
  by (auto simp: spe_probe_def)

end
