(* ===== verification/Vm_Frames.thy ===== *)
theory Vm_Frames
  imports Vm
begin

section \<open>The frame table and the pages of a process\<close>

text \<open>
  Lemmas on the functions of src/pintos/src/vm/frame.c. A page of data is a page in use that is neither the
  page directory nor one of its tables; taking, writing and giving back such a page leaves the translations
  and the other pages alone (\<open>page_step\<close>). The frame table lists user pages in use, each once
  (\<open>frames_ok\<close>); getting a frame while one is free, and freeing the frame got last, keep this.
\<close>

unbundle bit_operations_syntax

subsection \<open>Pages of data\<close>

text \<open>A page in use that is neither the directory nor one of its tables.\<close>

definition data_page :: "mmu \<Rightarrow> u32 \<Rightarrow> u32 \<Rightarrow> bool" where
  "data_page s pd k \<longleftrightarrow> in_use s k \<and> k \<noteq> pd \<and> (\<forall>i. unat i < 768 \<longrightarrow> table_at s pd i \<noteq> Some k)"

text \<open>Two states in which the directory and its tables are the same.\<close>

lemma same_tables:
  assumes wf: "pagedir_wf s pd" and m: "\<forall>q x. in_use s q \<and> q \<noteq> k \<and> pg_no x = pg_no q \<longrightarrow> ram (mem s') x = ram (mem s) x"
    and k: "k \<noteq> pd" "\<forall>i. unat i < 768 \<longrightarrow> table_at s pd i \<noteq> Some k"
  shows "unat i < 1024 \<Longrightarrow> load (pd + 4 * i) s' = load (pd + 4 * i) s"
    and "unat i < 768 \<Longrightarrow> table_at s' pd i = table_at s pd i"
    and "is_user_vaddr va \<Longrightarrow> mapped s' pd va = mapped s pd va"
proof -
  have ld: "load (q + 4 * j) s' = load (q + 4 * j) s" if "in_use s q" "q \<noteq> k" "unat j < 1024" for q j
    unfolding load_def using m that(1,2) word_in_page[OF _ that(3)]
    by (intro load_cong) (auto simp: in_use_def)
  have pd: "in_use s pd" using wf by (simp add: pagedir_wf_def)
  show l: "load (pd + 4 * i) s' = load (pd + 4 * i) s" if "unat i < 1024" for i
    using ld[OF pd _ that] k(1) by simp
  show tab: "table_at s' pd i = table_at s pd i" if "unat i < 768" for i
    using l[of i] that by (simp add: table_at_def)
  show "mapped s' pd va = mapped s pd va" if u: "is_user_vaddr va" for va
  proof (cases "table_at s pd (pd_no va)")
    case None
    then show ?thesis using tab[OF pd_no_user[OF u]] by (simp add: mapped_def pte_of_def)
  next
    case (Some pt)
    then have "pt \<noteq> k" using k(2) pd_no_user[OF u] by auto
    then show ?thesis
      using ld[OF table_at_in_use(1)[OF wf u Some] _ pt_no_less[of va]] Some tab[OF pd_no_user[OF u]]
      by (simp add: mapped_def pte_of_def)
  qed
qed

lemma pagedir_wf_same_tables:
  assumes wf: "pagedir_wf s pd" and kw: "kmem_wf (mem s')"
    and pde: "\<And>i. unat i < 1024 \<Longrightarrow> load (pd + 4 * i) s' = load (pd + 4 * i) s"
    and use: "\<And>q. in_use s q \<Longrightarrow> q = pd \<or> (\<exists>i. unat i < 768 \<and> table_at s pd i = Some q) \<Longrightarrow> in_use s' q"
  shows "pagedir_wf s' pd"
proof -
  have tab: "table_at s' pd i = table_at s pd i" if "unat i < 768" for i
    using pde[of i] that by (simp add: table_at_def)
  show ?thesis
    unfolding pagedir_wf_def
  proof (intro conjI allI impI)
    show "kmem_wf (mem s')" by (rule kw)
    show "in_use s' pd" using wf use[of pd] by (simp add: pagedir_wf_def)
    fix i assume i: "unat i < 768 \<and> load (pd + 4 * i) s' \<noteq> 0"
    then have "load (pd + 4 * i) s \<noteq> 0" using pde[of i] by simp
    then obtain pt where "table_at s pd i = Some pt" "in_use s pt" "pt \<noteq> pd" using wf i by (auto simp: pagedir_wf_def)
    then show "\<exists>pt. table_at s' pd i = Some pt \<and> in_use s' pt \<and> pt \<noteq> pd" using tab[of i] i use[of pt] by auto
  next
    fix i j pt assume "unat i < 768" "unat j < 768" "table_at s' pd i = Some pt" "table_at s' pd j = Some pt"
    then show "i = j" using wf tab unfolding pagedir_wf_def by metis
  qed
qed

text \<open>A step that may change the contents of the page \<open>k\<close>, but neither the translations nor any other page of
  data.\<close>

definition page_step :: "u32 \<Rightarrow> u32 \<Rightarrow> mmu \<Rightarrow> mmu \<Rightarrow> bool" where
  "page_step pd k s s' \<longleftrightarrow> pagedir_wf s' pd \<and> init_page_dir s' = init_page_dir s \<and> init_ram_pages s' = init_ram_pages s \<and>
     (\<forall>i. unat i < 768 \<longrightarrow> table_at s' pd i = table_at s pd i) \<and>
     (\<forall>va. is_user_vaddr va \<longrightarrow> mapped s' pd va = mapped s pd va) \<and>
     (\<forall>q. data_page s pd q \<and> q \<noteq> k \<longrightarrow>
        data_page s' pd q \<and> (\<forall>x. pg_no x = pg_no q \<longrightarrow> ram (mem s') x = ram (mem s) x))"

lemma page_step_trans: "page_step pd k s s' \<Longrightarrow> page_step pd k s' s'' \<Longrightarrow> page_step pd k s s''"
  unfolding page_step_def by metis

lemma page_stepI:
  assumes wf: "pagedir_wf s pd" and kw: "kmem_wf (mem s')" and k: "is_kpage k" "k \<noteq> pd"
    and kt: "\<forall>i. unat i < 768 \<longrightarrow> table_at s pd i \<noteq> Some k"
    and m: "\<forall>x. pg_no x \<noteq> pg_no k \<longrightarrow> ram (mem s') x = ram (mem s) x"
    and use: "\<forall>q. in_use s q \<and> q \<noteq> k \<longrightarrow> in_use s' q"
    and regs: "init_page_dir s' = init_page_dir s" "init_ram_pages s' = init_ram_pages s"
  shows "page_step pd k s s'" "\<forall>i. unat i < 768 \<longrightarrow> table_at s' pd i \<noteq> Some k"
proof -
  have ne: "pg_no q \<noteq> pg_no k" if "is_kpage q" "q \<noteq> k" for q using kpage_pg_no[OF that(1) k(1)] that(2) by blast
  have R: "\<forall>q x. in_use s q \<and> q \<noteq> k \<and> pg_no x = pg_no q \<longrightarrow> ram (mem s') x = ram (mem s) x"
    using ne m by (auto simp: in_use_def)
  note same = same_tables[OF wf R k(2) kt]
  have "in_use s' q" if "in_use s q" "q = pd \<or> (\<exists>i. unat i < 768 \<and> table_at s pd i = Some q)" for q
    using that use k(2) kt by blast
  then have "pagedir_wf s' pd" using pagedir_wf_same_tables[OF wf kw same(1)] by blast
  moreover have "data_page s' pd q" if "data_page s pd q" "q \<noteq> k" for q
    using that use same(2) by (simp add: data_page_def)
  ultimately show "page_step pd k s s'"
    using same(2,3) R regs by (auto simp: page_step_def data_page_def)
  show "\<forall>i. unat i < 768 \<longrightarrow> table_at s' pd i \<noteq> Some k" using same(2) kt by simp
qed

text \<open>Taking a page into use, writing to a page of data, and giving a page of data back.\<close>

lemma take_page:
  assumes wf: "pagedir_wf s pd" and k: "is_kpage k" "unat (pg_no k) \<in> free_pages s" and kw: "kmem_wf (mem s')"
    and f: "free_pages s' = free_pages s - {unat (pg_no k)}"
    and m: "\<forall>x. pg_no x \<noteq> pg_no k \<longrightarrow> ram (mem s') x = ram (mem s) x"
    and regs: "init_page_dir s' = init_page_dir s" "init_ram_pages s' = init_ram_pages s"
  shows "page_step pd k s s'" "data_page s' pd k"
proof -
  have fresh: "q \<noteq> k" if "in_use s q" for q using that k(2) by (auto simp: in_use_def)
  have kpd: "k \<noteq> pd" using wf fresh[of pd] by (auto simp: pagedir_wf_def)
  have kt: "\<forall>i. unat i < 768 \<longrightarrow> table_at s pd i \<noteq> Some k"
    using wf fresh by (auto simp: pagedir_wf_def table_at_def)
  have use: "\<forall>q. in_use s q \<and> q \<noteq> k \<longrightarrow> in_use s' q" using f by (auto simp: in_use_def)
  note kp = page_stepI[OF wf kw k(1) kpd kt m use regs]
  show "page_step pd k s s'" by (rule kp(1))
  show "data_page s' pd k" using kp(2) k(1) f kpd by (simp add: data_page_def in_use_def)
qed

lemma write_page:
  assumes wf: "pagedir_wf s pd" and k: "data_page s pd k" and m: "\<forall>x. pg_no x \<noteq> pg_no k \<longrightarrow> m x = ram (mem s) x"
  shows "page_step pd k s (set_ram m s)" "data_page (set_ram m s) pd k"
proof -
  let ?s = "set_ram m s"
  have use: "in_use ?s q = in_use s q" for q by (simp add: in_use_def set_ram_def free_pages_def)
  have kk: "is_kpage k" "k \<noteq> pd" "\<forall>i. unat i < 768 \<longrightarrow> table_at s pd i \<noteq> Some k"
    using k by (auto simp: data_page_def in_use_def)
  have "page_step pd k s ?s \<and> (\<forall>i. unat i < 768 \<longrightarrow> table_at ?s pd i \<noteq> Some k)"
    using page_stepI[OF wf _ kk, of ?s] wf m by (simp add: use) (simp add: set_ram_def pagedir_wf_def)
  then show "page_step pd k s ?s" "data_page ?s pd k" using k use by (auto simp: data_page_def)
qed

lemma give_page:
  assumes wf: "pagedir_wf s pd" and k: "data_page s pd k" and kw: "kmem_wf (mem s')"
    and f: "free_pages s' = free_pages s \<union> {unat (pg_no k)}"
    and m: "\<forall>x. pg_no x \<noteq> pg_no k \<longrightarrow> ram (mem s') x = ram (mem s) x"
    and regs: "init_page_dir s' = init_page_dir s" "init_ram_pages s' = init_ram_pages s"
  shows "page_step pd k s s'"
proof -
  have kk: "is_kpage k" "k \<noteq> pd" "\<forall>i. unat i < 768 \<longrightarrow> table_at s pd i \<noteq> Some k"
    using k by (auto simp: data_page_def in_use_def)
  have "in_use s' q" if "in_use s q" "q \<noteq> k" for q
  proof -
    have "unat (pg_no q) \<noteq> unat (pg_no k)"
      using kpage_pg_no[of q k] that kk(1) unat_inject[of "pg_no q" "pg_no k"] by (auto simp: in_use_def)
    then show ?thesis using that(1) f by (simp add: in_use_def)
  qed
  then show ?thesis using page_stepI(1)[OF wf kw kk m _ regs] by blast
qed

lemma store_ram_other:
  assumes "is_kpage p" "unat i < 1024" "pg_no x \<noteq> pg_no p"
  shows "ram (mem (store (p + 4 * i) v s)) x = ram (mem s) x"
proof -
  have "x \<noteq> p + 4 * i + j" if "unat j < 4" for j using word_in_page[OF assms(1,2) that] assms(3) by auto
  from this[of 0] this[of 1] this[of 2] this[of 3] show ?thesis by (simp add: store_def set_ram_def store32_def)
qed

lemma get_kernel_page_user: "palloc_get_page PAL_ZERO m = Some (p, m') \<Longrightarrow> user_pool m' = user_pool m"
  by (auto simp: palloc_get_page_def palloc_get_multiple_def PAL_ZERO_def PAL_USER_def PAL_ASSERT_def set_pool_def Let_def
      split: if_splits Option.bind_splits)

lemma lookup_create_frame:
  assumes wf: "pagedir_wf s pd" and u: "is_user_vaddr va" and run: "lookup_page pd va True s = Some (p, s')"
    and k: "data_page s pd k"
  shows "user_pool (mem s') = user_pool (mem s) \<and> (\<forall>x. pg_no x = pg_no k \<longrightarrow> ram (mem s') x = ram (mem s) x) \<and>
    data_page s' pd k"
proof (cases "load (pd + 4 * pd_no va) s = 0")
  case False
  then obtain pt where pt: "table_at s pd (pd_no va) = Some pt"
    using wf pd_no_user[OF u] by (auto simp: pagedir_wf_def)
  then have "lookup_page pd va True s = Some (pt + 4 * pt_no va, s)"
    using False u wf kpage_nonzero[of pd] by (simp add: lookup_page_def table_at_def pagedir_wf_def in_use_def)
  then show ?thesis using run k by auto
next
  case True
  have kw: "kmem_wf (mem s)" and kpd: "is_kpage pd" "pd \<noteq> 0"
    using wf kpage_nonzero[of pd] by (simp_all add: pagedir_wf_def in_use_def)
  from kw show ?thesis
  proof (cases rule: get_page_cases)
    case none
    then have "s' = s" using True u kpd run by (simp add: lookup_page_def)
    then show ?thesis using k by simp
  next
    case (page pt m)
    let ?s1 = "s\<lparr>mem := m\<rparr>"
    have kpt: "is_kernel_vaddr pt" "pg_ofs pt = 0" using page(2) by (simp_all add: is_kpage_def)
    obtain e where e: "pde_create pt = Some e" "pde_get_pt e = Some pt"
      using pde_get_pt_create[OF kpt] by (auto simp: pde_create_Some[OF kpt])
    have s': "s' = store (pd + 4 * pd_no va) e ?s1" "load (pd + 4 * pd_no va) s' = e"
      using run True u kpd page(1) kpage_nonzero[OF page(2)] e
        load_store_entry[OF kpd(1) kpd(1) pd_no_less[of va] pd_no_less[of va], of e ?s1]
      by (simp_all add: lookup_page_def Let_def)
    have ptk: "pt \<noteq> k" and kk: "is_kpage k" "k \<noteq> pd" using k page(4) by (auto simp: data_page_def in_use_def)
    have pg: "pg_no k \<noteq> pg_no pt" "pg_no k \<noteq> pg_no pd"
      using kpage_pg_no[OF kk(1) page(2)] kpage_pg_no[OF kk(1) kpd(1)] ptk kk(2) by auto
    have "ram (mem s') x = ram (mem s) x" if "pg_no x = pg_no k" for x
      using store_ram_other[OF kpd(1) pd_no_less, of x va e ?s1] that pg page_distance[OF page(2), of x]
      by (simp add: s'(1) page(6) memset_def)
    moreover have "user_pool (mem s') = user_pool (mem s)"
      using get_kernel_page_user[OF page(1)] by (simp add: s'(1) store_def set_ram_def)
    moreover have "table_at s' pd i \<noteq> Some k" if "unat i < 768" for i
    proof (cases "i = pd_no va")
      case True
      then show ?thesis using s'(2) e(2) ptk by (simp add: table_at_def)
    next
      case False
      have "pt \<noteq> pd" using page(4) wf by (auto simp: pagedir_wf_def in_use_def)
      then have "load (pd + 4 * i) s' = load (pd + 4 * i) s"
        using load_store_entry[OF kpd(1) kpd(1) pd_no_less[of va], of i e ?s1] False that s'(1) page(6)
          load_memset_page[OF page(2) kpd(1), of i "ram (mem s)"] by (auto simp: load_def)
      then have "table_at s' pd i = table_at s pd i" by (simp add: table_at_def)
      then show ?thesis using k that by (simp add: data_page_def)
    qed
    then have "data_page s' pd k" using k page(5) by (auto simp: data_page_def in_use_def s'(1))
    ultimately show ?thesis by blast
  qed
qed

lemma pagedir_set_page_frame:
  assumes wf: "pagedir_wf s pd" and u: "is_user_vaddr upage" and run: "pagedir_set_page pd upage q w s = Some (ok, s')"
    and k: "data_page s pd k"
  shows "user_pool (mem s') = user_pool (mem s) \<and> (\<forall>x. pg_no x = pg_no k \<longrightarrow> ram (mem s') x = ram (mem s) x) \<and>
    data_page s' pd k \<and> init_page_dir s' = init_page_dir s \<and> init_ram_pages s' = init_ram_pages s"
proof -
  obtain p s1 where l: "lookup_page pd upage True s = Some (p, s1)"
    using run by (auto simp: pagedir_set_page_def split: Option.bind_splits if_splits)
  note fr = lookup_create_frame[OF wf u l k]
  show ?thesis
  proof (cases "p = 0")
    case True
    then have "s' = s1" "\<not> ok" using run l by (auto simp: pagedir_set_page_def split: Option.bind_splits if_splits)
    moreover have "init_page_dir s1 = init_page_dir s \<and> init_ram_pages s1 = init_ram_pages s" using lookup_create[OF wf u] l by auto
    ultimately show ?thesis using fr True by simp
  next
    case False
    then obtain e where s': "ok" "s' = store p e s1"
      using run l by (auto simp: pagedir_set_page_def split: Option.bind_splits if_splits)
    from lookup_create[OF wf u] l False obtain pt where pt: "p = pt + 4 * pt_no upage" "table_at s1 pd (pd_no upage) = Some pt"
      "pagedir_wf s1 pd" and regs: "init_page_dir s1 = init_page_dir s" "init_ram_pages s1 = init_ram_pages s" by auto
    have ptk: "is_kpage pt" "pt \<noteq> k" "pt \<noteq> pd"
      using table_at_in_use(2,3)[OF pt(3) u pt(2)] fr pt(2) pd_no_user[OF u] by (auto simp: data_page_def)
    then have "pg_no k \<noteq> pg_no pt" using kpage_pg_no[of k pt] k by (auto simp: data_page_def in_use_def)
    then have "ram (mem s') x = ram (mem s1) x" if "pg_no x = pg_no k" for x
      using store_ram_other[OF ptk(1) pt_no_less, of x upage e s1] that by (simp add: s'(2) pt(1))
    moreover have "user_pool (mem s') = user_pool (mem s1)" by (simp add: s'(2) store_def set_ram_def)
    moreover have "load (pd + 4 * i) s' = load (pd + 4 * i) s1" if "unat i < 768" for i
      using load_store_entry[OF ptk(1) _ pt_no_less[of upage], of pd i e s1] ptk(3) that pt(3)
      by (simp add: s'(2) pt(1) pagedir_wf_def in_use_def)
    then have "table_at s' pd i = table_at s1 pd i" if "unat i < 768" for i using that by (simp add: table_at_def)
    then have "data_page s' pd k" using fr by (simp add: data_page_def s'(2))
    ultimately show ?thesis using fr s' regs by simp
  qed
qed


subsection \<open>Frames\<close>

text \<open>The frames of the table are different pages of the user pool, and in use.\<close>

definition frames_ok :: "vm \<Rightarrow> bool" where
  "frames_ok s \<longleftrightarrow> distinct (map frame_ptr (frame_table s)) \<and>
     (\<forall>e \<in> set (frame_table s). is_kpage (frame_ptr e) \<and>
        unat (pg_no (frame_ptr e)) \<in> pool_pages (user_pool (mem (vm_mmu s))) - free_pool (user_pool (mem (vm_mmu s))))"

abbreviation free_frames :: "vm \<Rightarrow> nat set" where
  "free_frames s \<equiv> free_pool (user_pool (mem (vm_mmu s)))"

abbreviation vm_wf :: "vm \<Rightarrow> bool" where
  "vm_wf s \<equiv> pagedir_wf (vm_mmu s) (cur_pagedir s)"

abbreviation vm_mapped :: "vm \<Rightarrow> u32 \<Rightarrow> u32 option" where
  "vm_mapped s va \<equiv> mapped (vm_mmu s) (cur_pagedir s) va"

lemma frames_ok_cong:
  "frame_table s' = frame_table s \<Longrightarrow> user_pool (mem (vm_mmu s')) = user_pool (mem (vm_mmu s)) \<Longrightarrow> frames_ok s' = frames_ok s"
  by (simp add: frames_ok_def)

lemma get_user_page:
  assumes wf: "kmem_wf (mem s)" and z: "z = 0 \<or> z = PAL_ZERO" and fr: "free_pool (user_pool (mem s)) \<noteq> {}"
  obtains k m where "palloc_get_page (PAL_USER OR z) (mem s) = Some (k, m)" "is_kpage k" "kmem_wf m"
    "unat (pg_no k) \<in> free_pool (user_pool (mem s))"
    "free_pool (user_pool m) = free_pool (user_pool (mem s)) - {unat (pg_no k)}"
    "pool_pages (user_pool m) = pool_pages (user_pool (mem s))" "kernel_pool m = kernel_pool (mem s)"
    "free_pages (s\<lparr>mem := m\<rparr>) = free_pages s - {unat (pg_no k)}"
    "ram m = (if z = 0 then ram (mem s) else memset k 0 PGSIZE (ram (mem s)))"
proof -
  have f: "(PAL_USER OR z) AND PAL_ASSERT = 0" "(PAL_USER OR z) AND PAL_USER \<noteq> 0" "(PAL_USER OR z) AND PAL_ZERO = 0 \<longleftrightarrow> z = 0"
    using z by (auto simp: PAL_ZERO_def PAL_ASSERT_def PAL_USER_def)
  show thesis
    using wf one_neq_zero f(1)
  proof (cases rule: palloc_get_multiple_cases)
    case none
    obtain j where "j \<in> free_pool (user_pool (mem s))" using fr by blast
    then show thesis using none(2) spec[of "\<lambda>k. \<not> {k..<k + unat (1 :: u32)} \<subseteq> free_pool (user_pool (mem s))" j]
      by (auto simp: f(2) pool_of_def PAL_USER_def)
  next
    case (some a m r)
    let ?m = "(set_pool True ((pool_of True (mem s))\<lparr>used_map := m\<rparr>) (mem s))\<lparr>ram := r\<rparr>"
    have rg: "region (pg_no a) 1 = {unat (pg_no a)}" by (auto simp: region_def)
    have in_f: "unat (pg_no a) \<in> free_pool (user_pool (mem s))" using some(6) f(2) unfolding rg by (simp add: pool_of_def)
    have "pool_pages (kernel_pool (mem s)) \<inter> pool_pages (user_pool (mem s)) = {}" using wf by (simp add: kmem_wf_def)
    then have dis: "unat (pg_no a) \<notin> free_pool (kernel_pool (mem s))"
      using in_f free_pool_subset[of "kernel_pool (mem s)"] free_pool_subset[of "user_pool (mem s)"] by blast
    have fu: "free_pool (user_pool ?m) = free_pool (user_pool (mem s)) - {unat (pg_no a)}"
      using some(7) f(2) unfolding rg by (simp add: set_pool_def pool_of_def)
    show thesis
    proof (rule that[of a ?m])
      show "palloc_get_page (PAL_USER OR z) (mem s) = Some (a, ?m)" using some(1) f(2) by (simp add: palloc_get_page_def)
      show "is_kpage a" using some(4,5) by (simp add: is_kpage_def)
      show "kmem_wf ?m" using kmem_wf_set_map[OF wf, of m True] some(8,9) f(2) by simp
      show "unat (pg_no a) \<in> free_pool (user_pool (mem s))" by (rule in_f)
      show "free_pool (user_pool ?m) = free_pool (user_pool (mem s)) - {unat (pg_no a)}" by (rule fu)
      show "pool_pages (user_pool ?m) = pool_pages (user_pool (mem s))"
        using some(9) f(2) by (simp add: pool_pages_def set_pool_def pool_of_def)
      show "kernel_pool ?m = kernel_pool (mem s)" by (simp add: set_pool_def)
      show "free_pages (s\<lparr>mem := ?m\<rparr>) = free_pages s - {unat (pg_no a)}"
        using fu dis by (auto simp: free_pages_def set_pool_def)
      show "ram ?m = (if z = 0 then ram (mem s) else memset a 0 PGSIZE (ram (mem s)))" using some(2) f(3) by simp
    qed
  qed
qed

lemma vm_get_frame_free:
  assumes wf: "vm_wf s" and z: "z = 0 \<or> z = PAL_ZERO" and fr: "free_frames s \<noteq> {}" and fok: "frames_ok s"
    and ml: "mallocs s = (addr, junk) # ms" "addr \<noteq> 0"
  obtains k m e where "vm_get_frame (PAL_USER OR z) s =
      Some (k, s\<lparr>vm_mmu := (vm_mmu s)\<lparr>mem := m\<rparr>, mallocs := ms, frame_table := frame_table s @ [e]\<rparr>)"
    "frame_ptr e = k" "e \<notin> set (frame_table s)" "\<forall>x \<in> set (frame_table s). frame_ptr x \<noteq> k"
    "is_kpage k" "unat (pg_no k) \<in> free_frames s" "free_pool (user_pool m) = free_frames s - {unat (pg_no k)}"
    "pool_pages (user_pool m) = pool_pages (user_pool (mem (vm_mmu s)))" "kernel_pool m = kernel_pool (mem (vm_mmu s))"
    "page_step (cur_pagedir s) k (vm_mmu s) ((vm_mmu s)\<lparr>mem := m\<rparr>)" "data_page ((vm_mmu s)\<lparr>mem := m\<rparr>) (cur_pagedir s) k"
    "ram m = (if z = 0 then vm_ram s else memset k 0 PGSIZE (vm_ram s))"
proof -
  have kw: "kmem_wf (mem (vm_mmu s))" using wf by (simp add: pagedir_wf_def)
  from get_user_page[OF kw z fr] obtain k m where g: "palloc_get_page (PAL_USER OR z) (mem (vm_mmu s)) = Some (k, m)"
    "is_kpage k" "kmem_wf m" "unat (pg_no k) \<in> free_frames s" "free_pool (user_pool m) = free_frames s - {unat (pg_no k)}"
    "pool_pages (user_pool m) = pool_pages (user_pool (mem (vm_mmu s)))" "kernel_pool m = kernel_pool (mem (vm_mmu s))"
    "free_pages ((vm_mmu s)\<lparr>mem := m\<rparr>) = free_pages (vm_mmu s) - {unat (pg_no k)}"
    "ram m = (if z = 0 then ram (mem (vm_mmu s)) else memset k 0 PGSIZE (ram (mem (vm_mmu s))))" by metis
  let ?e = "\<lparr>fte_addr = addr, frame_ptr = k, page_ptr = junk, owner_thread_tid = cur_tid s\<rparr>"
  have fresh: "\<forall>x \<in> set (frame_table s). frame_ptr x \<noteq> k" using fok g(4) by (auto simp: frames_ok_def)
  have "(PAL_USER OR z) AND PAL_USER \<noteq> 0" using z by (auto simp: PAL_USER_def PAL_ZERO_def)
  then have run: "vm_get_frame (PAL_USER OR z) s =
      Some (k, s\<lparr>vm_mmu := (vm_mmu s)\<lparr>mem := m\<rparr>, mallocs := ms, frame_table := frame_table s @ [?e]\<rparr>)"
    using g(1) kpage_nonzero[OF g(2)] ml by (simp add: vm_get_frame_def add_frame_table_entry_def vm_malloc_def)
  have in_f: "unat (pg_no k) \<in> free_pages (vm_mmu s)" using g(4) by (simp add: free_pages_def)
  have "\<forall>x. pg_no x \<noteq> pg_no k \<longrightarrow> ram (mem ((vm_mmu s)\<lparr>mem := m\<rparr>)) x = ram (mem (vm_mmu s)) x"
    using page_distance[OF g(2)] by (simp add: g(9) memset_def)
  note tp = take_page[OF wf g(2) in_f _ g(8) this]
  show thesis
    by (rule that[OF run _ _ fresh g(2,4-7)]) (use tp g(3,9) fresh in \<open>auto simp: vm_ram_def\<close>)
qed


text \<open>Giving back the frame that was added last.\<close>

lemma vm_free_frame_last:
  assumes wf: "vm_wf s" and k: "data_page (vm_mmu s) (cur_pagedir s) k"
    and ft: "frame_table s = ft @ [e]" "frame_ptr e = k" "e \<notin> set ft" "\<forall>x \<in> set ft. frame_ptr x \<noteq> k"
    and pool: "unat (pg_no k) \<in> pool_pages (user_pool (mem (vm_mmu s)))"
  obtains m where "vm_free_frame k s = Some (s\<lparr>frame_table := ft, vm_mmu := (vm_mmu s)\<lparr>mem := m\<rparr>\<rparr>)"
    "page_step (cur_pagedir s) k (vm_mmu s) ((vm_mmu s)\<lparr>mem := m\<rparr>)"
    "free_pool (user_pool m) = free_frames s \<union> {unat (pg_no k)}"
    "pool_pages (user_pool m) = pool_pages (user_pool (mem (vm_mmu s)))"
proof -
  let ?M = "mem (vm_mmu s)"
  have kk: "is_kpage k" "unat (pg_no k) \<notin> free_pages (vm_mmu s)" using k by (simp_all add: data_page_def in_use_def)
  have kw: "kmem_wf ?M" using wf by (simp add: pagedir_wf_def)
  have rg: "region (pg_no k) 1 = {unat (pg_no k)}" by (auto simp: region_def)
  have pre: "pg_ofs k = 0" "region (pg_no k) 1 \<subseteq> pool_pages (pool_of True ?M)" "region (pg_no k) 1 \<inter> free_pool (pool_of True ?M) = {}"
    using kk pool unfolding rg by (simp_all add: is_kpage_def pool_of_def free_pages_def)
  from palloc_free_multiple_spec[OF kw one_neq_zero pre] obtain u where u:
    "palloc_free_page k ?M = Some ((set_pool True ((pool_of True ?M)\<lparr>used_map := u\<rparr>) ?M)\<lparr>ram := memset k 0xcc PGSIZE (ram ?M)\<rparr>)"
    "bitmap_wf u" "bit_cnt u = bit_cnt (used_map (pool_of True ?M))"
    "free_pool ((pool_of True ?M)\<lparr>used_map := u\<rparr>) = free_pool (pool_of True ?M) \<union> {unat (pg_no k)}"
    unfolding rg by (auto simp: palloc_free_page_def)
  let ?m = "(set_pool True ((pool_of True ?M)\<lparr>used_map := u\<rparr>) ?M)\<lparr>ram := memset k 0xcc PGSIZE (ram ?M)\<rparr>"
  have kw': "kmem_wf ?m" using kmem_wf_set_map[OF kw u(2,3)] by simp
  have fu: "free_pool (user_pool ?m) = free_frames s \<union> {unat (pg_no k)}"
    using u(4) by (simp add: set_pool_def pool_of_def)
  then have "free_pages ((vm_mmu s)\<lparr>mem := ?m\<rparr>) = free_pages (vm_mmu s) \<union> {unat (pg_no k)}"
    by (auto simp: free_pages_def set_pool_def)
  moreover have "\<forall>x. pg_no x \<noteq> pg_no k \<longrightarrow> ram (mem ((vm_mmu s)\<lparr>mem := ?m\<rparr>)) x = ram ?M x"
    using page_distance[OF kk(1)] by (simp add: memset_def)
  ultimately have keep: "page_step (cur_pagedir s) k (vm_mmu s) ((vm_mmu s)\<lparr>mem := ?m\<rparr>)"
    using give_page[OF wf k, of "(vm_mmu s)\<lparr>mem := ?m\<rparr>"] kw' by simp
  have "find (\<lambda>e. frame_ptr e = k) ft = None" using ft(4) by (auto simp: find_None_iff)
  then have "find (\<lambda>e. frame_ptr e = k) (frame_table s) = Some e" using ft(2) by (simp add: ft(1) find_append)
  moreover have "remove1 e (ft @ [e]) = ft" using ft(3) by (simp add: remove1_append)
  ultimately have "vm_free_frame k s = Some (s\<lparr>frame_table := ft, vm_mmu := (vm_mmu s)\<lparr>mem := ?m\<rparr>\<rparr>)"
    using u(1) by (simp add: vm_free_frame_def ft(1))
  then show thesis using that keep fu u(3) by (simp add: pool_pages_def set_pool_def pool_of_def)
qed

end
