(* ===== verification/Vm_Load.thy ===== *)
theory Vm_Load
  imports Vm_Frames
begin

section \<open>Loading pages\<close>

text \<open>
  Lemmas on the functions of src/pintos/src/vm/page.c that bring a page of a process into memory. A process
  sees its memory through its page directory (\<open>user_byte\<close>). The invariant \<open>vm_ok\<close> says that its
  directory is well formed, that every mapped user page lies in a page of data, that the frame table lists
  user pages in use, and that the file system is well formed.
\<close>

unbundle bit_operations_syntax

subsection \<open>The memory of a process\<close>

text \<open>The byte that a user program reads at an address.\<close>

definition user_byte :: "vm \<Rightarrow> u32 \<Rightarrow> u8 option" where
  "user_byte s va = do {
     p \<leftarrow> pagedir_get_page (cur_pagedir s) va (vm_mmu s);
     if p = 0 then None else Some (vm_ram s p)
   }"

text \<open>Every page that is mapped is a page of data.\<close>

definition space_ok :: "vm \<Rightarrow> bool" where
  "space_ok s \<longleftrightarrow> (\<forall>va e. is_user_vaddr va \<and> vm_mapped s va = Some e \<longrightarrow>
     (\<exists>k. pte_get_page e = Some k \<and> data_page (vm_mmu s) (cur_pagedir s) k))"

definition vm_ok :: "vm \<Rightarrow> bool" where
  "vm_ok s \<longleftrightarrow> vm_wf s \<and> space_ok s \<and> frames_ok s \<and> fs_inv {} (vm_fs s) \<and> counts_ok (vm_fs s) \<and>
     cur_pagedir s \<noteq> init_page_dir (vm_mmu s) \<and>
     (\<forall>p \<in> pool_pages (user_pool (mem (vm_mmu s))). p - unat (pg_no PHYS_BASE) < unat (init_ram_pages (vm_mmu s)))"

definition can_get_frame :: "vm \<Rightarrow> bool" where
  "can_get_frame s \<longleftrightarrow> free_frames s \<noteq> {} \<and> (case mallocs s of [] \<Rightarrow> False | (a, _) # _ \<Rightarrow> a \<noteq> 0)"

text \<open>The state \<open>s'\<close> after the frame \<open>k\<close> was taken in the state \<open>s\<close> and possibly filled.\<close>

definition got_frame :: "vm \<Rightarrow> u32 \<Rightarrow> frame_table_entry \<Rightarrow> vm \<Rightarrow> bool" where
  "got_frame s k e s' \<longleftrightarrow> page_step (cur_pagedir s) k (vm_mmu s) (vm_mmu s') \<and> data_page (vm_mmu s') (cur_pagedir s) k \<and>
     unat (pg_no k) \<in> free_frames s \<and> cur_pagedir s' = cur_pagedir s \<and>
     frame_table s' = frame_table s @ [e] \<and> frame_ptr e = k \<and> e \<notin> set (frame_table s) \<and> (\<forall>x \<in> set (frame_table s). frame_ptr x \<noteq> k) \<and>
     free_frames s' = free_frames s - {unat (pg_no k)} \<and>
     pool_pages (user_pool (mem (vm_mmu s'))) = pool_pages (user_pool (mem (vm_mmu s))) \<and>
     kernel_pool (mem (vm_mmu s')) = kernel_pool (mem (vm_mmu s)) \<and> fs_inv {} (vm_fs s') \<and> counts_ok (vm_fs s')"

lemma space_okD:
  assumes "space_ok s" "is_user_vaddr va" "vm_mapped s va = Some e"
  obtains k where "pte_get_page e = Some k" "data_page (vm_mmu s) (cur_pagedir s) k" "is_kpage k"
  using assms that unfolding space_ok_def data_page_def in_use_def by blast

lemma kpage_offset:
  assumes "is_kpage k"
  shows "pg_no (k + pg_ofs va) = pg_no k" "k + pg_ofs va \<noteq> 0"
proof -
  have "pg_ofs va < PGSIZE" by (simp add: word_less_nat_alt unat_pg_ofs unat_PGSIZE)
  then show pg: "pg_no (k + pg_ofs va) = pg_no k" using page_distance[OF assms, of "k + pg_ofs va"] by simp
  show "k + pg_ofs va \<noteq> 0"
  proof
    assume "k + pg_ofs va = 0"
    then have "pg_no k = 0" using pg by (simp add: pg_no_def)
    then have "unat k = 0" using kpage_unat[OF assms] by simp
    then show False using kpage_nonzero[OF assms] by (simp add: unat_eq_0)
  qed
qed

lemma user_byte_mapped:
  assumes "vm_wf s" "space_ok s" "is_user_vaddr va"
  shows "user_byte s va = (case vm_mapped s va of None \<Rightarrow> None | Some e \<Rightarrow> Some (vm_ram s (the (pte_get_page e) + pg_ofs va)))"
proof (cases "vm_mapped s va")
  case None
  then show ?thesis using pagedir_get_page_mapped[OF assms(1,3)] by (simp add: user_byte_def)
next
  case (Some e)
  then obtain k where "pte_get_page e = Some k" "is_kpage k" using space_okD[OF assms(2,3)] by metis
  then show ?thesis
    using Some pagedir_get_page_mapped[OF assms(1,3)] kpage_offset(2) by (simp add: user_byte_def)
qed

text \<open>A step that touches only the page \<open>k\<close>, which was free before, changes nothing for the process.\<close>

lemma page_step_user_bytes:
  assumes wf: "vm_wf s" and sp: "space_ok s" and kp: "page_step (cur_pagedir s) k (vm_mmu s) (vm_mmu s')"
    and pd: "cur_pagedir s' = cur_pagedir s" and k: "unat (pg_no k) \<in> free_pages (vm_mmu s)"
  shows "vm_wf s'" "space_ok s'" "is_user_vaddr va \<Longrightarrow> user_byte s' va = user_byte s va"
proof -
  have fresh: "q \<noteq> k" if "data_page (vm_mmu s) (cur_pagedir s) q" for q
    using that k by (auto simp: data_page_def in_use_def)
  show wf': "vm_wf s'" using kp pd by (simp add: page_step_def)
  have mp: "vm_mapped s' va = vm_mapped s va" if "is_user_vaddr va" for va using kp that pd by (simp add: page_step_def)
  show sp': "space_ok s'"
    unfolding space_ok_def
  proof (intro allI impI)
    fix va e assume a: "is_user_vaddr va \<and> vm_mapped s' va = Some e"
    then obtain q where "pte_get_page e = Some q" "data_page (vm_mmu s) (cur_pagedir s) q"
      using space_okD[OF sp] mp by metis
    then show "\<exists>q. pte_get_page e = Some q \<and> data_page (vm_mmu s') (cur_pagedir s') q"
      using kp fresh pd by (auto simp: page_step_def)
  qed
  assume u: "is_user_vaddr va"
  show "user_byte s' va = user_byte s va"
  proof (cases "vm_mapped s va")
    case None
    then show ?thesis using user_byte_mapped[OF wf sp u] user_byte_mapped[OF wf' sp' u] mp[OF u] by simp
  next
    case (Some e)
    then obtain q where q: "pte_get_page e = Some q" "data_page (vm_mmu s) (cur_pagedir s) q" "is_kpage q"
      using space_okD[OF sp u] by metis
    then have "pg_no (q + pg_ofs va) = pg_no q" by (intro kpage_offset)
    then have "vm_ram s' (q + pg_ofs va) = vm_ram s (q + pg_ofs va)"
      using kp q(2) fresh[OF q(2)] unfolding page_step_def vm_ram_def by blast
    then show ?thesis using user_byte_mapped[OF wf sp u] user_byte_mapped[OF wf' sp' u] mp[OF u] Some q(1) by simp
  qed
qed

text \<open>Mapping a page of data at an unmapped address.\<close>

lemma map_page_bytes:
  assumes wf: "vm_wf s" and sp: "space_ok s" and up: "is_user_vaddr upage" "pg_ofs upage = 0" and k: "data_page (vm_mmu s) (cur_pagedir s) k"
    and lim: "drop_bit 12 (k - PHYS_BASE) < init_ram_pages (vm_mmu s)" and pd: "cur_pagedir s \<noteq> init_page_dir (vm_mmu s)"
    and free: "vm_mapped s upage = None"
  shows "map_page upage k w s = Some (False, s) \<and> no_table (vm_mmu s) (cur_pagedir s) upage \<or>
    (\<exists>m. map_page upage k w s = Some (True, s\<lparr>vm_mmu := m\<rparr>) \<and> \<not> no_table (vm_mmu s) (cur_pagedir s) upage \<and> vm_wf (s\<lparr>vm_mmu := m\<rparr>) \<and> space_ok (s\<lparr>vm_mmu := m\<rparr>) \<and>
       user_pool (mem m) = user_pool (mem (vm_mmu s)) \<and> data_page m (cur_pagedir s) k \<and>
       init_page_dir m = init_page_dir (vm_mmu s) \<and> init_ram_pages m = init_ram_pages (vm_mmu s) \<and>
       (\<exists>e. pte_get_page e = Some k \<and>
          (\<forall>va. is_user_vaddr va \<longrightarrow> mapped m (cur_pagedir s) va = (if pg_no va = pg_no upage then Some e else vm_mapped s va))) \<and>
       (\<forall>va. is_user_vaddr va \<longrightarrow> user_byte (s\<lparr>vm_mmu := m\<rparr>) va =
          (if pg_no va = pg_no upage then Some (vm_ram s (k + pg_ofs va)) else user_byte s va)))"
proof -
  let ?pd = "cur_pagedir s"
  have kk: "is_kpage k" using k by (simp add: data_page_def in_use_def)
  obtain e where e: "pte_create_user k w = Some e" "e AND PTE_P \<noteq> 0" "pte_get_page e = Some k"
    using pte_create_user_entry[OF kk] by metis
  from pagedir_set_page_mapped[OF wf up kk lim pd free e(1,2)] show ?thesis
  proof
    assume a: "pagedir_set_page ?pd upage k w (vm_mmu s) = Some (False, vm_mmu s)"
    then show ?thesis using pagedir_set_page_fails[OF wf up(1) a] by (simp add: map_page_def)
  next
    assume "\<exists>m. pagedir_set_page ?pd upage k w (vm_mmu s) = Some (True, m) \<and> pagedir_wf m ?pd \<and>
       (\<forall>va. is_user_vaddr va \<longrightarrow> mapped m ?pd va = (if pg_no va = pg_no upage then Some e else vm_mapped s va))"
    then obtain m where m: "pagedir_set_page ?pd upage k w (vm_mmu s) = Some (True, m)" "pagedir_wf m ?pd"
      "\<And>va. is_user_vaddr va \<Longrightarrow> mapped m ?pd va = (if pg_no va = pg_no upage then Some e else vm_mapped s va)" by blast
    let ?s = "s\<lparr>vm_mmu := m\<rparr>"
    note fr = pagedir_set_page_frame[OF wf up(1) m(1)]
    have wf': "vm_wf ?s" using m(2) by simp
    have sp': "space_ok ?s"
      unfolding space_ok_def
    proof (intro allI impI)
      fix va e' assume a: "is_user_vaddr va \<and> vm_mapped ?s va = Some e'"
      show "\<exists>q. pte_get_page e' = Some q \<and> data_page (vm_mmu ?s) (cur_pagedir ?s) q"
      proof (cases "pg_no va = pg_no upage")
        case True
        then show ?thesis using a m(3)[of va] e(3) fr[OF k] by auto
      next
        case False
        then obtain q where "pte_get_page e' = Some q" "data_page (vm_mmu s) ?pd q"
          using a m(3)[of va] space_okD[OF sp, of va e'] by auto
        then show ?thesis using fr by auto
      qed
    qed
    have "user_byte ?s va = (if pg_no va = pg_no upage then Some (vm_ram s (k + pg_ofs va)) else user_byte s va)"
      if u: "is_user_vaddr va" for va
    proof (cases "pg_no va = pg_no upage")
      case True
      then show ?thesis
        using user_byte_mapped[OF wf' sp' u] m(3)[OF u] e(3) fr[OF k] kpage_offset(1)[OF kk, of va] by (simp add: vm_ram_def)
    next
      case False
      have "vm_ram ?s (the (pte_get_page e') + pg_ofs va) = vm_ram s (the (pte_get_page e') + pg_ofs va)"
        if e': "vm_mapped s va = Some e'" for e'
      proof -
        obtain q where "pte_get_page e' = Some q" "data_page (vm_mmu s) ?pd q" "is_kpage q" using space_okD[OF sp u e'] .
        then show ?thesis using fr kpage_offset(1)[of q va] by (simp add: vm_ram_def)
      qed
      then show ?thesis
        using user_byte_mapped[OF wf' sp' u] user_byte_mapped[OF wf sp u] m(3)[OF u] False
        by (cases "vm_mapped s va") auto
    qed
    moreover have "\<exists>e. pte_get_page e = Some k \<and>
        (\<forall>va. is_user_vaddr va \<longrightarrow> mapped m ?pd va = (if pg_no va = pg_no upage then Some e else vm_mapped s va))"
      using e(3) m(3) by blast
    ultimately show ?thesis
      using m(1) wf' sp' fr[OF k] pagedir_set_page_fails[OF wf up(1) m(1)] by (intro disjI2 exI[of _ m]) (simp add: map_page_def)
  qed
qed


subsection \<open>Loading a page from a file\<close>

text \<open>What \<open>load_file_page\<close> and \<open>load_page_mmf\<close> have in common.\<close>

definition load_from_file :: "obj \<Rightarrow> int \<Rightarrow> u32 \<Rightarrow> u32 \<Rightarrow> u32 \<Rightarrow> bool \<Rightarrow> (sup_page_entry \<Rightarrow> sup_page_entry) \<Rightarrow> vm \<Rightarrow> (bool \<times> vm) option" where
  "load_from_file f ofs n z va w upd s = do {
     s \<leftarrow> seek_in f ofs s;
     (page, s) \<leftarrow> vm_get_frame PAL_USER s;
     if page = 0 then Some (False, s)
     else do {
       (r, s) \<leftarrow> read_into f page n s;
       if r \<noteq> sint n then do { s \<leftarrow> vm_free_frame page s; Some (False, s) }
       else do {
         let s = set_vm_ram (memset (page + n) 0 z (vm_ram s)) s;
         (ok, s) \<leftarrow> map_page va page w s;
         if \<not> ok then do { s \<leftarrow> vm_free_frame page s; Some (False, s) }
         else Some (True, set_spe va upd s)
       }
     }
   }"

lemma load_file_page_eq:
  "load_file_page spe = load_from_file (spe_file spe) (spe_offset spe) (spe_read_bytes spe) (spe_zero_bytes spe) (user_vaddr spe)
     (spe_writable spe) (\<lambda>e. e\<lparr>loaded := True\<rparr>)"
  by (simp add: load_file_page_def load_from_file_def fun_eq_iff)

lemma load_page_mmf_eq:
  "load_page_mmf spe = load_from_file (spe_file spe) (spe_offset spe) (spe_read_bytes spe) (PGSIZE - spe_read_bytes spe) (user_vaddr spe)
     True (\<lambda>e. e\<lparr>loaded := True, spe_type := (if spe_type e AND SPE_SWAP \<noteq> 0 then SPE_MMF else spe_type e)\<rparr>)"
  by (simp add: load_page_mmf_def load_from_file_def fun_eq_iff)

lemma fill_page:
  fixes n z :: u32 and m :: ram
  assumes k: "is_kpage k" and n: "length bs = unat n" "unat n + unat z = 4096"
  defines "m' \<equiv> memset (k + n) 0 z (write_bytes k bs m)"
  shows "\<forall>x. pg_no x \<noteq> pg_no k \<longrightarrow> m' x = m x"
    and "m' (k + pg_ofs va) = (if unat (pg_ofs va) < unat n then bs ! unat (pg_ofs va) else 0)"
proof -
  have sub: "x - (k + n) = (x - k) - n" for x by simp
  have lt: "unat (d - n) < unat z \<longleftrightarrow> unat n \<le> unat d \<and> unat d < 4096" for d
  proof -
    consider "unat n \<le> unat d" "unat (d - n) = unat d - unat n" | "\<not> unat n \<le> unat d" "unat (d - n) = unat d + 4294967296 - unat n"
      by (cases "unat n \<le> unat d") (simp_all add: unat_sub_if' word_le_nat_alt)
    then show ?thesis
    proof cases
      case 1
      then show ?thesis using n(2) by auto
    next
      case 2
      then have "\<not> unat (d - n) < unat z" using n(2) by linarith
      with 2(1) show ?thesis by blast
    qed
  qed
  have m': "m' x = (if unat n \<le> unat (x - k) \<and> unat (x - k) < 4096 then 0
      else if unat (x - k) < unat n then bs ! unat (x - k) else m x)" for x
    using lt[of "x - k"] by (simp add: m'_def memset_def write_bytes_def n(1) word_less_nat_alt sub)
  show "\<forall>x. pg_no x \<noteq> pg_no k \<longrightarrow> m' x = m x"
  proof (intro allI impI)
    fix x assume "pg_no x \<noteq> pg_no k"
    then have "\<not> unat (x - k) < 4096" using page_distance[OF k, of x] by (simp add: word_less_nat_alt unat_PGSIZE)
    moreover from this have "\<not> unat (x - k) < unat n" using n(2) by linarith
    ultimately show "m' x = m x" by (simp only: m' if_False simp_thms)
  qed
  have "unat (pg_ofs va) < 4096" by (simp add: unat_pg_ofs)
  then show "m' (k + pg_ofs va) = (if unat (pg_ofs va) < unat n then bs ! unat (pg_ofs va) else 0)"
    by (simp add: m')
qed


lemma load_prepare:
  assumes ok: "vm_ok s" and get: "can_get_frame s"
    and f: "files (vm_fs s) f = Some fl" "inodes (vm_fs s) (f_inode fl) = Some i"
    and ofs: "0 \<le> ofs" "ofs + int (unat n) \<le> inode_length i" and n: "unat n + unat z = 4096"
  obtains k s' e where "load_from_file f ofs n z va w upd s =
      do { (ok, s) \<leftarrow> map_page va k w s';
           if \<not> ok then do { s \<leftarrow> vm_free_frame k s; Some (False, s) } else Some (True, set_spe va upd s) }"
    "got_frame s k e s'" "\<forall>va. vm_ram s' (k + pg_ofs va) =
       (if unat (pg_ofs va) < unat n then inode_bytes (fs_device (vm_fs s)) i ! (nat ofs + unat (pg_ofs va)) else 0)"
    "suppl_page_table s' = suppl_page_table s"
proof -
  have wf: "vm_wf s" and fok: "frames_ok s" and fsi: "fs_inv {} (vm_fs s)" and co: "counts_ok (vm_fs s)" using ok by (simp_all add: vm_ok_def)
  obtain addr junk ms where ml: "mallocs s = (addr, junk) # ms" "addr \<noteq> 0" and fr: "free_frames s \<noteq> {}"
    using get by (auto simp: can_get_frame_def split: list.splits)
  have "inode_length i \<le> 2147483136" using fs_invD(5)[OF fsi f(2)] by (simp add: inode_ok_def)
  then have lim: "ofs < 2147483648" using ofs(2) by linarith
  obtain t1 where t1: "file_seek f ofs (vm_fs s) = Some t1" "fs_inv {} t1" "counts_ok t1"
    "files t1 f = Some (fl\<lparr>f_pos := ofs\<rparr>)" "inodes t1 = inodes (vm_fs s)" "fs_device t1 = fs_device (vm_fs s)"
    using file_seek_ok[OF fsi co f(1) ofs(1) lim] by auto
  let ?s1 = "s\<lparr>vm_fs := t1\<rparr>"
  have z0: "PAL_USER OR 0 = PAL_USER" by simp
  have pre: "vm_wf ?s1" "free_frames ?s1 \<noteq> {}" "frames_ok ?s1" "mallocs ?s1 = (addr, junk) # ms"
    using wf fr fok ml(1) frames_ok_cong[of ?s1 s] by simp_all
  obtain k M e where g: "vm_get_frame (PAL_USER OR 0) ?s1 =
      Some (k, ?s1\<lparr>vm_mmu := (vm_mmu ?s1)\<lparr>mem := M\<rparr>, mallocs := ms, frame_table := frame_table ?s1 @ [e]\<rparr>)"
    "frame_ptr e = k" "e \<notin> set (frame_table ?s1)" "\<forall>x \<in> set (frame_table ?s1). frame_ptr x \<noteq> k"
    "is_kpage k" "unat (pg_no k) \<in> free_frames ?s1" "free_pool (user_pool M) = free_frames ?s1 - {unat (pg_no k)}"
    "pool_pages (user_pool M) = pool_pages (user_pool (mem (vm_mmu ?s1)))" "kernel_pool M = kernel_pool (mem (vm_mmu ?s1))"
    "page_step (cur_pagedir ?s1) k (vm_mmu ?s1) ((vm_mmu ?s1)\<lparr>mem := M\<rparr>)" "data_page ((vm_mmu ?s1)\<lparr>mem := M\<rparr>) (cur_pagedir ?s1) k"
    by (rule vm_get_frame_free[OF pre(1) disjI1[OF refl] pre(2,3,4) ml(2)])
  let ?s2 = "?s1\<lparr>vm_mmu := (vm_mmu ?s1)\<lparr>mem := M\<rparr>, mallocs := ms, frame_table := frame_table ?s1 @ [e]\<rparr>"
  let ?bs = "take (unat n) (drop (nat ofs) (inode_bytes (fs_device (vm_fs s)) i))"
  have sn: "sint n = int (unat n)" using n by (intro sint_small) simp
  have pos: "f_pos (fl\<lparr>f_pos := ofs\<rparr>) = ofs" "nat (sint n) = unat n" "inodes t1 (f_inode (fl\<lparr>f_pos := ofs\<rparr>)) = Some i"
    using f(2) t1(5) sn by simp_all
  have t2: "\<exists>t2. file_read f (sint n) t1 = Some (?bs, t2) \<and> fs_inv {} t2 \<and> counts_ok t2"
    using file_read_ok[OF t1(2,3,4) pos(3), of "sint n"] unfolding pos(1,2) t1(6) by blast
  obtain t2 where t2: "file_read f (sint n) t1 = Some (?bs, t2)" "fs_inv {} t2" "counts_ok t2"
    using t2 by blast
  have fits: "nat ofs + unat n \<le> nat (inode_length i)" using ofs by linarith
  then have len: "length ?bs = unat n" by simp
  let ?m = "memset (k + n) 0 z (write_bytes k ?bs (ram M))"
  let ?s4 = "?s2\<lparr>vm_fs := t2, vm_mmu := set_ram ?m ((vm_mmu s)\<lparr>mem := M\<rparr>)\<rparr>"
  note fill = fill_page[OF g(5) len n, of "ram M"]
  have wf2: "pagedir_wf ((vm_mmu s)\<lparr>mem := M\<rparr>) (cur_pagedir s)" using g(10) by (simp add: page_step_def)
  have dp: "data_page ((vm_mmu s)\<lparr>mem := M\<rparr>) (cur_pagedir s) k" using g(11) by simp
  have out: "\<forall>x. pg_no x \<noteq> pg_no k \<longrightarrow> ?m x = ram (mem ((vm_mmu s)\<lparr>mem := M\<rparr>)) x" using fill(1) by simp
  note wp = write_page[OF wf2 dp out]
  have run: "load_from_file f ofs n z va w upd s =
      do { (ok, s) \<leftarrow> map_page va k w ?s4;
           if \<not> ok then do { s \<leftarrow> vm_free_frame k s; Some (False, s) } else Some (True, set_spe va upd s) }"
    using t1(1) g(1)[unfolded z0] t2(1) len kpage_nonzero[OF g(5)]
    by (simp add: load_from_file_def seek_in_def read_into_def sn set_vm_ram_def vm_ram_def set_ram_def)
  have kp: "page_step (cur_pagedir s) k (vm_mmu s) (vm_mmu ?s4)" using page_step_trans[OF _ wp(1)] g(10) by simp
  have bytes: "\<forall>va. vm_ram ?s4 (k + pg_ofs va) =
       (if unat (pg_ofs va) < unat n then inode_bytes (fs_device (vm_fs s)) i ! (nat ofs + unat (pg_ofs va)) else 0)"
    using fill(2) fits by (simp add: vm_ram_def set_ram_def)
  have "got_frame s k e ?s4" using kp g(2-9) wp(2) t2 by (simp add: got_frame_def set_ram_def)
  then show thesis by (rule that[OF run _ bytes]) simp
qed

lemma frame_in_ram:
  assumes ok: "vm_ok s" and k: "is_kpage k" "unat (pg_no k) \<in> pool_pages (user_pool (mem (vm_mmu s)))"
  shows "drop_bit 12 (k - PHYS_BASE) < init_ram_pages (vm_mmu s)"
proof -
  have P: "unat k = unat (pg_no k) * 4096" by (rule kpage_unat[OF k(1)])
  have ge: "PHYS_BASE \<le> k" using k(1) by (simp add: is_kpage_def is_kernel_vaddr_def)
  have base: "unat PHYS_BASE = 786432 * 4096" "unat (pg_no PHYS_BASE) = 786432" by (simp_all add: PHYS_BASE_def unat_pg_no)
  have "unat (k - PHYS_BASE) = (unat (pg_no k) - 786432) * 4096"
    using unat_sub[OF ge] base(1) P by (simp add: diff_mult_distrib)
  then have "unat (drop_bit 12 (k - PHYS_BASE)) = unat (pg_no k) - 786432" by (simp add: drop_bit_eq_div unat_div)
  moreover have "unat (pg_no k) - unat (pg_no PHYS_BASE) < unat (init_ram_pages (vm_mmu s))" using ok k(2) by (simp add: vm_ok_def)
  ultimately show ?thesis by (simp add: word_less_nat_alt base(2))
qed

lemma set_spe_simps [simp]:
  "vm_mmu (set_spe va f s) = vm_mmu s" "cur_pagedir (set_spe va f s) = cur_pagedir s" "vm_fs (set_spe va f s) = vm_fs s"
  "frame_table (set_spe va f s) = frame_table s" "user_byte (set_spe va f s) va' = user_byte s va'"
  "space_ok (set_spe va f s) = space_ok s" "frames_ok (set_spe va f s) = frames_ok s" "vm_ok (set_spe va f s) = vm_ok s"
  by (simp_all add: set_spe_def user_byte_def vm_ram_def space_ok_def frames_ok_def vm_ok_def cong: if_cong)

lemma frames_ok_add:
  assumes "frames_ok s" "frame_table s' = frame_table s @ [e]" "frame_ptr e = k" "\<forall>x \<in> set (frame_table s). frame_ptr x \<noteq> k" "is_kpage k"
    "unat (pg_no k) \<in> free_frames s" "free_frames s' = free_frames s - {unat (pg_no k)}"
    "pool_pages (user_pool (mem (vm_mmu s'))) = pool_pages (user_pool (mem (vm_mmu s)))"
  shows "frames_ok s'"
proof -
  have "unat (pg_no k) \<in> pool_pages (user_pool (mem (vm_mmu s)))" using assms(6) free_pool_subset by blast
  then show ?thesis using assms unfolding frames_ok_def by auto
qed

text \<open>Mapping a frame that was just taken: it succeeds, or the frame is given back and all is as before.\<close>

lemma map_or_free:
  assumes ok: "vm_ok s" and got: "got_frame s k e s'" and up: "is_user_vaddr upage" "pg_ofs upage = 0" "vm_mapped s upage = None"
  obtains (failed) t where "no_table (vm_mmu s) (cur_pagedir s) upage" "map_page upage k w s' = Some (False, s')"
      "vm_free_frame k s' = Some t" "vm_ok t" "frame_table t = frame_table s" "free_frames t = free_frames s"
      "\<forall>va. is_user_vaddr va \<longrightarrow> user_byte t va = user_byte s va"
  | (success) m pte where "\<not> no_table (vm_mmu s) (cur_pagedir s) upage" "map_page upage k w s' = Some (True, s'\<lparr>vm_mmu := m\<rparr>)"
      "vm_ok (s'\<lparr>vm_mmu := m\<rparr>)" "data_page m (cur_pagedir s) k" "pte_get_page pte = Some k"
      "\<forall>va. is_user_vaddr va \<longrightarrow> mapped m (cur_pagedir s) va = (if pg_no va = pg_no upage then Some pte else vm_mapped s va)"
      "\<forall>va. is_user_vaddr va \<longrightarrow> user_byte (s'\<lparr>vm_mmu := m\<rparr>) va =
         (if pg_no va = pg_no upage then Some (vm_ram s' (k + pg_ofs va)) else user_byte s va)"
proof -
  have wf: "vm_wf s" and sp: "space_ok s" and fok: "frames_ok s" using ok by (simp_all add: vm_ok_def)
  note p = got[unfolded got_frame_def]
  have st: "page_step (cur_pagedir s) k (vm_mmu s) (vm_mmu s')" and pd: "cur_pagedir s' = cur_pagedir s"
    and dp: "data_page (vm_mmu s') (cur_pagedir s') k" and inf: "unat (pg_no k) \<in> free_frames s"
    and ft: "frame_table s' = frame_table s @ [e]" "frame_ptr e = k" "e \<notin> set (frame_table s)" "\<forall>x \<in> set (frame_table s). frame_ptr x \<noteq> k"
    and fr: "free_frames s' = free_frames s - {unat (pg_no k)}"
      "pool_pages (user_pool (mem (vm_mmu s'))) = pool_pages (user_pool (mem (vm_mmu s)))"
    using p by simp_all
  have kk: "is_kpage k" using dp by (simp add: data_page_def in_use_def)
  have inpool: "unat (pg_no k) \<in> pool_pages (user_pool (mem (vm_mmu s)))" using inf free_pool_subset by blast
  have fresh: "unat (pg_no k) \<in> free_pages (vm_mmu s)" using inf by (simp add: free_pages_def)
  note ub = page_step_user_bytes[OF wf sp st pd fresh]
  have regs: "init_page_dir (vm_mmu s') = init_page_dir (vm_mmu s)" "init_ram_pages (vm_mmu s') = init_ram_pages (vm_mmu s)"
    and mp: "\<forall>va. is_user_vaddr va \<longrightarrow> vm_mapped s' va = vm_mapped s va"
    using st pd by (simp_all add: page_step_def)
  have lim: "drop_bit 12 (k - PHYS_BASE) < init_ram_pages (vm_mmu s')" using frame_in_ram[OF ok kk inpool] regs by simp
  have npd: "cur_pagedir s' \<noteq> init_page_dir (vm_mmu s')" using ok pd regs by (simp add: vm_ok_def)
  have unm: "vm_mapped s' upage = None" using mp up(1,3) by simp
  have fok': "frames_ok s'" by (rule frames_ok_add[OF fok ft(1,2,4) kk inf fr])
  have vok': "vm_ok s'" using ok ub(1,2) fok' p npd regs by (simp add: vm_ok_def)
  have nt: "no_table (vm_mmu s') (cur_pagedir s') upage = no_table (vm_mmu s) (cur_pagedir s) upage"
    using st p pd_no_user[OF up(1)] by (simp add: page_step_def no_table_def)
  from map_page_bytes[OF ub(1,2) up(1,2) dp lim npd unm, of w] show thesis
  proof
    assume a: "map_page upage k w s' = Some (False, s') \<and> no_table (vm_mmu s') (cur_pagedir s') upage"
    have pool': "unat (pg_no k) \<in> pool_pages (user_pool (mem (vm_mmu s')))" using inpool fr by simp
    obtain m where m: "vm_free_frame k s' = Some (s'\<lparr>frame_table := frame_table s, vm_mmu := (vm_mmu s')\<lparr>mem := m\<rparr>\<rparr>)"
      "page_step (cur_pagedir s') k (vm_mmu s') ((vm_mmu s')\<lparr>mem := m\<rparr>)"
      "free_pool (user_pool m) = free_frames s' \<union> {unat (pg_no k)}"
      "pool_pages (user_pool m) = pool_pages (user_pool (mem (vm_mmu s')))"
      by (rule vm_free_frame_last[OF ub(1) dp ft pool'])
    let ?t = "s'\<lparr>frame_table := frame_table s, vm_mmu := (vm_mmu s')\<lparr>mem := m\<rparr>\<rparr>"
    have st': "page_step (cur_pagedir s) k (vm_mmu s) (vm_mmu ?t)" using page_step_trans[OF st] m(2) pd by simp
    have pd': "cur_pagedir ?t = cur_pagedir s" using pd by simp
    note ub' = page_step_user_bytes[OF wf sp st' pd' fresh]
    have free: "free_frames ?t = free_frames s" using m(3) inf fr by auto
    have "frames_ok ?t" using fok free m(4) fr by (simp add: frames_ok_def)
    then have "vm_ok ?t" using vok' ub'(1,2) m(4) by (simp add: vm_ok_def)
    then show thesis using failed[of ?t] a nt m(1) ub'(3) free by simp
  next
    assume "\<exists>m. map_page upage k w s' = Some (True, s'\<lparr>vm_mmu := m\<rparr>) \<and> \<not> no_table (vm_mmu s') (cur_pagedir s') upage \<and> vm_wf (s'\<lparr>vm_mmu := m\<rparr>) \<and> space_ok (s'\<lparr>vm_mmu := m\<rparr>) \<and>
       user_pool (mem m) = user_pool (mem (vm_mmu s')) \<and> data_page m (cur_pagedir s') k \<and>
       init_page_dir m = init_page_dir (vm_mmu s') \<and> init_ram_pages m = init_ram_pages (vm_mmu s') \<and>
       (\<exists>e. pte_get_page e = Some k \<and>
          (\<forall>va. is_user_vaddr va \<longrightarrow> mapped m (cur_pagedir s') va = (if pg_no va = pg_no upage then Some e else vm_mapped s' va))) \<and>
       (\<forall>va. is_user_vaddr va \<longrightarrow> user_byte (s'\<lparr>vm_mmu := m\<rparr>) va =
          (if pg_no va = pg_no upage then Some (vm_ram s' (k + pg_ofs va)) else user_byte s' va))"
    then obtain m pte where tab: "\<not> no_table (vm_mmu s') (cur_pagedir s') upage" and
      m: "map_page upage k w s' = Some (True, s'\<lparr>vm_mmu := m\<rparr>)" "vm_wf (s'\<lparr>vm_mmu := m\<rparr>)" "space_ok (s'\<lparr>vm_mmu := m\<rparr>)"
      "user_pool (mem m) = user_pool (mem (vm_mmu s'))" "init_page_dir m = init_page_dir (vm_mmu s')" "init_ram_pages m = init_ram_pages (vm_mmu s')"
      "data_page m (cur_pagedir s') k" "pte_get_page pte = Some k"
      "\<forall>va. is_user_vaddr va \<longrightarrow> mapped m (cur_pagedir s') va = (if pg_no va = pg_no upage then Some pte else vm_mapped s' va)"
      "\<forall>va. is_user_vaddr va \<longrightarrow> user_byte (s'\<lparr>vm_mmu := m\<rparr>) va =
          (if pg_no va = pg_no upage then Some (vm_ram s' (k + pg_ofs va)) else user_byte s' va)" by blast
    let ?t = "s'\<lparr>vm_mmu := m\<rparr>"
    have "frames_ok ?t" using fok' m(4) by (simp add: frames_ok_def)
    then have "vm_ok ?t" using vok' m(2-6) by (simp add: vm_ok_def)
    then show thesis using success[of m pte] m(1,7-10) ub(3) tab nt mp pd by simp
  qed
qed

lemma load_from_file_ok:
  assumes ok: "vm_ok s" and get: "can_get_frame s"
    and f: "files (vm_fs s) f = Some fl" "inodes (vm_fs s) (f_inode fl) = Some i"
    and ofs: "0 \<le> ofs" "ofs + int (unat n) \<le> inode_length i" and n: "unat n + unat z = 4096"
    and up: "is_user_vaddr upage" "pg_ofs upage = 0" "vm_mapped s upage = None"
  shows "\<exists>r s'. load_from_file f ofs n z upage w upd s = Some (r, s') \<and> vm_ok s' \<and>
    (r \<longrightarrow> suppl_page_table s' = suppl_page_table (set_spe upage upd s)) \<and>
    (r \<longleftrightarrow> \<not> no_table (vm_mmu s) (cur_pagedir s) upage) \<and> (\<not> r \<longrightarrow> frame_table s' = frame_table s \<and> free_frames s' = free_frames s) \<and>
    (\<forall>va. is_user_vaddr va \<longrightarrow> user_byte s' va =
       (if r \<and> pg_no va = pg_no upage
        then Some (if unat (pg_ofs va) < unat n then inode_bytes (fs_device (vm_fs s)) i ! (nat ofs + unat (pg_ofs va)) else 0)
        else user_byte s va))"
proof -
  obtain k s' e where p: "load_from_file f ofs n z upage w upd s =
      do { (ok, s) \<leftarrow> map_page upage k w s';
           if \<not> ok then do { s \<leftarrow> vm_free_frame k s; Some (False, s) } else Some (True, set_spe upage upd s) }"
    "got_frame s k e s'" "\<forall>va. vm_ram s' (k + pg_ofs va) =
       (if unat (pg_ofs va) < unat n then inode_bytes (fs_device (vm_fs s)) i ! (nat ofs + unat (pg_ofs va)) else 0)"
    "suppl_page_table s' = suppl_page_table s"
    by (rule load_prepare[OF ok get f ofs n, where va = upage and w = w and upd = upd])
  from ok p(2) up show ?thesis
  proof (cases rule: map_or_free[where w = w])
    case (failed t)
    then show ?thesis using p(1) by (intro exI[of _ False] exI[of _ t]) simp
  next
    case (success m pte)
    have "suppl_page_table (set_spe upage upd (s'\<lparr>vm_mmu := m\<rparr>)) = suppl_page_table (set_spe upage upd s)"
      using p(4) by (simp add: set_spe_def)
    then show ?thesis using p(1,3) success by (intro exI[of _ True] exI[of _ "set_spe upage upd (s'\<lparr>vm_mmu := m\<rparr>)"]) simp
  qed
qed

text \<open>Taking a frame without reading a file.\<close>

lemma get_frame_got:
  assumes ok: "vm_ok s" and get: "can_get_frame s" and z: "z = 0 \<or> z = PAL_ZERO"
  obtains k s' e where "vm_get_frame (PAL_USER OR z) s = Some (k, s')" "got_frame s k e s'" "k \<noteq> 0"
    "suppl_page_table s' = suppl_page_table s" "vm_swap s' = vm_swap s" "z = PAL_ZERO \<longrightarrow> (\<forall>va. vm_ram s' (k + pg_ofs va) = 0)"
proof -
  obtain addr junk ms where ml: "mallocs s = (addr, junk) # ms" "addr \<noteq> 0" and fr: "free_frames s \<noteq> {}"
    using get by (auto simp: can_get_frame_def split: list.splits)
  have wf: "vm_wf s" and fok: "frames_ok s" using ok by (simp_all add: vm_ok_def)
  obtain k M e where g: "vm_get_frame (PAL_USER OR z) s =
      Some (k, s\<lparr>vm_mmu := (vm_mmu s)\<lparr>mem := M\<rparr>, mallocs := ms, frame_table := frame_table s @ [e]\<rparr>)"
    "frame_ptr e = k" "e \<notin> set (frame_table s)" "\<forall>x \<in> set (frame_table s). frame_ptr x \<noteq> k"
    "is_kpage k" "unat (pg_no k) \<in> free_frames s" "free_pool (user_pool M) = free_frames s - {unat (pg_no k)}"
    "pool_pages (user_pool M) = pool_pages (user_pool (mem (vm_mmu s)))" "kernel_pool M = kernel_pool (mem (vm_mmu s))"
    "page_step (cur_pagedir s) k (vm_mmu s) ((vm_mmu s)\<lparr>mem := M\<rparr>)" "data_page ((vm_mmu s)\<lparr>mem := M\<rparr>) (cur_pagedir s) k"
    "ram M = (if z = 0 then vm_ram s else memset k 0 PGSIZE (vm_ram s))"
    by (rule vm_get_frame_free[OF wf z fr fok ml])
  let ?s = "s\<lparr>vm_mmu := (vm_mmu s)\<lparr>mem := M\<rparr>, mallocs := ms, frame_table := frame_table s @ [e]\<rparr>"
  have "got_frame s k e ?s" using g(2-11) ok by (simp add: got_frame_def vm_ok_def)
  moreover have "vm_ram ?s (k + pg_ofs va) = 0" if "z = PAL_ZERO" for va
    using page_distance[OF g(5), of "k + pg_ofs va"] kpage_offset(1)[OF g(5), of va] that
    by (simp add: vm_ram_def g(12) PAL_ZERO_def memset_def)
  ultimately show thesis using that[OF g(1)] kpage_nonzero[OF g(5)] by simp
qed

subsection \<open>Entries of the supplemental page table\<close>

lemma set_spe_table:
  assumes inv: "spt_inv (suppl_page_table s)" and f: "\<And>e. user_vaddr (f e) = user_vaddr e"
  shows "spt_inv (suppl_page_table (set_spe va f s))"
    "table user_vaddr (suppl_page_table (set_spe va f s)) =
       (\<lambda>x. if x = va then map_option f (table user_vaddr (suppl_page_table s) x) else table user_vaddr (suppl_page_table s) x)"
proof -
  let ?h = "suppl_page_table s" and ?h' = "suppl_page_table (set_spe va f s)"
  define g where "g e = (if user_vaddr e = va then f e else e)" for e
  have g: "user_vaddr (g e) = user_vaddr e" for e by (simp add: g_def f)
  have h': "?h' = ?h\<lparr>h_buckets := map (map g) (h_buckets ?h)\<rparr>" by (simp add: set_spe_def g_def)
  have el: "elems ?h' = map g (elems ?h)" by (simp add: h' elems_def map_concat)
  have keys: "map user_vaddr (elems ?h') = map user_vaddr (elems ?h)" by (simp add: el g comp_def)
  have idx: "hash_index ?h' (g e) = hash_index ?h e" for e
    using spt.hash_key[of "g e" e] g inv by (simp add: hash_index_def h' hash_inv_def)
  have "placed ?h'" using inv idx by (auto simp: hash_inv_def placed_def h' nth_map comp_def)
  moreover have "length (elems ?h') = length (elems ?h)" "h_elem_cnt ?h' = h_elem_cnt ?h" "h_hash ?h' = h_hash ?h" "h_less ?h' = h_less ?h"
    using el by (simp_all add: h')
  ultimately show "spt_inv ?h'" using inv keys by (simp add: hash_inv_def)
  show "table user_vaddr ?h' = (\<lambda>x. if x = va then map_option f (table user_vaddr ?h x) else table user_vaddr ?h x)"
  proof
    fix x
    have "find (\<lambda>e. user_vaddr e = x) (map g es) = map_option g (find (\<lambda>e. user_vaddr e = x) es)" for es
      by (induction es) (simp_all add: g)
    then have "table user_vaddr ?h' x = map_option g (table user_vaddr ?h x)" by (simp add: table_def el)
    also have "\<dots> = (if x = va then map_option f (table user_vaddr ?h x) else table user_vaddr ?h x)"
    proof (cases "table user_vaddr ?h x")
      case (Some e)
      then have "user_vaddr e = x" using table_iff[OF inv] by blast
      then show ?thesis using Some by (auto simp: g_def)
    qed auto
    finally show "table user_vaddr ?h' x = (if x = va then map_option f (table user_vaddr ?h x) else table user_vaddr ?h x)" .
  qed
qed

subsection \<open>No frame left\<close>

lemma clear_loop_result:
  "clear_loop es s = Some (r, s') \<Longrightarrow> (case r of None \<Rightarrow> frame_table s' = frame_table s | Some e \<Rightarrow> e \<in> set es)"
proof (induction es s rule: clear_loop.induct)
  case (2 e es s)
  then show ?case by (fastforce split: Option.bind_splits if_splits option.splits)
qed simp

lemma vm_get_frame_full:
  assumes kw: "kmem_wf (mem (vm_mmu s))" and full: "free_frames s = {}" and run: "vm_get_frame PAL_USER s = Some (p, s')"
  shows "\<exists>e \<in> set (frame_table s). p = fte_addr e"
proof -
  have f: "PAL_USER AND PAL_ASSERT = 0" "PAL_USER \<noteq> 0" by (simp_all add: PAL_ASSERT_def PAL_USER_def)
  have none: "palloc_get_page PAL_USER (mem (vm_mmu s)) = Some (0, mem (vm_mmu s))"
    using kw one_neq_zero f(1)
  proof (cases rule: palloc_get_multiple_cases)
    case (some a m r)
    have "unat (pg_no a) \<in> region (pg_no a) 1" by (simp add: region_def)
    then show ?thesis using some(6) full f(2) by (auto simp: pool_of_def)
  qed (simp add: palloc_get_page_def)
  then have "evict_page_from_frame s = Some (p, s')" using run f(2) by (simp add: vm_get_frame_def)
  then obtain e t where e: "next_frame_table_entry_to_clear s = Some (e, t)" "p = fte_addr e"
    by (auto simp: evict_page_from_frame_def Let_def split: Option.bind_splits)
  then obtain r t' where "clear_loop (frame_table s) s = Some (r, t')"
    "(case r of Some e \<Rightarrow> Some (e, t') | None \<Rightarrow> (case frame_table t' of [] \<Rightarrow> None | e # _ \<Rightarrow> Some (e, t'))) = Some (e, t)"
    by (auto simp: next_frame_table_entry_to_clear_def split: Option.bind_splits)
  then have "e \<in> set (frame_table s)" using clear_loop_result[of "frame_table s" s r t'] by (auto split: option.splits list.splits)
  then show ?thesis using e(2) by blast
qed

lemma unaligned_frame:
  assumes "pg_ofs p \<noteq> 0"
  shows "map_page va p w s = None" "vm_free_frame p s = None"
  using assms by (simp_all add: map_page_def pagedir_set_page_def vm_free_frame_def palloc_free_page_def palloc_free_multiple_def)

subsection \<open>Pages of files and of mapped files\<close>

lemma type_bits: "SPE_MMF AND SPE_SWAP = 0" "SPE_FILE \<noteq> SPE_MMF" "SPE_FILE \<noteq> SPE_MMF OR SPE_SWAP"
  by (simp_all add: SPE_MMF_def SPE_SWAP_def SPE_FILE_def)

lemma PGSIZE_minus: "unat n \<le> 4096 \<Longrightarrow> unat n + unat (PGSIZE - n) = 4096"
  using unat_sub[of n PGSIZE] unat_PGSIZE by (simp add: word_le_nat_alt)

text \<open>The entry for an address is marked as loaded; nothing else changes in the supplemental page table but the
  type of this entry.\<close>

definition marks_loaded :: "u32 \<Rightarrow> vm \<Rightarrow> vm \<Rightarrow> bool" where
  "marks_loaded va s s' \<longleftrightarrow> (\<exists>upd. (\<forall>e. user_vaddr (upd e) = user_vaddr e \<and> loaded (upd e)) \<and>
     suppl_page_table s' = suppl_page_table (set_spe va upd s))"

lemma marks_loadedI:
  "suppl_page_table s' = suppl_page_table (set_spe va upd s) \<Longrightarrow> (\<And>e. user_vaddr (upd e) = user_vaddr e \<and> loaded (upd e)) \<Longrightarrow>
   marks_loaded va s s'"
  unfolding marks_loaded_def by blast

lemma marks_loadedD:
  assumes "marks_loaded va s s'" "spt_inv (suppl_page_table s)"
  shows "spt_inv (suppl_page_table s')"
    "get_spe (suppl_page_table s) x = Some (Some e) \<Longrightarrow>
       \<exists>e'. get_spe (suppl_page_table s') x = Some (Some e') \<and> (if x = va then loaded e' else e' = e)"
proof -
  obtain upd where u: "\<And>e. user_vaddr (upd e) = user_vaddr e" "\<And>e. loaded (upd e)"
    "suppl_page_table s' = suppl_page_table (set_spe va upd s)"
    using assms(1) by (auto simp: marks_loaded_def)
  have t: "spt_inv (suppl_page_table s')" "table user_vaddr (suppl_page_table s') =
      (\<lambda>x. if x = va then map_option upd (table user_vaddr (suppl_page_table s) x) else table user_vaddr (suppl_page_table s) x)"
    unfolding u(3) by (rule set_spe_table[OF assms(2) u(1)])+
  show inv: "spt_inv (suppl_page_table s')" by (rule t(1))
  show "get_spe (suppl_page_table s) x = Some (Some e) \<Longrightarrow>
       \<exists>e'. get_spe (suppl_page_table s') x = Some (Some e') \<and> (if x = va then loaded e' else e' = e)"
    using u(2) by (auto simp: get_spe_table[OF assms(2)] get_spe_table[OF inv] t(2))
qed

text \<open>What a user program sees of a page loaded from a file.\<close>

definition file_byte :: "vm \<Rightarrow> inode \<Rightarrow> sup_page_entry \<Rightarrow> u32 \<Rightarrow> u8" where
  "file_byte s i spe va = (if unat (pg_ofs va) < unat (spe_read_bytes spe)
     then inode_bytes (fs_device (vm_fs s)) i ! (nat (spe_offset spe) + unat (pg_ofs va)) else 0)"

text \<open>An entry for a page of a file: the file is open and long enough, and the address is not mapped.\<close>

definition file_entry :: "vm \<Rightarrow> inode \<Rightarrow> sup_page_entry \<Rightarrow> bool" where
  "file_entry s i spe \<longleftrightarrow>
     (\<exists>fl. files (vm_fs s) (spe_file spe) = Some fl \<and> inodes (vm_fs s) (f_inode fl) = Some i) \<and>
     0 \<le> spe_offset spe \<and> spe_offset spe + int (unat (spe_read_bytes spe)) \<le> inode_length i \<and> unat (spe_read_bytes spe) \<le> 4096 \<and>
     (spe_type spe = SPE_FILE \<and> unat (spe_read_bytes spe) + unat (spe_zero_bytes spe) = 4096 \<or>
      spe_type spe = SPE_MMF \<or> spe_type spe = SPE_MMF OR SPE_SWAP) \<and>
     is_user_vaddr (user_vaddr spe) \<and> pg_ofs (user_vaddr spe) = 0 \<and> vm_mapped s (user_vaddr spe) = None"

lemma load_page_file:
  assumes ok: "vm_ok s" and get: "can_get_frame s" and spe: "file_entry s i spe"
  obtains r s' where "load_page mem_ok spe s = Some (r, s')" "vm_ok s'" "r \<longrightarrow> marks_loaded (user_vaddr spe) s s'"
    "r \<longleftrightarrow> \<not> no_table (vm_mmu s) (cur_pagedir s) (user_vaddr spe)" "\<not> r \<longrightarrow> frame_table s' = frame_table s \<and> free_frames s' = free_frames s"
    "\<forall>va. is_user_vaddr va \<longrightarrow> user_byte s' va = (if r \<and> pg_no va = pg_no (user_vaddr spe) then Some (file_byte s i spe va) else user_byte s va)"
proof -
  obtain fl where f: "files (vm_fs s) (spe_file spe) = Some fl" "inodes (vm_fs s) (f_inode fl) = Some i"
    using spe by (auto simp: file_entry_def)
  have ofs: "0 \<le> spe_offset spe" "spe_offset spe + int (unat (spe_read_bytes spe)) \<le> inode_length i"
    and n: "unat (spe_read_bytes spe) \<le> 4096"
    and up: "is_user_vaddr (user_vaddr spe)" "pg_ofs (user_vaddr spe) = 0" "vm_mapped s (user_vaddr spe) = None"
    using spe by (simp_all add: file_entry_def)
  obtain z w upd where eq: "load_page mem_ok spe s =
      load_from_file (spe_file spe) (spe_offset spe) (spe_read_bytes spe) z (user_vaddr spe) w upd s"
    and z: "unat (spe_read_bytes spe) + unat z = 4096" and upd: "\<And>e. user_vaddr (upd e) = user_vaddr e \<and> loaded (upd e)"
  proof (cases "spe_type spe = SPE_FILE")
    case True
    have "load_page mem_ok spe s = load_file_page spe s" using True by (simp add: load_page_def)
    moreover have "unat (spe_read_bytes spe) + unat (spe_zero_bytes spe) = 4096"
      using spe True type_bits by (auto simp: file_entry_def)
    ultimately show thesis using that[of "spe_zero_bytes spe" "spe_writable spe" "\<lambda>e. e\<lparr>loaded := True\<rparr>"] by (simp add: load_file_page_eq)
  next
    case False
    have "load_page mem_ok spe s = load_page_mmf spe s" using False spe by (auto simp: load_page_def file_entry_def)
    then show thesis
      using that[of "PGSIZE - spe_read_bytes spe" True
          "\<lambda>e. e\<lparr>loaded := True, spe_type := (if spe_type e AND SPE_SWAP \<noteq> 0 then SPE_MMF else spe_type e)\<rparr>"] PGSIZE_minus[OF n]
      by (simp add: load_page_mmf_eq)
  qed
  from load_from_file_ok[OF ok get f ofs z up, of w upd] obtain r s' where R:
    "load_from_file (spe_file spe) (spe_offset spe) (spe_read_bytes spe) z (user_vaddr spe) w upd s = Some (r, s')" "vm_ok s'"
    "r \<longrightarrow> suppl_page_table s' = suppl_page_table (set_spe (user_vaddr spe) upd s)"
    "r \<longleftrightarrow> \<not> no_table (vm_mmu s) (cur_pagedir s) (user_vaddr spe)" "\<not> r \<longrightarrow> frame_table s' = frame_table s \<and> free_frames s' = free_frames s"
    "\<forall>va. is_user_vaddr va \<longrightarrow> user_byte s' va = (if r \<and> pg_no va = pg_no (user_vaddr spe) then Some (file_byte s i spe va) else user_byte s va)"
    unfolding file_byte_def by blast
  show thesis using that[OF _ R(2) _ R(4-6)] R(1) eq marks_loadedI[OF _ upd] R(3) by simp
qed

subsection \<open>Growing the stack\<close>

lemma round_down_page:
  "pg_ofs (pg_round_down va) = 0" "pg_no (pg_round_down va) = pg_no va" "is_user_vaddr va \<Longrightarrow> is_user_vaddr (pg_round_down va)"
proof -
  have u: "unat (pg_round_down va) = unat va div 4096 * 4096" by (rule unat_pg_round_down)
  show "pg_ofs (pg_round_down va) = 0" by (simp add: pg_ofs_eq_0_iff u)
  show "pg_no (pg_round_down va) = pg_no va" by (rule unat_inject) (simp add: unat_pg_no u)
  show "is_user_vaddr va \<Longrightarrow> is_user_vaddr (pg_round_down va)"
    using pg_round_down_le[of va] unfolding is_user_vaddr_def by (rule order_le_less_trans)
qed

lemma mapped_same_page: "pg_no a = pg_no b \<Longrightarrow> mapped s pd a = mapped s pd b"
  by (simp add: mapped_def pte_of_def same_page_iff)

lemma no_table_same_page: "pg_no a = pg_no b \<Longrightarrow> no_table s pd a = no_table s pd b"
  by (simp add: no_table_def same_page_iff)

lemma grow_stack_ok:
  assumes ok: "vm_ok s" and get: "can_get_frame s" and va: "is_user_vaddr va" "vm_mapped s va = None"
  shows "\<exists>s'. grow_stack va s = Some s' \<and> vm_ok s' \<and> (no_table (vm_mmu s) (cur_pagedir s) va \<longrightarrow> frame_table s' = frame_table s) \<and>
    (\<forall>x. is_user_vaddr x \<longrightarrow> user_byte s' x =
       (if \<not> no_table (vm_mmu s) (cur_pagedir s) va \<and> pg_no x = pg_no va then Some 0 else user_byte s x))"
proof -
  obtain k s' e where g: "vm_get_frame (PAL_USER OR PAL_ZERO) s = Some (k, s')" "got_frame s k e s'" "k \<noteq> 0"
    "PAL_ZERO = PAL_ZERO \<longrightarrow> (\<forall>va. vm_ram s' (k + pg_ofs va) = 0)"
    by (rule get_frame_got[OF ok get, of PAL_ZERO]) auto
  let ?up = "pg_round_down va"
  have up: "is_user_vaddr ?up" "pg_ofs ?up = 0" "vm_mapped s ?up = None"
    using round_down_page[of va] va mapped_same_page[of ?up va] by simp_all
  have nt: "no_table (vm_mmu s) (cur_pagedir s) ?up = no_table (vm_mmu s) (cur_pagedir s) va"
    using round_down_page(2) by (rule no_table_same_page)
  from ok g(2) up show ?thesis
  proof (cases rule: map_or_free[where w = True])
    case (failed t)
    then show ?thesis using g(1,3) nt by (intro exI[of _ t]) (simp add: grow_stack_def)
  next
    case (success m pte)
    then show ?thesis using g nt round_down_page(2)[of va] by (intro exI[of _ "s'\<lparr>vm_mmu := m\<rparr>"]) (simp add: grow_stack_def)
  qed
qed

text \<open>Writing to a frame that is mapped at one user page.\<close>

lemma write_mapped_frame:
  assumes ok: "vm_ok t" and dp: "data_page (vm_mmu t) (cur_pagedir t) k" and pte: "pte_get_page pte = Some k"
    and mp: "\<forall>va. is_user_vaddr va \<longrightarrow> vm_mapped t va = (if pg_no va = pg_no upage then Some pte else vm_mapped s va)"
    and sp: "space_ok s" and k: "unat (pg_no k) \<in> free_pages (vm_mmu s)"
    and m: "\<forall>x. pg_no x \<noteq> pg_no k \<longrightarrow> m x = vm_ram t x"
  shows "vm_ok (set_vm_ram m t)" "\<forall>va. is_user_vaddr va \<longrightarrow> user_byte (set_vm_ram m t) va =
    (if pg_no va = pg_no upage then Some (m (k + pg_ofs va)) else user_byte t va)"
proof -
  let ?t = "set_vm_ram m t"
  have wf: "vm_wf t" and spt: "space_ok t" using ok by (simp_all add: vm_ok_def)
  have m': "\<forall>x. pg_no x \<noteq> pg_no k \<longrightarrow> m x = ram (mem (vm_mmu t)) x" using m by (simp add: vm_ram_def)
  note wp = write_page[OF wf dp m']
  have st: "page_step (cur_pagedir t) k (vm_mmu t) (vm_mmu ?t)" and dp': "data_page (vm_mmu ?t) (cur_pagedir t) k"
    using wp by (simp_all add: set_vm_ram_def)
  have pd: "cur_pagedir ?t = cur_pagedir t" by (simp add: set_vm_ram_def)
  have wf': "vm_wf ?t" using st pd by (simp add: page_step_def)
  have mp': "vm_mapped ?t va = vm_mapped t va" if "is_user_vaddr va" for va using st pd that by (simp add: page_step_def)
  have sp': "space_ok ?t"
    unfolding space_ok_def
  proof (intro allI impI)
    fix va e assume a: "is_user_vaddr va \<and> vm_mapped ?t va = Some e"
    then obtain q where q: "pte_get_page e = Some q" "data_page (vm_mmu t) (cur_pagedir t) q"
      using space_okD[OF spt, of va e] mp' by metis
    show "\<exists>q. pte_get_page e = Some q \<and> data_page (vm_mmu ?t) (cur_pagedir ?t) q"
      using q st dp' pd by (cases "q = k") (auto simp: page_step_def)
  qed
  have "frames_ok ?t" using ok by (simp add: vm_ok_def frames_ok_def set_vm_ram_def set_ram_def)
  then show "vm_ok ?t" using ok wf' sp' by (simp add: vm_ok_def) (simp add: set_vm_ram_def set_ram_def)
  show "\<forall>va. is_user_vaddr va \<longrightarrow> user_byte ?t va = (if pg_no va = pg_no upage then Some (m (k + pg_ofs va)) else user_byte t va)"
  proof (intro allI impI)
    fix va assume u: "is_user_vaddr va"
    have r: "vm_ram ?t = m" by (simp add: vm_ram_def set_vm_ram_def set_ram_def)
    have "vm_ram ?t (the (pte_get_page e) + pg_ofs va) = vm_ram t (the (pte_get_page e) + pg_ofs va)"
      if ne: "pg_no va \<noteq> pg_no upage" and e: "vm_mapped t va = Some e" for e
    proof -
      have "vm_mapped s va = Some e" using e mp u ne by simp
      then obtain q where q: "pte_get_page e = Some q" "data_page (vm_mmu s) (cur_pagedir s) q" "is_kpage q" by (rule space_okD[OF sp u])
      then have "q \<noteq> k" using k by (auto simp: data_page_def in_use_def)
      then have "pg_no q \<noteq> pg_no k" using kpage_pg_no[OF q(3)] dp by (auto simp: data_page_def in_use_def)
      then show ?thesis using m q(1) r kpage_offset(1)[OF q(3), of va] by simp
    qed
    then show "user_byte ?t va = (if pg_no va = pg_no upage then Some (m (k + pg_ofs va)) else user_byte t va)"
      using user_byte_mapped[OF wf' sp' u] user_byte_mapped[OF wf spt u] mp' mp u pte r
      by (cases "vm_mapped t va") (auto split: if_splits)
  qed
qed


subsection \<open>Loading a page from swap\<close>

text \<open>The entry of a page that is in a slot of the swap device.\<close>

definition swap_entry :: "vm \<Rightarrow> sup_page_entry \<Rightarrow> bool" where
  "swap_entry s spe \<longleftrightarrow> (spe_type spe = SPE_SWAP \<or> spe_type spe = SPE_FILE OR SPE_SWAP) \<and> swap_writable spe \<and>
     swap_wf (vm_swap s) \<and> swap_slot_idx spe < bit_cnt (swap_map (vm_swap s)) \<and> unat (swap_slot_idx spe) \<notin> free_slots (vm_swap s) \<and>
     is_user_vaddr (user_vaddr spe) \<and> pg_ofs (user_vaddr spe) = 0 \<and> vm_mapped s (user_vaddr spe) = None"

lemma vm_update_simps [simp]:
  "vm_ok (s\<lparr>vm_swap := x\<rparr>) = vm_ok s" "user_byte (s\<lparr>vm_swap := x\<rparr>) va = user_byte s va"
  "vm_ok (s\<lparr>suppl_page_table := h\<rparr>) = vm_ok s" "user_byte (s\<lparr>suppl_page_table := h\<rparr>) va = user_byte s va"
  "vm_ok (s\<lparr>page_fault_cnt := n\<rparr>) = vm_ok s" "user_byte (s\<lparr>page_fault_cnt := n\<rparr>) va = user_byte s va"
  by (simp_all add: user_byte_def vm_ram_def space_ok_def frames_ok_def vm_ok_def cong: if_cong)

lemma length_slot_data: "swap_wf s \<Longrightarrow> length (slot_data s i) = 4096"
  unfolding slot_data_def by (subst length_concat_512) (simp_all add: swap_wf_def block_wf_def BLOCK_SECTOR_SIZE_def)

lemma write_bytes_page:
  assumes "is_kpage k" "length bs = 4096"
  shows "\<forall>x. pg_no x \<noteq> pg_no k \<longrightarrow> write_bytes k bs m x = m x" "write_bytes k bs m (k + pg_ofs va) = bs ! unat (pg_ofs va)"
proof -
  show "\<forall>x. pg_no x \<noteq> pg_no k \<longrightarrow> write_bytes k bs m x = m x"
    using page_distance[OF assms(1)] assms(2) by (simp add: write_bytes_def word_less_nat_alt unat_PGSIZE)
  show "write_bytes k bs m (k + pg_ofs va) = bs ! unat (pg_ofs va)"
    using assms(2) by (simp add: write_bytes_def unat_pg_ofs)
qed

lemma load_page_swap_ok:
  assumes ok: "vm_ok s" and get: "can_get_frame s" and spe: "swap_entry s spe" and spt: "spt_inv (suppl_page_table s)"
  shows "\<exists>s'. load_page mem_ok spe s = Some (\<not> no_table (vm_mmu s) (cur_pagedir s) (user_vaddr spe), s') \<and> vm_ok s' \<and>
    (if no_table (vm_mmu s) (cur_pagedir s) (user_vaddr spe)
     then vm_swap s' = vm_swap s \<and> (\<forall>va. is_user_vaddr va \<longrightarrow> user_byte s' va = user_byte s va)
     else swap_wf (vm_swap s') \<and> free_slots (vm_swap s') = insert (unat (swap_slot_idx spe)) (free_slots (vm_swap s)) \<and>
       (spe_type spe = SPE_SWAP \<longrightarrow> get_spe (suppl_page_table s') (user_vaddr spe) = Some None) \<and>
       (\<forall>va. is_user_vaddr va \<longrightarrow> user_byte s' va =
          (if pg_no va = pg_no (user_vaddr spe) then Some (slot_data (vm_swap s) (swap_slot_idx spe) ! unat (pg_ofs va)) else user_byte s va)))"
proof -
  let ?up = "user_vaddr spe" and ?bs = "slot_data (vm_swap s) (swap_slot_idx spe)"
  have sw: "swap_wf (vm_swap s)" "swap_slot_idx spe < bit_cnt (swap_map (vm_swap s))" "unat (swap_slot_idx spe) \<notin> free_slots (vm_swap s)"
    and up: "is_user_vaddr ?up" "pg_ofs ?up = 0" "vm_mapped s ?up = None" and w: "swap_writable spe"
    and ty: "load_page mem_ok spe s = load_page_swap mem_ok spe s" "spe_type spe \<noteq> SPE_SWAP \<longrightarrow> spe_type spe = SPE_FILE OR SPE_SWAP"
    using spe by (auto simp: swap_entry_def load_page_def SPE_SWAP_def SPE_FILE_def SPE_MMF_def)
  have u0: "PAL_USER OR 0 = PAL_USER" by simp
  obtain k s1 e where g: "vm_get_frame (PAL_USER OR 0) s = Some (k, s1)" "got_frame s k e s1" "k \<noteq> 0"
    "suppl_page_table s1 = suppl_page_table s" "vm_swap s1 = vm_swap s"
    by (rule get_frame_got[OF ok get, of 0]) auto
  from ok g(2) up show ?thesis
  proof (cases rule: map_or_free[where w = True])
    case (failed t)
    have "load_page_swap mem_ok spe s = Some (False, t)" using g(1)[unfolded u0] g(3) failed w by (simp add: load_page_swap_def)
    moreover have "vm_swap t = vm_swap s" using failed(3) g(5) by (auto simp: vm_free_frame_def split: Option.bind_splits option.splits)
    ultimately show ?thesis using failed ty(1) by simp
  next
    case (success m pte)
    let ?s2 = "s1\<lparr>vm_mmu := m\<rparr>"
    have pd: "cur_pagedir s1 = cur_pagedir s" and kk: "is_kpage k" and fresh: "unat (pg_no k) \<in> free_pages (vm_mmu s)"
      using g(2) by (simp_all add: got_frame_def data_page_def in_use_def free_pages_def)
    obtain sw' where sw': "vm_swap_in (swap_slot_idx spe) (read_bytes k (unat PGSIZE) (vm_ram ?s2)) (vm_swap s) = Some (?bs, sw')"
      "swap_wf sw'" "free_slots sw' = insert (unat (swap_slot_idx spe)) (free_slots (vm_swap s))"
      using vm_swap_in_slot[OF sw, of "read_bytes k (unat PGSIZE) (vm_ram ?s2)"] by (auto simp: unat_PGSIZE)
    note wb = write_bytes_page[OF kk length_slot_data[OF sw(1)], where m = "vm_ram ?s2"]
    let ?s3 = "set_vm_ram (write_bytes k ?bs (vm_ram ?s2)) ?s2"
    have s3: "vm_ok ?s3" "\<forall>va. is_user_vaddr va \<longrightarrow> user_byte ?s3 va = (if pg_no va = pg_no ?up then Some (?bs ! unat (pg_ofs va)) else user_byte s va)"
      using write_mapped_frame[OF success(3) _ success(5) _ _ fresh wb(1), of "user_vaddr spe"] success(4,6,7) pd ok wb(2)
      by (simp_all add: vm_ok_def)
    let ?s4 = "?s3\<lparr>vm_swap := sw'\<rparr>"
    have s4: "set_vm_ram (write_bytes k ?bs (vm_ram ?s2)) (?s2\<lparr>vm_swap := sw'\<rparr>) = ?s4" by (simp add: set_vm_ram_def)
    have tab4: "suppl_page_table ?s4 = suppl_page_table s" using g(4) by (simp add: set_vm_ram_def)
    obtain h where h: "hash_delete mem_ok (suppl_page_table s) spe = Some (table user_vaddr (suppl_page_table s) ?up, h)"
      "get_spe h ?up = Some None"
      using spt.hash_delete_table[OF spt, of mem_ok spe] get_spe_table by fastforce
    have run: "load_page_swap mem_ok spe s = Some (True, if spe_type spe = SPE_SWAP then ?s4\<lparr>suppl_page_table := h\<rparr>
        else set_spe ?up (\<lambda>e. e\<lparr>spe_type := SPE_FILE, loaded := True\<rparr>) ?s4)"
      using g(1)[unfolded u0] g(3,5) success(2) w sw'(1) h(1) ty(2) tab4 s4
      by (simp add: load_page_swap_def SPE_SWAP_def SPE_FILE_def)
    have swp: "vm_swap (if spe_type spe = SPE_SWAP then ?s4\<lparr>suppl_page_table := h\<rparr>
        else set_spe ?up (\<lambda>e. e\<lparr>spe_type := SPE_FILE, loaded := True\<rparr>) ?s4) = sw'" by (simp add: set_spe_def)
    show ?thesis
      using success(1) run ty(1) s3 sw'(2,3) h(2) swp by (auto split: if_splits)
  qed
qed

end
