(* ===== verification/Vm_Fault.thy ===== *)
theory Vm_Fault
  imports Vm_Load
begin

section \<open>What loading a page and a page fault do\<close>

text \<open>
  The properties of the virtual memory of a process: loading a page of a file or of the swap area, growing
  the stack, the page fault handler, and what happens when no frame is free.
\<close>

unbundle bit_operations_syntax

subsection \<open>Properties\<close>


text \<open>A process with an empty address space, two free frames, and the file of the free map open.\<close>

definition demo_spe :: sup_page_entry where
  "demo_spe = (spe_probe 0x8048000)\<lparr>spe_type := SPE_FILE, spe_file := 1, spe_read_bytes := 4, spe_zero_bytes := 4092\<rparr>"

definition demo_vm :: vm where
  "demo_vm = \<lparr>vm_mmu = demo_mmu, vm_fs = demo_map_fs, vm_swap = demo_swap, frame_table = [], pagedirs = [3 \<mapsto> 0xc0101000],
     cur_tid = 3, cur_pagedir = 0xc0101000,
     suppl_page_table = \<lparr>h_elem_cnt = 1, h_bucket_cnt = 4, h_buckets = [[], [demo_spe], [], []], h_hash = suppl_pt_hash, h_less = suppl_pt_less\<rparr>,
     mallocs = [(0xc0102010, 0)], page_fault_cnt = 0\<rparr>"

lemma demo_vm_mapped: "vm_mapped demo_vm va = None" "table_at (vm_mmu demo_vm) (cur_pagedir demo_vm) i = None"
  by (simp_all add: mapped_def pte_of_def table_at_def demo_vm_def demo_mmu_def load_def load32_def)

lemma demo_vm_pools: "free_pool (kernel_pool (mem demo_mmu)) = {0xc0103, 0xc0104}" "free_pool (user_pool (mem demo_mmu)) = {0xc0202, 0xc0203}"
    "pool_pages (user_pool (mem demo_mmu)) = {0xc0200 ..< 0xc0204}"
  by (simp_all add: free_pool_def demo_mmu_def demo_kmem_def demo_pool_free pool_pages_def) (simp_all add: demo_pool_def unat_pg_no)

lemma demo_vm_ok: "vm_ok demo_vm" "can_get_frame demo_vm" "\<not> no_table (vm_mmu demo_vm) (cur_pagedir demo_vm) va"
proof -
  have "counts_ok demo_map_fs"
    by (auto simp: counts_ok_def openers_def deniers_def demo_map_fs_def demo_map_inode_def)
  then show "vm_ok demo_vm"
    using demo_mmu_wf demo_map_fs_wf(1) demo_vm_mapped(1) demo_vm_pools(3)
    by (auto simp: vm_ok_def space_ok_def frames_ok_def demo_vm_def unat_pg_no PHYS_BASE_def) (simp_all add: demo_mmu_def)
  show "can_get_frame demo_vm" using demo_vm_pools(2) by (simp add: can_get_frame_def demo_vm_def)
  show "\<not> no_table (vm_mmu demo_vm) (cur_pagedir demo_vm) va" using demo_vm_pools(1) by (simp add: no_table_def demo_vm_def)
qed

lemma demo_file_entry: "file_entry demo_vm demo_map_inode demo_spe"
  using demo_vm_mapped(1)
  by (simp add: file_entry_def demo_spe_def spe_probe_def is_user_vaddr_def PHYS_BASE_def pg_ofs_eq_0_iff)
    (simp add: demo_vm_def demo_map_fs_def demo_map_inode_def inode_length_def)

lemma demo_file_byte: "file_byte demo_vm demo_map_inode demo_spe 0x8048000 = 0x3f" "file_byte demo_vm demo_map_inode demo_spe 0x8048fff = 0"
proof -
  have o: "unat (pg_ofs 0x8048000) = 0" "unat (pg_ofs 0x8048fff) = 4095" by (simp_all add: unat_pg_ofs)
  show "file_byte demo_vm demo_map_inode demo_spe 0x8048000 = 0x3f"
    by (simp add: file_byte_def o demo_spe_def spe_probe_def demo_vm_def inode_bytes_def byte_at_def demo_map_fs_def demo_map_inode_def inode_length_def u32_bytes_def)
  show "file_byte demo_vm demo_map_inode demo_spe 0x8048fff = 0"
    by (simp add: file_byte_def o demo_spe_def spe_probe_def)
qed

lemma demo_pages: "is_user_vaddr 0x8048000" "is_user_vaddr 0x8048fff" "pg_no 0x8048fff = pg_no 0x8048000" "pg_round_down 0x8048000 = 0x8048000"
    "user_vaddr demo_spe = 0x8048000"
  by (simp_all add: is_user_vaddr_def PHYS_BASE_def demo_spe_def spe_probe_def) code_simp+


lemma fault_cnt_simps [simp]:
  "vm_ok (s\<lparr>page_fault_cnt := n\<rparr>) = vm_ok s" "can_get_frame (s\<lparr>page_fault_cnt := n\<rparr>) = can_get_frame s"
  "user_byte (s\<lparr>page_fault_cnt := n\<rparr>) = user_byte s" "file_entry (s\<lparr>page_fault_cnt := n\<rparr>) = file_entry s"
  "file_byte (s\<lparr>page_fault_cnt := n\<rparr>) = file_byte s"
  by (auto simp: fun_eq_iff vm_ok_def can_get_frame_def user_byte_def file_entry_def file_byte_def frames_ok_def space_ok_def vm_ram_def cong: if_cong)

text \<open>C33: a page fault of a process at an address that has no page yet, but an entry for a page of a file in
  the supplemental page table, brings that page in: afterwards the address holds the byte of the file and
  the entry is marked as loaded. And yet the handler ends by killing the process.\<close>

theorem page_fault_loads_then_kills:
  assumes "vm_ok s" "can_get_frame s" "spt_inv (suppl_page_table s)" "\<not> no_table (vm_mmu s) (cur_pagedir s) va"
    and "get_spe (suppl_page_table s) (pg_round_down va) = Some (Some spe)" "file_entry s i spe" "\<not> loaded spe"
    and "error_code f AND PF_P = 0" "f_cs f = SEL_UCSEG" "va \<noteq> 0" "is_user_vaddr va"
  shows "\<exists>s' e. page_fault mem_ok va f s = Some (Killed, s') \<and> vm_ok s' \<and> user_byte s' va = Some (file_byte s i spe va) \<and>
    get_spe (suppl_page_table s') (pg_round_down va) = Some (Some e) \<and> loaded e"
proof -
  let ?s = "s\<lparr>page_fault_cnt := page_fault_cnt s + 1\<rparr>"
  have u: "user_vaddr spe = pg_round_down va"
    using assms(5) table_iff[OF assms(3)] by (simp add: get_spe_table[OF assms(3)])
  have nt: "\<not> no_table (vm_mmu ?s) (cur_pagedir ?s) (user_vaddr spe)"
    using assms(4) no_table_same_page[OF round_down_page(2)] by (simp add: u)
  have pre: "vm_ok ?s" "can_get_frame ?s" "file_entry ?s i spe" using assms(1,2,6) by simp_all
  obtain r s' where l: "load_page mem_ok spe ?s = Some (r, s')" "vm_ok s'" "r \<longrightarrow> marks_loaded (user_vaddr spe) ?s s'" "r"
    "\<forall>x. is_user_vaddr x \<longrightarrow> user_byte s' x = (if r \<and> pg_no x = pg_no (user_vaddr spe) then Some (file_byte ?s i spe x) else user_byte ?s x)"
    using load_page_file[OF pre, of mem_ok] nt by metis
  then have "user_byte s' va = Some (file_byte s i spe va)" using assms(11) round_down_page(2)[of va] by (simp add: u)
  moreover have "page_fault mem_ok va f s = Some (Killed, s')"
    using assms(5,7-11) l(1) by (simp add: page_fault_def kill_def Let_def)
  moreover have "\<exists>e. get_spe (suppl_page_table s') (pg_round_down va) = Some (Some e) \<and> loaded e"
    using marks_loadedD(2)[OF mp[OF l(3,4)], of "pg_round_down va" spe] assms(3,5) by (auto simp: u)
  ultimately show ?thesis using l(2) by blast
qed

lemma all_less4: "(\<forall>i < 4. P i) \<longleftrightarrow> P 0 \<and> P 1 \<and> P 2 \<and> P (3 :: nat)"
  by (auto simp: less_Suc_eq numeral_eq_Suc)

lemma demo_vm_spt: "spt_inv (suppl_page_table demo_vm)" "get_spe (suppl_page_table demo_vm) 0x8048000 = Some (Some demo_spe)"
proof -
  have "hash_index (suppl_page_table demo_vm) demo_spe = 1"
    by (simp add: hash_index_def demo_vm_def suppl_pt_hash_def demo_pages) code_simp
  then show inv: "spt_inv (suppl_page_table demo_vm)"
    by (simp add: demo_vm_def hash_inv_def placed_def elems_def all_less4) code_simp
  show "get_spe (suppl_page_table demo_vm) 0x8048000 = Some (Some demo_spe)"
    unfolding get_spe_table[OF inv] by (simp add: demo_vm_def table_def elems_def demo_pages)
qed

theorem page_fault_loads_then_kills_witness:
  "\<exists>s'. page_fault True 0x8048000 \<lparr>error_code = 4, f_esp = 0xbffff000, f_cs = SEL_UCSEG\<rparr> demo_vm = Some (Killed, s') \<and>
    user_byte s' 0x8048000 = Some 0x3f"
proof -
  have "\<not> loaded demo_spe" by (simp add: demo_spe_def spe_probe_def)
  then show ?thesis
    using page_fault_loads_then_kills[OF demo_vm_ok(1,2) demo_vm_spt(1) demo_vm_ok(3) _ demo_file_entry, of "0x8048000"
      "\<lparr>error_code = 4, f_esp = 0xbffff000, f_cs = SEL_UCSEG\<rparr>" True] demo_vm_spt(2) demo_pages demo_file_byte
    by (auto simp: PF_P_def)
qed

text \<open>C31: a page written to the swap area comes back where it belongs. If the slot of an entry is the one
  that a call of \<open>vm_swap_out\<close> returned for a page, then loading the entry succeeds, the process sees the
  bytes of the page at the addresses of the entry and every other byte of its memory as before, and the slot
  is free again.\<close>

theorem load_page_returns_page_swapped_out:
  assumes "vm_ok s" "can_get_frame s" "spt_inv (suppl_page_table s)" "\<not> no_table (vm_mmu s) (cur_pagedir s) (user_vaddr spe)"
    and "is_user_vaddr (user_vaddr spe)" "pg_ofs (user_vaddr spe) = 0" "vm_mapped s (user_vaddr spe) = None"
    and "spe_type spe = SPE_SWAP \<or> spe_type spe = SPE_FILE OR SPE_SWAP" "swap_writable spe"
    and "swap_wf sw" "length page = 4096" "vm_swap_out page sw = Some (swap_slot_idx spe, vm_swap s)" "swap_slot_idx spe \<noteq> SWAP_ERROR"
  shows "\<exists>s'. load_page mem_ok spe s = Some (True, s') \<and> vm_ok s' \<and> free_slots (vm_swap s') = free_slots sw \<and>
    (\<forall>va. is_user_vaddr va \<longrightarrow> user_byte s' va =
       (if pg_no va = pg_no (user_vaddr spe) then Some (page ! unat (pg_ofs va)) else user_byte s va))"
proof -
  have "free_slots sw \<noteq> {}" using vm_swap_out_full[OF assms(10)] assms(11-13) by auto
  then have o: "swap_wf (vm_swap s)" "unat (swap_slot_idx spe) \<in> free_slots sw" "slot_data (vm_swap s) (swap_slot_idx spe) = page"
    "free_slots (vm_swap s) = free_slots sw - {unat (swap_slot_idx spe)}" "swap_slot_idx spe < bit_cnt (swap_map (vm_swap s))"
    using vm_swap_out_slot[OF assms(10,11)] assms(12) by auto
  then have "swap_entry s spe" using assms(5-9) by (auto simp: swap_entry_def)
  from load_page_swap_ok[OF assms(1,2) this assms(3), of mem_ok] show ?thesis
    using assms(4) o by (auto simp: insert_absorb)
qed



definition demo_swap_spe :: sup_page_entry where
  "demo_swap_spe = (spe_probe 0x8048000)\<lparr>spe_type := SPE_SWAP, swap_writable := True\<rparr>"

lemma swap_simps [simp]:
  "vm_ok (s\<lparr>vm_swap := w\<rparr>) = vm_ok s" "can_get_frame (s\<lparr>vm_swap := w\<rparr>) = can_get_frame s"
  by (auto simp: vm_ok_def can_get_frame_def frames_ok_def space_ok_def)

theorem load_page_returns_page_swapped_out_witness:
  "\<exists>idx sw s'. vm_swap_out (replicate 4096 7) demo_swap = Some (idx, sw) \<and>
    load_page True (demo_swap_spe\<lparr>swap_slot_idx := idx\<rparr>) (demo_vm\<lparr>vm_swap := sw\<rparr>) = Some (True, s') \<and> user_byte s' 0x8048fff = Some 7"
proof -
  have "free_slots demo_swap \<noteq> {}" using demo_swap_free by blast
  then obtain i sw where out: "vm_swap_out (replicate 4096 7) demo_swap = Some (i, sw)" "i \<noteq> SWAP_ERROR"
    using vm_swap_out_slot[OF demo_swap_wf, of "replicate 4096 7"] by auto
  let ?s = "demo_vm\<lparr>vm_swap := sw\<rparr>" and ?spe = "demo_swap_spe\<lparr>swap_slot_idx := i\<rparr>"
  have u: "user_vaddr ?spe = 0x8048000" "spe_type ?spe = SPE_SWAP" "swap_writable ?spe" "swap_slot_idx ?spe = i"
    by (simp_all add: demo_swap_spe_def spe_probe_def)
  have "pg_ofs 0x8048000 = 0" "unat (pg_ofs 0x8048fff) = 4095" by (simp_all add: pg_ofs_eq_0_iff unat_pg_ofs)
  then show ?thesis
    using load_page_returns_page_swapped_out[of ?s ?spe demo_swap "replicate 4096 7" True] u out demo_swap_wf demo_vm_ok demo_vm_spt(1)
      demo_vm_mapped(1) demo_pages
    by auto
qed

text \<open>The same with no free frame, and one frame in the table whose entry is where \<open>malloc\<close> put it: loading a
  page cannot go on.\<close>

definition full_vm :: vm where
  "full_vm = demo_vm\<lparr>vm_mmu := demo_mmu\<lparr>mem := (mem demo_mmu)\<lparr>user_pool := (user_pool (mem demo_mmu))\<lparr>used_map := \<lparr>bit_cnt = 4, bits = [15]\<rparr>\<rparr>\<rparr>\<rparr>,
     frame_table := [\<lparr>fte_addr = 0xc0102010, frame_ptr = 0xc0202000, page_ptr = 0, owner_thread_tid = 3\<rparr>]\<rparr>"



text \<open>The limit of the stack is tested on a signed difference, so it lets through an address of the first
  gigabyte: the top of the stack is more than 2 GB away, which reads as a negative distance.\<close>

lemma stack_limit_signed:
  "sint (PHYS_BASE - pg_round_down 0x1000) \<le> sint STACK_SIZE" "unat (PHYS_BASE - pg_round_down 0x1000) > unat STACK_SIZE"
proof -
  have "pg_round_down 0x1000 = 0x1000" by code_simp
  then show "sint (PHYS_BASE - pg_round_down 0x1000) \<le> sint STACK_SIZE" "unat (PHYS_BASE - pg_round_down 0x1000) > unat STACK_SIZE"
    by (simp_all add: PHYS_BASE_def STACK_SIZE_def)
qed

end
