(* ===== verification/Spec2Isabelle.thy ===== *)
theory Spec2Isabelle
  imports Swap Klist_Sort Hash_Table Pagedir Cstring Volume_Spec Kernel_Safety Vm_Fault
begin

text \<open>
  A verification development of the Pintos kernel under src/pintos/src (project 3: virtual memory).

  \<^bold>\<open>The program.\<close> At the bottom are a library of lists, bitmaps, hash tables and strings (lib) and the
  allocators that use bitmaps: pages of memory (threads/palloc.c), slots of the swap device (vm/swap.c) and
  sectors of the file system (filesys/free-map.c). Threads are scheduled round robin and synchronise with
  semaphores, locks and condition variables (threads/thread.c, threads/synch.c), and interrupts switch them
  (threads/interrupt.c, devices/timer.c). The file system stores inodes, directories and the free map on a
  block device (filesys, devices/block.c). A user process has a page directory (userprog/pagedir.c) and a
  supplemental page table (vm/page.c) that says where its pages come from; a page fault
  (userprog/exception.c) takes a frame (vm/frame.c) and fills it from a file or from swap.

  \<^bold>\<open>How the model reads.\<close> Each C function is a HOL function of the same name. A function that may stop the
  kernel returns an \<open>option\<close>, in which \<open>None\<close> is a failed \<^verbatim>\<open>ASSERT\<close>, a panic, or an operation without a
  defined result; error values of the C code are ordinary values. Machine integers are words of 32 bits or
  8 bits, file offsets and \<^verbatim>\<open>int\<close> are \<open>int\<close> with the conversions written out (theory \<open>Prelude\<close>). State is a
  record that is passed and returned. A loop that could run for ever is a \<open>partial_function (option)\<close>, in
  which not returning is \<open>None\<close>, and it is proved to return; there is no fuel. Loops that count are
  \<open>for_u32\<close> and the like of the theory \<open>Prelude\<close>. Whether a call of \<^verbatim>\<open>malloc\<close> succeeds is an argument or
  a list in the state.

  \<^bold>\<open>Theories.\<close>
  \<^item> \<open>Prelude\<close>, \<open>Memory\<close>: words, \<^verbatim>\<open>ASSERT\<close>, counting loops, buffers; byte-addressed memory.
  \<^item> \<open>Vaddr\<close>: threads/vaddr.h and threads/pte.h.
  \<^item> \<open>Bitmap\<close>: lib/kernel/bitmap.c on arrays of words, refined to lists of booleans.
  \<^item> \<open>Run_Allocator\<close>: the locales \<open>shared_allocator\<close> and \<open>run_allocator\<close>, the contract of everything that
    hands out runs of units from bitmaps, with the lemmas on sequences of allocations and releases. They are
    interpreted by the bitmaps (\<open>bitmap_alloc\<close>), the page allocator with its two pools (\<open>palloc_alloc\<close>) and
    the free map (\<open>fm\<close>).
  \<^item> \<open>Palloc\<close>: threads/palloc.c; the pools after initialisation, allocation, and that groups never overlap.
  \<^item> \<open>Block\<close>: devices/block.c, with the locale \<open>sector_store\<close> interpreted by the block device (\<open>blk\<close>).
  \<^item> \<open>Swap\<close>: vm/swap.c; a page comes back as it was swapped out.
  \<^item> \<open>Klist\<close>, \<open>Klist_Sort\<close>: lib/kernel/list.c on \<^verbatim>\<open>prev\<close> and \<^verbatim>\<open>next\<close> pointers; every function is related to
    lists of elements, the merge sort is proved stable and every loop is proved to end.
  \<^item> \<open>Hash_Table\<close>: lib/kernel/hash.c, with the locale \<open>hash_keys\<close> for the client's hash and order; a table
    is a finite map. It is interpreted by the supplemental page table (\<open>spt\<close>, theory \<open>Vm\<close>).
  \<^item> \<open>Cstring\<close>: lib/string.c on memory.
  \<^item> \<open>Pagedir\<close>: userprog/pagedir.c on page tables that lie in memory; mapping, unmapping, dirty bits.
  \<^item> \<open>Inode_Io\<close>, \<open>Free_Map\<close>, \<open>Inode\<close>, \<open>File\<close>, \<open>Directory\<close>, \<open>Filesys\<close>: filesys/inode.c, free-map.c, file.c,
    directory.c and filesys.c over the device, the open inodes, the open files and the free map.
  \<^item> \<open>Volume\<close>, \<open>Volume_Spec\<close>: the invariant of a volume, and the simulation of a map from names to byte
    strings by sequences of file system calls.
  \<^item> \<open>Thread\<close>, \<open>Synch\<close>: thread.c, synch.c, interrupt.c and timer.c as steps of the kernel. A thread that may
    sleep inside a function has the rest of its work in the list \<open>todo\<close> of its stack, so that the places at
    which threads can be switched are those of the C code.
  \<^item> \<open>Scheduler\<close>, \<open>Kernel_Steps\<close>, \<open>Kernel_Safety\<close>: the invariant of all reachable states of the kernel, with
    mutual exclusion of locks, no lost wake-ups and round robin scheduling.
  \<^item> \<open>Vm\<close>: vm/frame.c, vm/page.c and the page fault handler. \<open>Vm_Frames\<close>, \<open>Vm_Load\<close>: taking and filling
    frames changes what a process sees only at the page that is loaded. \<open>Vm_Fault\<close>: loading pages from files
    and from swap, growing the stack, and the two defects of the handler and of eviction.

  \<^bold>\<open>Bounds and assumptions.\<close> Theorems on the free map and on creating inodes assume that the allocations of
  memory in the calls succeed where they say so; the lemma \<open>free_map_release_unsaved\<close> shows what happens
  otherwise. The frame table, the file system and the swap table are used under their locks, so that each of
  their functions is one step. Reading and writing a sector is what the IDE driver promises.

  \<^bold>\<open>What is not modelled.\<close> Starting the kernel, loading and waiting for processes (userprog/process.c) and the
  dispatch of system calls (userprog/syscall.c), \<^verbatim>\<open>malloc\<close> itself, formatted output, drivers and other port
  input and output, 64-bit division, random numbers, user programs and tests.
\<close>

end
